(* ===== verification/Jos_Prelude.thy ===== *)
theory Jos_Prelude
  imports Main "HOL-Library.Word"
begin

text \<open>
  Shared vocabulary of the development: the machine integer types, the byte-addressed memory
  with its little-endian 32-bit accesses, the monad of kernel code (a state, a panic, a control
  transfer that does not return), loops over index ranges, and singly linked lists threaded
  through an array (the shape of both kernel free lists).
\<close>

unbundle bit_operations_syntax

type_synonym u8 = "8 word"
type_synonym u16 = "16 word"
type_synonym u32 = "32 word"
type_synonym u64 = "64 word"

named_theorems kmonad "unfolding rules of the kernel monad"
named_theorems mem_simps "reads of byte-addressed memory after writes"
named_theorems layout_defs "constants of the memory layout"

section \<open>Kernel computations\<close>

text \<open>
  Code that runs in the kernel returns to its caller, stops in \<^verbatim>\<open>panic\<close> (which never returns),
  or leaves the kernel by a function marked noreturn: \<^verbatim>\<open>env_run\<close> resumes an environment,
  \<^verbatim>\<open>sched_halt\<close> halts the processor, a system with nothing to run stays in the monitor, and a
  processor that asks for a lock another one holds spins. A user program that the kernel does not resume waits.
\<close>

datatype exit = Resumes nat | Halts | Monitors | Spins | Waits

datatype ('s, 'a) outcome = Returns 'a 's | Panics string | Leaves exit 's

type_synonym ('s, 'a) kernel = "'s \<Rightarrow> ('s, 'a) outcome"

definition kret :: "'a \<Rightarrow> ('s, 'a) kernel" where
  "kret x = (\<lambda>s. Returns x s)"

definition kbind :: "('s, 'a) kernel \<Rightarrow> ('a \<Rightarrow> ('s, 'b) kernel) \<Rightarrow> ('s, 'b) kernel" where
  "kbind m f = (\<lambda>s. case m s of Returns x t \<Rightarrow> f x t | Panics e \<Rightarrow> Panics e | Leaves x t \<Rightarrow> Leaves x t)"

definition kseq :: "('s, 'a) kernel \<Rightarrow> ('s, 'b) kernel \<Rightarrow> ('s, 'b) kernel" where
  "kseq m n = kbind m (\<lambda>_. n)"

definition kpanic :: "string \<Rightarrow> ('s, 'a) kernel" where
  "kpanic e = (\<lambda>s. Panics e)"

definition kleave :: "exit \<Rightarrow> ('s, 'a) kernel" where
  "kleave x = (\<lambda>s. Leaves x s)"

definition kget :: "('s \<Rightarrow> 'a) \<Rightarrow> ('s, 'a) kernel" where
  "kget f = (\<lambda>s. Returns (f s) s)"

definition kmodify :: "('s \<Rightarrow> 's) \<Rightarrow> ('s, unit) kernel" where
  "kmodify f = (\<lambda>s. Returns () (f s))"

definition kwhen :: "bool \<Rightarrow> ('s, unit) kernel \<Rightarrow> ('s, unit) kernel" where
  "kwhen b m = (if b then m else kret ())"

text \<open>\<^verbatim>\<open>assert(x)\<close> of \<^verbatim>\<open>inc/assert.h\<close>: a failed test panics.\<close>

definition kassert :: "string \<Rightarrow> bool \<Rightarrow> ('s, unit) kernel" where
  "kassert e b = (if b then kret () else kpanic (''assertion failed: '' @ e))"

text \<open>A counting loop runs its body for each index of a list, in order.\<close>

primrec kfor :: "'i list \<Rightarrow> ('i \<Rightarrow> ('s, unit) kernel) \<Rightarrow> ('s, unit) kernel" where
  "kfor [] body = kret ()"
| "kfor (i # is) body = kseq (body i) (kfor is body)"

text \<open>A block of statements, run one after the other.\<close>

primrec kseqs :: "('s, unit) kernel list \<Rightarrow> ('s, unit) kernel" where
  "kseqs [] = kret ()"
| "kseqs (m # ms) = kseq m (kseqs ms)"

text \<open>A computation that never returns to its caller.\<close>

definition noreturn :: "('s, 'a) kernel \<Rightarrow> bool" where
  "noreturn m \<longleftrightarrow> (\<forall>s x t. m s \<noteq> Returns x t)"

lemma kret_apply [kmonad, simp]: "kret x s = Returns x s"
  by (simp add: kret_def)

lemma kpanic_apply [kmonad, simp]: "kpanic e s = Panics e"
  by (simp add: kpanic_def)

lemma kleave_apply [kmonad, simp]: "kleave x s = Leaves x s"
  by (simp add: kleave_def)

lemma kget_apply [kmonad, simp]: "kget f s = Returns (f s) s"
  by (simp add: kget_def)

lemma kmodify_apply [kmonad, simp]: "kmodify f s = Returns () (f s)"
  by (simp add: kmodify_def)

lemma kassert_apply [kmonad, simp]:
  "kassert e b s = (if b then Returns () s else Panics (''assertion failed: '' @ e))"
  by (simp add: kassert_def)

lemma kwhen_apply [kmonad, simp]: "kwhen b m s = (if b then m s else Returns () s)"
  by (simp add: kwhen_def)

lemma kbind_apply [kmonad]:
  "kbind m f s = (case m s of Returns x t \<Rightarrow> f x t | Panics e \<Rightarrow> Panics e | Leaves x t \<Rightarrow> Leaves x t)"
  by (simp add: kbind_def)

lemma kseq_apply [kmonad]:
  "kseq m n s = (case m s of Returns _ t \<Rightarrow> n t | Panics e \<Rightarrow> Panics e | Leaves x t \<Rightarrow> Leaves x t)"
  by (simp add: kseq_def kbind_def)

lemma kbind_Returns [simp]: "m s = Returns x t \<Longrightarrow> kbind m f s = f x t"
  by (simp add: kbind_def)

lemma kbind_Panics [simp]: "m s = Panics e \<Longrightarrow> kbind m f s = Panics e"
  by (simp add: kbind_def)

lemma kbind_Leaves [simp]: "m s = Leaves x t \<Longrightarrow> kbind m f s = Leaves x t"
  by (simp add: kbind_def)

lemma kseq_Returns [simp]: "m s = Returns x t \<Longrightarrow> kseq m n s = n t"
  by (simp add: kseq_def)

lemma kseq_Panics [simp]: "m s = Panics e \<Longrightarrow> kseq m n s = Panics e"
  by (simp add: kseq_def)

lemma kseq_Leaves [simp]: "m s = Leaves x t \<Longrightarrow> kseq m n s = Leaves x t"
  by (simp add: kseq_def)

lemma kfor_append: "kfor (xs @ ys) body s = kseq (kfor xs body) (kfor ys body) s"
  by (induction xs arbitrary: s) (auto simp: kseq_apply split: outcome.splits)

lemma kseqs_append: "kseqs (ms @ ns) s = kseq (kseqs ms) (kseqs ns) s"
  by (induction ms arbitrary: s) (auto simp: kseq_apply split: outcome.splits)

lemma noreturn_kseq: "noreturn m \<or> noreturn n \<Longrightarrow> noreturn (kseq m n)"
  by (auto simp: noreturn_def kseq_apply split: outcome.splits)

lemma noreturn_kbind: "(\<And>x. noreturn (f x)) \<Longrightarrow> noreturn (kbind m f)"
  by (auto simp: noreturn_def kbind_apply split: outcome.splits)

lemma noreturn_kleave: "noreturn (kleave x)" "noreturn (kpanic e)"
  by (simp_all add: noreturn_def)

lemma noreturn_kseqs: "m \<in> set ms \<Longrightarrow> noreturn m \<Longrightarrow> noreturn (kseqs ms)"
  by (induction ms) (auto intro: noreturn_kseq)

text \<open>The invariant rule of counting loops: a body that always returns gives a loop that does.\<close>

lemma kfor_rule:
  assumes "I [] s"
    and "\<And>is i t. is @ [i] = take (Suc (length is)) xs \<Longrightarrow> I is t \<Longrightarrow>
      \<exists>u. body i t = Returns () u \<and> I (is @ [i]) u"
  shows "\<exists>t. kfor xs body s = Returns () t \<and> I xs t"
  using assms
proof (induction xs rule: rev_induct)
  case Nil
  then show ?case by simp
next
  case (snoc x xs)
  have "\<exists>t. kfor xs body s = Returns () t \<and> I xs t"
  proof (rule snoc.IH[OF snoc.prems(1)])
    fix "is" i t
    assume a: "is @ [i] = take (Suc (length is)) xs" and i: "I is t"
    then have "Suc (length is) \<le> length xs"
      by (metis length_append_singleton length_take min.bounded_iff order_refl)
    with a have "is @ [i] = take (Suc (length is)) (xs @ [x])" by simp
    with i show "\<exists>u. body i t = Returns () u \<and> I (is @ [i]) u" by (rule snoc.prems(2)[rotated])
  qed
  then obtain t where t: "kfor xs body s = Returns () t" "I xs t" by blast
  moreover obtain u where "body x t = Returns () u" "I (xs @ [x]) u"
    using snoc.prems(2)[of xs x t] t(2) by auto
  ultimately show ?case by (simp add: kfor_append)
qed

section \<open>Linked lists\<close>

text \<open>
  \<open>linked next p xs\<close>: following \<open>next\<close> from the pointer \<open>p\<close> visits the indices \<open>xs\<close> and ends.
\<close>

primrec linked :: "(nat \<Rightarrow> nat option) \<Rightarrow> nat option \<Rightarrow> nat list \<Rightarrow> bool" where
  "linked nxt p [] \<longleftrightarrow> p = None"
| "linked nxt p (x # xs) \<longleftrightarrow> p = Some x \<and> linked nxt (nxt x) xs"

lemma linked_upd [simp]: "x \<notin> set xs \<Longrightarrow> linked (nxt(x := v)) p xs \<longleftrightarrow> linked nxt p xs"
  by (induction xs arbitrary: p) auto

lemma linked_cong: "(\<And>x. x \<in> set xs \<Longrightarrow> nxt x = nxt' x) \<Longrightarrow> linked nxt p xs \<longleftrightarrow> linked nxt' p xs"
  by (induction xs arbitrary: p) auto

lemma linked_unique: "linked nxt p xs \<Longrightarrow> linked nxt p ys \<Longrightarrow> xs = ys"
proof (induction xs arbitrary: p ys)
  case Nil
  then show ?case by (cases ys) auto
next
  case (Cons x xs)
  then show ?case by (cases ys) auto
qed

section \<open>Byte-addressed memory\<close>

text \<open>
  Memory maps a 32-bit address to a byte; addresses wrap around at \<open>2\<^sup>32\<close> as the
  processor's do. \<open>in_range a n x\<close> says that \<open>x\<close> is one of the \<open>n\<close> bytes from \<open>a\<close>.
\<close>

type_synonym mem = "u32 \<Rightarrow> u8"

definition in_range :: "u32 \<Rightarrow> nat \<Rightarrow> u32 \<Rightarrow> bool" where
  "in_range a n x \<longleftrightarrow> unat (x - a) < n"

definition put_bytes :: "mem \<Rightarrow> u32 \<Rightarrow> u8 list \<Rightarrow> mem" where
  "put_bytes m a bs = (\<lambda>x. if in_range a (length bs) x then bs ! unat (x - a) else m x)"

definition read16 :: "mem \<Rightarrow> u32 \<Rightarrow> u16" where
  "read16 m a = ucast (m a) OR push_bit 8 (ucast (m (a + 1)))"

definition read32 :: "mem \<Rightarrow> u32 \<Rightarrow> u32" where
  "read32 m a = ucast (m a) OR push_bit 8 (ucast (m (a + 1)))
     OR push_bit 16 (ucast (m (a + 2))) OR push_bit 24 (ucast (m (a + 3)))"

definition write32 :: "mem \<Rightarrow> u32 \<Rightarrow> u32 \<Rightarrow> mem" where
  "write32 m a v = m(a := ucast v, a + 1 := ucast (drop_bit 8 v),
     a + 2 := ucast (drop_bit 16 v), a + 3 := ucast (drop_bit 24 v))"

text \<open>The effect of filling and of copying a range, stated pointwise.\<close>

definition fill :: "mem \<Rightarrow> u32 \<Rightarrow> u8 \<Rightarrow> nat \<Rightarrow> mem" where
  "fill m a c n = (\<lambda>x. if in_range a n x then c else m x)"

definition copy :: "mem \<Rightarrow> u32 \<Rightarrow> u32 \<Rightarrow> nat \<Rightarrow> mem" where
  "copy m dst src n = (\<lambda>x. if in_range dst n x then m (src + (x - dst)) else m x)"

definition aligned4 :: "u32 \<Rightarrow> bool" where
  "aligned4 a \<longleftrightarrow> a AND 3 = 0"

lemma bytes_of_word:
  "(ucast (ucast (v :: u32) :: u8) OR push_bit 8 (ucast (ucast (drop_bit 8 v) :: u8))
     OR push_bit 16 (ucast (ucast (drop_bit 16 v) :: u8))
     OR push_bit 24 (ucast (ucast (drop_bit 24 v) :: u8)) :: u32) = v"
proof (rule bit_word_eqI)
  fix n
  assume "n < LENGTH(32)"
  then have n: "n < 8 \<or> (8 \<le> n \<and> n < 16) \<or> (16 \<le> n \<and> n < 24) \<or> (24 \<le> n \<and> n < 32)" by auto
  then show "bit (ucast (ucast v :: u8) OR push_bit 8 (ucast (ucast (drop_bit 8 v) :: u8))
     OR push_bit 16 (ucast (ucast (drop_bit 16 v) :: u8))
     OR push_bit 24 (ucast (ucast (drop_bit 24 v) :: u8)) :: u32) n \<longleftrightarrow> bit v n"
    by (elim disjE) (auto simp: bit_simps)
qed

lemma read32_write32_same [simp, mem_simps]: "read32 (write32 m a v) a = v"
  by (simp add: read32_def write32_def bytes_of_word)

lemma unat_u32_less [simp]: "unat (a :: u32) < 4294967296"
  using unsigned_less[of a] by simp

lemma unat_of_nat_u32: "k < 2 ^ 32 \<Longrightarrow> unat (of_nat k :: u32) = k"
  by (simp add: unat_of_nat)

lemma unat_dec_less: "(x :: u32) \<noteq> 0 \<Longrightarrow> unat (x - 1) < unat x"
  using unat_gt_0[of x] by (simp add: unat_minus_one)

lemma unat_inc: "(x :: u32) < y \<Longrightarrow> unat (x + 1) = Suc (unat x)"
proof -
  assume "x < y"
  then have "unat x < unat y" by (simp add: word_less_nat_alt)
  then have "unat x + 1 < 4294967296" using unat_u32_less[of y] by linarith
  then show ?thesis by (simp add: unat_word_ariths)
qed

lemma unat_and_mask: "unat (a AND mask n :: u32) = unat a mod 2 ^ n"
proof -
  have "a AND mask n = take_bit n a" by (rule take_bit_eq_mask[symmetric])
  then have "unat (a AND mask n) = take_bit n (unat a)" by (simp only: unsigned_take_bit_eq)
  then show ?thesis by (simp only: take_bit_eq_mod)
qed

lemma unat_div4096: "unat (drop_bit 12 (a :: u32)) = unat a div 4096"
  by (simp add: unat_drop_bit_eq drop_bit_eq_div unat_div)

lemma aligned4_unat: "aligned4 a \<longleftrightarrow> unat a mod 4 = 0"
proof -
  have "a AND 3 = a AND mask 2" by (simp add: mask_eq_exp_minus_1)
  then have "unat (a AND 3) = unat a mod 4" using unat_and_mask[of a 2] by simp
  then show ?thesis by (metis aligned4_def unat_0 unat_eq_zero)
qed

lemma unat_add_small:
  assumes "aligned4 a" "k < 4"
  shows "unat (a + k) = unat a + unat k"
proof -
  have "unat a mod 4 = 0" using assms(1) by (simp add: aligned4_unat)
  moreover have "unat k < 4" using assms(2) by (simp add: word_less_nat_alt)
  ultimately have "unat a + unat k < 4294967296" using unat_u32_less[of a] by presburger
  then show ?thesis by (simp add: unat_word_ariths)
qed

lemma aligned4_add_neq:
  assumes "aligned4 a" "aligned4 b" "a \<noteq> b" "k < 4" "l < 4"
  shows "a + k \<noteq> b + l"
proof
  assume "a + k = b + l"
  then have "unat a + unat k = unat b + unat l"
    using unat_add_small[OF assms(1,4)] unat_add_small[OF assms(2,5)] by simp
  moreover have "unat k < 4" "unat l < 4" using assms(4,5) by (simp_all add: word_less_nat_alt)
  moreover have "unat a mod 4 = 0" "unat b mod 4 = 0" using assms(1,2) by (simp_all add: aligned4_unat)
  ultimately have "unat a = unat b" by presburger
  then show False using assms(3) by (simp add: word_unat_eq_iff)
qed

lemma read32_write32_other [mem_simps]:
  assumes "aligned4 a" "aligned4 b" "a \<noteq> b"
  shows "read32 (write32 m a v) b = read32 m b"
  using aligned4_add_neq[OF assms, of 0 0] aligned4_add_neq[OF assms, of 0 1]
    aligned4_add_neq[OF assms, of 0 2] aligned4_add_neq[OF assms, of 0 3]
    aligned4_add_neq[OF assms, of 1 0] aligned4_add_neq[OF assms, of 1 1]
    aligned4_add_neq[OF assms, of 1 2] aligned4_add_neq[OF assms, of 1 3]
    aligned4_add_neq[OF assms, of 2 0] aligned4_add_neq[OF assms, of 2 1]
    aligned4_add_neq[OF assms, of 2 2] aligned4_add_neq[OF assms, of 2 3]
    aligned4_add_neq[OF assms, of 3 0] aligned4_add_neq[OF assms, of 3 1]
    aligned4_add_neq[OF assms, of 3 2] aligned4_add_neq[OF assms, of 3 3]
  by (simp add: read32_def write32_def eq_commute)

lemma not_in_range_below:
  assumes "unat x < unat e" "unat e + n \<le> 2 ^ 32"
  shows "\<not> in_range e n x"
proof
  assume "in_range e n x"
  then have "unat (x - e) < n" by (simp add: in_range_def)
  then have "unat (e + (x - e)) = unat e + unat (x - e)"
    using assms(2) by (simp only: unat_word_ariths) simp
  then show False using assms(1) by simp
qed

end
