(* ===== verification/Mmu.thy ===== *)
theory Mmu
  imports Jos_Prelude
begin

text \<open>
  The address arithmetic and the tables the processor reads: \<^verbatim>\<open>inc/types.h\<close>
  (rounding), \<^verbatim>\<open>inc/mmu.h\<close> (linear addresses, page-table entries, segment and gate descriptors),
  \<^verbatim>\<open>inc/memlayout.h\<close> (the layout of the address space) and \<^verbatim>\<open>kern/entrypgdir.c\<close> (the page tables
  the kernel boots on). The lemmas give the decomposition of linear addresses and its inverse,
  what rounding computes including its wrap-around, and the field layout of descriptors.
\<close>

section \<open>Rounding, from inc/types.h\<close>

definition MIN_macro :: "u32 \<Rightarrow> u32 \<Rightarrow> u32" where
  "MIN_macro a b = (if a \<le> b then a else b)"

definition MAX_macro :: "u32 \<Rightarrow> u32 \<Rightarrow> u32" where
  "MAX_macro a b = (if a \<ge> b then a else b)"

definition ROUNDDOWN :: "u32 \<Rightarrow> u32 \<Rightarrow> u32" where
  "ROUNDDOWN a n = a - a mod n"

definition ROUNDUP :: "u32 \<Rightarrow> u32 \<Rightarrow> u32" where
  "ROUNDUP a n = ROUNDDOWN (a + n - 1) n"

section \<open>Paging, from inc/mmu.h\<close>

definition PTXSHIFT :: nat where [simp, layout_defs]: "PTXSHIFT = 12"
definition PDXSHIFT :: nat where [simp, layout_defs]: "PDXSHIFT = 22"
definition PGSHIFT :: nat where [simp, layout_defs]: "PGSHIFT = 12"
definition PTSHIFT :: nat where [simp, layout_defs]: "PTSHIFT = 22"

definition PGNUM :: "u32 \<Rightarrow> u32" where
  "PGNUM la = drop_bit PTXSHIFT la"

definition PDX :: "u32 \<Rightarrow> u32" where
  "PDX la = drop_bit PDXSHIFT la AND 0x3FF"

definition PTX :: "u32 \<Rightarrow> u32" where
  "PTX la = drop_bit PTXSHIFT la AND 0x3FF"

definition PGOFF :: "u32 \<Rightarrow> u32" where
  "PGOFF la = la AND 0xFFF"

definition PGADDR :: "u32 \<Rightarrow> u32 \<Rightarrow> u32 \<Rightarrow> u32" where
  "PGADDR d t off = push_bit PDXSHIFT d OR push_bit PTXSHIFT t OR off"

definition NPDENTRIES :: nat where [simp, layout_defs]: "NPDENTRIES = 1024"
definition NPTENTRIES :: nat where [simp, layout_defs]: "NPTENTRIES = 1024"
definition PGSIZE :: u32 where [simp, layout_defs]: "PGSIZE = 4096"
definition PTSIZE :: u32 where [simp, layout_defs]: "PTSIZE = PGSIZE * 1024"

definition PTE_P :: u32 where [simp, layout_defs]: "PTE_P = 0x001"
definition PTE_W :: u32 where [simp, layout_defs]: "PTE_W = 0x002"
definition PTE_U :: u32 where [simp, layout_defs]: "PTE_U = 0x004"
definition PTE_PWT :: u32 where [simp, layout_defs]: "PTE_PWT = 0x008"
definition PTE_PCD :: u32 where [simp, layout_defs]: "PTE_PCD = 0x010"
definition PTE_A :: u32 where [simp, layout_defs]: "PTE_A = 0x020"
definition PTE_D :: u32 where [simp, layout_defs]: "PTE_D = 0x040"
definition PTE_PS :: u32 where [simp, layout_defs]: "PTE_PS = 0x080"
definition PTE_G :: u32 where [simp, layout_defs]: "PTE_G = 0x100"
definition PTE_AVAIL :: u32 where [simp, layout_defs]: "PTE_AVAIL = 0xE00"
definition PTE_SYSCALL :: u32 where
  [simp, layout_defs]: "PTE_SYSCALL = PTE_AVAIL OR PTE_P OR PTE_W OR PTE_U"

definition PTE_ADDR :: "u32 \<Rightarrow> u32" where
  "PTE_ADDR pte = pte AND NOT 0xFFF"

section \<open>The address space, from inc/memlayout.h\<close>

definition GD_KT :: u16 where [simp, layout_defs]: "GD_KT = 0x08"
definition GD_KD :: u16 where [simp, layout_defs]: "GD_KD = 0x10"
definition GD_UT :: u16 where [simp, layout_defs]: "GD_UT = 0x18"
definition GD_UD :: u16 where [simp, layout_defs]: "GD_UD = 0x20"
definition GD_TSS0 :: u16 where [simp, layout_defs]: "GD_TSS0 = 0x28"

definition KERNBASE :: u32 where [simp, layout_defs]: "KERNBASE = 0xF0000000"
definition IOPHYSMEM :: u32 where [simp, layout_defs]: "IOPHYSMEM = 0x0A0000"
definition EXTPHYSMEM :: u32 where [simp, layout_defs]: "EXTPHYSMEM = 0x100000"
definition KSTACKTOP :: u32 where [simp, layout_defs]: "KSTACKTOP = KERNBASE"
definition KSTKSIZE :: u32 where [simp, layout_defs]: "KSTKSIZE = 8 * PGSIZE"
definition KSTKGAP :: u32 where [simp, layout_defs]: "KSTKGAP = 8 * PGSIZE"
definition MMIOLIM :: u32 where [simp, layout_defs]: "MMIOLIM = KSTACKTOP - PTSIZE"
definition MMIOBASE :: u32 where [simp, layout_defs]: "MMIOBASE = MMIOLIM - PTSIZE"
definition ULIM :: u32 where [simp, layout_defs]: "ULIM = MMIOBASE"
definition UVPT :: u32 where [simp, layout_defs]: "UVPT = ULIM - PTSIZE"
definition UPAGES :: u32 where [simp, layout_defs]: "UPAGES = UVPT - PTSIZE"
definition UENVS :: u32 where [simp, layout_defs]: "UENVS = UPAGES - PTSIZE"
definition UTOP :: u32 where [simp, layout_defs]: "UTOP = UENVS"
definition UXSTACKTOP :: u32 where [simp, layout_defs]: "UXSTACKTOP = UTOP"
definition USTACKTOP :: u32 where [simp, layout_defs]: "USTACKTOP = UTOP - 2 * PGSIZE"
definition UTEXT :: u32 where [simp, layout_defs]: "UTEXT = 2 * PTSIZE"
definition UTEMP :: u32 where [simp, layout_defs]: "UTEMP = PTSIZE"
definition PFTEMP :: u32 where [simp, layout_defs]: "PFTEMP = UTEMP + PTSIZE - PGSIZE"
definition USTABDATA :: u32 where [simp, layout_defs]: "USTABDATA = PTSIZE div 2"
definition MPENTRY_PADDR :: u32 where [simp, layout_defs]: "MPENTRY_PADDR = 0x7000"

section \<open>Descriptors, from inc/mmu.h\<close>

record Segdesc =
  sd_lim_15_0 :: "16 word"
  sd_base_15_0 :: "16 word"
  sd_base_23_16 :: "8 word"
  sd_type :: "4 word"
  sd_s :: "1 word"
  sd_dpl :: "2 word"
  sd_p :: "1 word"
  sd_lim_19_16 :: "4 word"
  sd_avl :: "1 word"
  sd_rsv1 :: "1 word"
  sd_db :: "1 word"
  sd_g :: "1 word"
  sd_base_31_24 :: "8 word"

text \<open>Storing an integer in a bit field keeps its low bits, as \<open>ucast\<close> does.\<close>

definition SEG_NULL :: Segdesc where
  "SEG_NULL = \<lparr>sd_lim_15_0 = 0, sd_base_15_0 = 0, sd_base_23_16 = 0, sd_type = 0, sd_s = 0,
     sd_dpl = 0, sd_p = 0, sd_lim_19_16 = 0, sd_avl = 0, sd_rsv1 = 0, sd_db = 0, sd_g = 0,
     sd_base_31_24 = 0\<rparr>"

definition SEG :: "u32 \<Rightarrow> u32 \<Rightarrow> u32 \<Rightarrow> u32 \<Rightarrow> Segdesc" where
  "SEG ty base lim dpl = \<lparr>sd_lim_15_0 = ucast (drop_bit 12 lim AND 0xffff),
     sd_base_15_0 = ucast (base AND 0xffff), sd_base_23_16 = ucast (drop_bit 16 base AND 0xff),
     sd_type = ucast ty, sd_s = 1, sd_dpl = ucast dpl, sd_p = 1,
     sd_lim_19_16 = ucast (drop_bit 28 lim), sd_avl = 0, sd_rsv1 = 0, sd_db = 1, sd_g = 1,
     sd_base_31_24 = ucast (drop_bit 24 base)\<rparr>"

definition SEG16 :: "u32 \<Rightarrow> u32 \<Rightarrow> u32 \<Rightarrow> u32 \<Rightarrow> Segdesc" where
  "SEG16 ty base lim dpl = \<lparr>sd_lim_15_0 = ucast (lim AND 0xffff),
     sd_base_15_0 = ucast (base AND 0xffff), sd_base_23_16 = ucast (drop_bit 16 base AND 0xff),
     sd_type = ucast ty, sd_s = 1, sd_dpl = ucast dpl, sd_p = 1,
     sd_lim_19_16 = ucast (drop_bit 16 lim), sd_avl = 0, sd_rsv1 = 0, sd_db = 1, sd_g = 0,
     sd_base_31_24 = ucast (drop_bit 24 base)\<rparr>"

definition STA_X :: u32 where [simp, layout_defs]: "STA_X = 0x8"
definition STA_W :: u32 where [simp, layout_defs]: "STA_W = 0x2"
definition STA_R :: u32 where [simp, layout_defs]: "STA_R = 0x2"
definition STS_T32A :: u32 where [simp, layout_defs]: "STS_T32A = 0x9"
definition STS_IG32 :: "4 word" where [simp, layout_defs]: "STS_IG32 = 0xE"
definition STS_TG32 :: "4 word" where [simp, layout_defs]: "STS_TG32 = 0xF"

record Gatedesc =
  gd_off_15_0 :: "16 word"
  gd_sel :: "16 word"
  gd_args :: "5 word"
  gd_rsv1 :: "3 word"
  gd_type :: "4 word"
  gd_s :: "1 word"
  gd_dpl :: "2 word"
  gd_p :: "1 word"
  gd_off_31_16 :: "16 word"

definition SETGATE :: "bool \<Rightarrow> u16 \<Rightarrow> u32 \<Rightarrow> 2 word \<Rightarrow> Gatedesc" where
  "SETGATE istrap sel off dpl = \<lparr>gd_off_15_0 = ucast (off AND 0xffff), gd_sel = sel,
     gd_args = 0, gd_rsv1 = 0, gd_type = (if istrap then STS_TG32 else STS_IG32), gd_s = 0,
     gd_dpl = dpl, gd_p = 1, gd_off_31_16 = ucast (drop_bit 16 off)\<rparr>"

text \<open>The segment base, the segment limit and the gate offset as the processor reads them.\<close>

definition seg_base :: "Segdesc \<Rightarrow> u32" where
  "seg_base d = ucast (sd_base_15_0 d) OR push_bit 16 (ucast (sd_base_23_16 d))
     OR push_bit 24 (ucast (sd_base_31_24 d))"

definition seg_limit :: "Segdesc \<Rightarrow> u32" where
  "seg_limit d = (let lim = ucast (sd_lim_15_0 d) OR push_bit 16 (ucast (sd_lim_19_16 d))
     in if sd_g d = 1 then push_bit 12 lim OR 0xfff else lim)"

definition gate_offset :: "Gatedesc \<Rightarrow> u32" where
  "gate_offset g = ucast (gd_off_15_0 g) OR push_bit 16 (ucast (gd_off_31_16 g))"

section \<open>The boot page tables, from kern/entrypgdir.c\<close>

text \<open>\<open>pt\<close> is the address the linker gives \<open>entry_pgtable\<close>.\<close>

definition entry_pgdir :: "u32 \<Rightarrow> u32 list" where
  "entry_pgdir pt = (replicate NPDENTRIES 0)
     [0 := (pt - KERNBASE) + PTE_P,
      unat (drop_bit PDXSHIFT KERNBASE) := (pt - KERNBASE) + PTE_P + PTE_W]"

definition entry_pgtable :: "u32 list" where
  "entry_pgtable = map (\<lambda>i. of_nat i * 0x1000 OR PTE_P OR PTE_W) [0..<NPTENTRIES]"

text \<open>
  The two-level walk of the processor over a page directory whose entries all refer to one page
  table: the physical address of \<open>va\<close>, if both entries are present.
\<close>

definition entry_translate :: "u32 \<Rightarrow> u32 \<Rightarrow> u32 option" where
  "entry_translate pt va =
     (let pde = entry_pgdir pt ! unat (PDX va) in
      if pde AND PTE_P = 0 then None
      else if PTE_ADDR pde \<noteq> pt - KERNBASE then None
      else (let pte = entry_pgtable ! unat (PTX va) in
        if pte AND PTE_P = 0 then None else Some (PTE_ADDR pte OR PGOFF va)))"

section \<open>Decomposition of linear addresses\<close>

lemma mask_10: "(0x3FF :: u32) = mask 10" and mask_12: "(0xFFF :: u32) = mask 12"
  by (simp_all add: mask_eq_exp_minus_1)

lemma unat_PGNUM: "unat (PGNUM a) = unat a div 4096"
  unfolding PGNUM_def PTXSHIFT_def by (rule unat_div4096)

lemma unat_PGOFF: "unat (PGOFF a) = unat a mod 4096"
  unfolding PGOFF_def mask_12 by (subst unat_and_mask) simp

lemma unat_PTX: "unat (PTX a) = unat a div 4096 mod 1024"
  unfolding PTX_def PTXSHIFT_def mask_10 by (subst unat_and_mask) (simp add: unat_div4096)

lemma unat_PDX: "unat (PDX a) = unat a div 4194304"
proof -
  have "unat (PDX a) = unat (drop_bit 22 a) mod 1024"
    unfolding PDX_def PDXSHIFT_def mask_10 by (subst unat_and_mask) simp
  also have "unat (drop_bit 22 a) = unat a div 4194304"
    by (simp add: unat_drop_bit_eq drop_bit_eq_div unat_div)
  also have "unat a div 4194304 mod 1024 = unat a div 4194304"
    using unat_u32_less[of a] by (intro mod_less) (simp add: less_mult_imp_div_less)
  finally show ?thesis .
qed

lemma PDX_less [simp]: "unat (PDX a) < 1024"
  using unat_u32_less[of a] by (simp add: unat_PDX less_mult_imp_div_less)

lemma PTX_less [simp]: "unat (PTX a) < 1024"
  by (simp add: unat_PTX)

lemma bit_PDX: "bit (PDX a) n \<longleftrightarrow> bit a (n + 22)"
  unfolding PDX_def mask_10 by (auto simp: bit_simps ac_simps dest: bit_imp_le_length)

lemma bit_PTX: "bit (PTX a) n \<longleftrightarrow> n < 10 \<and> bit a (n + 12)"
  unfolding PTX_def mask_10 by (auto simp: bit_simps ac_simps)

lemma bit_PGOFF: "bit (PGOFF a) n \<longleftrightarrow> n < 12 \<and> bit a n"
  unfolding PGOFF_def mask_12 by (auto simp: bit_simps)

lemma bit_PTE_ADDR: "bit (PTE_ADDR a) n \<longleftrightarrow> 12 \<le> n \<and> bit a n"
  unfolding PTE_ADDR_def mask_12 by (auto simp: bit_simps dest: bit_imp_le_length)

lemma bit_PGADDR:
  "bit (PGADDR d t off) n \<longleftrightarrow> n < 32 \<and>
     ((22 \<le> n \<and> bit d (n - 22)) \<or> (12 \<le> n \<and> bit t (n - 12)) \<or> bit off n)"
  by (auto simp: PGADDR_def bit_simps dest: bit_imp_le_length)

lemma PGADDR_inverse: "PGADDR (PDX la) (PTX la) (PGOFF la) = la"
proof (rule bit_word_eqI)
  fix n
  assume "n < LENGTH(32)"
  then have "n < 12 \<or> (12 \<le> n \<and> n < 22) \<or> (22 \<le> n \<and> n < 32)" by auto
  then show "bit (PGADDR (PDX la) (PTX la) (PGOFF la)) n = bit la n"
    by (elim disjE) (auto simp: bit_PGADDR bit_PDX bit_PTX bit_PGOFF)
qed

lemma small_bit: "bit (w :: u32) n \<Longrightarrow> w < 2 ^ k \<Longrightarrow> k < 32 \<Longrightarrow> n < k"
proof (rule ccontr)
  assume b: "bit w n" and w: "w < 2 ^ k" and k: "k < 32" and "\<not> n < k"
  have "take_bit k w = w" using w k by (simp add: less_mask_eq take_bit_eq_mask)
  then have "bit (take_bit k w) n" using b by simp
  then show False using \<open>\<not> n < k\<close> by (simp add: bit_simps)
qed

lemma small_bits: 
  "(d :: u32) < 1024 \<Longrightarrow> bit d n \<Longrightarrow> n < 10"
  "(t :: u32) < 4096 \<Longrightarrow> bit t n \<Longrightarrow> n < 12"
  using small_bit[of d n 10] small_bit[of t n 12] by simp_all

lemma PGADDR_fields:
  assumes d: "d < 1024" and t: "t < 1024" and off: "off < 4096"
  shows "PDX (PGADDR d t off) = d" and "PTX (PGADDR d t off) = t" and "PGOFF (PGADDR d t off) = off"
proof -
  note b = small_bits(1)[OF d] small_bits(1)[OF t] small_bits(2)[OF off]
  show "PDX (PGADDR d t off) = d"
    by (rule bit_word_eqI) (auto simp: bit_PDX bit_PGADDR dest: b)
  show "PTX (PGADDR d t off) = t"
    by (rule bit_word_eqI) (auto simp: bit_PTX bit_PGADDR dest: b)
  show "PGOFF (PGADDR d t off) = off"
    by (rule bit_word_eqI) (auto simp: bit_PGOFF bit_PGADDR dest: b)
qed

lemma PTE_ADDR_or:
  assumes pa: "PGOFF pa = 0" and f: "f < 4096"
  shows "PTE_ADDR (pa OR f) = pa" and "PGOFF (pa OR f) = f"
proof -
  have lo: "\<not> bit pa n" if "n < 12" for n
    using that pa by (metis bit_PGOFF bit_0_eq bot_apply bot_bool_def)
  show "PTE_ADDR (pa OR f) = pa"
    by (rule bit_word_eqI) (use lo in \<open>auto simp: bit_PTE_ADDR bit_simps dest: small_bits(2)[OF f]\<close>, meson lo not_le)
  show "PGOFF (pa OR f) = f"
    by (rule bit_word_eqI) (use lo in \<open>auto simp: bit_PGOFF bit_simps dest: small_bits(2)[OF f]\<close>)
qed

section \<open>Rounding\<close>

lemma unat_ROUNDDOWN: "unat (ROUNDDOWN a n) = unat a div unat n * unat n"
proof -
  have "a mod n \<le> a" by (simp add: word_le_nat_alt unat_mod)
  then have "unat (ROUNDDOWN a n) = unat a - unat a mod unat n"
    by (simp add: ROUNDDOWN_def unat_sub unat_mod)
  then show ?thesis by (simp add: minus_mod_eq_div_mult)
qed

lemma unat_ROUNDUP:
  assumes "n \<noteq> 0" "unat a + unat n \<le> 2 ^ 32"
  shows "unat (ROUNDUP a n) = (unat a + unat n - 1) div unat n * unat n"
proof -
  have n: "0 < unat n" using assms(1) by (simp add: unat_gt_0)
  have "a + n - 1 = a + (n - 1)" by simp
  moreover have "unat (n - 1) = unat n - 1" using assms(1) by (simp add: unat_minus_one)
  ultimately have "unat (a + n - 1) = unat a + unat n - 1"
    using assms(2) n by (simp only: unat_plus_if') simp
  then show ?thesis by (simp add: ROUNDUP_def unat_ROUNDDOWN)
qed

lemma word_and_split: "((a :: u32) AND b) OR (a AND NOT b) = a"
  by (rule bit_word_eqI) (auto simp: bit_simps)

lemma word_and_disj: "((a :: u32) AND b) AND (a AND NOT b) = 0"
  by (rule bit_word_eqI) (auto simp: bit_simps)

lemma ROUNDDOWN_page: "ROUNDDOWN a PGSIZE = PTE_ADDR a"
proof -
  have "a mod 2 ^ 12 = take_bit 12 a" by (simp add: take_bit_eq_mod)
  then have "a mod 4096 = a AND 0xFFF" by (simp add: take_bit_eq_mask mask_12[symmetric])
  moreover have "a AND NOT 0xFFF = a - (a AND 0xFFF)"
    using word_plus_and_or[of "a AND 0xFFF" "a AND NOT 0xFFF"]
    by (simp only: word_and_split word_and_disj) (simp add: eq_diff_eq ac_simps)
  ultimately show ?thesis by (simp add: ROUNDDOWN_def PTE_ADDR_def)
qed

lemma unat_PTE_ADDR: "unat (PTE_ADDR a) = unat a div 4096 * 4096"
  using unat_ROUNDDOWN[of a PGSIZE] by (simp add: ROUNDDOWN_page[symmetric] del: PGSIZE_def) simp

section \<open>Pages\<close>

lemma PGOFF_PTE_ADDR [simp]: "PGOFF (PTE_ADDR a) = 0"
  by (rule bit_word_eqI) (auto simp: bit_PGOFF bit_PTE_ADDR)

lemma PGNUM_PTE_ADDR [simp]: "PGNUM (PTE_ADDR a) = PGNUM a"
  by (simp add: word_unat_eq_iff unat_PGNUM unat_PTE_ADDR)

lemma page_aligned_unat: "PGOFF a = 0 \<Longrightarrow> unat a = 4096 * unat (PGNUM a)"
  using mult_div_mod_eq[of 4096 "unat a"] by (metis add.right_neutral unat_0 unat_PGNUM unat_PGOFF)

lemma page_addr_eq: "PGOFF a = 0 \<Longrightarrow> PGOFF b = 0 \<Longrightarrow> PGNUM a = PGNUM b \<Longrightarrow> a = b"
  by (metis page_aligned_unat word_unat_eq_iff)

lemma in_range_page: "PGOFF a = 0 \<Longrightarrow> in_range a 4096 x \<longleftrightarrow> PGNUM x = PGNUM a"
proof -
  assume a: "PGOFF a = 0"
  have x: "unat x = 4096 * unat (PGNUM x) + unat (PGOFF x)" "unat (PGOFF x) < 4096"
    by (simp_all add: unat_PGNUM unat_PGOFF)
  have "unat (x - a) < 4096 \<longleftrightarrow> unat (PGNUM x) = unat (PGNUM a)"
    using x page_aligned_unat[OF a] unat_u32_less[of x] unat_u32_less[of a]
    by (auto simp: unat_sub_if')
  then show ?thesis by (simp add: in_range_def word_unat_eq_iff)
qed

lemma PGNUM_add_small: "aligned4 a \<Longrightarrow> k < 4 \<Longrightarrow> PGNUM (a + k) = PGNUM a"
proof -
  assume a: "aligned4 a" "k < 4"
  then obtain q where q: "unat a = 4 * q" by (auto simp: aligned4_unat)
  have k: "unat k < 4" using a(2) by (simp add: word_less_nat_alt)
  have "(4 * q + unat k) div 4 div 1024 = 4 * q div 4 div 1024" using k by simp
  then have "(unat a + unat k) div 4096 = unat a div 4096" by (simp add: q div_mult2_eq[symmetric])
  then show ?thesis using unat_add_small[OF a] by (simp add: word_unat_eq_iff unat_PGNUM)
qed

lemma read32_fill_page [mem_simps]:
  assumes "PGOFF a = 0" "aligned4 b"
  shows "read32 (fill m a c 4096) b = (if PGNUM b = PGNUM a then
    ucast c OR push_bit 8 (ucast c) OR push_bit 16 (ucast c) OR push_bit 24 (ucast c) else read32 m b)"
  using PGNUM_add_small[OF assms(2), of 1] PGNUM_add_small[OF assms(2), of 2]
    PGNUM_add_small[OF assms(2), of 3]
  by (simp add: read32_def fill_def in_range_page[OF assms(1)])

lemma read32_fill0_page [simp]:
  "PGOFF a = 0 \<Longrightarrow> aligned4 b \<Longrightarrow>
   read32 (fill m a 0 4096) b = (if PGNUM b = PGNUM a then 0 else read32 m b)"
  by (simp add: read32_fill_page)

lemma fill_outside: "PGOFF a = 0 \<Longrightarrow> PGNUM x \<noteq> PGNUM a \<Longrightarrow> fill m a c 4096 x = m x"
  by (simp add: fill_def in_range_page)

section \<open>Descriptor layout\<close>

lemma bit_mask_int:
  "bit (0xffff :: int) n \<longleftrightarrow> n < 16" "bit (0xfff :: int) n \<longleftrightarrow> n < 12" "bit (0xff :: int) n \<longleftrightarrow> n < 8"
proof -
  have m: "(0xffff :: int) = mask 16" "(0xfff :: int) = mask 12" "(0xff :: int) = mask 8"
    by (simp_all add: mask_eq_exp_minus_1)
  show "bit (0xffff :: int) n \<longleftrightarrow> n < 16" "bit (0xfff :: int) n \<longleftrightarrow> n < 12" "bit (0xff :: int) n \<longleftrightarrow> n < 8"
    unfolding m by (auto simp: bit_simps)
qed

lemma seg_base_of_bytes:
  "(ucast (ucast (b AND 0xffff :: u32) :: u16) OR push_bit 16 (ucast (ucast (drop_bit 16 b AND 0xff) :: u8))
    OR push_bit 24 (ucast (ucast (drop_bit 24 b) :: u8)) :: u32) = b"
  (is "?l = b")
proof (rule bit_word_eqI)
  fix n
  assume "n < LENGTH(32)"
  then have "n < 16 \<or> (16 \<le> n \<and> n < 24) \<or> (24 \<le> n \<and> n < 32)" by auto
  then show "bit ?l n = bit b n"
    by (elim disjE) (auto simp: bit_simps bit_mask_int)
qed

lemma seg_base_SEG: "seg_base (SEG ty base lim dpl) = base"
  by (simp add: seg_base_def SEG_def seg_base_of_bytes)

lemma seg_base_SEG16: "seg_base (SEG16 ty base lim dpl) = base"
  by (simp add: seg_base_def SEG16_def seg_base_of_bytes)

lemma seg_limit_SEG: "seg_limit (SEG ty base lim dpl) = lim OR 0xfff"
proof (rule bit_word_eqI)
  fix n
  assume "n < LENGTH(32)"
  then have "n < 12 \<or> (12 \<le> n \<and> n < 28) \<or> (28 \<le> n \<and> n < 32)" by auto
  then show "bit (seg_limit (SEG ty base lim dpl)) n = bit (lim OR 0xfff) n"
    by (elim disjE) (auto simp: seg_limit_def SEG_def bit_simps bit_mask_int)
qed

lemma gate_offset_SETGATE: "gate_offset (SETGATE istrap sel off dpl) = off"
proof (rule bit_word_eqI)
  fix n
  assume "n < LENGTH(32)"
  then have "n < 16 \<or> (16 \<le> n \<and> n < 32)" by auto
  then show "bit (gate_offset (SETGATE istrap sel off dpl)) n = bit off n"
    by (elim disjE) (auto simp: gate_offset_def SETGATE_def bit_simps bit_mask_int)
qed

section \<open>The boot page tables\<close>

lemma entry_pgtable_nth:
  assumes "t < 1024"
  shows "entry_pgtable ! t = (of_nat t * 0x1000) OR 3"
  using assms by (simp add: entry_pgtable_def or.assoc)

lemma page_frame: "t < 2 ^ 20 \<Longrightarrow> unat (of_nat t * 0x1000 :: u32) = 4096 * t"
  by (simp add: unat_word_ariths unat_of_nat)

lemma page_frame_PGOFF: "t < 2 ^ 20 \<Longrightarrow> PGOFF (of_nat t * 0x1000) = 0"
  using page_frame[of t] by (simp add: word_unat_eq_iff unat_PGOFF)

lemma entry_pgtable_entry:
  assumes "t < 1024"
  shows "PTE_ADDR (entry_pgtable ! t) = of_nat t * 0x1000" and "PGOFF (entry_pgtable ! t) = 3"
  using PTE_ADDR_or[of "of_nat t * 0x1000" 3] assms page_frame_PGOFF[of t]
  by (simp_all add: entry_pgtable_nth)

lemma PGOFF_present: "e AND 1 = PGOFF e AND 1"
proof -
  have "(0xFFF :: u32) AND 1 = 1" by simp
  then show ?thesis by (simp add: PGOFF_def and.assoc)
qed

lemma PGOFF_diff_KERNBASE: "PGOFF pt = 0 \<Longrightarrow> PGOFF (pt - 0xF0000000) = 0"
proof -
  assume "PGOFF pt = 0"
  then have "unat pt = 4096 * unat (PGNUM pt)" by (rule page_aligned_unat)
  then have "unat (pt - 0xF0000000) mod 4096 = 0"
    by (simp add: unat_sub_if' mod_eq_0_iff_dvd dvd_diff_nat dvd_add)
  then show ?thesis by (metis unat_PGOFF unat_0_iff)
qed

lemma plus_eq_or_page:
  assumes "PGOFF a = 0" "f < 4096"
  shows "a + f = a OR f"
proof -
  have "a AND f = 0"
  proof (rule bit_word_eqI)
    fix n
    have "\<not> bit a n" if "n < 12" using that assms(1) by (metis bit_PGOFF bit_0_eq bot_apply bot_bool_def)
    then show "bit (a AND f) n = bit 0 n" using small_bits(2)[OF assms(2), of n] by (auto simp: bit_simps)
  qed
  then show ?thesis by (rule disjunctive_add_eq_or)
qed

lemma entry_pgdir_nth:
  assumes "PGOFF pt = 0" "d < 1024"
  shows "entry_pgdir pt ! d = (if d = 0 then (pt - KERNBASE) OR 1
     else if d = 960 then (pt - KERNBASE) OR 3 else 0)"
proof -
  define b where "b = pt - KERNBASE"
  have b: "PGOFF b = 0" using PGOFF_diff_KERNBASE[OF assms(1)] by (simp add: b_def)
  have "b + PTE_P = b OR 1" using plus_eq_or_page[OF b, of 1] by simp
  moreover have "b + PTE_P + PTE_W = b + 3" by simp
  then have "b + PTE_P + PTE_W = b OR 3" using plus_eq_or_page[OF b, of 3] by (simp only:) simp
  moreover have "unat (drop_bit PDXSHIFT KERNBASE) = 960" by simp
  ultimately show ?thesis
    using assms(2) unfolding entry_pgdir_def b_def[symmetric]
    by (simp only: nth_list_update length_replicate length_list_update NPDENTRIES_def) simp
qed

lemma frame_of_PTX: "of_nat (unat (PTX va)) * 0x1000 OR PGOFF va = PGADDR 0 (PTX va) (PGOFF va)"
  by (simp add: PGADDR_def push_bit_eq_mult)

lemma entry_translate_eq:
  assumes "PGOFF pt = 0"
  shows "entry_translate pt va =
    (if unat (PDX va) = 0 \<or> unat (PDX va) = 960 then Some (PGADDR 0 (PTX va) (PGOFF va)) else None)"
proof -
  let ?b = "pt - 0xF0000000"
  have b: "PGOFF ?b = 0" using assms by (rule PGOFF_diff_KERNBASE)
  have p: "e AND 1 \<noteq> 0" if "PGOFF e = 1 \<or> PGOFF e = 3" for e
    using that PGOFF_present[of e] by auto
  have "(?b OR 1) AND 1 \<noteq> 0" "(?b OR 3) AND 1 \<noteq> 0"
    using PTE_ADDR_or(2)[OF b] by (auto intro!: p)
  moreover have "entry_pgtable ! unat (PTX va) AND 1 \<noteq> 0"
    using entry_pgtable_entry(2)[of "unat (PTX va)"] p by simp
  ultimately show ?thesis
    using PTE_ADDR_or(1)[OF b] entry_pgtable_entry(1)[of "unat (PTX va)"] frame_of_PTX[of va]
    by (auto simp: entry_translate_def Let_def entry_pgdir_nth[OF assms] simp del: of_nat_unat)
qed

lemma low_offset_inverse:
  assumes "unat w = unat va mod 4194304"
  shows "PGADDR 0 (PTX va) (PGOFF va) = w"
proof -
  have "unat (PDX w) = 0" using assms by (simp add: unat_PDX)
  then have "PDX w = 0" by (simp add: unat_0_iff)
  moreover have "unat (PTX w) = unat (PTX va)"
    using assms by (simp add: unat_PTX  mod_mult2_eq[of "unat va" 4096 1024, simplified])
  moreover have "unat (PGOFF w) = unat (PGOFF va)"
    using assms by (simp add: unat_PGOFF mod_mod_cancel)
  ultimately show ?thesis using PGADDR_inverse[of w] by (simp add: word_unat_eq_iff[symmetric])
qed

text \<open>
  The boot page tables map the first 4 megabytes of physical memory at address 0 and at
  \<open>KERNBASE\<close>, and nothing else.
\<close>

lemma entry_translate_regions:
  assumes "PGOFF pt = 0"
  shows "entry_translate pt va =
    (if va < PTSIZE then Some va
     else if KERNBASE \<le> va \<and> va < KERNBASE + PTSIZE then Some (va - KERNBASE) else None)"
proof -
  have d: "unat (PDX va) = unat va div 4194304" by (rule unat_PDX)
  consider "va < PTSIZE" | "KERNBASE \<le> va" "va < KERNBASE + PTSIZE"
    | "\<not> va < PTSIZE" "\<not> (KERNBASE \<le> va \<and> va < KERNBASE + PTSIZE)" by blast
  then show ?thesis
  proof cases
    case 1
    then have "unat va < 4194304" by (simp add: word_less_nat_alt)
    then show ?thesis using 1 d low_offset_inverse[of va va] by (simp add: entry_translate_eq[OF assms])
  next
    case 2
    then have k: "4026531840 \<le> unat va" "unat va < 4030726144"
      by (simp_all add: word_less_nat_alt word_le_nat_alt)
    then have "unat va div 4194304 = 960" by (simp add: div_nat_eqI)
    moreover have "unat (va - 0xF0000000) = unat va mod 4194304"
      using k mult_div_mod_eq[of 4194304 "unat va"] \<open>unat va div 4194304 = 960\<close>
      by (simp add: unat_sub_if')
    ultimately show ?thesis using 2 k d low_offset_inverse[of "va - 0xF0000000" va]
      by (simp add: entry_translate_eq[OF assms] word_less_nat_alt)
  next
    case 3
    then have "\<not> unat va < 4194304" "\<not> (4026531840 \<le> unat va \<and> unat va < 4030726144)"
      by (simp_all add: word_less_nat_alt word_le_nat_alt)
    then have "unat va div 4194304 \<noteq> 0" "unat va div 4194304 \<noteq> 960"
      using mult_div_mod_eq[of 4194304 "unat va"] mod_less_divisor[of 4194304 "unat va"] by auto
    then show ?thesis using 3 d by (simp add: entry_translate_eq[OF assms])
  qed
qed

section \<open>Properties\<close>

text \<open>
  A linear address is its directory index, its table index and its offset: putting the three
  together gives the address back, and an address built from three fields in range has them.
\<close>

theorem linear_address_parts:
  "PGADDR (PDX la) (PTX la) (PGOFF la) = la \<and>
   (d < 1024 \<and> t < 1024 \<and> off < 4096 \<longrightarrow>
      PDX (PGADDR d t off) = d \<and> PTX (PGADDR d t off) = t \<and> PGOFF (PGADDR d t off) = off)"
  using PGADDR_inverse[of la] PGADDR_fields[of d t off] by simp

theorem linear_address_parts_witness:
  "PGADDR (PDX 0xEF7BD123) (PTX 0xEF7BD123) (PGOFF 0xEF7BD123) = 0xEF7BD123 \<and> PDX (PGADDR 957 5 16) = 957"
  using linear_address_parts[of "0xEF7BD123" 957 5 16] by simp

text \<open>
  The page tables of \<^verbatim>\<open>kern/entrypgdir.c\<close> on which the kernel boots map the first 4 megabytes of
  physical memory at address 0 and at \<open>KERNBASE\<close>, and translate no other address.
\<close>

theorem entry_pgdir_maps:
  assumes "PGOFF pt = 0"
  shows "entry_translate pt va =
    (if va < PTSIZE then Some va
     else if KERNBASE \<le> va \<and> va < KERNBASE + PTSIZE then Some (va - KERNBASE) else None)"
  by (rule entry_translate_regions[OF assms])

theorem entry_pgdir_maps_witness:
  "entry_translate 0xF0113000 0xF0100ABC = Some 0x100ABC \<and> entry_translate 0xF0113000 0xEF800000 = None"
proof -
  have p: "PGOFF 0xF0113000 = 0" by (simp add: PGOFF_def)
  show ?thesis using entry_pgdir_maps[OF p, of "0xF0100ABC"] entry_pgdir_maps[OF p, of "0xEF800000"] by simp
qed

text \<open>
  The descriptor macros store what the processor reads back: the base of a segment, its limit
  in pages, and the handler address, selector and privilege level of a gate.
\<close>

theorem descriptors_hold_fields:
  "seg_base (SEG ty base lim dpl) = base \<and> seg_limit (SEG ty base lim dpl) = lim OR 0xfff \<and>
   seg_base (SEG16 ty base lim dpl) = base \<and>
   gate_offset (SETGATE istrap sel off gdpl) = off \<and> gd_sel (SETGATE istrap sel off gdpl) = sel \<and>
   gd_dpl (SETGATE istrap sel off gdpl) = gdpl \<and> gd_p (SETGATE istrap sel off gdpl) = 1"
  by (simp add: seg_base_SEG seg_limit_SEG seg_base_SEG16 gate_offset_SETGATE) (simp add: SETGATE_def)

end
