(* ===== verification/Cstring.thy ===== *)
theory Cstring
  imports Jos_Prelude "HOL-Library.List_Lexorder"
begin

text \<open>
  The string library \<^verbatim>\<open>lib/string.c\<close>, shared by the kernel and user programs, over
  byte-addressed memory. A loop that runs until it meets a NUL byte is a
  \<^theory_text>\<open>partial_function\<close>: \<^const>\<open>None\<close> is a loop that never ends. \<open>cstr m s xs\<close> says that
  the NUL-terminated string at address \<open>s\<close> has the bytes \<open>xs\<close>; under it every function
  returns, and the lemmas give the result. The block operations, which run the string
  instructions of the processor four bytes or one byte at a time, forwards or backwards,
  are shown equal to a pointwise fill and a pointwise copy.
\<close>

section \<open>Strings in memory\<close>

primrec cstr :: "mem \<Rightarrow> u32 \<Rightarrow> u8 list \<Rightarrow> bool" where
  "cstr m s [] \<longleftrightarrow> m s = 0"
| "cstr m s (x # xs) \<longleftrightarrow> m s = x \<and> x \<noteq> 0 \<and> cstr m (s + 1) xs"

section \<open>String functions\<close>

partial_function (option) strlen_loop :: "mem \<Rightarrow> u32 \<Rightarrow> u32 \<Rightarrow> u32 option" where
  "strlen_loop m s n = (if m s \<noteq> 0 then strlen_loop m (s + 1) (n + 1) else Some n)"

definition strlen :: "mem \<Rightarrow> u32 \<Rightarrow> u32 option" where
  "strlen m s = strlen_loop m s 0"

function strnlen_loop :: "mem \<Rightarrow> u32 \<Rightarrow> u32 \<Rightarrow> u32 \<Rightarrow> u32" where
  "strnlen_loop m s sz n =
     (if sz > 0 \<and> m s \<noteq> 0 then strnlen_loop m (s + 1) (sz - 1) (n + 1) else n)"
  by pat_completeness auto
termination
  by (relation "measure (\<lambda>(m, s, sz, n). unat sz)") (auto simp: unat_dec_less)

definition strnlen :: "mem \<Rightarrow> u32 \<Rightarrow> u32 \<Rightarrow> u32" where
  "strnlen m s sz = strnlen_loop m s sz 0"

partial_function (option) strcpy_loop :: "mem \<Rightarrow> u32 \<Rightarrow> u32 \<Rightarrow> mem option" where
  "strcpy_loop m dst src =
     (if m src \<noteq> 0 then strcpy_loop (m(dst := m src)) (dst + 1) (src + 1)
      else Some (m(dst := m src)))"

definition strcpy :: "mem \<Rightarrow> u32 \<Rightarrow> u32 \<Rightarrow> (mem \<times> u32) option" where
  "strcpy m dst src = map_option (\<lambda>m'. (m', dst)) (strcpy_loop m dst src)"

definition strcat :: "mem \<Rightarrow> u32 \<Rightarrow> u32 \<Rightarrow> (mem \<times> u32) option" where
  "strcat m dst src =
     (case strlen m dst of None \<Rightarrow> None
      | Some len \<Rightarrow> map_option (\<lambda>(m', _). (m', dst)) (strcpy m (dst + len) src))"

primrec strncpy_loop :: "nat \<Rightarrow> mem \<Rightarrow> u32 \<Rightarrow> u32 \<Rightarrow> mem" where
  "strncpy_loop 0 m dst src = m"
| "strncpy_loop (Suc k) m dst src =
     (let m' = m(dst := m src) in
      strncpy_loop k m' (dst + 1) (if m' src \<noteq> 0 then src + 1 else src))"

definition strncpy :: "mem \<Rightarrow> u32 \<Rightarrow> u32 \<Rightarrow> u32 \<Rightarrow> mem \<times> u32" where
  "strncpy m dst src sz = (strncpy_loop (unat sz) m dst src, dst)"

text \<open>The loop of \<^verbatim>\<open>strlcpy\<close> decrements its size before it tests it.\<close>

function strlcpy_loop :: "mem \<Rightarrow> u32 \<Rightarrow> u32 \<Rightarrow> u32 \<Rightarrow> mem \<times> u32" where
  "strlcpy_loop m dst src sz =
     (if sz > 1 \<and> m src \<noteq> 0 then strlcpy_loop (m(dst := m src)) (dst + 1) (src + 1) (sz - 1)
      else (m(dst := 0), dst))"
  by pat_completeness auto
termination
  by (relation "measure (\<lambda>(m, dst, src, sz). unat sz)")
     (auto intro!: unat_dec_less dest: order_less_imp_not_eq2)

definition strlcpy :: "mem \<Rightarrow> u32 \<Rightarrow> u32 \<Rightarrow> u32 \<Rightarrow> mem \<times> u32" where
  "strlcpy m dst src sz =
     (if sz > 0 then (let (m', dst') = strlcpy_loop m dst src sz in (m', dst' - dst))
      else (m, 0))"

partial_function (option) strcmp :: "mem \<Rightarrow> u32 \<Rightarrow> u32 \<Rightarrow> int option" where
  "strcmp m p q =
     (if m p \<noteq> 0 \<and> m p = m q then strcmp m (p + 1) (q + 1)
      else Some (uint (m p) - uint (m q)))"

function strncmp :: "mem \<Rightarrow> u32 \<Rightarrow> u32 \<Rightarrow> u32 \<Rightarrow> int" where
  "strncmp m p q n =
     (if n > 0 \<and> m p \<noteq> 0 \<and> m p = m q then strncmp m (p + 1) (q + 1) (n - 1)
      else if n = 0 then 0 else uint (m p) - uint (m q))"
  by pat_completeness auto
termination
  by (relation "measure (\<lambda>(m, p, q, n). unat n)") (auto simp: unat_dec_less)

partial_function (option) strchr :: "mem \<Rightarrow> u32 \<Rightarrow> u8 \<Rightarrow> u32 option" where
  "strchr m s c =
     (if m s \<noteq> 0 then (if m s = c then Some s else strchr m (s + 1) c) else Some 0)"

partial_function (option) strfind :: "mem \<Rightarrow> u32 \<Rightarrow> u8 \<Rightarrow> u32 option" where
  "strfind m s c =
     (if m s \<noteq> 0 then (if m s = c then Some s else strfind m (s + 1) c) else Some s)"

section \<open>Block operations\<close>

text \<open>The string instructions with their repeat prefix: a count, and the registers they step.\<close>

primrec rep_stosb :: "nat \<Rightarrow> mem \<Rightarrow> u32 \<Rightarrow> u8 \<Rightarrow> mem" where
  "rep_stosb 0 m d c = m"
| "rep_stosb (Suc k) m d c = rep_stosb k (m(d := c)) (d + 1) c"

primrec rep_stosl :: "nat \<Rightarrow> mem \<Rightarrow> u32 \<Rightarrow> u32 \<Rightarrow> mem" where
  "rep_stosl 0 m d c = m"
| "rep_stosl (Suc k) m d c = rep_stosl k (write32 m d c) (d + 4) c"

primrec rep_movsb :: "nat \<Rightarrow> u32 \<Rightarrow> mem \<Rightarrow> u32 \<Rightarrow> u32 \<Rightarrow> mem" where
  "rep_movsb 0 step m d s = m"
| "rep_movsb (Suc k) step m d s = rep_movsb k step (m(d := m s)) (d + step) (s + step)"

primrec rep_movsl :: "nat \<Rightarrow> u32 \<Rightarrow> mem \<Rightarrow> u32 \<Rightarrow> u32 \<Rightarrow> mem" where
  "rep_movsl 0 step m d s = m"
| "rep_movsl (Suc k) step m d s =
     rep_movsl k step (write32 m d (read32 m s)) (d + step) (s + step)"

definition memset :: "mem \<Rightarrow> u32 \<Rightarrow> u32 \<Rightarrow> u32 \<Rightarrow> mem" where
  "memset m v c n =
     (if n = 0 then m
      else if v mod 4 = 0 \<and> n mod 4 = 0 then
        (let c = c AND 0xFF;
             c = push_bit 24 c OR push_bit 16 c OR push_bit 8 c OR c
         in rep_stosl (unat (n div 4)) m v c)
      else rep_stosb (unat n) m v (ucast c))"

text \<open>With the direction flag set the instructions step downwards: by \<open>-1\<close> or \<open>-4\<close>.\<close>

definition memmove :: "mem \<Rightarrow> u32 \<Rightarrow> u32 \<Rightarrow> u32 \<Rightarrow> mem" where
  "memmove m d s n =
     (if s < d \<and> s + n > d then
        (let s' = s + n; d' = d + n in
         if s' mod 4 = 0 \<and> d' mod 4 = 0 \<and> n mod 4 = 0
         then rep_movsl (unat (n div 4)) (- 4) m (d' - 4) (s' - 4)
         else rep_movsb (unat n) (- 1) m (d' - 1) (s' - 1))
      else if s mod 4 = 0 \<and> d mod 4 = 0 \<and> n mod 4 = 0
      then rep_movsl (unat (n div 4)) 4 m d s
      else rep_movsb (unat n) 1 m d s)"

definition memcpy :: "mem \<Rightarrow> u32 \<Rightarrow> u32 \<Rightarrow> u32 \<Rightarrow> mem" where
  "memcpy m dst src n = memmove m dst src n"

function memcmp :: "mem \<Rightarrow> u32 \<Rightarrow> u32 \<Rightarrow> u32 \<Rightarrow> int" where
  "memcmp m s1 s2 n =
     (if n > 0 then
        (if m s1 \<noteq> m s2 then uint (m s1) - uint (m s2)
         else memcmp m (s1 + 1) (s2 + 1) (n - 1))
      else 0)"
  by pat_completeness auto
termination
  by (relation "measure (\<lambda>(m, s1, s2, n). unat n)") (auto simp: unat_dec_less)

function memfind_loop :: "mem \<Rightarrow> u32 \<Rightarrow> u32 \<Rightarrow> u8 \<Rightarrow> u32" where
  "memfind_loop m s ends c =
     (if s < ends then (if m s = c then s else memfind_loop m (s + 1) ends c) else s)"
  by pat_completeness auto
termination
  by (relation "measure (\<lambda>(m, s, ends, c). unat ends - unat s)")
     (auto simp: unat_inc word_less_nat_alt)

definition memfind :: "mem \<Rightarrow> u32 \<Rightarrow> u32 \<Rightarrow> u32 \<Rightarrow> u32" where
  "memfind m s c n = memfind_loop m s (s + n) (ucast c)"

section \<open>Numbers\<close>

partial_function (option) skip_blanks :: "mem \<Rightarrow> u32 \<Rightarrow> u32 option" where
  "skip_blanks m s = (if m s = 0x20 \<or> m s = 0x09 then skip_blanks m (s + 1) else Some s)"

text \<open>The value of a digit character; \<open>char\<close> is signed, so a byte from 0x80 is negative.\<close>

definition digit_value :: "u8 \<Rightarrow> int option" where
  "digit_value c =
     (if 0x30 \<le> sint c \<and> sint c \<le> 0x39 then Some (sint c - 0x30)
      else if 0x61 \<le> sint c \<and> sint c \<le> 0x7A then Some (sint c - 0x61 + 10)
      else if 0x41 \<le> sint c \<and> sint c \<le> 0x5A then Some (sint c - 0x41 + 10)
      else None)"

partial_function (option) strtol_digits :: "mem \<Rightarrow> u32 \<Rightarrow> int \<Rightarrow> u32 \<Rightarrow> (u32 \<times> u32) option" where
  "strtol_digits m s base val =
     (case digit_value (m s) of
        None \<Rightarrow> Some (val, s)
      | Some dig \<Rightarrow>
          if dig \<ge> base then Some (val, s)
          else strtol_digits m (s + 1) base (val * word_of_int base + word_of_int dig))"

text \<open>The result is the value and the end pointer; \<open>long\<close> is 32 bits wide.\<close>

definition strtol :: "mem \<Rightarrow> u32 \<Rightarrow> int \<Rightarrow> (u32 \<times> u32) option" where
  "strtol m s base =
     (case skip_blanks m s of None \<Rightarrow> None
      | Some s \<Rightarrow>
        (let (neg, s) = (if m s = 0x2B then (False, s + 1)
                         else if m s = 0x2D then (True, s + 1) else (False, s));
             (base, s) = (if (base = 0 \<or> base = 16) \<and> m s = 0x30 \<and> m (s + 1) = 0x78 then (16, s + 2)
                          else if base = 0 \<and> m s = 0x30 then (8, s + 1)
                          else if base = 0 then (10, s) else (base, s))
         in map_option (\<lambda>(val, e). (if neg then - val else val, e)) (strtol_digits m s base 0)))"

section \<open>Specification vocabulary\<close>

text \<open>
  Copying upwards is safe unless the destination starts inside the source, copying downwards
  unless the source starts inside the destination.
\<close>

definition fwd_safe :: "u32 \<Rightarrow> u32 \<Rightarrow> nat \<Rightarrow> bool" where
  "fwd_safe d s n \<longleftrightarrow> d = s \<or> n \<le> unat (d - s)"

definition bwd_safe :: "u32 \<Rightarrow> u32 \<Rightarrow> nat \<Rightarrow> bool" where
  "bwd_safe d s n \<longleftrightarrow> d = s \<or> n \<le> unat (s - d)"

text \<open>The value of a run of digits, modulo \<open>2\<^sup>32\<close> as the C arithmetic computes it.\<close>

definition digits_value :: "int \<Rightarrow> u32 \<Rightarrow> u8 list \<Rightarrow> u32" where
  "digits_value base v xs = foldl (\<lambda>v x. v * word_of_int base + word_of_int (the (digit_value x))) v xs"

declare strnlen_loop.simps [simp del] strlcpy_loop.simps [simp del] strncmp.simps [simp del]
  memcmp.simps [simp del] memfind_loop.simps [simp del]

section \<open>Scanning functions\<close>

lemma strlen_loop_cstr: "cstr m s xs \<Longrightarrow> strlen_loop m s n = Some (n + of_nat (length xs))"
proof (induction xs arbitrary: s n)
  case Nil
  then show ?case by (subst strlen_loop.simps) simp
next
  case (Cons x xs)
  then show ?case by (subst strlen_loop.simps) (simp add: ac_simps)
qed

lemma strlen_cstr: "cstr m s xs \<Longrightarrow> strlen m s = Some (of_nat (length xs))"
  by (simp add: strlen_def strlen_loop_cstr)

lemma strnlen_loop_cstr:
  "cstr m s xs \<Longrightarrow> length xs < 2 ^ 32 \<Longrightarrow>
   strnlen_loop m s sz n = n + of_nat (min (length xs) (unat sz))"
proof (induction xs arbitrary: s sz n)
  case Nil
  then show ?case by (subst strnlen_loop.simps) simp
next
  case (Cons x xs)
  show ?case
  proof (cases "sz = 0")
    case True
    then show ?thesis by (subst strnlen_loop.simps) simp
  next
    case False
    then have "unat sz = Suc (unat (sz - 1))" using unat_gt_0[of sz] by (simp add: unat_minus_one)
    then show ?thesis using Cons False
      by (subst strnlen_loop.simps) (simp add: word_gt_0 ac_simps)
  qed
qed

lemma strnlen_cstr:
  "cstr m s xs \<Longrightarrow> length xs < 2 ^ 32 \<Longrightarrow> unat (strnlen m s sz) = min (length xs) (unat sz)"
  by (simp add: strnlen_def strnlen_loop_cstr unat_of_nat)

lemma strfind_cstr:
  "cstr m s xs \<Longrightarrow> c \<noteq> 0 \<Longrightarrow>
   strfind m s c = Some (s + of_nat (length (takeWhile (\<lambda>x. x \<noteq> c) xs)))"
proof (induction xs arbitrary: s)
  case Nil
  then show ?case by (subst strfind.simps) simp
next
  case (Cons x xs)
  then show ?case by (subst strfind.simps) (auto simp: ac_simps)
qed

lemma strchr_cstr:
  "cstr m s xs \<Longrightarrow> c \<noteq> 0 \<Longrightarrow>
   strchr m s c = Some (if c \<in> set xs then s + of_nat (length (takeWhile (\<lambda>x. x \<noteq> c) xs)) else 0)"
proof (induction xs arbitrary: s)
  case Nil
  then show ?case by (subst strchr.simps) simp
next
  case (Cons x xs)
  then show ?case by (subst strchr.simps) (auto simp: ac_simps)
qed

section \<open>Comparison\<close>

lemma uint_u8_eq: "uint (a :: u8) = uint b \<longleftrightarrow> a = b"
  by (simp add: word_uint_eq_iff)

lemma uint_u8_less: "uint (a :: u8) < uint b \<longleftrightarrow> a < b"
  by (simp add: word_less_alt)

lemma strcmp_cstr:
  "cstr m p xs \<Longrightarrow> cstr m q ys \<Longrightarrow>
   \<exists>r. strcmp m p q = Some r \<and> (r = 0 \<longleftrightarrow> xs = ys) \<and> (r < 0 \<longleftrightarrow> xs < ys)"
proof (induction xs arbitrary: p q ys)
  case Nil
  then show ?case
    by (cases ys) (subst strcmp.simps, simp add: word_gt_0 uint_0_iff less_le uint_ge_0)+
next
  case (Cons x xs)
  show ?case
  proof (cases ys)
    case Nil
    then show ?thesis using Cons.prems
      by (subst strcmp.simps) (simp add: uint_0_iff)
  next
    case (Cons y ys')
    show ?thesis
    proof (cases "x = y")
      case True
      with Cons Cons.prems Cons.IH[of "p + 1" "q + 1" ys'] show ?thesis
        by (subst strcmp.simps) auto
    next
      case False
      with Cons Cons.prems show ?thesis
        by (subst strcmp.simps) (auto simp: uint_u8_eq uint_u8_less word_gt_0)
    qed
  qed
qed

lemma strncmp_cstr:
  "cstr m p xs \<Longrightarrow> cstr m q ys \<Longrightarrow>
   (strncmp m p q n = 0 \<longleftrightarrow> take (unat n) xs = take (unat n) ys) \<and>
   (strncmp m p q n < 0 \<longleftrightarrow> take (unat n) xs < take (unat n) ys)"
proof (induction xs arbitrary: p q ys n)
  case Nil
  then show ?case
    by (cases ys; cases "n = 0") (subst strncmp.simps, (simp add: word_gt_0 uint_0_iff less_le uint_ge_0 unat_0_iff)?)+
next
  case (Cons x xs)
  show ?case
  proof (cases "n = 0")
    case True
    then show ?thesis by (subst (1 2) strncmp.simps) simp
  next
    case False
    then have n: "unat n = Suc (unat (n - 1))" using unat_gt_0[of n] by (simp add: unat_minus_one)
    show ?thesis
    proof (cases ys)
      case Nil
      then show ?thesis using Cons.prems False n
        by (subst (1 2) strncmp.simps) (simp add: uint_0_iff)
    next
      case (Cons y ys')
      then show ?thesis using Cons.prems False n Cons.IH[of "p + 1" "q + 1" ys' "n - 1"]
        by (cases "x = y"; subst (1 2) strncmp.simps) (auto simp: uint_u8_eq uint_u8_less word_gt_0)
    qed
  qed
qed

lemma memcmp_zero:
  "memcmp m s1 s2 n = 0 \<longleftrightarrow> (\<forall>i < unat n. m (s1 + of_nat i) = m (s2 + of_nat i))"
proof (induction m s1 s2 n rule: memcmp.induct)
  case (1 m s1 s2 n)
  show ?case
  proof (cases "n = 0")
    case True
    then show ?thesis by (subst memcmp.simps) simp
  next
    case False
    then have n: "unat n = Suc (unat (n - 1))" using unat_gt_0[of n] by (simp add: unat_minus_one)
    show ?thesis
    proof (cases "m s1 = m s2")
      case True
      have "memcmp m s1 s2 n = memcmp m (s1 + 1) (s2 + 1) (n - 1)"
        using False True by (subst memcmp.simps) (simp add: word_gt_0)
      then show ?thesis using 1 False True
        by (simp add: word_gt_0 n All_less_Suc2 ac_simps)
    next
      case neq: False
      then show ?thesis using False n
        by (subst memcmp.simps) (auto simp: word_gt_0 uint_u8_eq dest!: spec[of _ "0::nat"])
    qed
  qed
qed

section \<open>Ranges\<close>

lemma unat_diff_Suc:
  assumes "x \<noteq> (s :: u32)"
  shows "unat (x - s) = Suc (unat (x - (s + 1)))"
proof -
  have "x - s \<noteq> 0" using assms by simp
  then have "unat (x - s - 1) = unat (x - s) - 1" by (rule unat_minus_one)
  moreover have "0 < unat (x - s)" using assms by (simp add: unat_gt_0)
  moreover have "x - s - 1 = x - (s + 1)" by simp
  ultimately show ?thesis by simp
qed

lemma in_range_0 [simp]: "\<not> in_range s 0 x"
  by (simp add: in_range_def)

lemma in_range_Suc: "in_range s (Suc n) x \<longleftrightarrow> x = s \<or> in_range (s + 1) n x"
  by (cases "x = s") (auto simp: in_range_def unat_diff_Suc)

lemma in_range_self: "n < 2 ^ 32 \<Longrightarrow> \<not> in_range (s + 1) n s"
proof -
  assume "n < 2 ^ 32"
  moreover have "unat (s - (s + 1)) = 2 ^ 32 - 1"
    by (simp add: unsigned_minus_1_eq_mask mask_eq_exp_minus_1)
  ultimately show ?thesis unfolding in_range_def by linarith
qed

lemma in_range_last:
  assumes "n < 2 ^ 32"
  shows "in_range s (Suc n) x \<longleftrightarrow> in_range s n x \<or> x = s + of_nat n"
proof -
  have "x = s + of_nat n \<longleftrightarrow> unat (x - s) = n"
    using assms by (auto simp: unat_of_nat)
  then show ?thesis by (auto simp: in_range_def)
qed

section \<open>Filling\<close>

lemma fill_Suc: "n < 2 ^ 32 \<Longrightarrow> fill m a c (Suc n) = fill (m(a := c)) (a + 1) c n"
  by (rule ext) (simp add: fill_def in_range_Suc)

lemma rep_stosb_fill: "n \<le> 2 ^ 32 \<Longrightarrow> rep_stosb n m a c = fill m a c n"
proof (induction n arbitrary: m a)
  case 0
  then show ?case by (simp add: fill_def)
next
  case (Suc n)
  then show ?case by (simp add: fill_Suc)
qed

lemma write32_byte:
  fixes c :: u8
  shows "write32 m a (push_bit 24 (ucast c) OR push_bit 16 (ucast c) OR push_bit 8 (ucast c) OR ucast c)
    = m(a := c, a + 1 := c, a + 2 := c, a + 3 := c)"
proof -
  let ?w = "push_bit 24 (ucast c) OR push_bit 16 (ucast c) OR push_bit 8 (ucast c) OR ucast c :: u32"
  have "ucast ?w = c" "ucast (drop_bit 8 ?w) = c" "ucast (drop_bit 16 ?w) = c" "ucast (drop_bit 24 ?w) = c"
    by (rule bit_word_eqI; auto simp: bit_simps dest: bit_imp_le_length)+
  then show ?thesis by (simp only: write32_def)
qed

lemma fill_Suc4:
  assumes "n + 4 \<le> 2 ^ 32"
  shows "fill m a c (n + 4) = fill (m(a := c, a + 1 := c, a + 2 := c, a + 3 := c)) (a + 4) c n"
proof -
  have "n + 4 = Suc (Suc (Suc (Suc n)))" by simp
  then show ?thesis using assms by (simp only:) (simp add: fill_Suc add.commute[of _ a])
qed

lemma rep_stosl_fill:
  fixes c :: u8
  shows "4 * n \<le> 2 ^ 32 \<Longrightarrow>
    rep_stosl n m a (push_bit 24 (ucast c) OR push_bit 16 (ucast c) OR push_bit 8 (ucast c) OR ucast c)
      = fill m a c (4 * n)"
proof (induction n arbitrary: m a)
  case 0
  then show ?case by (simp add: fill_def)
next
  case (Suc n)
  then show ?case using fill_Suc4[of "4 * n" m a c] by (simp add: write32_byte add.commute)
qed

lemma div4_mult: "(n :: u32) mod 4 = 0 \<Longrightarrow> 4 * unat (n div 4) = unat n"
proof -
  have "4 * unat (n div 4) + unat (n mod 4) = unat n" by (simp add: unat_div unat_mod)
  then show "n mod 4 = 0 \<Longrightarrow> 4 * unat (n div 4) = unat n" by simp
qed

lemma unat_u32_le: "unat (n :: u32) \<le> 2 ^ 32"
  using unat_u32_less[of n] by (simp add: less_imp_le)

lemma memset_fill: "memset m v c n = fill m v (ucast c) (unat n)"
proof -
  have m: "(0xFF :: u32) = mask 8" by (simp add: mask_eq_exp_minus_1)
  have c: "c AND 0xFF = ucast (ucast c :: u8)"
    unfolding m by (rule bit_word_eqI) (auto simp: bit_simps)
  show ?thesis
  proof (cases "v mod 4 = 0 \<and> n mod 4 = 0")
    case True
    then have "4 * unat (n div 4) = unat n" by (simp add: div4_mult)
    then have "rep_stosl (unat (n div 4)) m v (push_bit 24 (ucast (ucast c :: u8))
        OR push_bit 16 (ucast (ucast c :: u8)) OR push_bit 8 (ucast (ucast c :: u8)) OR ucast (ucast c :: u8))
      = fill m v (ucast c) (unat n)"
      using rep_stosl_fill[of "unat (n div 4)" m v "ucast c"] unat_u32_le[of n] by simp
    then show ?thesis using True by (auto simp: memset_def Let_def c fill_def)
  next
    case False
    then show ?thesis using rep_stosb_fill[OF unat_u32_le, of n m v "ucast c"]
      by (auto simp: memset_def fill_def)
  qed
qed

section \<open>Copying\<close>

lemma fwd_safe_Suc: "fwd_safe d s (Suc n) \<Longrightarrow> fwd_safe (d + 1) (s + 1) n"
  by (auto simp: fwd_safe_def)

lemma fwd_safe_mono: "fwd_safe d s n \<Longrightarrow> k \<le> n \<Longrightarrow> fwd_safe d s k"
  by (auto simp: fwd_safe_def)

lemma copy_0 [simp]: "copy m d s 0 = m"
  by (simp add: copy_def)

lemma copy_Suc:
  assumes "fwd_safe d s (Suc n)" "n < 2 ^ 32"
  shows "copy m d s (Suc n) = copy (m(d := m s)) (d + 1) (s + 1) n"
proof (rule ext)
  fix x
  have src: "s + 1 + (x - (d + 1)) = s + (x - d)" by simp
  show "copy m d s (Suc n) x = copy (m(d := m s)) (d + 1) (s + 1) n x"
  proof (cases "x = d")
    case True
    then show ?thesis using in_range_self[OF assms(2), of d] by (simp add: copy_def in_range_Suc)
  next
    case False
    have "s + (x - d) \<noteq> d" if "in_range (d + 1) n x"
    proof
      assume "s + (x - d) = d"
      then have e: "x - d = d - s" by (simp add: algebra_simps)
      have "unat (x - d) < Suc n" using that by (metis in_range_Suc in_range_def)
      then have "d = s" using assms(1) e by (auto simp: fwd_safe_def)
      then show False using e False by simp
    qed
    then show ?thesis using False src by (simp add: copy_def in_range_Suc)
  qed
qed

lemma rep_movsb_copy:
  "fwd_safe d s n \<Longrightarrow> n \<le> 2 ^ 32 \<Longrightarrow> rep_movsb n 1 m d s = copy m d s n"
  by (induction n arbitrary: m d s) (simp_all add: copy_Suc fwd_safe_Suc)

lemma write32_read32: "write32 m d (read32 m s) = m(d := m s, d + 1 := m (s + 1), d + 2 := m (s + 2), d + 3 := m (s + 3))"
proof -
  have "ucast (read32 m s) = m s" "ucast (drop_bit 8 (read32 m s)) = m (s + 1)"
    "ucast (drop_bit 16 (read32 m s)) = m (s + 2)" "ucast (drop_bit 24 (read32 m s)) = m (s + 3)"
    by (rule bit_word_eqI; auto simp: read32_def bit_simps dest: bit_imp_le_length)+
  then show ?thesis by (simp only: write32_def)
qed

lemma copy_Suc4:
  assumes "fwd_safe d s (n + 4)" "n + 4 \<le> 2 ^ 32"
  shows "copy m d s (n + 4) = copy (write32 m d (read32 m s)) (d + 4) (s + 4) n"
proof -
  have ne: "d = s \<or> (d \<noteq> s + 1 \<and> d \<noteq> s + 2 \<and> d \<noteq> s + 3)"
    using assms(1) by (auto simp: fwd_safe_def)
  have sf: "fwd_safe (d + 1) (s + 1) (Suc (Suc (Suc n)))" "fwd_safe (d + 2) (s + 2) (Suc (Suc n))"
    "fwd_safe (d + 3) (s + 3) (Suc n)" "fwd_safe d s (Suc (Suc (Suc (Suc n))))"
    using assms(1) by (auto simp: fwd_safe_def)
  have "n + 4 = Suc (Suc (Suc (Suc n)))" by simp
  then have "copy m d s (n + 4) = copy (m(d := m s, d + 1 := m (s + 1), d + 2 := m (s + 2), d + 3 := m (s + 3))) (d + 4) (s + 4) n"
    using assms(2) sf ne by (simp only:) (auto simp: copy_Suc add.commute[of _ d] add.commute[of _ s])
  then show ?thesis by (simp only: write32_read32)
qed

lemma rep_movsl_copy:
  "fwd_safe d s (4 * n) \<Longrightarrow> 4 * n \<le> 2 ^ 32 \<Longrightarrow> rep_movsl n 4 m d s = copy m d s (4 * n)"
proof (induction n arbitrary: m d s)
  case 0
  then show ?case by simp
next
  case (Suc n)
  have "fwd_safe (d + 4) (s + 4) (4 * n)" using Suc.prems(1) by (auto simp: fwd_safe_def)
  then show ?case using Suc copy_Suc4[of d s "4 * n" m] by (simp add: add.commute)
qed

lemma bwd_safe_mono: "bwd_safe d s n \<Longrightarrow> k \<le> n \<Longrightarrow> bwd_safe d s k"
  by (auto simp: bwd_safe_def)

lemma copy_last:
  assumes "bwd_safe d s (Suc n)" "n < 2 ^ 32"
  shows "copy m d s (Suc n) = copy (m(d + of_nat n := m (s + of_nat n))) d s n"
proof (rule ext)
  fix x
  show "copy m d s (Suc n) x = copy (m(d + of_nat n := m (s + of_nat n))) d s n x"
  proof (cases "x = d + of_nat n")
    case True
    then have "\<not> in_range d n x" using assms(2) by (simp add: in_range_def unat_of_nat)
    then show ?thesis using True assms(2) by (simp add: copy_def in_range_last)
  next
    case False
    have "s + (x - d) \<noteq> d + of_nat n" if "in_range d n x"
    proof
      assume "s + (x - d) = d + of_nat n"
      then have e: "s - d = of_nat n - (x - d)" by (simp add: algebra_simps)
      have lt: "unat (x - d) < n" using that by (simp add: in_range_def)
      have un: "unat (of_nat n :: u32) = n" using assms(2) by (simp add: unat_of_nat)
      have "unat (s - d) = n - unat (x - d)"
        unfolding e using lt un by (simp add: unat_sub_if_size)
      moreover from this have "s \<noteq> d" using lt by auto
      ultimately show False using assms(1) lt by (auto simp: bwd_safe_def)
    qed
    then show ?thesis using False assms(2) by (auto simp: copy_def in_range_last)
  qed
qed

lemma rep_movsb_back:
  "bwd_safe d s n \<Longrightarrow> n \<le> 2 ^ 32 \<Longrightarrow>
   rep_movsb n (- 1) m (d + of_nat n - 1) (s + of_nat n - 1) = copy m d s n"
proof (induction n arbitrary: m)
  case 0
  then show ?case by simp
next
  case (Suc n)
  have "bwd_safe d s n" using Suc.prems(1) by (rule bwd_safe_mono) simp
  then show ?case using Suc copy_last[OF Suc.prems(1), of m] by simp
qed

lemma copy_last4:
  assumes "bwd_safe d s (n + 4)" "n + 4 \<le> 2 ^ 32"
  shows "copy m d s (n + 4) =
    copy (write32 m (d + of_nat n) (read32 m (s + of_nat n))) d s n"
proof -
  let ?d = "d + of_nat n" and ?s = "s + of_nat n"
  have sf: "bwd_safe d s (Suc (Suc (Suc (Suc n))))" "bwd_safe d s (Suc (Suc (Suc n)))"
    "bwd_safe d s (Suc (Suc n))" "bwd_safe d s (Suc n)"
    using assms(1) by (auto simp: bwd_safe_def)
  have ne: "s = d \<or> (s \<noteq> d + 1 \<and> s \<noteq> d + 2 \<and> s \<noteq> d + 3)"
    using assms(1) by (auto simp: bwd_safe_def)
  have ov: "(?s = ?d + 1) = (s = d + 1)" "(?s = ?d + 2) = (s = d + 2)" "(?s = ?d + 3) = (s = d + 3)"
    "(?s + 1 = ?d + 2) = (s = d + 1)" "(?s + 1 = ?d + 3) = (s = d + 2)" "(?s + 2 = ?d + 3) = (s = d + 1)"
    by (auto simp: algebra_simps)
  have "n + 4 = Suc (Suc (Suc (Suc n)))" by simp
  then have "copy m d s (n + 4) = copy
      (m(?d + 3 := m (?s + 3),
         ?d + 2 := (m(?d + 3 := m (?s + 3))) (?s + 2),
         ?d + 1 := (m(?d + 3 := m (?s + 3), ?d + 2 := (m(?d + 3 := m (?s + 3))) (?s + 2))) (?s + 1),
         ?d := (m(?d + 3 := m (?s + 3),
         ?d + 2 := (m(?d + 3 := m (?s + 3))) (?s + 2),
         ?d + 1 := (m(?d + 3 := m (?s + 3), ?d + 2 := (m(?d + 3 := m (?s + 3))) (?s + 2))) (?s + 1))) ?s)) d s n"
    using assms(2) sf by (simp only:) (simp add: copy_last ac_simps)
  also have "\<dots> = copy (m(?d + 3 := m (?s + 3), ?d + 2 := m (?s + 2), ?d + 1 := m (?s + 1), ?d := m ?s)) d s n"
    using ne by (elim disjE) (simp_all only: fun_upd_apply ov, simp_all)
  also have "m(?d + 3 := m (?s + 3), ?d + 2 := m (?s + 2), ?d + 1 := m (?s + 1), ?d := m ?s)
    = m(?d := m ?s, ?d + 1 := m (?s + 1), ?d + 2 := m (?s + 2), ?d + 3 := m (?s + 3))"
    by (rule ext) simp
  finally show ?thesis by (simp only: write32_read32)
qed

lemma rep_movsl_back:
  "bwd_safe d s (4 * n) \<Longrightarrow> 4 * n \<le> 2 ^ 32 \<Longrightarrow>
   rep_movsl n (- 4) m (d + of_nat (4 * n) - 4) (s + of_nat (4 * n) - 4) = copy m d s (4 * n)"
proof (induction n arbitrary: m)
  case 0
  then show ?case by simp
next
  case (Suc n)
  have "bwd_safe d s (4 * n)" using Suc.prems(1) by (rule bwd_safe_mono) simp
  then show ?case using Suc copy_last4[of d s "4 * n" m] by (simp add: add.commute)
qed

text \<open>The direction in which the block moves go is one in which no byte is overwritten before it is read.\<close>

lemma overlap_safe:
  assumes d: "unat d + unat n \<le> 2 ^ 32" and s: "unat s + unat n < 2 ^ 32"
  shows "s < d \<and> s + n > d \<Longrightarrow> bwd_safe d s (unat n)" and "\<not> (s < d \<and> s + n > d) \<Longrightarrow> fwd_safe d s (unat n)"
proof -
  assume "s < d \<and> s + n > d"
  then show "bwd_safe d s (unat n)" using d by (auto simp: bwd_safe_def unat_sub_if_size word_size word_less_nat_alt)
next
  assume a: "\<not> (s < d \<and> s + n > d)"
  have "unat (s + n) = unat s + unat n" using s by (simp add: unat_word_ariths)
  then show "fwd_safe d s (unat n)" using a s
    by (auto simp: fwd_safe_def unat_sub_if_size word_size word_less_nat_alt not_less word_unat_eq_iff)
qed

lemma memmove_copy:
  assumes d: "unat d + unat n \<le> 2 ^ 32" and s: "unat s + unat n < 2 ^ 32"
  shows "memmove m d s n = copy m d s (unat n)"
proof (cases "s < d \<and> s + n > d")
  case True
  note b = overlap_safe(1)[OF d s True]
  have l: "rep_movsl (unat (n div 4)) (- 4) m (d + n - 4) (s + n - 4) = copy m d s (unat n)"
    if "n mod 4 = 0"
    using rep_movsl_back[of d s "unat (n div 4)" m] b unat_u32_le[of n]
    by (simp only: div4_mult[OF that] of_nat_unat ucast_id)
  show ?thesis using True rep_movsb_back[OF b unat_u32_le] l
    by (simp add: memmove_def Let_def)
next
  case False
  note f = overlap_safe(2)[OF d s False]
  have l: "rep_movsl (unat (n div 4)) 4 m d s = copy m d s (unat n)" if "n mod 4 = 0"
    using rep_movsl_copy[of d s "unat (n div 4)" m] f unat_u32_le[of n] by (simp only: div4_mult[OF that])
  show ?thesis using False rep_movsb_copy[OF f unat_u32_le] l by (auto simp: memmove_def)
qed

text \<open>The block move keeps a string: what was at the source is at the destination.\<close>

lemma copy_at: "i < n \<Longrightarrow> n \<le> 2 ^ 32 \<Longrightarrow> copy m d s n (d + of_nat i) = m (s + of_nat i)"
  by (simp add: copy_def in_range_def unat_of_nat)

lemma cstr_iff:
  "cstr m s xs \<longleftrightarrow> (\<forall>i < length xs. m (s + of_nat i) = xs ! i \<and> xs ! i \<noteq> 0) \<and> m (s + of_nat (length xs)) = 0"
proof (induction xs arbitrary: s)
  case Nil
  then show ?case by simp
next
  case (Cons x xs)
  have "(\<forall>i < length (x # xs). m (s + of_nat i) = (x # xs) ! i \<and> (x # xs) ! i \<noteq> 0) \<longleftrightarrow>
    (m s = x \<and> x \<noteq> 0) \<and> (\<forall>i < length xs. m (s + 1 + of_nat i) = xs ! i \<and> xs ! i \<noteq> 0)"
    by (simp add: All_less_Suc2 ac_simps)
  then show ?case using Cons[of "s + 1"] by (simp add: ac_simps)
qed

lemma cstr_append:
  "cstr m s (xs @ ys) \<longleftrightarrow> (\<forall>i < length xs. m (s + of_nat i) = xs ! i \<and> xs ! i \<noteq> 0) \<and>
    cstr m (s + of_nat (length xs)) ys"
proof (induction xs arbitrary: s)
  case Nil
  then show ?case by simp
next
  case (Cons x xs)
  then show ?case by (auto simp: All_less_Suc2 ac_simps)
qed

lemma cstr_copy:
  assumes "cstr m s xs" "length xs < 2 ^ 32"
  shows "cstr (copy m d s (Suc (length xs))) d xs"
proof -
  have "copy m d s (Suc (length xs)) (d + of_nat i) = m (s + of_nat i)" if "i \<le> length xs" for i
    using that assms(2) by (intro copy_at) auto
  then show ?thesis using assms(1) by (simp add: cstr_iff)
qed

section \<open>Copying strings\<close>

lemma cstr_upd_before:
  assumes "cstr m (src + 1) xs" "fwd_safe dst src (Suc (Suc (length xs)))" "length xs < 2 ^ 32 - 1"
    "dst \<noteq> src \<or> v = m src"
  shows "cstr (m(dst := v)) (src + 1) xs"
proof -
  have "dst \<noteq> src + 1 + of_nat i" if "i \<le> length xs" for i
  proof
    assume e: "dst = src + 1 + of_nat i"
    then have "dst - src = of_nat (Suc i)" by simp
    then have u: "unat (dst - src) = Suc i"
      using that assms(3) by (simp add: unat_of_nat del: of_nat_Suc)
    then have "dst \<noteq> src" by auto
    then show False using assms(2) u that by (auto simp: fwd_safe_def)
  qed
  then have "(m(dst := v)) (src + 1 + of_nat i) = m (src + 1 + of_nat i)" if "i \<le> length xs" for i
    using that by (metis fun_upd_other)
  then show ?thesis using assms(1) by (simp add: cstr_iff[of _ _ xs] del: fun_upd_apply)
qed

lemma strcpy_loop_cstr:
  "cstr m src xs \<Longrightarrow> fwd_safe dst src (Suc (length xs)) \<Longrightarrow> length xs < 2 ^ 32 \<Longrightarrow>
   strcpy_loop m dst src = Some (copy m dst src (Suc (length xs)))"
proof (induction xs arbitrary: m dst src)
  case Nil
  then show ?case by (subst strcpy_loop.simps) (simp add: copy_Suc)
next
  case (Cons x xs)
  have sf: "fwd_safe (dst + 1) (src + 1) (Suc (length xs))" using fwd_safe_Suc[OF Cons.prems(2)[simplified]] .
  have "cstr (m(dst := x)) (src + 1) xs" using Cons.prems by (intro cstr_upd_before) auto
  then have "strcpy_loop (m(dst := x)) (dst + 1) (src + 1) = Some (copy (m(dst := x)) (dst + 1) (src + 1) (Suc (length xs)))"
    using Cons.IH[OF _ sf] Cons.prems(3) by simp
  then show ?case using Cons.prems by (subst strcpy_loop.simps) (simp add: copy_Suc)
qed

lemma strcpy_cstr:
  assumes "cstr m src xs" "fwd_safe dst src (Suc (length xs))" "length xs < 2 ^ 32"
  shows "\<exists>m'. strcpy m dst src = Some (m', dst) \<and> cstr m' dst xs \<and>
    (\<forall>x. \<not> in_range dst (Suc (length xs)) x \<longrightarrow> m' x = m x)"
  using strcpy_loop_cstr[OF assms] cstr_copy[OF assms(1,3), of dst]
  by (simp add: strcpy_def copy_def)

lemma strcat_cstr:
  assumes d: "cstr m dst xs" and s: "cstr m src ys"
    and sf: "fwd_safe (dst + of_nat (length xs)) src (Suc (length ys))"
    and len: "length xs + Suc (length ys) \<le> 2 ^ 32"
  shows "\<exists>m'. strcat m dst src = Some (m', dst) \<and> cstr m' dst (xs @ ys)"
proof -
  let ?e = "dst + of_nat (length xs)"
  obtain m' where m': "strcpy m ?e src = Some (m', ?e)" "cstr m' ?e ys"
    and out: "\<And>x. \<not> in_range ?e (Suc (length ys)) x \<Longrightarrow> m' x = m x"
    using strcpy_cstr[OF s sf] len by auto
  have "m' (dst + of_nat i) = m (dst + of_nat i)" if "i < length xs" for i
  proof (rule out)
    have "dst + of_nat i - ?e = of_nat i - of_nat (length xs)" by simp
    moreover have "unat (of_nat i - of_nat (length xs) :: u32) = 2 ^ 32 + i - length xs"
      using that len by (simp add: unat_sub_if_size word_size unat_of_nat)
    ultimately show "\<not> in_range ?e (Suc (length ys)) (dst + of_nat i)"
      using that len by (simp add: in_range_def)
  qed
  then have "cstr m' dst (xs @ ys)" using d m'(2) by (simp add: cstr_append cstr_iff[of m dst])
  then show ?thesis using m'(1) strlen_cstr[OF d] by (simp add: strcat_def)
qed

text \<open>
  The bounded copy stores a prefix of the source that leaves room for the terminator, and
  returns its length; it stores nothing outside the \<open>sz\<close> bytes of the destination.
\<close>

lemma strlcpy_loop_cstr:
  "cstr m src xs \<Longrightarrow> fwd_safe dst src (Suc (length xs)) \<Longrightarrow> length xs < 2 ^ 32 - 1 \<Longrightarrow> 0 < sz \<Longrightarrow>
   strlcpy_loop m dst src sz =
     (let k = min (length xs) (unat sz - 1) in
      ((copy m dst src k)(dst + of_nat k := 0), dst + of_nat k))"
proof (induction xs arbitrary: m dst src sz)
  case Nil
  then show ?case by (subst strlcpy_loop.simps) simp
next
  case (Cons x xs)
  show ?case
  proof (cases "sz > 1")
    case False
    then have "unat sz = unat (1 :: u32)" using Cons.prems(4) by (auto simp: word_less_nat_alt)
    then have "sz = 1" by (simp only: word_unat_eq_iff)
    then show ?thesis by (subst strlcpy_loop.simps) simp
  next
    case True
    let ?m = "m(dst := x)"
    have u: "unat (sz - 1) = unat sz - 1" using True by (intro unat_minus_one) auto
    have sz1: "0 < sz - 1" using True u by (simp add: word_less_nat_alt)
    have c: "cstr ?m (src + 1) xs"
      using Cons.prems by (intro cstr_upd_before) auto
    have sf: "fwd_safe (dst + 1) (src + 1) (Suc (length xs))"
      using fwd_safe_Suc[OF Cons.prems(2)[simplified]] .
    define k where "k = min (length xs) (unat (sz - 1) - 1)"
    have k: "min (length (x # xs)) (unat sz - 1) = Suc k"
      using u sz1 True by (auto simp: k_def word_less_nat_alt min_def)
    have l: "length xs < 2 ^ 32 - 1" using Cons.prems(3) by simp
    have kl: "k \<le> length xs" by (simp add: k_def)
    have "strlcpy_loop m dst src sz = strlcpy_loop ?m (dst + 1) (src + 1) (sz - 1)"
      using True Cons.prems(1) by (subst strlcpy_loop.simps) simp
    also have "\<dots> = ((copy ?m (dst + 1) (src + 1) k)(dst + 1 + of_nat k := 0), dst + 1 + of_nat k)"
      using Cons.IH[OF c sf l sz1] by (simp only: k_def Let_def)
    also have "copy ?m (dst + 1) (src + 1) k = copy m dst src (Suc k)"
      using Cons.prems kl by (subst copy_Suc) (auto intro: fwd_safe_mono)
    finally show ?thesis unfolding k Let_def of_nat_Suc add.assoc .
  qed
qed

lemma strlcpy_cstr:
  assumes "cstr m src xs" "fwd_safe dst src (Suc (length xs))" "length xs < 2 ^ 32 - 1" "0 < sz"
  shows "case strlcpy m dst src sz of (m', r) \<Rightarrow>
    unat r = min (length xs) (unat sz - 1) \<and> cstr m' dst (take (unat sz - 1) xs) \<and>
    (\<forall>x. \<not> in_range dst (unat sz) x \<longrightarrow> m' x = m x)"
proof -
  define k where "k = min (length xs) (unat sz - 1)"
  have sz: "0 < unat sz" using assms(4) by (simp add: word_less_nat_alt)
  have kl: "k < unat sz" using sz by (auto simp: k_def)
  then have kl2: "k < 4294967296" by (rule less_trans) simp
  have uk: "unat (of_nat k :: u32) = k" using kl2 by (simp add: unat_of_nat)
  have tk: "take (unat sz - 1) xs = take k xs" by (simp add: k_def min_def)
  have lt: "length (take k xs) = k" by (simp add: k_def)
  let ?m = "(copy m dst src k)(dst + of_nat k := 0)"
  have "?m (dst + of_nat i) = m (src + of_nat i)" if "i < k" for i
  proof -
    have "dst + of_nat i \<noteq> dst + of_nat k"
    proof
      assume "dst + of_nat i = dst + of_nat k"
      then have "unat (of_nat i :: u32) = k" using uk by simp
      then show False using that kl2 by (simp add: unat_of_nat)
    qed
    then show ?thesis using that kl2 copy_at[of i k m dst src] by simp
  qed
  then have c: "cstr ?m dst (take k xs)"
    using assms(1) unfolding cstr_iff lt by (auto simp: k_def)
  have out: "?m x = m x" if "\<not> in_range dst (unat sz) x" for x
  proof -
    have "\<not> in_range dst k x" "x \<noteq> dst + of_nat k"
      using that kl uk by (auto simp: in_range_def)
    then show ?thesis by (simp add: copy_def)
  qed
  have "strlcpy m dst src sz = (?m, of_nat k)"
    using strlcpy_loop_cstr[OF assms, folded k_def] assms(4) by (simp add: strlcpy_def)
  then show ?thesis unfolding k_def[symmetric] tk using c out uk by (simp del: fun_upd_apply)
qed

section \<open>Reading numbers\<close>

lemma strtol_digits_run:
  "(\<forall>i < length xs. m (s + of_nat i) = xs ! i) \<Longrightarrow>
   (\<forall>x \<in> set xs. \<exists>d. digit_value x = Some d \<and> d < base) \<Longrightarrow>
   (case digit_value (m (s + of_nat (length xs))) of None \<Rightarrow> True | Some d \<Rightarrow> d \<ge> base) \<Longrightarrow>
   strtol_digits m s base v = Some (digits_value base v xs, s + of_nat (length xs))"
proof (induction xs arbitrary: s v)
  case Nil
  then show ?case by (subst strtol_digits.simps) (auto simp: digits_value_def split: option.splits)
next
  case (Cons x xs)
  have x: "m s = x" using Cons.prems(1) by (auto dest: spec[of _ 0])
  have "strtol_digits m (s + 1) base w = Some (digits_value base w xs, s + 1 + of_nat (length xs))" for w
    using Cons.prems by (intro Cons.IH) (auto simp: All_less_Suc2 ac_simps)
  then show ?case using Cons.prems(2) x by (subst strtol_digits.simps) (auto simp: digits_value_def ac_simps)
qed

section \<open>Properties\<close>

text \<open>
  \<open>memmove\<close> copies as if through a buffer, whichever way the ranges overlap and whether it
  moves words or bytes, upwards or downwards: every byte of the destination range gets the old
  byte of the source range and no other byte changes, for ranges that do not wrap around.
\<close>

theorem memmove_exact:
  assumes "unat d + unat n \<le> 2 ^ 32" "unat s + unat n < 2 ^ 32"
  shows "memmove m d s n x = (if in_range d (unat n) x then m (s + (x - d)) else m x)"
  using memmove_copy[OF assms] by (simp add: copy_def)

theorem memmove_exact_witness:
  "memmove (\<lambda>a. ucast a) 0x102 0x100 8 0x103 = 1 \<and> memmove (\<lambda>a. ucast a) 0x102 0x100 8 0x109 = 7"
  using memmove_exact[of "0x102" 8 "0x100" "\<lambda>a. ucast a" "0x103"]
    memmove_exact[of "0x102" 8 "0x100" "\<lambda>a. ucast a" "0x109"]
  by (simp add: in_range_def)

text \<open>
  \<open>memset\<close> fills exactly the range, through its word loop and through its byte loop.
\<close>

theorem memset_exact: "memset m v c n x = (if in_range v (unat n) x then ucast c else m x)"
  by (simp add: memset_fill fill_def)

text \<open>
  \<open>strlcpy\<close> never writes outside the \<open>sz\<close> bytes it is given, always leaves a terminated
  string, the longest prefix of the source that fits, and returns its length.
\<close>

theorem strlcpy_bounded:
  assumes "cstr m src xs" "fwd_safe dst src (Suc (length xs))" "length xs < 2 ^ 32 - 1" "0 < sz"
  shows "case strlcpy m dst src sz of (m', r) \<Rightarrow>
    unat r = min (length xs) (unat sz - 1) \<and> cstr m' dst (take (unat sz - 1) xs) \<and>
    (\<forall>x. \<not> in_range dst (unat sz) x \<longrightarrow> m' x = m x)"
  by (rule strlcpy_cstr[OF assms])

theorem strlcpy_bounded_witness:
  "case strlcpy (\<lambda>a. if a = 0x10 then 65 else if a = 0x11 then 66 else 0) 0x20 0x10 2 of (m', r) \<Rightarrow>
    unat r = 1 \<and> cstr m' 0x20 [65]"
  using strlcpy_bounded[of "\<lambda>a. if a = 0x10 then 65 else if a = 0x11 then 66 else 0" "0x10" "[65, 66]" "0x20" 2]
  by (auto simp: fwd_safe_def)

text \<open>
  On strings, \<open>strcmp\<close> returns, and its sign is the lexicographic order of the unsigned
  bytes; \<open>strlen\<close> returns the length.
\<close>

theorem strcmp_orders:
  assumes "cstr m p xs" "cstr m q ys"
  shows "strlen m p = Some (of_nat (length xs)) \<and>
    (\<exists>r. strcmp m p q = Some r \<and> (r = 0 \<longleftrightarrow> xs = ys) \<and> (r < 0 \<longleftrightarrow> xs < ys))"
  using strlen_cstr[OF assms(1)] strcmp_cstr[OF assms] by simp

theorem strcmp_orders_witness:
  "\<exists>r. strcmp (\<lambda>a. if a = 0x10 then 65 else if a = 0x20 then 200 else 0) 0x10 0x20 = Some r \<and> r < 0"
  using strcmp_orders[of "\<lambda>a. if a = 0x10 then 65 else if a = 0x20 then 200 else 0" "0x10" "[65]" "0x20" "[200]"]
  by auto

section \<open>The portable block operations\<close>

text \<open>
  The versions of \<^verbatim>\<open>memset\<close> and \<^verbatim>\<open>memmove\<close> that are compiled without \<^verbatim>\<open>ASM\<close>. The counter of \<^verbatim>\<open>memset\<close> is a signed integer.
\<close>

function memset_loop :: "mem \<Rightarrow> u32 \<Rightarrow> u8 \<Rightarrow> int \<Rightarrow> mem" where
  "memset_loop mm p c m = (if m - 1 \<ge> 0 then memset_loop (mm(p := c)) (p + 1) c (m - 1) else mm)"
  by pat_completeness auto
termination
  by (relation "measure (\<lambda>(mm, p, c, m). nat m)") auto

declare memset_loop.simps [simp del]

definition memset_c :: "mem \<Rightarrow> u32 \<Rightarrow> u32 \<Rightarrow> u32 \<Rightarrow> mem" where
  "memset_c m v c n = memset_loop m v (ucast c) (sint n)"

function move_up :: "mem \<Rightarrow> u32 \<Rightarrow> u32 \<Rightarrow> u32 \<Rightarrow> mem" where
  "move_up m d s n = (if n > 0 then move_up (m(d := m s)) (d + 1) (s + 1) (n - 1) else m)"
  by pat_completeness auto
termination
  by (relation "measure (\<lambda>(m, d, s, n). unat n)") (auto simp: word_gt_0 unat_dec_less)

function move_down :: "mem \<Rightarrow> u32 \<Rightarrow> u32 \<Rightarrow> u32 \<Rightarrow> mem" where
  "move_down m d s n = (if n > 0 then move_down (m(d - 1 := m (s - 1))) (d - 1) (s - 1) (n - 1) else m)"
  by pat_completeness auto
termination
  by (relation "measure (\<lambda>(m, d, s, n). unat n)") (auto simp: word_gt_0 unat_dec_less)

declare move_up.simps [simp del] move_down.simps [simp del]

definition memmove_c :: "mem \<Rightarrow> u32 \<Rightarrow> u32 \<Rightarrow> u32 \<Rightarrow> mem" where
  "memmove_c m dst src n =
     (if src < dst \<and> src + n > dst then move_down m (dst + n) (src + n) n else move_up m dst src n)"

lemma memset_loop_rep: "memset_loop m p c (int k) = rep_stosb k m p c"
  by (induction k arbitrary: m p) (simp_all add: memset_loop.simps)

lemma unat_minus_1: "unat (n :: u32) = Suc k \<Longrightarrow> 0 < n \<and> unat (n - 1) = k"
  using unat_minus_one[of n] by (cases "n = 0") (auto simp: word_gt_0)

lemma move_up_rep: "unat n = k \<Longrightarrow> move_up m d s n = rep_movsb k 1 m d s"
proof (induction k arbitrary: m d s n)
  case 0
  then show ?case by (simp add: move_up.simps word_gt_0 unat_eq_zero)
next
  case (Suc k)
  then show ?case using unat_minus_1[of n k] by (subst move_up.simps) (simp add: fun_upd_def)
qed

lemma move_down_rep: "unat n = k \<Longrightarrow> move_down m d s n = rep_movsb k (- 1) m (d - 1) (s - 1)"
proof (induction k arbitrary: m d s n)
  case 0
  then show ?case by (simp add: move_down.simps word_gt_0 unat_eq_zero)
next
  case (Suc k)
  then show ?case using unat_minus_1[of n k] by (subst move_down.simps) (simp add: fun_upd_def)
qed

lemma memmove_c_copy:
  assumes "unat d + unat n \<le> 2 ^ 32" "unat s + unat n < 2 ^ 32"
  shows "memmove_c m d s n = copy m d s (unat n)"
  using rep_movsb_back[OF overlap_safe(1)[OF assms] unat_u32_le, of m] rep_movsb_copy[OF overlap_safe(2)[OF assms] unat_u32_le, of m]
    move_down_rep[OF refl, of m "d + n" "s + n" n] move_up_rep[OF refl, of m d s n]
  by (cases "s < d \<and> s + n > d") (auto simp: memmove_c_def)

text \<open>
  C23. The portable versions of the block operations do what the optimised ones do: \<open>memmove\<close> on all ranges that do not wrap around, however they
  overlap, and \<open>memset\<close> for sizes below 2 GB, with any alignment. Above 2 GB the counter of the portable
  \<open>memset\<close> starts below zero and it writes nothing.
\<close>

theorem portable_equivalent:
  "(unat d + unat n \<le> 2 ^ 32 \<and> unat s + unat n < 2 ^ 32 \<longrightarrow> memmove_c m d s n = memmove m d s n) \<and>
   (0 \<le> sint n \<longrightarrow> memset_c m d c n = memset m d c n) \<and> (- (2 ^ 31) < sint n \<and> sint n < 0 \<longrightarrow> memset_c m d c n = m)"
proof (intro conjI impI)
  show "memmove_c m d s n = memmove m d s n" if "unat d + unat n \<le> 2 ^ 32 \<and> unat s + unat n < 2 ^ 32"
    using memmove_c_copy[of d n s m] memmove_copy[of d n s m] that by simp
  show "memset_c m d c n = m" if "- (2 ^ 31) < sint n \<and> sint n < 0" using that by (simp add: memset_c_def memset_loop.simps)
  show "memset_c m d c n = memset m d c n" if "0 \<le> sint n"
  proof -
    have "uint n = take_bit 32 (sint n)" using uint_sint[of n] by simp
    also have "\<dots> = sint n" using that sint_lt[of n] by (intro take_bit_int_eq_self) simp_all
    finally have "sint n = int (unat n)" by simp
    then have "memset_c m d c n = fill m d (ucast c) (unat n)"
      using memset_loop_rep[of m d "ucast c" "unat n"] rep_stosb_fill[of "unat n" m d "ucast c"] by (simp add: memset_c_def less_imp_le)
    then show ?thesis using memset_exact[of m d c n] by (auto simp: fill_def fun_eq_iff)
  qed
qed

theorem portable_equivalent_witness:
  "memmove_c (\<lambda>a. ucast a) 0x102 0x100 7 = memmove (\<lambda>a. ucast a) 0x102 0x100 7 \<and> memset_c (\<lambda>_. 0) 0x100 1 8 = memset (\<lambda>_. 0) 0x100 1 8"
  using portable_equivalent[of "0x102" 7 "0x100" "\<lambda>a. ucast a"] portable_equivalent[of "0x100" 8 _ "\<lambda>_. 0" 1] by simp

end
