(* ===== verification/Picirq.thy ===== *)
theory Picirq
  imports Jos_Prelude
begin

text \<open>
  Port output, the record of what the kernel prints, and the interrupt controllers of \<^verbatim>\<open>kern/picirq.c\<close>.
  The record is the first part of the kernel state: the console and the kernel extend it.
\<close>

text \<open>
  An argument of a print function: an \<^verbatim>\<open>int\<close> or pointer, a \<^verbatim>\<open>long long\<close>, a string, a null pointer. What the kernel printed
  is kept as the format with its arguments.
\<close>

datatype parg = PInt u32 | PLong u64 | PStr string | PNull

record pic =
  irq_mask_8259A :: u16
  didinit :: bool
  outs :: "(u16 \<times> u8) list"
  klog :: "(string \<times> parg list) list"

definition cprintf :: "string \<Rightarrow> parg list \<Rightarrow> ('a pic_scheme, unit) kernel" where
  "cprintf fmt args = kmodify (\<lambda>s. s\<lparr>klog := klog s @ [(fmt, args)]\<rparr>)"

definition outb :: "u16 \<Rightarrow> u8 \<Rightarrow> ('a pic_scheme, unit) kernel" where
  "outb port v = kmodify (\<lambda>s. s\<lparr>outs := outs s @ [(port, v)]\<rparr>)"

definition outbs :: "(u16 \<times> u8) list \<Rightarrow> ('a pic_scheme, unit) kernel" where
  "outbs pvs = kfor pvs (\<lambda>(p, v). outb p v)"

definition IRQ_OFFSET :: u32 where [simp, layout_defs]: "IRQ_OFFSET = 32"
definition IRQ_SPURIOUS :: u32 where [simp, layout_defs]: "IRQ_SPURIOUS = 7"
definition IRQ_KBD :: nat where [simp, layout_defs]: "IRQ_KBD = 1"
definition IRQ_SLAVE :: nat where [simp, layout_defs]: "IRQ_SLAVE = 2"
definition IO_PIC1 :: u16 where [simp, layout_defs]: "IO_PIC1 = 0x20"
definition IO_PIC2 :: u16 where [simp, layout_defs]: "IO_PIC2 = 0xA0"

definition irq_setmask_8259A :: "u16 \<Rightarrow> ('a pic_scheme, unit) kernel" where
  "irq_setmask_8259A m =
     kseq (kmodify (\<lambda>s. s\<lparr>irq_mask_8259A := m\<rparr>))
     (kbind (kget didinit) (\<lambda>i. kwhen i
       (kseq (outb (IO_PIC1 + 1) (ucast m))
       (kseq (outb (IO_PIC2 + 1) (ucast (drop_bit 8 m)))
       (kseq (cprintf ''enabled interrupts:'' [])
       (kseq (kfor [0..<16] (\<lambda>i. kwhen (bit (NOT m) i) (cprintf '' %d'' [PInt (of_nat i)])))
       (cprintf ''\<newline>'' [])))))))"

definition pic_init :: "('a pic_scheme, unit) kernel" where
  "pic_init =
     kseq (kmodify (\<lambda>s. s\<lparr>didinit := True\<rparr>))
     (kseq (outbs [(IO_PIC1 + 1, 0xFF), (IO_PIC2 + 1, 0xFF),
        (IO_PIC1, 0x11), (IO_PIC1 + 1, ucast IRQ_OFFSET), (IO_PIC1 + 1, push_bit IRQ_SLAVE 1), (IO_PIC1 + 1, 0x3),
        (IO_PIC2, 0x11), (IO_PIC2 + 1, ucast (IRQ_OFFSET + 8)), (IO_PIC2 + 1, of_nat IRQ_SLAVE), (IO_PIC2 + 1, 0x01),
        (IO_PIC1, 0x68), (IO_PIC1, 0x0a), (IO_PIC2, 0x68), (IO_PIC2, 0x0a)])
     (kbind (kget irq_mask_8259A) (\<lambda>m. kwhen (m \<noteq> 0xFFFF) (irq_setmask_8259A m))))"

section \<open>The masks of the two controllers\<close>

text \<open>The last byte written to a port.\<close>

definition last_out :: "(u16 \<times> u8) list \<Rightarrow> u16 \<Rightarrow> u8 option" where
  "last_out os p = map_of (rev os) p"

lemma last_out_snoc [simp]: "last_out (os @ [(q, v)]) p = (if q = p then Some v else last_out os p)"
  by (simp add: last_out_def)

lemma last_out_append: "last_out (os @ qs) p = (case last_out qs p of None \<Rightarrow> last_out os p | Some v \<Rightarrow> Some v)"
  by (simp add: last_out_def map_add_def split: option.splits)

lemma cprintf_apply [simp]: "cprintf fmt args s = Returns () (s\<lparr>klog := klog s @ [(fmt, args)]\<rparr>)"
  by (simp add: cprintf_def)

lemma outb_apply [simp]: "outb p v s = Returns () (s\<lparr>outs := outs s @ [(p, v)]\<rparr>)"
  by (simp add: outb_def)

lemma outbs_apply [simp]: "outbs pvs s = Returns () (s\<lparr>outs := outs s @ pvs\<rparr>)"
proof (induction pvs arbitrary: s)
  case Nil
  show ?case by (simp add: outbs_def)
next
  case (Cons x pvs)
  then show ?case by (cases x) (simp add: outbs_def)
qed

text \<open>Printing changes only the record of what was printed.\<close>

lemma kfor_cprintf:
  "\<exists>l. kfor is (\<lambda>i. kwhen (P i) (cprintf fmt (args i))) s = Returns () (s\<lparr>klog := klog s @ l\<rparr>)"
proof (induction "is" arbitrary: s)
  case Nil
  show ?case by (rule exI[of _ "[]"]) simp
next
  case (Cons i "is")
  show ?case
  proof (cases "P i")
    case True
    obtain l where "kfor is (\<lambda>i. kwhen (P i) (cprintf fmt (args i))) (s\<lparr>klog := klog s @ [(fmt, args i)]\<rparr>)
      = Returns () (s\<lparr>klog := klog s @ [(fmt, args i)]\<rparr>\<lparr>klog := klog (s\<lparr>klog := klog s @ [(fmt, args i)]\<rparr>) @ l\<rparr>)"
      using Cons.IH by blast
    moreover have "kwhen (P i) (cprintf fmt (args i)) s = Returns () (s\<lparr>klog := klog s @ [(fmt, args i)]\<rparr>)"
      using True by simp
    ultimately show ?thesis by (intro exI[of _ "(fmt, args i) # l"]) (simp only: kfor.simps kseq_Returns, simp)
  next
    case False
    then have "kwhen (P i) (cprintf fmt (args i)) s = Returns () s" by simp
    then show ?thesis using Cons.IH[of s] by (simp only: kfor.simps kseq_Returns)
  qed
qed

lemma irq_setmask_ok:
  assumes "didinit s"
  shows "\<exists>l. irq_setmask_8259A m s = Returns () (s\<lparr>irq_mask_8259A := m,
    outs := outs s @ [(IO_PIC1 + 1, ucast m), (IO_PIC2 + 1, ucast (drop_bit 8 m))], klog := l\<rparr>)"
proof -
  let ?t = "s\<lparr>irq_mask_8259A := m, outs := outs s @ [(IO_PIC1 + 1, ucast m), (IO_PIC2 + 1, ucast (drop_bit 8 m))],
    klog := klog s @ [(''enabled interrupts:'', [])]\<rparr>"
  obtain l where "kfor [0..<16] (\<lambda>i. kwhen (bit (NOT m) i) (cprintf '' %d'' [PInt (of_nat i)])) ?t
    = Returns () (?t\<lparr>klog := klog ?t @ l\<rparr>)"
    using kfor_cprintf[of "[0..<16]" "\<lambda>i. bit (NOT m) i" "'' %d''" "\<lambda>i. [PInt (of_nat i)]" ?t] by blast
  then show ?thesis using assms
    by (intro exI[of _ "klog ?t @ l @ [(''\<newline>'', [])]"])
      (simp add: irq_setmask_8259A_def del: kfor.simps upt_rec_numeral upt_Suc)
qed

lemma pic_init_ok:
  "\<exists>os l. pic_init s = Returns () (s\<lparr>didinit := True, outs := outs s @ os, klog := l\<rparr>) \<and>
    (irq_mask_8259A s \<noteq> 0xFFFF \<longrightarrow> last_out os (IO_PIC1 + 1) = Some (ucast (irq_mask_8259A s)) \<and>
      last_out os (IO_PIC2 + 1) = Some (ucast (drop_bit 8 (irq_mask_8259A s))))"
proof -
  let ?m = "irq_mask_8259A s"
  let ?os = "[(IO_PIC1 + 1, 0xFF), (IO_PIC2 + 1, 0xFF),
        (IO_PIC1, 0x11), (IO_PIC1 + 1, ucast IRQ_OFFSET), (IO_PIC1 + 1, push_bit IRQ_SLAVE 1), (IO_PIC1 + 1, 0x3),
        (IO_PIC2, 0x11), (IO_PIC2 + 1, ucast (IRQ_OFFSET + 8)), (IO_PIC2 + 1, of_nat IRQ_SLAVE), (IO_PIC2 + 1, 0x01),
        (IO_PIC1, 0x68), (IO_PIC1, 0x0a), (IO_PIC2, 0x68), (IO_PIC2, 0x0a)] :: (u16 \<times> u8) list"
  show ?thesis
  proof (cases "?m = 0xFFFF")
    case True
    then show ?thesis by (intro exI[of _ ?os] exI[of _ "klog s"]) (simp add: pic_init_def del: IO_PIC1_def)
  next
    case False
    obtain l where l: "irq_setmask_8259A ?m (s\<lparr>didinit := True, outs := outs s @ ?os\<rparr>) = Returns ()
      (s\<lparr>didinit := True, outs := outs s @ ?os\<rparr>\<lparr>irq_mask_8259A := ?m,
        outs := outs (s\<lparr>didinit := True, outs := outs s @ ?os\<rparr>) @ [(IO_PIC1 + 1, ucast ?m), (IO_PIC2 + 1, ucast (drop_bit 8 ?m))],
        klog := l\<rparr>)"
      using irq_setmask_ok[of "s\<lparr>didinit := True, outs := outs s @ ?os\<rparr>" ?m] by auto
    show ?thesis
      by (intro exI[of _ "?os @ [(IO_PIC1 + 1, ucast ?m), (IO_PIC2 + 1, ucast (drop_bit 8 ?m))]"] exI[of _ l])
        (use l False in \<open>simp add: pic_init_def last_out_append last_out_def\<close>)
  qed
qed

text \<open>
  Initialising the controllers and then setting a mask leaves in the two mask registers exactly
  the two halves of the mask the kernel remembers; before initialisation a mask is remembered and no port is
  touched, and initialisation later writes it out.
\<close>

theorem pic_masks_agree:
  "\<exists>t u. pic_init s = Returns () t \<and> irq_setmask_8259A m t = Returns () u \<and> irq_mask_8259A u = m \<and>
     last_out (outs u) (IO_PIC1 + 1) = Some (ucast m) \<and> last_out (outs u) (IO_PIC2 + 1) = Some (ucast (drop_bit 8 m)) \<and>
     (irq_mask_8259A s \<noteq> 0xFFFF \<longrightarrow>
       last_out (outs t) (IO_PIC1 + 1) = Some (ucast (irq_mask_8259A s)) \<and>
       last_out (outs t) (IO_PIC2 + 1) = Some (ucast (drop_bit 8 (irq_mask_8259A s)))) \<and>
     (\<not> didinit s \<longrightarrow> irq_setmask_8259A m s = Returns () (s\<lparr>irq_mask_8259A := m\<rparr>))"
proof -
  obtain os l where t: "pic_init s = Returns () (s\<lparr>didinit := True, outs := outs s @ os, klog := l\<rparr>)"
    "irq_mask_8259A s \<noteq> 0xFFFF \<longrightarrow> last_out os (IO_PIC1 + 1) = Some (ucast (irq_mask_8259A s)) \<and>
      last_out os (IO_PIC2 + 1) = Some (ucast (drop_bit 8 (irq_mask_8259A s)))"
    using pic_init_ok by blast
  let ?t = "s\<lparr>didinit := True, outs := outs s @ os, klog := l\<rparr>"
  obtain k where u: "irq_setmask_8259A m ?t = Returns () (?t\<lparr>irq_mask_8259A := m,
    outs := outs ?t @ [(IO_PIC1 + 1, ucast m), (IO_PIC2 + 1, ucast (drop_bit 8 m))], klog := k\<rparr>)"
    using irq_setmask_ok[of ?t m] by auto
  have n: "irq_setmask_8259A m s = Returns () (s\<lparr>irq_mask_8259A := m\<rparr>)" if "\<not> didinit s"
    using that by (simp add: irq_setmask_8259A_def)
  show ?thesis
    by (rule exI[of _ ?t], intro exI conjI, rule t(1), rule u)
      (use t(2) n in \<open>auto simp: last_out_append last_out_def\<close>)
qed

theorem pic_masks_agree_witness:
  "\<exists>t u. pic_init \<lparr>irq_mask_8259A = 0xFFFB, didinit = False, outs = [], klog = []\<rparr> = Returns () t \<and>
     irq_setmask_8259A 0xFFF9 t = Returns () u \<and> irq_mask_8259A u = 0xFFF9 \<and>
     last_out (outs u) (IO_PIC1 + 1) = Some 0xF9 \<and> last_out (outs t) (IO_PIC1 + 1) = Some 0xFB"
  using pic_masks_agree[where s = "\<lparr>irq_mask_8259A = 0xFFFB, didinit = False, outs = [], klog = []\<rparr>" and m = "0xFFF9"] by auto

end
