(* ===== verification/Console.thy ===== *)
theory Console
  imports Picirq
begin

text \<open>
  The console \<^verbatim>\<open>kern/console.c\<close>: the serial line, the parallel port, the CGA screen, the keyboard with its
  scan code tables, the input buffer they share, and \<^verbatim>\<open>lib/readline.c\<close> on top of it. The bytes that wait in a
  device are lists; bytes that arrive later are not modelled, so that a loop that polls devices which have
  nothing more to give spins forever. Waiting for a transmitter to become ready, which is bounded
  and has no effect, is left out.
\<close>

section \<open>The state\<close>

definition CONSBUFSIZE :: nat where [simp, layout_defs]: "CONSBUFSIZE = 512"
definition CRT_ROWS :: nat where [simp, layout_defs]: "CRT_ROWS = 25"
definition CRT_COLS :: nat where [simp, layout_defs]: "CRT_COLS = 80"
definition CRT_SIZE :: nat where [simp, layout_defs]: "CRT_SIZE = CRT_ROWS * CRT_COLS"
definition MONO_BASE :: u16 where [simp, layout_defs]: "MONO_BASE = 0x3B4"
definition CGA_BASE :: u16 where [simp, layout_defs]: "CGA_BASE = 0x3D4"
definition COM1 :: u16 where [simp, layout_defs]: "COM1 = 0x3F8"

text \<open>
  A byte in the keyboard controller comes with its error bit (\<^verbatim>\<open>KBS_TERR\<close>). \<open>com_present\<close> and \<open>cga_present\<close> say
  whether the hardware is there, \<open>crtc_cursor\<close> is the cursor register of the display. \<open>crt_buf\<close> is the memory at the address of the screen by
  16-bit position, of which the screen is the first \<open>CRT_SIZE\<close> cells; a store at a position beyond them changes other memory.
\<close>

record console = pic +
  com_present :: bool
  com_rx :: "u8 list"
  serial_exists :: bool
  kbd_in :: "(bool \<times> u8) list"
  kbd_shift :: u32
  cga_present :: bool
  crtc_cursor :: u16
  addr_6845 :: u16
  crt_buf :: "u16 \<Rightarrow> u16"
  crt_pos :: u16
  cons_buf :: "u8 list"
  cons_rpos :: nat
  cons_wpos :: nat

type_synonym ('a, 'b) con = "('a console_scheme, 'b) kernel"

definition byte :: "char \<Rightarrow> u8" where
  "byte c = of_char c"

section \<open>Serial and parallel output\<close>

definition serial_proc_data :: "('a, int) con" where
  "serial_proc_data = (\<lambda>s. case com_rx s of [] \<Rightarrow> Returns (-1) s | b # bs \<Rightarrow> Returns (uint b) (s\<lparr>com_rx := bs\<rparr>))"

definition serial_putc :: "u32 \<Rightarrow> ('a, unit) con" where
  "serial_putc c = outb COM1 (ucast c)"

definition serial_init :: "('a, unit) con" where
  "serial_init =
     kseq (outbs [(COM1 + 2, 0), (COM1 + 3, 0x80), (COM1, 12), (COM1 + 1, 0), (COM1 + 3, 0x03), (COM1 + 4, 0), (COM1 + 1, 0x01)])
     (kmodify (\<lambda>s. s\<lparr>serial_exists := com_present s, com_rx := drop 1 (com_rx s)\<rparr>))"

definition lpt_putc :: "u32 \<Rightarrow> ('a, unit) con" where
  "lpt_putc c = outbs [(0x378, ucast c), (0x37A, 0x0D), (0x37A, 0x08)]"

section \<open>The display\<close>

definition cga_init :: "('a, unit) con" where
  "cga_init =
     kseq (kmodify (\<lambda>s. s\<lparr>addr_6845 := (if cga_present s then CGA_BASE else MONO_BASE)\<rparr>))
     (kbind (kget addr_6845) (\<lambda>a.
      kseq (outbs [(a, 14), (a, 15)])
      (kmodify (\<lambda>s. s\<lparr>crt_pos := crtc_cursor s\<rparr>))))"

text \<open>When the position leaves the screen, everything moves up by one row.\<close>

definition cga_scroll :: "('a, unit) con" where
  "cga_scroll = kmodify (\<lambda>s. if crt_pos s \<ge> of_nat CRT_SIZE
     then s\<lparr>crt_buf := (\<lambda>i. if i < of_nat (CRT_SIZE - CRT_COLS) then crt_buf s (i + of_nat CRT_COLS)
          else if i < of_nat CRT_SIZE then 0x0720 else crt_buf s i),
        crt_pos := crt_pos s - of_nat CRT_COLS\<rparr> else s)"

definition cga_cursor :: "('a, unit) con" where
  "cga_cursor = kbind (kget addr_6845) (\<lambda>a. kbind (kget crt_pos) (\<lambda>p.
     kseq (outbs [(a, 14), (a + 1, ucast (drop_bit 8 p)), (a, 15), (a + 1, ucast p)])
     (kmodify (\<lambda>s. s\<lparr>crtc_cursor := p\<rparr>))))"

text \<open>
  \<open>cga_put\<close> is \<^verbatim>\<open>cga_putc\<close> with the effect of a tab as an argument: a tab prints five blanks through
  \<^verbatim>\<open>cons_putc\<close>, which calls \<^verbatim>\<open>cga_putc\<close> again, and a blank is not a tab.
\<close>

definition cga_put :: "('a, unit) con \<Rightarrow> u32 \<Rightarrow> ('a, unit) con" where
  "cga_put tab c0 =
     (let c = (if c0 AND NOT 0xFF = 0 then c0 OR 0x0700 else c0); low = ucast c :: u8 in
      kseq (if low = 8 then
              kmodify (\<lambda>s. if crt_pos s > 0 then s\<lparr>crt_pos := crt_pos s - 1,
                crt_buf := (crt_buf s)(crt_pos s - 1 := ucast ((c AND NOT 0xFF) OR 0x20))\<rparr> else s)
            else if low = 10 then
              kmodify (\<lambda>s. let p = crt_pos s + of_nat CRT_COLS in s\<lparr>crt_pos := p - p mod of_nat CRT_COLS\<rparr>)
            else if low = 13 then
              kmodify (\<lambda>s. s\<lparr>crt_pos := crt_pos s - crt_pos s mod of_nat CRT_COLS\<rparr>)
            else if low = 9 then tab
            else kmodify (\<lambda>s. s\<lparr>crt_buf := (crt_buf s)(crt_pos s := ucast c), crt_pos := crt_pos s + 1\<rparr>))
      (kseq cga_scroll cga_cursor))"

definition cons_blank :: "('a, unit) con" where
  "cons_blank = kseq (serial_putc 0x20) (kseq (lpt_putc 0x20) (cga_put (kret ()) 0x20))"

definition cga_putc :: "u32 \<Rightarrow> ('a, unit) con" where
  "cga_putc c = cga_put (kfor [0..<5] (\<lambda>_ :: nat. cons_blank)) c"

definition cons_putc :: "u32 \<Rightarrow> ('a, unit) con" where
  "cons_putc c = kseq (serial_putc c) (kseq (lpt_putc c) (cga_putc c))"

section \<open>The keyboard\<close>

definition K_SHIFT :: u32 where [simp, layout_defs]: "K_SHIFT = 1"
definition K_CTL :: u32 where [simp, layout_defs]: "K_CTL = 2"
definition K_ALT :: u32 where [simp, layout_defs]: "K_ALT = 4"
definition K_CAPSLOCK :: u32 where [simp, layout_defs]: "K_CAPSLOCK = 8"
definition K_NUMLOCK :: u32 where [simp, layout_defs]: "K_NUMLOCK = 16"
definition K_SCROLLLOCK :: u32 where [simp, layout_defs]: "K_SCROLLLOCK = 32"
definition K_E0ESC :: u32 where [simp, layout_defs]: "K_E0ESC = 64"
definition KEY_DEL :: u8 where [simp, layout_defs]: "KEY_DEL = 0xE9"

text \<open>A table of 256 entries: its first entries in order, then entries by index, the rest 0.\<close>

definition key_table :: "'v list \<Rightarrow> (nat \<times> 'v) list \<Rightarrow> 'v :: zero list" where
  "key_table xs ivs = fold (\<lambda>(i, v) t. t[i := v]) ivs (xs @ replicate (256 - length xs) 0)"

definition shiftcode :: "u32 list" where
  "shiftcode = key_table [] [(0x1D, K_CTL), (0x2A, K_SHIFT), (0x36, K_SHIFT), (0x38, K_ALT), (0x9D, K_CTL), (0xB8, K_ALT)]"

definition togglecode :: "u32 list" where
  "togglecode = key_table [] [(0x3A, K_CAPSLOCK), (0x45, K_NUMLOCK), (0x46, K_SCROLLLOCK)]"

text \<open>The keys behind an escape, which the normal and the shifted map share.\<close>

definition escaped_keys :: "(nat \<times> u8) list" where
  "escaped_keys = [(0xC7, 0xE0), (0x9C, 10), (0xB5, 0x2F), (0xC8, 0xE2), (0xC9, 0xE6), (0xCB, 0xE4),
     (0xCD, 0xE5), (0xCF, 0xE1), (0xD0, 0xE3), (0xD1, 0xE7), (0xD2, 0xE8), (0xD3, KEY_DEL)]"

definition keypad :: "u8 list" where
  "keypad = [0, 0x20, 0, 0, 0, 0, 0, 0, 0, 0, 0, 0, 0, 0, 0] @ map byte ''789-456+1230.''"

definition normalmap :: "u8 list" where
  "normalmap = key_table ([0, 0x1B] @ map byte ''1234567890-='' @ [8, 9] @ map byte ''qwertyuiop[]'' @ [10, 0]
     @ map byte ''asdfghjkl;'' @ [0x27, 0x60, 0, 0x5C] @ map byte ''zxcvbnm,./'' @ [0, byte (CHR ''*'')] @ keypad) escaped_keys"

definition shiftmap :: "u8 list" where
  "shiftmap = key_table ([0, 0x1B] @ map byte ''!@#$%^&*()_+'' @ [8, 9] @ map byte ''QWERTYUIOP{}'' @ [10, 0]
     @ map byte ''ASDFGHJKL:'' @ [0x22, byte (CHR ''~''), 0, byte (CHR ''|'')] @ map byte ''ZXCVBNM<>?'' @ [0, byte (CHR ''*'')] @ keypad) escaped_keys"

definition ctlmap :: "u8 list" where
  "ctlmap = key_table (replicate 16 0 @ map (\<lambda>c. byte c - 0x40) ''QWERTYUIOP'' @ [0, 0, 13, 0]
     @ map (\<lambda>c. byte c - 0x40) ''ASDFGHJKL'' @ [0, 0, 0, 0, 0x5C - 0x40] @ map (\<lambda>c. byte c - 0x40) ''ZXCVBNM''
     @ [0, 0, 0x2F - 0x40, 0, 0])
     [(0x97, 0xE0), (0xB5, 0x2F - 0x40), (0xC8, 0xE2), (0xC9, 0xE6), (0xCB, 0xE4), (0xCD, 0xE5), (0xCF, 0xE1),
      (0xD0, 0xE3), (0xD1, 0xE7), (0xD2, 0xE8), (0xD3, KEY_DEL)]"

definition charcode :: "u32 \<Rightarrow> u8 list" where
  "charcode i = (if i = 0 then normalmap else if i = 1 then shiftmap else ctlmap)"

definition caps :: "u8 \<Rightarrow> u8" where
  "caps c = (if 0x61 \<le> c \<and> c \<le> 0x7A then c - 0x20 else if 0x41 \<le> c \<and> c \<le> 0x5A then c + 0x20 else c)"

text \<open>
  The translation of one scan code: the new shift state and the character, or 0. It is the part of
  \<^verbatim>\<open>kbd_proc_data\<close> after the byte has been read.
\<close>

definition scan_code :: "u32 \<Rightarrow> u8 \<Rightarrow> u32 \<times> u8" where
  "scan_code sh data0 =
     (if data0 = 0xE0 then (sh OR K_E0ESC, 0)
      else if data0 AND 0x80 \<noteq> 0 then
        (let data = (if sh AND K_E0ESC \<noteq> 0 then data0 else data0 AND 0x7F)
         in (sh AND NOT (shiftcode ! unat data OR K_E0ESC), 0))
      else
        (let data = (if sh AND K_E0ESC \<noteq> 0 then data0 OR 0x80 else data0);
             sh = (if sh AND K_E0ESC \<noteq> 0 then sh AND NOT K_E0ESC else sh);
             sh = sh OR shiftcode ! unat data;
             sh = sh XOR togglecode ! unat data;
             c = charcode (sh AND (K_CTL OR K_SHIFT)) ! unat data
         in (sh, if sh AND K_CAPSLOCK \<noteq> 0 then caps c else c)))"

definition kbd_proc_data :: "('a, int) con" where
  "kbd_proc_data = (\<lambda>s. case kbd_in s of
     [] \<Rightarrow> Returns (-1) s
   | (terr, data) # rest \<Rightarrow>
       if terr then Returns (-1) s
       else let (sh, c) = scan_code (kbd_shift s) data; t = s\<lparr>kbd_in := rest, kbd_shift := sh\<rparr> in
         if NOT sh AND (K_CTL OR K_ALT) = 0 \<and> c = KEY_DEL
         then kseq (cprintf ''Rebooting!\<newline>'' []) (kseq (outb 0x92 0x3) (kret (uint c))) t
         else Returns (uint c) t)"

section \<open>The input buffer\<close>

definition cons_store :: "u8 \<Rightarrow> 'a console_scheme \<Rightarrow> 'a console_scheme" where
  "cons_store c s = (let w = cons_wpos s + 1 in
     s\<lparr>cons_buf := (cons_buf s)[cons_wpos s := c], cons_wpos := (if w = CONSBUFSIZE then 0 else w)\<rparr>)"

definition cons_take :: "'a console_scheme \<Rightarrow> u8 option \<times> 'a console_scheme" where
  "cons_take s = (if cons_rpos s \<noteq> cons_wpos s
     then (let r = cons_rpos s + 1 in
       (Some (cons_buf s ! cons_rpos s), s\<lparr>cons_rpos := (if r = CONSBUFSIZE then 0 else r)\<rparr>))
     else (None, s))"

text \<open>
  The loop of \<^verbatim>\<open>cons_intr\<close> runs the device routine until it returns -1. Every call that does
  not return -1 takes a byte from its device, so that one more round than there are bytes is enough.
\<close>

primrec cons_intr_loop :: "nat \<Rightarrow> ('a, int) con \<Rightarrow> ('a, unit) con" where
  "cons_intr_loop 0 proc = kret ()"
| "cons_intr_loop (Suc n) proc = kbind proc (\<lambda>c.
     if c = -1 then kret ()
     else kseq (kwhen (c \<noteq> 0) (kmodify (cons_store (word_of_int c)))) (cons_intr_loop n proc))"

definition pending :: "'a console_scheme \<Rightarrow> nat" where
  "pending s = length (com_rx s) + length (kbd_in s)"

definition cons_intr :: "('a, int) con \<Rightarrow> ('a, unit) con" where
  "cons_intr proc = (\<lambda>s. cons_intr_loop (Suc (pending s)) proc s)"

definition serial_intr :: "('a, unit) con" where
  "serial_intr = kbind (kget serial_exists) (\<lambda>e. kwhen e (cons_intr serial_proc_data))"

definition kbd_intr :: "('a, unit) con" where
  "kbd_intr = cons_intr kbd_proc_data"

definition kbd_init :: "('a, unit) con" where
  "kbd_init = kseq kbd_intr (kbind (kget irq_mask_8259A) (\<lambda>m. irq_setmask_8259A (m AND NOT (push_bit IRQ_KBD 1))))"

definition cons_getc :: "('a, int) con" where
  "cons_getc = kseq serial_intr (kseq kbd_intr (\<lambda>s. case cons_take s of
     (Some c, t) \<Rightarrow> Returns (uint c) t | (None, t) \<Rightarrow> Returns 0 t))"

definition cons_init :: "('a, unit) con" where
  "cons_init = kseq cga_init (kseq kbd_init (kseq serial_init
     (kbind (kget serial_exists) (\<lambda>e. kwhen (\<not> e) (cprintf ''Serial port does not exist!\<newline>'' [])))))"

definition cputchar :: "u32 \<Rightarrow> ('a, unit) con" where
  "cputchar c = cons_putc c"

definition iscons :: "int \<Rightarrow> bool" where
  "iscons fdnum = True"

text \<open>The characters the console can still give, at most.\<close>

definition waiting :: "'a console_scheme \<Rightarrow> nat" where
  "waiting s = (cons_wpos s + CONSBUFSIZE - cons_rpos s) mod CONSBUFSIZE + pending s"

text \<open>
  \<^verbatim>\<open>getchar\<close> polls until a character comes. A poll takes a character from what is waiting, so that after as
  many polls, and one more, the loop can only spin.
\<close>

primrec getchar_loop :: "nat \<Rightarrow> ('a, int) con" where
  "getchar_loop 0 = kleave Spins"
| "getchar_loop (Suc n) = kbind cons_getc (\<lambda>c. if c = 0 then getchar_loop n else kret c)"

definition getchar :: "('a, int) con" where
  "getchar = (\<lambda>s. getchar_loop (Suc (waiting s)) s)"

section \<open>Reading a line\<close>

definition BUFLEN :: nat where [simp, layout_defs]: "BUFLEN = 1024"

primrec readline_loop :: "nat \<Rightarrow> u8 list \<Rightarrow> ('a, u8 list option) con" where
  "readline_loop 0 buf = kleave Spins"
| "readline_loop (Suc n) buf = kbind getchar (\<lambda>c.
     if c < 0 then kseq (cprintf ''read error: %e\<newline>'' [PInt (word_of_int c)]) (kret None)
     else if (c = 8 \<or> c = 0x7F) \<and> buf \<noteq> [] then
       kseq (kwhen (iscons 0) (cputchar 8)) (readline_loop n (butlast buf))
     else if c \<ge> 0x20 \<and> length buf < BUFLEN - 1 then
       kseq (kwhen (iscons 0) (cputchar (word_of_int c))) (readline_loop n (buf @ [word_of_int c]))
     else if c = 10 \<or> c = 13 then
       kseq (kwhen (iscons 0) (cputchar 10)) (kret (Some buf))
     else readline_loop n buf)"

definition readline :: "string option \<Rightarrow> ('a, u8 list option) con" where
  "readline prompt =
     kseq (case prompt of None \<Rightarrow> kret () | Some p \<Rightarrow> cprintf ''%s'' [PStr p])
     (\<lambda>s. readline_loop (Suc (waiting s)) [] s)"

definition cons_ok :: "'a console_scheme \<Rightarrow> bool" where
  "cons_ok s \<longleftrightarrow> length (cons_buf s) = CONSBUFSIZE \<and> cons_rpos s < CONSBUFSIZE \<and> cons_wpos s < CONSBUFSIZE"

definition cons_count :: "'a console_scheme \<Rightarrow> nat" where
  "cons_count s = (cons_wpos s + CONSBUFSIZE - cons_rpos s) mod CONSBUFSIZE"

definition cons_contents :: "'a console_scheme \<Rightarrow> u8 list" where
  "cons_contents s = map (\<lambda>i. cons_buf s ! ((cons_rpos s + i) mod CONSBUFSIZE)) [0..<cons_count s]"

text \<open>The characters the keyboard gives for a sequence of scan codes, up to a byte of the mouse.\<close>

fun kbd_chars :: "u32 \<Rightarrow> (bool \<times> u8) list \<Rightarrow> u8 list" where
  "kbd_chars sh [] = []"
| "kbd_chars sh ((terr, d) # rest) =
     (if terr then [] else let (sh', c) = scan_code sh d in (if c = 0 then [] else [c]) @ kbd_chars sh' rest)"

text \<open>Everything a reader of the console will see.\<close>

definition cons_input :: "'a console_scheme \<Rightarrow> u8 list" where
  "cons_input s = cons_contents s @ (if serial_exists s then filter (\<lambda>c. c \<noteq> 0) (com_rx s) else [])
     @ kbd_chars (kbd_shift s) (kbd_in s)"

text \<open>Editing a line: the line and what is left of the input, if a newline comes.\<close>

fun line_edit :: "u8 list \<Rightarrow> u8 list \<Rightarrow> (u8 list \<times> u8 list) option" where
  "line_edit buf [] = None"
| "line_edit buf (c # cs) =
     (if (c = 8 \<or> c = 0x7F) \<and> buf \<noteq> [] then line_edit (butlast buf) cs
      else if c \<ge> 0x20 \<and> length buf < BUFLEN - 1 then line_edit (buf @ [c]) cs
      else if c = 10 \<or> c = 13 then Some (buf, cs)
      else line_edit buf cs)"

definition same_input :: "'a console_scheme \<Rightarrow> 'a console_scheme \<Rightarrow> bool" where
  "same_input s t \<longleftrightarrow> cons_buf t = cons_buf s \<and> cons_rpos t = cons_rpos s \<and> cons_wpos t = cons_wpos s \<and>
     com_rx t = com_rx s \<and> serial_exists t = serial_exists s \<and> kbd_in t = kbd_in s \<and> kbd_shift t = kbd_shift s"

text \<open>Computations that return and leave the input alone.\<close>

definition quiet :: "('a, unit) con \<Rightarrow> bool" where
  "quiet m \<longleftrightarrow> (\<forall>s. \<exists>t. m s = Returns () t \<and> same_input s t)"

text \<open>What a device loop has done: it has stored the characters \<open>cs\<close>.\<close>

definition delivered :: "'a console_scheme \<Rightarrow> u8 list \<Rightarrow> 'a console_scheme \<Rightarrow> bool" where
  "delivered s cs t \<longleftrightarrow> cons_ok t \<and> cons_contents t = cons_contents s @ cs \<and> serial_exists t = serial_exists s"

definition input_ok :: "'a console_scheme \<Rightarrow> bool" where
  "input_ok s \<longleftrightarrow> cons_ok s \<and> length (cons_input s) \<le> 511"

definition screen_ok :: "'a console_scheme \<Rightarrow> bool" where
  "screen_ok s \<longleftrightarrow> crt_pos s < of_nat CRT_SIZE"

text \<open>Computations that keep the position on the screen.\<close>

definition keeps_screen :: "('a, unit) con \<Rightarrow> bool" where
  "keeps_screen m \<longleftrightarrow> (\<forall>s. screen_ok s \<longrightarrow> (\<exists>t. m s = Returns () t \<and> screen_ok t))"

text \<open>Computations that change nothing but the display and the log of the ports.\<close>

definition undrawn :: "'a console_scheme \<Rightarrow> 'a console_scheme" where
  "undrawn s = s\<lparr>crt_buf := (\<lambda>_. 0), crt_pos := 0, crtc_cursor := 0, outs := []\<rparr>"

definition draws :: "('a, unit) con \<Rightarrow> bool" where
  "draws m \<longleftrightarrow> (\<forall>s. \<exists>t. m s = Returns () t \<and> undrawn t = undrawn s)"

definition sample_console :: console where
  "sample_console = \<lparr>irq_mask_8259A = 0xFFFB, didinit = True, outs = [], klog = [],
     com_present = True, com_rx = [0x68, 0, 0x69], serial_exists = True,
     kbd_in = [(False, 0x2A), (False, 0x1E), (False, 0xAA), (False, 0x1C)], kbd_shift = 0,
     cga_present = True, crtc_cursor = 0, addr_6845 = 0x3D4, crt_buf = (\<lambda>_. 0x0720), crt_pos = 0,
     cons_buf = replicate 512 0, cons_rpos = 511, cons_wpos = 511\<rparr>"

section \<open>The buffer as a queue\<close>

text \<open>
  The interface of a bounded queue by the list of its contents: storing into a queue that is not full
  appends, taking returns the first element.
\<close>

locale bounded_queue =
  fixes store :: "'v \<Rightarrow> 's \<Rightarrow> 's" and take_first :: "'s \<Rightarrow> 'v option \<times> 's"
    and contents :: "'s \<Rightarrow> 'v list" and valid :: "'s \<Rightarrow> bool" and capacity :: nat
  assumes store_appends: "valid s \<Longrightarrow> length (contents s) < capacity \<Longrightarrow>
      valid (store v s) \<and> contents (store v s) = contents s @ [v]"
    and take_empty: "valid s \<Longrightarrow> contents s = [] \<Longrightarrow> take_first s = (None, s)"
    and take_head: "valid s \<Longrightarrow> contents s = v # vs \<Longrightarrow>
      \<exists>t. take_first s = (Some v, t) \<and> valid t \<and> contents t = vs"
begin

lemma store_all:
  "valid s \<Longrightarrow> length (contents s) + length vs \<le> capacity \<Longrightarrow>
   valid (fold store vs s) \<and> contents (fold store vs s) = contents s @ vs"
proof (induction vs arbitrary: s)
  case Nil
  then show ?case by simp
next
  case (Cons v vs)
  have "valid (store v s) \<and> contents (store v s) = contents s @ [v]"
    using Cons.prems by (intro store_appends) auto
  with Cons.IH[of "store v s"] Cons.prems(2) show ?case by simp
qed

end




lemma length_contents [simp]: "length (cons_contents s) = cons_count s"
  by (simp add: cons_contents_def)

lemma count_less: "cons_count s < CONSBUFSIZE"
  by (simp add: cons_count_def)

lemma ring_wpos: "cons_ok s \<Longrightarrow> (cons_rpos s + cons_count s) mod 512 = cons_wpos s"
proof -
  assume "cons_ok s"
  then have r: "cons_rpos s < 512" "cons_wpos s < 512" by (simp_all add: cons_ok_def)
  have "(cons_rpos s + cons_count s) mod 512 = (cons_rpos s + (cons_wpos s + 512 - cons_rpos s)) mod 512"
    unfolding cons_count_def by (simp add: mod_add_right_eq)
  also have "cons_rpos s + (cons_wpos s + 512 - cons_rpos s) = cons_wpos s + 512" using r by simp
  finally show ?thesis using r by simp
qed

lemma ring_slot:
  assumes "cons_ok s" "i < cons_count s"
  shows "(cons_rpos s + i) mod 512 \<noteq> cons_wpos s"
proof
  assume e: "(cons_rpos s + i) mod 512 = cons_wpos s"
  then have "(cons_rpos s + i) mod 512 = (cons_rpos s + cons_count s) mod 512" using ring_wpos[OF assms(1)] by simp
  then have "i mod 512 = cons_count s mod 512" by (simp add: mod_eq_dvd_iff_nat nat_mod_eq_iff)
  then show False using assms(2) count_less[of s] by simp
qed

lemma store_count:
  assumes "cons_ok s" "cons_count s < 511"
  shows "cons_count (cons_store c s) = Suc (cons_count s)"
proof -
  have "cons_rpos s < 512" "cons_wpos s < 512" using assms(1) by (simp_all add: cons_ok_def)
  then show ?thesis using assms(2) unfolding cons_count_def cons_store_def Let_def
    by (auto simp: mod_if split: if_splits)
qed

lemma store_contents:
  assumes "cons_ok s" "cons_count s < 511"
  shows "cons_contents (cons_store c s) = cons_contents s @ [c]"
proof -
  have ne: "(cons_rpos s + i) mod 512 \<noteq> cons_wpos s" if "i < cons_count s" for i using ring_slot[OF assms(1) that] .
  have b: "cons_buf (cons_store c s) = (cons_buf s)[cons_wpos s := c]" "cons_rpos (cons_store c s) = cons_rpos s"
    by (simp_all add: cons_store_def Let_def)
  have "cons_wpos s < length (cons_buf s)" using assms(1) by (simp add: cons_ok_def)
  then show ?thesis
    unfolding cons_contents_def store_count[OF assms] b using ne[THEN not_sym] ring_wpos[OF assms(1)]
    by (simp add: nth_list_update)
qed

lemma store_ok: "cons_ok s \<Longrightarrow> cons_ok (cons_store c s)"
  by (auto simp: cons_ok_def cons_store_def Let_def)

lemma take_nothing: "cons_ok s \<Longrightarrow> cons_contents s = [] \<Longrightarrow> cons_take s = (None, s)"
  using ring_wpos[of s] by (auto simp: cons_take_def cons_contents_def cons_ok_def)

lemma take_contents:
  assumes ok: "cons_ok s" and c: "cons_contents s = v # vs"
  shows "\<exists>t. cons_take s = (Some v, t) \<and> cons_ok t \<and> cons_contents t = vs"
proof -
  let ?t = "s\<lparr>cons_rpos := (cons_rpos s + 1) mod 512\<rparr>"
  have rw: "cons_rpos s < 512" "cons_wpos s < 512" using ok by (simp_all add: cons_ok_def)
  have n: "cons_count s = Suc (length vs)" using arg_cong[OF c, of length] by simp
  then have ne: "cons_rpos s \<noteq> cons_wpos s" using rw by (auto simp: cons_count_def)
  have t: "cons_take s = (Some (cons_buf s ! cons_rpos s), ?t)"
    using ne rw by (auto simp: cons_take_def Let_def)
  have m: "cons_contents s = (cons_buf s ! cons_rpos s) #
    map (\<lambda>i. cons_buf s ! ((cons_rpos s + Suc i) mod 512)) [0..<length vs]"
    unfolding cons_contents_def n using rw by (simp add: map_upt_Suc del: upt_Suc)
  have ct: "cons_count ?t = length vs"
    using n ne rw unfolding cons_count_def by (auto simp: mod_if split: if_splits)
  have "cons_contents ?t = vs"
    using m c unfolding cons_contents_def ct by (simp add: mod_add_left_eq)
  moreover have "cons_ok ?t" using ok by (simp add: cons_ok_def)
  ultimately show ?thesis using t m c by simp
qed

interpretation ring: bounded_queue cons_store cons_take cons_contents cons_ok 511
  by unfold_locales (simp_all add: store_ok store_contents take_nothing take_contents)

section \<open>What the devices deliver\<close>





lemma same_input_refl [simp]: "same_input s s"
  by (simp add: same_input_def)

lemma same_input_trans [trans]: "same_input s t \<Longrightarrow> same_input t u \<Longrightarrow> same_input s u"
  by (simp add: same_input_def)

lemma same_inputD: "same_input s t \<Longrightarrow> cons_input t = cons_input s \<and> cons_ok t = cons_ok s \<and> waiting t = waiting s"
  by (simp add: same_input_def cons_input_def cons_contents_def cons_count_def cons_ok_def waiting_def pending_def)


lemma quietI: "(\<And>s. \<exists>t. m s = Returns () t \<and> same_input s t) \<Longrightarrow> quiet m"
  by (simp add: quiet_def)

lemma quiet_kseq [intro]:
  assumes "quiet m" "quiet n"
  shows "quiet (kseq m n)"
proof (rule quietI)
  fix s
  obtain t where t: "m s = Returns () t" "same_input s t" using assms(1) unfolding quiet_def by blast
  obtain u where u: "n t = Returns () u" "same_input t u" using assms(2) unfolding quiet_def by blast
  show "\<exists>u. kseq m n s = Returns () u \<and> same_input s u"
    using t u same_input_trans[OF t(2) u(2)] by simp
qed

lemma quiet_kmodify: "(\<And>s. same_input s (f s)) \<Longrightarrow> quiet (kmodify f)"
  by (simp add: quiet_def)

lemma quiet_kret [intro]: "quiet (kret ())"
  by (simp add: quiet_def)

lemma quiet_kget: "(\<And>x. quiet (f x)) \<Longrightarrow> quiet (kbind (kget g) f)"
  by (simp add: quiet_def)

lemma quiet_kfor: "(\<And>i. quiet (b i)) \<Longrightarrow> quiet (kfor is b)"
  by (induction "is") (auto intro: quiet_kret)

lemma quiet_outb [intro]: "quiet (outb p v)"
  by (simp add: quiet_def same_input_def)

lemma quiet_outbs [intro]: "quiet (outbs pvs)"
  by (simp add: quiet_def same_input_def)

lemma quiet_cprintf [intro]: "quiet (cprintf fmt args)"
  by (simp add: quiet_def same_input_def)

lemma quiet_cga_put:
  assumes "quiet tab"
  shows "quiet (cga_put tab c)"
proof -
  have "quiet cga_scroll" unfolding cga_scroll_def by (rule quiet_kmodify) (simp add: same_input_def)
  moreover have "quiet cga_cursor" unfolding cga_cursor_def
    by (intro quiet_kget quiet_kseq quiet_outbs quiet_kmodify) (simp add: same_input_def)
  ultimately show ?thesis using assms unfolding cga_put_def Let_def
    by (auto intro!: quiet_kseq quiet_kmodify simp: same_input_def)
qed

lemma quiet_cons_putc: "quiet (cons_putc c)"
proof -
  have "quiet cons_blank" unfolding cons_blank_def serial_putc_def lpt_putc_def
    by (intro quiet_kseq quiet_outb quiet_outbs quiet_cga_put quiet_kret)
  then show ?thesis unfolding cons_putc_def cga_putc_def serial_putc_def lpt_putc_def
    by (intro quiet_kseq quiet_outb quiet_outbs quiet_cga_put quiet_kfor)
qed

lemma store_frame [simp]:
  "com_rx (cons_store c s) = com_rx s" "kbd_in (cons_store c s) = kbd_in s"
  "kbd_shift (cons_store c s) = kbd_shift s" "serial_exists (cons_store c s) = serial_exists s"
  by (simp_all add: cons_store_def Let_def)

lemma contents_cong:
  "cons_buf t = cons_buf s \<Longrightarrow> cons_rpos t = cons_rpos s \<Longrightarrow> cons_wpos t = cons_wpos s \<Longrightarrow>
   cons_contents t = cons_contents s \<and> cons_ok t = cons_ok s \<and> cons_count t = cons_count s"
  by (simp add: cons_contents_def cons_count_def cons_ok_def)


lemma cons_intr_stop: "proc s = Returns (-1) t \<Longrightarrow> cons_intr_loop (Suc n) proc s = Returns () t"
  by simp

lemma cons_intr_step:
  assumes "proc s = Returns (uint (b :: u8)) t"
  shows "cons_intr_loop (Suc n) proc s = cons_intr_loop n proc (if b = 0 then t else cons_store b t)"
proof -
  have "uint b \<noteq> -1" using uint_ge_0[of b] by linarith
  then have "cons_intr_loop (Suc n) proc s =
    kseq (kwhen (uint b \<noteq> 0) (kmodify (cons_store b))) (cons_intr_loop n proc) t" using assms by simp
  moreover have "kwhen (uint b \<noteq> 0) (kmodify (cons_store b)) t = Returns () (if b = 0 then t else cons_store b t)"
    by (simp add: uint_0_iff)
  ultimately show ?thesis by (simp only: kseq_Returns)
qed

lemma kbd_stop: "kbd_in s = [] \<or> fst (hd (kbd_in s)) \<Longrightarrow> kbd_proc_data s = Returns (-1) s"
  by (auto simp: kbd_proc_data_def split: list.splits)

lemma kbd_chars_stop: "ks = [] \<or> fst (hd ks) \<Longrightarrow> kbd_chars sh ks = []"
  by (cases "(sh, ks)" rule: kbd_chars.cases) auto

lemma store_com_rx: "cons_store c (s\<lparr>com_rx := bs\<rparr>) = (cons_store c s)\<lparr>com_rx := bs\<rparr>"
  by (simp add: cons_store_def Let_def)

lemma fold_store_frame:
  "com_rx (fold cons_store cs s) = com_rx s" "kbd_in (fold cons_store cs s) = kbd_in s"
  "kbd_shift (fold cons_store cs s) = kbd_shift s" "serial_exists (fold cons_store cs s) = serial_exists s"
  by (induction cs arbitrary: s) simp_all

text \<open>The loop over the serial line stores all its characters but 0, whatever the state of the buffer.\<close>

lemma serial_loop_eq:
  "length bs < n \<Longrightarrow> cons_intr_loop n serial_proc_data (s\<lparr>com_rx := bs\<rparr>) =
     Returns () ((fold cons_store (filter (\<lambda>c. c \<noteq> 0) bs) s)\<lparr>com_rx := []\<rparr>)"
proof (induction bs arbitrary: n s)
  case Nil
  then obtain m where "n = Suc m" by (cases n) auto
  then show ?case using cons_intr_stop[of serial_proc_data "s\<lparr>com_rx := []\<rparr>" "s\<lparr>com_rx := []\<rparr>" m]
    by (simp add: serial_proc_data_def del: cons_intr_loop.simps)
next
  case (Cons b bs)
  then obtain m where n: "n = Suc m" by (cases n) auto
  have p: "serial_proc_data (s\<lparr>com_rx := b # bs\<rparr>) = Returns (uint b) (s\<lparr>com_rx := bs\<rparr>)" by (simp add: serial_proc_data_def)
  show ?case
    using cons_intr_step[of serial_proc_data "s\<lparr>com_rx := b # bs\<rparr>" b "s\<lparr>com_rx := bs\<rparr>" m, OF p]
      Cons.IH[of m s] Cons.IH[of m "cons_store b s"] Cons.prems n
    by (simp add: store_com_rx del: cons_intr_loop.simps)
qed

lemma serial_loop:
  assumes "length (com_rx s) < n" "cons_ok s" "cons_count s + length (filter (\<lambda>c. c \<noteq> 0) (com_rx s)) \<le> 511"
  shows "\<exists>t. cons_intr_loop n serial_proc_data s = Returns () t \<and> delivered s (filter (\<lambda>c. c \<noteq> 0) (com_rx s)) t \<and>
     com_rx t = [] \<and> kbd_in t = kbd_in s \<and> kbd_shift t = kbd_shift s"
proof -
  let ?cs = "filter (\<lambda>c. c \<noteq> 0) (com_rx s)"
  let ?t = "(fold cons_store ?cs s)\<lparr>com_rx := []\<rparr>"
  have "cons_ok (fold cons_store ?cs s) \<and> cons_contents (fold cons_store ?cs s) = cons_contents s @ ?cs"
    using ring.store_all[OF assms(2), of ?cs] assms(3) by simp
  then have "delivered s ?cs ?t"
    using contents_cong[of ?t "fold cons_store ?cs s"] fold_store_frame(4)[of ?cs s] by (simp add: delivered_def)
  moreover have "cons_intr_loop n serial_proc_data s = Returns () ?t" using serial_loop_eq[OF assms(1), of s] by simp
  ultimately show ?thesis using fold_store_frame[of ?cs s] by simp
qed

lemma kbd_read:
  assumes "kbd_in s = (False, d) # rest" "scan_code (kbd_shift s) d = (sh, c)"
  shows "\<exists>t. kbd_proc_data s = Returns (uint c) t \<and> cons_buf t = cons_buf s \<and> cons_rpos t = cons_rpos s \<and>
    cons_wpos t = cons_wpos s \<and> com_rx t = com_rx s \<and> kbd_in t = rest \<and> kbd_shift t = sh \<and> serial_exists t = serial_exists s"
proof (cases "NOT sh AND (K_CTL OR K_ALT) = 0 \<and> c = KEY_DEL")
  case True
  then show ?thesis using assms by (simp add: kbd_proc_data_def Let_def)
next
  case False
  then have "kbd_proc_data s = Returns (uint c) (s\<lparr>kbd_in := rest, kbd_shift := sh\<rparr>)"
    using assms unfolding kbd_proc_data_def by (simp only: list.case prod.case Let_def if_False simp_thms)
  then show ?thesis by simp
qed

lemma kbd_loop:
  "length (kbd_in s) < n \<Longrightarrow> cons_ok s \<Longrightarrow>
   cons_count s + length (kbd_chars (kbd_shift s) (kbd_in s)) \<le> 511 \<Longrightarrow>
   \<exists>t. cons_intr_loop n kbd_proc_data s = Returns () t \<and> delivered s (kbd_chars (kbd_shift s) (kbd_in s)) t \<and>
     com_rx t = com_rx s \<and> kbd_chars (kbd_shift t) (kbd_in t) = []"
proof (induction n arbitrary: s)
  case 0
  then show ?case by simp
next
  case (Suc n)
  show ?case
  proof (cases "kbd_in s = [] \<or> fst (hd (kbd_in s))")
    case True
    from cons_intr_stop[of kbd_proc_data s s, OF kbd_stop[OF True]] show ?thesis
      using Suc.prems(2) kbd_chars_stop[OF True] by (simp add: delivered_def)
  next
    case False
    then obtain d rest where k: "kbd_in s = (False, d) # rest" by (cases "kbd_in s") auto
    obtain sh c where sc: "scan_code (kbd_shift s) d = (sh, c)" by fastforce
    obtain t where p: "kbd_proc_data s = Returns (uint c) t" and b: "cons_buf t = cons_buf s" "cons_rpos t = cons_rpos s"
      "cons_wpos t = cons_wpos s" and t0: "com_rx t = com_rx s" "kbd_in t = rest" "kbd_shift t = sh" "serial_exists t = serial_exists s"
      using kbd_read[OF k sc] by blast
    have t: "cons_contents t = cons_contents s" "cons_ok t" "cons_count t = cons_count s"
      "com_rx t = com_rx s" "kbd_in t = rest" "kbd_shift t = sh" "serial_exists t = serial_exists s"
      using contents_cong[OF b] Suc.prems(2) t0 by simp_all
    note st = cons_intr_step[of kbd_proc_data s c t, OF p]
    show ?thesis
    proof (cases "c = 0")
      case True
      then show ?thesis using Suc.IH[of t] Suc.prems k sc t st by (simp add: delivered_def del: cons_intr_loop.simps)
    next
      case False
      have u: "cons_ok (cons_store c t)" "cons_contents (cons_store c t) = cons_contents s @ [c]"
        "cons_count (cons_store c t) = Suc (cons_count s)"
        using ring.store_appends[OF t(2), of c] store_count[OF t(2)] t Suc.prems(3) k sc False by simp_all
      then show ?thesis using Suc.IH[of "cons_store c t"] Suc.prems k sc t st False
        by (simp add: delivered_def del: cons_intr_loop.simps)
    qed
  qed
qed

lemma length_kbd_chars: "length (kbd_chars sh ks) \<le> length ks"
proof (induction ks arbitrary: sh)
  case Nil
  show ?case by simp
next
  case (Cons k ks)
  obtain terr d where k: "k = (terr, d)" by fastforce
  obtain sh' c where "scan_code sh d = (sh', c)" by fastforce
  then show ?case using Cons[of sh'] by (simp add: k)
qed

lemma getc_ok:
  assumes ok: "cons_ok s" and len: "length (cons_input s) \<le> 511"
  shows "\<exists>t. cons_getc s = Returns (case cons_input s of [] \<Rightarrow> 0 | c # _ \<Rightarrow> uint c) t \<and>
    cons_ok t \<and> cons_input t = tl (cons_input s)"
proof -
  let ?ser = "if serial_exists s then filter (\<lambda>c. c \<noteq> 0) (com_rx s) else []"
  let ?kbd = "kbd_chars (kbd_shift s) (kbd_in s)"
  have l: "cons_count s + length ?ser + length ?kbd \<le> 511"
    using arg_cong[OF cons_input_def[of s], of length] len by simp
  have "\<exists>t. serial_intr s = Returns () t \<and> delivered s ?ser t \<and> (serial_exists s \<longrightarrow> com_rx t = []) \<and>
    kbd_in t = kbd_in s \<and> kbd_shift t = kbd_shift s"
  proof (cases "serial_exists s")
    case True
    have "length (com_rx s) < Suc (pending s)" by (simp add: pending_def)
    from serial_loop[OF this ok] l True show ?thesis
      by (simp add: serial_intr_def cons_intr_def del: cons_intr_loop.simps)
  next
    case False
    then show ?thesis using ok by (simp add: serial_intr_def delivered_def)
  qed
  then obtain t where t: "serial_intr s = Returns () t" "delivered s ?ser t" "serial_exists s \<Longrightarrow> com_rx t = []"
    "kbd_in t = kbd_in s" "kbd_shift t = kbd_shift s" by blast
  have ok_t: "cons_ok t" "cons_contents t = cons_contents s @ ?ser" using t(2) by (simp_all only: delivered_def)
  have ct: "cons_count t = cons_count s + length ?ser"
    using arg_cong[OF ok_t(2), of length] by (simp only: length_contents length_append)
  have pt: "length (kbd_in t) < Suc (pending t)" by (simp add: pending_def)
  have "\<exists>u. kbd_intr t = Returns () u \<and> delivered t ?kbd u \<and> com_rx u = com_rx t \<and> kbd_chars (kbd_shift u) (kbd_in u) = []"
    using kbd_loop[OF pt ok_t(1)] t(4,5) l ct by (simp add: kbd_intr_def cons_intr_def del: cons_intr_loop.simps)
  then obtain u where u: "kbd_intr t = Returns () u" "delivered t ?kbd u" "com_rx u = com_rx t"
    "kbd_chars (kbd_shift u) (kbd_in u) = []" by blast
  have cu: "cons_contents u = cons_input s" "cons_ok u" "serial_exists u = serial_exists s"
    using t(2) u(2) by (auto simp: delivered_def cons_input_def)
  have iu: "cons_input v = cons_contents v"
    if "com_rx v = com_rx u" "serial_exists v = serial_exists u" "kbd_in v = kbd_in u" "kbd_shift v = kbd_shift u" for v :: "'a console_scheme"
    using that t(3) u(3,4) cu(3) by (auto simp: cons_input_def)
  show ?thesis
  proof (cases "cons_input s")
    case Nil
    then have "cons_take u = (None, u)" using cu by (intro ring.take_empty) simp_all
    then show ?thesis using t(1) u(1) Nil cu iu[of u] by (simp add: cons_getc_def)
  next
    case (Cons c cs)
    then obtain v where v: "cons_take u = (Some c, v)" "cons_ok v" "cons_contents v = cs"
      using ring.take_head[of u c cs] cu by auto
    have "com_rx v = com_rx u \<and> serial_exists v = serial_exists u \<and> kbd_in v = kbd_in u \<and> kbd_shift v = kbd_shift u"
      using v(1) by (auto simp: cons_take_def Let_def split: if_splits)
    then show ?thesis using t(1) u(1) Cons v iu[of v] by (simp add: cons_getc_def)
  qed
qed

lemma input_le_waiting: "length (cons_input s) \<le> waiting s"
  using length_kbd_chars[of "kbd_shift s" "kbd_in s"]
  by (auto simp: cons_input_def waiting_def pending_def cons_count_def intro: add_mono)


lemma input_okI: "input_ok s \<Longrightarrow> cons_ok t \<Longrightarrow> length (cons_input t) \<le> length (cons_input s) \<Longrightarrow> input_ok t"
  by (simp add: input_ok_def)

lemma uint_zero_u8 [simp]: "uint (c :: u8) = 0 \<longleftrightarrow> c = 0"
  by (simp add: uint_0_iff)

lemma getchar_loop_ok:
  "input_ok s \<Longrightarrow> length (cons_input s) < n \<Longrightarrow>
   \<exists>t. input_ok t \<and> (case dropWhile (\<lambda>c. c = 0) (cons_input s) of
       [] \<Rightarrow> getchar_loop n s = Leaves Spins t \<and> cons_input t = []
     | c # cs \<Rightarrow> getchar_loop n s = Returns (uint c) t \<and> cons_input t = cs)"
proof (induction n arbitrary: s)
  case 0
  then show ?case by simp
next
  case (Suc n)
  obtain t where t: "cons_getc s = Returns (case cons_input s of [] \<Rightarrow> 0 | c # _ \<Rightarrow> uint c) t" "cons_ok t"
    "cons_input t = tl (cons_input s)" using getc_ok[of s] Suc.prems(1) by (auto simp: input_ok_def)
  have ok: "input_ok t" using Suc.prems(1) t by (intro input_okI[of s t]) auto
  show ?case
  proof (cases "cons_input s")
    case Nil
    then have g: "getchar_loop (Suc n) s = getchar_loop n t" using t(1) by simp
    show ?thesis
    proof (cases n)
      case 0
      then show ?thesis using Nil g ok t(3) by auto
    next
      case (Suc m)
      then show ?thesis using Suc.IH[OF ok] Nil g t(3) by simp
    qed
  next
    case (Cons c cs)
    show ?thesis
    proof (cases "c = 0")
      case True
      then have g: "getchar_loop (Suc n) s = getchar_loop n t" using t(1) Cons by simp
      show ?thesis unfolding g using Suc.IH[OF ok] Suc.prems(2) Cons True t(3) by simp
    next
      case False
      then have "getchar_loop (Suc n) s = Returns (uint c) t" using t(1) Cons by simp
      then show ?thesis using Cons False t(3) ok by auto
    qed
  qed
qed

lemma getchar_ok:
  "input_ok s \<Longrightarrow>
   \<exists>t. input_ok t \<and> (case dropWhile (\<lambda>c. c = 0) (cons_input s) of
       [] \<Rightarrow> getchar s = Leaves Spins t \<and> cons_input t = []
     | c # cs \<Rightarrow> getchar s = Returns (uint c) t \<and> cons_input t = cs)"
  unfolding getchar_def using input_le_waiting[of s] by (intro getchar_loop_ok) auto

lemma line_edit_zero: "line_edit buf (dropWhile (\<lambda>c. c = 0) cs) = line_edit buf cs"
  by (induction cs) auto

lemma putc_frame:
  obtains t where "kwhen (iscons 0) (cputchar c) s = Returns () t" "cons_input t = cons_input s" "cons_ok t = cons_ok s"
proof -
  obtain t where "cons_putc c s = Returns () t" "same_input s t"
    using quiet_cons_putc[of c] unfolding quiet_def by blast
  then show ?thesis using that same_inputD[of s t] by (simp add: cputchar_def iscons_def)
qed

lemma uint_u8_iff: "uint (c :: u8) = 8 \<longleftrightarrow> c = 8" "uint c = 127 \<longleftrightarrow> c = 127" "uint c = 10 \<longleftrightarrow> c = 10"
  "uint c = 13 \<longleftrightarrow> c = 13" "32 \<le> uint c \<longleftrightarrow> 32 \<le> c"
  by (simp_all add: word_uint_eq_iff word_le_def)

lemma readline_loop_ok:
  "input_ok s \<Longrightarrow> length (cons_input s) < n \<Longrightarrow>
   \<exists>t. input_ok t \<and> (case line_edit buf (cons_input s) of
       None \<Rightarrow> readline_loop n buf s = Leaves Spins t \<and> cons_input t = []
     | Some (line, rest) \<Rightarrow> readline_loop n buf s = Returns (Some line) t \<and> cons_input t = rest)"
proof (induction n arbitrary: s buf)
  case 0
  then show ?case by simp
next
  case (Suc n)
  obtain t where ok: "input_ok t" and g: "case dropWhile (\<lambda>c. c = 0) (cons_input s) of
       [] \<Rightarrow> getchar s = Leaves Spins t \<and> cons_input t = []
     | c # cs \<Rightarrow> getchar s = Returns (uint c) t \<and> cons_input t = cs" using getchar_ok[OF Suc.prems(1)] by blast
  have le: "line_edit buf (cons_input s) = line_edit buf (dropWhile (\<lambda>c. c = 0) (cons_input s))"
    by (rule line_edit_zero[symmetric])
  show ?case
  proof (cases "dropWhile (\<lambda>c. c = 0) (cons_input s)")
    case Nil
    have "getchar s = Leaves Spins t" "cons_input t = []" using g unfolding Nil by simp_all
    then show ?thesis unfolding le Nil using ok by auto
  next
    case (Cons c cs)
    then have g: "getchar s = Returns (uint c) t" and it: "cons_input t = cs" using g by simp_all
    have "length (c # cs) \<le> length (cons_input s)" using Cons length_dropWhile_le[of "\<lambda>c. c = 0" "cons_input s"] by simp
    then have len: "length cs < n" using Suc.prems(2) by simp
    have loop: "\<exists>u. input_ok u \<and> (case line_edit b cs of
         None \<Rightarrow> kseq (kwhen (iscons 0) (cputchar e)) (readline_loop n b) t = Leaves Spins u \<and> cons_input u = []
       | Some (line, rest) \<Rightarrow> kseq (kwhen (iscons 0) (cputchar e)) (readline_loop n b) t = Returns (Some line) u \<and>
           cons_input u = rest)" for b e
    proof -
      obtain v where v: "kwhen (iscons 0) (cputchar e) t = Returns () v" "cons_input v = cons_input t" "cons_ok v = cons_ok t"
        by (rule putc_frame)
      have "input_ok v" using ok v by (simp add: input_ok_def)
      from Suc.IH[OF this, of b] v it len show ?thesis by (simp only: kseq_Returns[of "kwhen (iscons 0) (cputchar e)" t "()" v, OF v(1)])
    qed
    have last: "\<exists>u. kseq (kwhen (iscons 0) (cputchar 10)) (kret (Some buf)) t = Returns (Some buf) u \<and> input_ok u \<and> cons_input u = cs"
    proof -
      obtain v where v: "kwhen (iscons 0) (cputchar 10) t = Returns () v" "cons_input v = cons_input t" "cons_ok v = cons_ok t"
        by (rule putc_frame)
      then show ?thesis using ok it by (simp add: input_ok_def)
    qed
    have skip: "\<exists>u. input_ok u \<and> (case line_edit buf cs of
         None \<Rightarrow> readline_loop n buf t = Leaves Spins u \<and> cons_input u = []
       | Some (line, rest) \<Rightarrow> readline_loop n buf t = Returns (Some line) u \<and> cons_input u = rest)"
      using Suc.IH[OF ok, of buf] it len by simp
    have nn: "\<not> uint c < 0" by simp
    have r: "readline_loop (Suc n) buf s =
      (if (c = 8 \<or> c = 127) \<and> buf \<noteq> [] then kseq (kwhen (iscons 0) (cputchar 8)) (readline_loop n (butlast buf)) t
       else if c \<ge> 32 \<and> length buf < BUFLEN - 1 then
         kseq (kwhen (iscons 0) (cputchar (word_of_int (uint c)))) (readline_loop n (buf @ [c])) t
       else if c = 10 \<or> c = 13 then kseq (kwhen (iscons 0) (cputchar 10)) (kret (Some buf)) t
       else readline_loop n buf t)"
      using g nn by (simp add: uint_u8_iff)
    show ?thesis unfolding le Cons line_edit.simps r
      using loop[where b = "butlast buf" and e = 8] loop[where b = "buf @ [c]" and e = "word_of_int (uint c)"] last skip by auto
  qed
qed

section \<open>The screen\<close>



lemma keeps_kseq [intro]: "keeps_screen m \<Longrightarrow> keeps_screen n \<Longrightarrow> keeps_screen (kseq m n)"
  unfolding keeps_screen_def by (metis kseq_Returns)

lemma keeps_outbs [intro]: "keeps_screen (outbs pvs)" "keeps_screen (outb p v)" "keeps_screen (kret ())"
  by (simp_all add: keeps_screen_def screen_ok_def)

lemma keeps_kfor: "(\<And>i. keeps_screen (b i)) \<Longrightarrow> keeps_screen (kfor is b)"
  by (induction "is") auto

text \<open>After the switch the position may be up to one row below the screen.\<close>

lemma scroll_ok:
  assumes "unat (crt_pos s) < 2080"
  shows "\<exists>t. kseq cga_scroll cga_cursor s = Returns () t \<and> screen_ok t \<and> crtc_cursor t = crt_pos t \<and>
    crt_buf t = (if 2000 \<le> crt_pos s then (\<lambda>i. if i < 1920 then crt_buf s (i + 80) else if i < 2000 then 0x0720 else crt_buf s i)
      else crt_buf s) \<and>
    crt_pos t = (if 2000 \<le> crt_pos s then crt_pos s - 80 else crt_pos s)"
proof -
  have "crt_pos s - 80 < 2000" if "2000 \<le> crt_pos s"
  proof -
    have "unat (crt_pos s - 80) = unat (crt_pos s) - 80"
      using that by (subst unat_sub) (simp_all add: word_le_nat_alt)
    then show ?thesis using assms by (simp add: word_less_nat_alt)
  qed
  then show ?thesis using assms
    by (auto simp: cga_scroll_def cga_cursor_def screen_ok_def not_le linorder_not_less[symmetric])
qed

lemma unat16_add: "unat (p :: u16) + unat q < 65536 \<Longrightarrow> unat (p + q) = unat p + unat q"
  by (simp add: unat_word_ariths)

lemma newline_pos:
  fixes p :: u16
  assumes "unat p < 2000"
  shows "unat (p + 80 - (p + 80) mod 80) = (unat p div 80 + 1) * 80" "unat (p - p mod 80) = unat p div 80 * 80"
proof -
  have a: "unat (p + 80) = unat p + 80" using assms by (subst unat16_add) simp_all
  have "(p + 80) mod 80 \<le> p + 80" "p mod 80 \<le> p" by (simp_all add: word_le_nat_alt unat_mod)
  then have "unat (p + 80 - (p + 80) mod 80) = unat p + 80 - (unat p + 80) mod 80"
    "unat (p - p mod 80) = unat p - unat p mod 80" by (simp_all add: unat_sub unat_mod a)
  moreover have "unat p - unat p mod 80 = unat p div 80 * 80" "unat p mod 80 \<le> unat p"
    by (rule minus_mod_eq_div_mult, rule mod_less_eq_dividend)
  ultimately show "unat (p + 80 - (p + 80) mod 80) = (unat p div 80 + 1) * 80" "unat (p - p mod 80) = unat p div 80 * 80"
    by (simp_all only: mod_add_self2) (simp only: add_mult_distrib, linarith)
qed

lemma keeps_cga_put:
  assumes "keeps_screen tab"
  shows "keeps_screen (cga_put tab c)"
  unfolding keeps_screen_def
proof (intro allI impI)
  fix s :: "'a console_scheme"
  assume ok: "screen_ok s"
  define k where "k = (if c AND NOT 0xFF = 0 then c OR 0x0700 else c)"
  have s: "unat (crt_pos s) < 2000" using ok by (simp_all add: screen_ok_def word_less_nat_alt)
  define m where "m = (if (ucast k :: u8) = 8 then
              kmodify (\<lambda>s. if crt_pos s > 0 then s\<lparr>crt_pos := crt_pos s - 1,
                crt_buf := (crt_buf s)(crt_pos s - 1 := ucast ((k AND NOT 0xFF) OR 0x20))\<rparr> else s)
            else if (ucast k :: u8) = 10 then
              kmodify (\<lambda>s. let p = crt_pos s + of_nat CRT_COLS in s\<lparr>crt_pos := p - p mod of_nat CRT_COLS\<rparr>)
            else if (ucast k :: u8) = 13 then
              kmodify (\<lambda>s. s\<lparr>crt_pos := crt_pos s - crt_pos s mod of_nat CRT_COLS\<rparr>)
            else if (ucast k :: u8) = 9 then tab
            else kmodify (\<lambda>s. s\<lparr>crt_buf := (crt_buf s)(crt_pos s := ucast k), crt_pos := crt_pos s + 1\<rparr>))"
  have e: "cga_put tab c = kseq m (kseq cga_scroll cga_cursor)" by (simp only: cga_put_def m_def k_def Let_def)
  have p1: "unat (crt_pos s + 1) = unat (crt_pos s) + 1" using s by (subst unat16_add) simp_all
  have pm: "0 < crt_pos s \<Longrightarrow> unat (crt_pos s - 1) < 2080"
    using s unat_minus_one[of "crt_pos s"] by (simp add: word_neq_0_conv)
  have n: "unat (crt_pos s + 80 - (crt_pos s + 80) mod 80) < 2080" "unat (crt_pos s - crt_pos s mod 80) < 2080"
    using newline_pos[OF s] s by auto
  have "\<exists>t. m s = Returns () t \<and> unat (crt_pos t) < 2080"
  proof (cases "(ucast k :: u8) = 9")
    case True
    obtain t where "tab s = Returns () t" "screen_ok t" using assms ok unfolding keeps_screen_def by blast
    then show ?thesis using True by (simp add: m_def screen_ok_def word_less_nat_alt)
  next
    case False
    then show ?thesis using s p1 pm n by (simp add: m_def Let_def)
  qed
  then obtain t where t: "m s = Returns () t" "unat (crt_pos t) < 2080" by blast
  from scroll_ok[OF t(2)] show "\<exists>t. cga_put tab c s = Returns () t \<and> screen_ok t" using t(1) unfolding e by auto
qed

lemma keeps_cons_putc: "keeps_screen (cons_putc c)"
proof -
  have "keeps_screen cons_blank" unfolding cons_blank_def serial_putc_def lpt_putc_def
    by (intro keeps_kseq keeps_outbs keeps_cga_put)
  then show ?thesis unfolding cons_putc_def cga_putc_def serial_putc_def lpt_putc_def
    by (intro keeps_kseq keeps_outbs keeps_cga_put keeps_kfor)
qed

lemma draws_kseq [intro]: "draws m \<Longrightarrow> draws n \<Longrightarrow> draws (kseq m n)"
  unfolding draws_def by (metis kseq_Returns)

lemma draws_kmodify: "(\<And>s. undrawn (f s) = undrawn s) \<Longrightarrow> draws (kmodify f)"
  by (simp add: draws_def)

lemma draws_outbs [intro]: "draws (outbs pvs)" "draws (outb p v)" "draws (kret ())"
  by (simp_all add: draws_def undrawn_def)

lemma draws_kget: "(\<And>x. draws (f x)) \<Longrightarrow> draws (kbind (kget g) f)"
  by (simp add: draws_def)

lemma draws_kfor: "(\<And>i. draws (b i)) \<Longrightarrow> draws (kfor is b)"
  by (induction "is") auto

lemma draws_cga_put:
  assumes "draws tab"
  shows "draws (cga_put tab c)"
proof -
  have "draws cga_scroll" unfolding cga_scroll_def by (rule draws_kmodify) (simp add: undrawn_def)
  moreover have "draws cga_cursor" unfolding cga_cursor_def
    by (intro draws_kget draws_kseq draws_outbs draws_kmodify) (simp add: undrawn_def)
  ultimately show ?thesis using assms unfolding cga_put_def Let_def
    by (auto intro!: draws_kseq draws_kmodify simp: undrawn_def)
qed

lemma draws_cons_putc: "draws (cons_putc c)"
proof -
  have "draws cons_blank" unfolding cons_blank_def serial_putc_def lpt_putc_def
    by (intro draws_kseq draws_outbs draws_cga_put)
  then show ?thesis unfolding cons_putc_def cga_putc_def serial_putc_def lpt_putc_def
    by (intro draws_kseq draws_outbs draws_cga_put draws_kfor)
qed

section \<open>Properties\<close>

text \<open>
  C20: The console refines a list of characters: with at most 511 characters on their way, \<open>cons_getc\<close> returns the
  next of the characters in the buffer, on the serial line and decoded from the keyboard, in this order, or 0
  when there is none, and takes exactly this one away.
\<close>

theorem cons_getc_refines:
  assumes "cons_ok s" "length (cons_input s) \<le> 511"
  shows "\<exists>t. cons_getc s = Returns (case cons_input s of [] \<Rightarrow> 0 | c # _ \<Rightarrow> uint c) t \<and>
    cons_ok t \<and> cons_input t = tl (cons_input s)"
  using assms by (rule getc_ok)


lemma sample_kbd: "kbd_chars 0 [(False, 0x2A), (False, 0x1E), (False, 0xAA), (False, 0x1C)] = [0x41, 10]"
  by code_simp

lemma sample_input: "cons_input sample_console = [0x68, 0x69, 0x41, 10]"
  by (simp add: cons_input_def cons_contents_def cons_count_def sample_console_def sample_kbd del: kbd_chars.simps)

lemma sample_console_ok: "cons_ok sample_console" "input_ok sample_console" "screen_ok sample_console"
  using sample_input by (simp_all add: cons_ok_def input_ok_def screen_ok_def sample_console_def)

theorem cons_getc_refines_witness:
  "\<exists>t. cons_getc sample_console = Returns 0x68 t \<and> cons_ok t \<and> cons_input t = [0x69, 0x41, 10]"
  using cons_getc_refines[OF sample_console_ok(1)] by (simp add: sample_input)

text \<open>
  C31: Reading a line is line editing: \<open>readline\<close> returns exactly the line the reference editor
  gives for the characters to come (erasing, dropping control characters and what exceeds the buffer), leaves the
  characters after the newline, and waits forever when no newline is among them.
\<close>

theorem readline_edits:
  assumes "cons_ok s" "length (cons_input s) \<le> 511"
  shows "\<exists>t. cons_ok t \<and> (case line_edit [] (cons_input s) of
       None \<Rightarrow> readline prompt s = Leaves Spins t \<and> cons_input t = []
     | Some (line, rest) \<Rightarrow> readline prompt s = Returns (Some line) t \<and> cons_input t = rest)"
proof -
  have "quiet (case prompt of None \<Rightarrow> kret () | Some p \<Rightarrow> cprintf ''%s'' [PStr p])"
    by (auto split: option.splits)
  then obtain u where u: "(case prompt of None \<Rightarrow> kret () | Some p \<Rightarrow> cprintf ''%s'' [PStr p]) s = Returns () u" "same_input s u"
    unfolding quiet_def by blast
  have r: "readline prompt s = readline_loop (Suc (waiting u)) [] u" unfolding readline_def using u(1) by simp
  have i: "input_ok u" "cons_input u = cons_input s" using same_inputD[OF u(2)] assms by (simp_all add: input_ok_def)
  have "length (cons_input u) < Suc (waiting u)" using input_le_waiting[of u] by simp
  from readline_loop_ok[OF i(1) this, of "[]"] show ?thesis unfolding r i(2)
    by (auto simp: input_ok_def simp del: readline_loop.simps)
qed

theorem readline_edits_witness:
  "\<exists>t. readline None sample_console = Returns (Some [0x68, 0x69, 0x41]) t \<and> cons_ok t \<and> cons_input t = []"
  using readline_edits[OF sample_console_ok(1), of None] by (simp add: sample_input) blast

text \<open>
  Whatever is printed, the cursor stays on the screen and the screen keeps its size: newlines and characters in the
  last row scroll it, a backspace in the first column of the first row does nothing, a tab
  prints five blanks.
\<close>

theorem cons_putc_on_screen:
  assumes "screen_ok s"
  shows "\<exists>t. kfor cs cons_putc s = Returns () t \<and> screen_ok t"
proof -
  have "keeps_screen (kfor cs cons_putc)" by (intro keeps_kfor keeps_cons_putc)
  then show ?thesis using assms unfolding keeps_screen_def by blast
qed

theorem cons_putc_on_screen_witness: "\<exists>t. kfor [0x68, 9, 10] cons_putc sample_console = Returns () t \<and> screen_ok t"
  by (rule cons_putc_on_screen[OF sample_console_ok(3)])

text \<open>
  The buffer does not test for being full: once 512 characters have been stored and none
  taken, it looks empty and all of them are lost.
\<close>

lemma cons_store_wraps:
  assumes "cons_ok s" "cons_count s = 511"
  shows "cons_contents (cons_store c s) = []"
proof -
  have "cons_rpos s < 512" "cons_wpos s < 512" using assms(1) by (simp_all add: cons_ok_def)
  then have "cons_count (cons_store c s) = 0" using assms(2)
    by (auto simp: cons_count_def cons_store_def Let_def mod_if split: if_splits)
  then show ?thesis by (simp add: cons_contents_def)
qed

end
