(* ===== verification/Kernel_State.thy ===== *)
theory Kernel_State
  imports Mmu Cstring Console
begin

text \<open>
  The state the kernel keeps: the structures of \<^verbatim>\<open>inc/memlayout.h\<close> (page descriptors),
  \<^verbatim>\<open>inc/trap.h\<close> (trap frames), \<^verbatim>\<open>inc/env.h\<close> (environments), \<^verbatim>\<open>kern/cpu.h\<close> (processors) and
  \<^verbatim>\<open>kern/spinlock.h\<close>, the global variables of \<^verbatim>\<open>kern/pmap.c\<close>, \<^verbatim>\<open>kern/env.c\<close>, \<^verbatim>\<open>kern/trap.c\<close> and
  \<^verbatim>\<open>kern/init.c\<close>, and the parts of the machine they act on (physical memory, control registers).
  A pointer into the arrays \<^verbatim>\<open>pages\<close>, \<^verbatim>\<open>envs\<close> and \<^verbatim>\<open>cpus\<close> is an index, a null pointer is
  \<^const>\<open>None\<close>; a pointer to other kernel memory is the kernel virtual address itself, which
  refers to the physical address \<open>KERNBASE\<close> below it. A pointer outside its array panics.
\<close>

section \<open>Structures\<close>

record PageInfo =
  pp_link :: "nat option"
  pp_ref :: u16

record PushRegs =
  reg_edi :: u32
  reg_esi :: u32
  reg_ebp :: u32
  reg_oesp :: u32
  reg_ebx :: u32
  reg_edx :: u32
  reg_ecx :: u32
  reg_eax :: u32

record Trapframe =
  tf_regs :: PushRegs
  tf_es :: u16
  tf_ds :: u16
  tf_trapno :: u32
  tf_err :: u32
  tf_eip :: u32
  tf_cs :: u16
  tf_eflags :: u32
  tf_esp :: u32
  tf_ss :: u16

definition PushRegs_zero :: PushRegs where
  "PushRegs_zero = \<lparr>reg_edi = 0, reg_esi = 0, reg_ebp = 0, reg_oesp = 0, reg_ebx = 0,
     reg_edx = 0, reg_ecx = 0, reg_eax = 0\<rparr>"

definition Trapframe_zero :: Trapframe where
  "Trapframe_zero = \<lparr>tf_regs = PushRegs_zero, tf_es = 0, tf_ds = 0, tf_trapno = 0, tf_err = 0,
     tf_eip = 0, tf_cs = 0, tf_eflags = 0, tf_esp = 0, tf_ss = 0\<rparr>"

datatype EnvStatus = ENV_FREE | ENV_DYING | ENV_RUNNABLE | ENV_RUNNING | ENV_NOT_RUNNABLE

datatype EnvType = ENV_TYPE_USER

record Env =
  env_tf :: Trapframe
  env_link :: "nat option"
  env_id :: u32
  env_parent_id :: u32
  env_type :: EnvType
  env_status :: EnvStatus
  env_runs :: u32
  env_cpunum :: nat
  env_pgdir :: u32
  env_pgfault_upcall :: u32
  env_ipc_recving :: bool
  env_ipc_dstva :: u32
  env_ipc_value :: u32
  env_ipc_from :: u32
  env_ipc_perm :: u32

definition LOG2NENV :: nat where [simp, layout_defs]: "LOG2NENV = 10"
definition NENV :: nat where [simp, layout_defs]: "NENV = 2 ^ LOG2NENV"

definition ENVX :: "u32 \<Rightarrow> nat" where
  "ENVX envid = unat (envid AND (of_nat NENV - 1))"

definition Env_zero :: Env where
  "Env_zero = \<lparr>env_tf = Trapframe_zero, env_link = None, env_id = 0, env_parent_id = 0,
     env_type = ENV_TYPE_USER, env_status = ENV_FREE, env_runs = 0, env_cpunum = 0, env_pgdir = 0,
     env_pgfault_upcall = 0, env_ipc_recving = False, env_ipc_dstva = 0, env_ipc_value = 0,
     env_ipc_from = 0, env_ipc_perm = 0\<rparr>"

datatype CpuStatus = CPU_UNUSED | CPU_STARTED | CPU_HALTED

definition NCPU :: nat where [simp, layout_defs]: "NCPU = 8"

record Taskstate =
  ts_link :: u32
  ts_esp0 :: u32
  ts_ss0 :: u16
  ts_esp1 :: u32
  ts_ss1 :: u16
  ts_esp2 :: u32
  ts_ss2 :: u16
  ts_cr3 :: u32
  ts_eip :: u32
  ts_eflags :: u32
  ts_eax :: u32
  ts_ecx :: u32
  ts_edx :: u32
  ts_ebx :: u32
  ts_esp :: u32
  ts_ebp :: u32
  ts_esi :: u32
  ts_edi :: u32
  ts_es :: u16
  ts_cs :: u16
  ts_ss :: u16
  ts_ds :: u16
  ts_fs :: u16
  ts_gs :: u16
  ts_ldt :: u16
  ts_t :: u16
  ts_iomb :: u16

definition Taskstate_zero :: Taskstate where
  "Taskstate_zero = \<lparr>ts_link = 0, ts_esp0 = 0, ts_ss0 = 0, ts_esp1 = 0, ts_ss1 = 0, ts_esp2 = 0,
     ts_ss2 = 0, ts_cr3 = 0, ts_eip = 0, ts_eflags = 0, ts_eax = 0, ts_ecx = 0, ts_edx = 0,
     ts_ebx = 0, ts_esp = 0, ts_ebp = 0, ts_esi = 0, ts_edi = 0, ts_es = 0, ts_cs = 0,
     ts_ss = 0, ts_ds = 0, ts_fs = 0, ts_gs = 0, ts_ldt = 0, ts_t = 0, ts_iomb = 0\<rparr>"

record CpuInfo =
  cpu_id :: u8
  cpu_status :: CpuStatus
  cpu_env :: "nat option"
  cpu_ts :: Taskstate

record spinlock =
  locked :: bool
  lk_cpu :: "nat option"
  pcs :: "u32 list"

text \<open>Kernel error codes of \<^verbatim>\<open>inc/error.h\<close>; functions return them negated.\<close>

definition E_UNSPECIFIED :: int where [simp, layout_defs]: "E_UNSPECIFIED = 1"
definition E_BAD_ENV :: int where [simp, layout_defs]: "E_BAD_ENV = 2"
definition E_INVAL :: int where [simp, layout_defs]: "E_INVAL = 3"
definition E_NO_MEM :: int where [simp, layout_defs]: "E_NO_MEM = 4"
definition E_NO_FREE_ENV :: int where [simp, layout_defs]: "E_NO_FREE_ENV = 5"
definition E_FAULT :: int where [simp, layout_defs]: "E_FAULT = 6"
definition E_IPC_NOT_RECV :: int where [simp, layout_defs]: "E_IPC_NOT_RECV = 7"
definition E_EOF :: int where [simp, layout_defs]: "E_EOF = 8"

section \<open>The kernel's variables and the machine\<close>

text \<open>
  The state of the kernel extends that of the console, with what was printed and the ports written.
\<close>

record kstate = console +
  pmem :: mem
  cr0 :: u32
  cr2 :: u32
  cr3 :: u32
  eflags :: u32
  ebp :: u32
  hwops :: "(string \<times> u32) list"
  invlpgs :: "u32 list"
  cmos :: "u8 \<Rightarrow> u8"
  npages :: u32
  npages_basemem :: u32
  nextfree :: u32
  pages :: "PageInfo list"
  pages_kva :: u32
  page_free_list :: "nat option"
  kern_pgdir :: u32
  user_mem_check_addr :: u32
  envs :: "Env list"
  envs_kva :: u32
  env_free_list :: "nat option"
  cpus :: "CpuInfo list"
  cpunum :: nat
  ncpu :: nat
  bootcpu :: "nat option"
  kernel_lock :: spinlock
  gdt :: "Segdesc list"
  idt :: "Gatedesc list"
  ts :: Taskstate
  last_tf :: u32
  panicstr :: "string option"
  ismp :: bool
  lapicaddr :: u32
  lapic :: u32
  lapic_outs :: "(u32 \<times> u32) list"
  lapic_ver :: u32
  lapic_busy :: bool
  imcr :: u8
  mpentry_kstack :: u32

section \<open>Pointers into the arrays\<close>

definition page_at :: "nat \<Rightarrow> (kstate, PageInfo) kernel" where
  "page_at i = (\<lambda>s. if i < length (pages s) then Returns (pages s ! i) s
     else Panics ''wild PageInfo pointer'')"

definition set_page :: "nat \<Rightarrow> (PageInfo \<Rightarrow> PageInfo) \<Rightarrow> (kstate, unit) kernel" where
  "set_page i f = (\<lambda>s. if i < length (pages s)
     then Returns () (s\<lparr>pages := (pages s)[i := f (pages s ! i)]\<rparr>)
     else Panics ''wild PageInfo pointer'')"

definition env_at :: "nat \<Rightarrow> (kstate, Env) kernel" where
  "env_at i = (\<lambda>s. if i < length (envs s) then Returns (envs s ! i) s
     else Panics ''wild Env pointer'')"

definition set_env :: "nat \<Rightarrow> (Env \<Rightarrow> Env) \<Rightarrow> (kstate, unit) kernel" where
  "set_env i f = (\<lambda>s. if i < length (envs s)
     then Returns () (s\<lparr>envs := (envs s)[i := f (envs s ! i)]\<rparr>)
     else Panics ''wild Env pointer'')"

definition thiscpu :: "kstate \<Rightarrow> CpuInfo" where
  "thiscpu s = cpus s ! cpunum s"

definition curenv :: "kstate \<Rightarrow> nat option" where
  "curenv s = cpu_env (thiscpu s)"

definition set_curenv :: "nat option \<Rightarrow> (kstate, unit) kernel" where
  "set_curenv e = kmodify (\<lambda>s. s\<lparr>cpus := (cpus s)[cpunum s := (thiscpu s)\<lparr>cpu_env := e\<rparr>]\<rparr>)"

section \<open>Addresses, from kern/pmap.h\<close>

definition PADDR :: "u32 \<Rightarrow> (kstate, u32) kernel" where
  "PADDR kva = (if kva < KERNBASE then kpanic ''PADDR called with invalid kva'' else kret (kva - KERNBASE))"

definition KADDR :: "u32 \<Rightarrow> (kstate, u32) kernel" where
  "KADDR pa = (\<lambda>s. if PGNUM pa \<ge> npages s then Panics ''KADDR called with invalid pa''
     else Returns (pa + KERNBASE) s)"

definition page2pa :: "nat \<Rightarrow> u32" where
  "page2pa pp = push_bit PGSHIFT (of_nat pp)"

definition pa2page :: "u32 \<Rightarrow> (kstate, nat) kernel" where
  "pa2page pa = (\<lambda>s. if PGNUM pa \<ge> npages s then Panics ''pa2page called with invalid pa''
     else Returns (unat (PGNUM pa)) s)"

definition page2kva :: "nat \<Rightarrow> (kstate, u32) kernel" where
  "page2kva pp = KADDR (page2pa pp)"

text \<open>Reads and writes of kernel memory, which is physical memory seen from \<open>KERNBASE\<close> up.\<close>

definition load32 :: "u32 \<Rightarrow> (kstate, u32) kernel" where
  "load32 kva = kget (\<lambda>s. read32 (pmem s) (kva - KERNBASE))"

definition store32 :: "u32 \<Rightarrow> u32 \<Rightarrow> (kstate, unit) kernel" where
  "store32 kva v = kmodify (\<lambda>s. s\<lparr>pmem := write32 (pmem s) (kva - KERNBASE) v\<rparr>)"

definition memset_k :: "u32 \<Rightarrow> u32 \<Rightarrow> u32 \<Rightarrow> (kstate, unit) kernel" where
  "memset_k kva c n = kmodify (\<lambda>s. s\<lparr>pmem := memset (pmem s) (kva - KERNBASE) c n\<rparr>)"

definition memcpy_k :: "u32 \<Rightarrow> u32 \<Rightarrow> u32 \<Rightarrow> (kstate, unit) kernel" where
  "memcpy_k dst src n = kmodify (\<lambda>s. s\<lparr>pmem := memcpy (pmem s) (dst - KERNBASE) (src - KERNBASE) n\<rparr>)"

definition lcr3 :: "u32 \<Rightarrow> (kstate, unit) kernel" where
  "lcr3 pa = kmodify (\<lambda>s. s\<lparr>cr3 := pa\<rparr>)"

text \<open>Loads of processor registers the model does not interpret are recorded by name.\<close>

definition hwop :: "string \<Rightarrow> u32 \<Rightarrow> (kstate, unit) kernel" where
  "hwop r v = kmodify (\<lambda>s. s\<lparr>hwops := hwops s @ [(r, v)]\<rparr>)"

definition invlpg :: "u32 \<Rightarrow> (kstate, unit) kernel" where
  "invlpg va = kmodify (\<lambda>s. s\<lparr>invlpgs := invlpgs s @ [va]\<rparr>)"

section \<open>A small machine\<close>

text \<open>
  Eight pages of zeroed memory: page 1 is a page directory with no entries, pages 2 and 3 are free,
  page 4 is allocated and not yet mapped. No environment runs; the first one uses the directory.
\<close>

definition small_machine :: kstate where
  "small_machine = \<lparr>irq_mask_8259A = 0xFFFB, didinit = False, outs = [], klog = [],
     com_present = True, com_rx = [], serial_exists = True, kbd_in = [], kbd_shift = 0,
     cga_present = True, crtc_cursor = 0, addr_6845 = 0x3D4, crt_buf = (\<lambda>_. 0x0720), crt_pos = 0,
     cons_buf = replicate 512 0, cons_rpos = 0, cons_wpos = 0, pmem = (\<lambda>_. 0), cr0 = 0, cr2 = 0, cr3 = 0x1000, eflags = 0, ebp = 0, hwops = [], invlpgs = [], cmos = (\<lambda>_. 0),
     npages = 8, npages_basemem = 4, nextfree = 0xF0005000,
     pages = [\<lparr>pp_link = None, pp_ref = 1\<rparr>, \<lparr>pp_link = None, pp_ref = 1\<rparr>,
       \<lparr>pp_link = Some 3, pp_ref = 0\<rparr>, \<lparr>pp_link = None, pp_ref = 0\<rparr>,
       \<lparr>pp_link = None, pp_ref = 0\<rparr>, \<lparr>pp_link = None, pp_ref = 1\<rparr>,
       \<lparr>pp_link = None, pp_ref = 1\<rparr>, \<lparr>pp_link = None, pp_ref = 1\<rparr>],
     pages_kva = 0xF0006000, page_free_list = Some 2, kern_pgdir = 0xF0001000, user_mem_check_addr = 0,
     envs = (replicate 1024 Env_zero)[0 := Env_zero\<lparr>env_pgdir := 0xF0001000\<rparr>], envs_kva = 0xF0007000,
     env_free_list = None,
     cpus = replicate 8 \<lparr>cpu_id = 0, cpu_status = CPU_UNUSED, cpu_env = None,
       cpu_ts = Taskstate_zero\<rparr>,
     cpunum = 0, ncpu = 1, bootcpu = Some 0, kernel_lock = \<lparr>locked = False, lk_cpu = None, pcs = replicate 10 0\<rparr>,
     gdt = replicate 13 SEG_NULL, idt = [], ts = Taskstate_zero,
     last_tf = 0, panicstr = None, ismp = False, lapicaddr = 0, lapic = 0, lapic_outs = [], lapic_ver = 0x50014,
     lapic_busy = False, imcr = 0, mpentry_kstack = 0\<rparr>"

end
