(* ===== verification/Page_Alloc.thy ===== *)
theory Page_Alloc
  imports Kernel_State
begin

text \<open>
  The physical page allocator of \<^verbatim>\<open>kern/pmap.c\<close>: the memory sizes read from the clock chip
  (\<^verbatim>\<open>kern/kclock.c\<close>), the boot-time allocator, the construction of the free list and the operations
  on it. The invariant \<open>page_inv s xs\<close> says that the list threaded through the page descriptors
  holds exactly the pages \<open>xs\<close>, each once, each with no references, and that the descriptors
  off the list have no link. The locale \<open>page_stack\<close> is what the rest of the kernel relies on.
\<close>

section \<open>The memory of the machine\<close>

definition mc146818_read :: "u32 \<Rightarrow> (kstate, u32) kernel" where
  "mc146818_read reg = kget (\<lambda>s. ucast (cmos s (ucast reg)))"

definition mc146818_write :: "u32 \<Rightarrow> u32 \<Rightarrow> (kstate, unit) kernel" where
  "mc146818_write reg datum = kmodify (\<lambda>s. s\<lparr>cmos := (cmos s)(ucast reg := ucast datum)\<rparr>)"

definition NVRAM_BASELO :: u32 where [simp, layout_defs]: "NVRAM_BASELO = 14 + 7"
definition NVRAM_EXTLO :: u32 where [simp, layout_defs]: "NVRAM_EXTLO = 14 + 9"
definition NVRAM_EXT16LO :: u32 where [simp, layout_defs]: "NVRAM_EXT16LO = 14 + 38"

definition nvram_read :: "u32 \<Rightarrow> (kstate, u32) kernel" where
  "nvram_read r = kbind (mc146818_read r) (\<lambda>lo. kbind (mc146818_read (r + 1)) (\<lambda>hi.
     kret (lo OR push_bit 8 hi)))"

definition i386_detect_memory :: "(kstate, unit) kernel" where
  "i386_detect_memory =
     kbind (nvram_read NVRAM_BASELO) (\<lambda>basemem.
     kbind (nvram_read NVRAM_EXTLO) (\<lambda>extmem.
     kbind (nvram_read NVRAM_EXT16LO) (\<lambda>e16.
     let ext16mem = e16 * 64;
         totalmem = (if ext16mem \<noteq> 0 then 16 * 1024 + ext16mem
                     else if extmem \<noteq> 0 then 1 * 1024 + extmem else basemem)
     in kseq (kmodify (\<lambda>s. s\<lparr>npages := totalmem div (PGSIZE div 1024),
                             npages_basemem := basemem div (PGSIZE div 1024)\<rparr>))
        (cprintf ''Physical memory: %uK available, base = %uK, extended = %uK\<newline>''
           [PInt totalmem, PInt basemem, PInt (totalmem - basemem)]))))"

section \<open>The boot-time allocator\<close>

text \<open>\<open>kend\<close> is the linker's symbol \<^verbatim>\<open>end\<close>, the first address past the kernel image.\<close>

definition boot_alloc :: "u32 \<Rightarrow> u32 \<Rightarrow> (kstate, u32) kernel" where
  "boot_alloc kend n =
     kseq (kmodify (\<lambda>s. if nextfree s = 0 then s\<lparr>nextfree := ROUNDUP kend PGSIZE\<rparr> else s))
     (if n = 0 then kget nextfree
      else kbind (kget nextfree) (\<lambda>result.
        kseq (kmodify (\<lambda>s. s\<lparr>nextfree := ROUNDUP (nextfree s + n) PGSIZE\<rparr>))
        (kret result)))"

section \<open>The page allocator\<close>

definition page_mark_used :: "nat \<Rightarrow> (kstate, unit) kernel" where
  "page_mark_used i = set_page i (\<lambda>p. p\<lparr>pp_ref := 1, pp_link := None\<rparr>)"

definition page_mark_free :: "nat \<Rightarrow> (kstate, unit) kernel" where
  "page_mark_free i = kbind (kget page_free_list) (\<lambda>fl.
     kseq (set_page i (\<lambda>p. p\<lparr>pp_ref := 0, pp_link := fl\<rparr>))
     (kmodify (\<lambda>s. s\<lparr>page_free_list := Some i\<rparr>)))"

definition page_init_step :: "u32 \<Rightarrow> nat \<Rightarrow> (kstate, unit) kernel" where
  "page_init_step kend i =
     kbind (kget npages_basemem) (\<lambda>basemem.
       if i = 0 then page_mark_used i
       else if i \<ge> 1 \<and> i < unat basemem then page_mark_free i
       else if i \<ge> unat (IOPHYSMEM div PGSIZE) \<and> i < unat (EXTPHYSMEM div PGSIZE) then page_mark_used i
       else if i \<ge> unat (EXTPHYSMEM div PGSIZE) then
         kbind (boot_alloc kend 0) (\<lambda>nf.
           if i < unat ((nf - KERNBASE) div PGSIZE) then page_mark_used i else page_mark_free i)
       else page_mark_free i)"

definition page_init :: "u32 \<Rightarrow> (kstate, unit) kernel" where
  "page_init kend = kbind (kget npages) (\<lambda>np. kfor [0..<unat np] (page_init_step kend))"

definition ALLOC_ZERO :: u32 where [simp, layout_defs]: "ALLOC_ZERO = 1"

definition page_alloc :: "u32 \<Rightarrow> (kstate, nat option) kernel" where
  "page_alloc alloc_flags =
     kbind (kget page_free_list) (\<lambda>fl. case fl of
       None \<Rightarrow> kret None
     | Some page \<Rightarrow>
         kbind (page_at page) (\<lambda>p.
         kseq (kmodify (\<lambda>s. s\<lparr>page_free_list := pp_link p\<rparr>))
         (kseq (set_page page (\<lambda>p. p\<lparr>pp_link := None\<rparr>))
         (kseq (kwhen (alloc_flags AND ALLOC_ZERO \<noteq> 0)
                  (kbind (page2kva page) (\<lambda>kva. memset_k kva 0 PGSIZE)))
         (kret (Some page))))))"

definition page_free :: "nat \<Rightarrow> (kstate, unit) kernel" where
  "page_free pp =
     kbind (page_at pp) (\<lambda>p.
       if pp_link p \<noteq> None \<or> pp_ref p \<noteq> 0 then kpanic ''page_free is not right''
       else kbind (kget page_free_list) (\<lambda>fl.
         kseq (set_page pp (\<lambda>p. p\<lparr>pp_link := fl\<rparr>))
         (kmodify (\<lambda>s. s\<lparr>page_free_list := Some pp\<rparr>))))"

definition page_decref :: "nat \<Rightarrow> (kstate, unit) kernel" where
  "page_decref pp =
     kseq (set_page pp (\<lambda>p. p\<lparr>pp_ref := pp_ref p - 1\<rparr>))
     (kbind (page_at pp) (\<lambda>p. if pp_ref p = 0 then page_free pp else kret ()))"

section \<open>The invariant\<close>

definition page_links :: "kstate \<Rightarrow> nat \<Rightarrow> nat option" where
  "page_links s i = pp_link (pages s ! i)"

definition pages_ok :: "kstate \<Rightarrow> bool" where
  "pages_ok s \<longleftrightarrow> length (pages s) = unat (npages s) \<and> npages s \<le> 0x10000"

definition page_inv :: "kstate \<Rightarrow> nat list \<Rightarrow> bool" where
  "page_inv s xs \<longleftrightarrow> pages_ok s \<and> linked (page_links s) (page_free_list s) xs \<and> distinct xs \<and>
     (\<forall>i \<in> set xs. i < length (pages s) \<and> pp_ref (pages s ! i) = 0) \<and>
     (\<forall>i < length (pages s). i \<notin> set xs \<longrightarrow> pp_link (pages s ! i) = None)"

text \<open>
  What the comments of \<open>page_init\<close> call free: not page 0 (point 1), not the page at \<open>MPENTRY_PADDR\<close> (the note for the fourth lab), the rest of base memory (point 2), not
  the hole for devices (point 3), and extended memory that neither the kernel nor its boot-time allocations use (point 4).
\<close>

definition page_usable :: "kstate \<Rightarrow> nat \<Rightarrow> bool" where
  "page_usable s i \<longleftrightarrow> i \<noteq> 0 \<and> i \<noteq> unat (MPENTRY_PADDR div PGSIZE) \<and>
     (i < unat (npages_basemem s) \<or> 256 \<le> i \<and> unat ((nextfree s - KERNBASE) div PGSIZE) \<le> i) \<and> \<not> (160 \<le> i \<and> i < 256)"

text \<open>The pages that the branches of the loop put on the list.\<close>

definition page_freed :: "kstate \<Rightarrow> nat \<Rightarrow> bool" where
  "page_freed s i \<longleftrightarrow> i \<noteq> 0 \<and> (i < unat (npages_basemem s) \<or>
     (\<not> (160 \<le> i \<and> i < 256) \<and> \<not> (256 \<le> i \<and> i < unat ((nextfree s - KERNBASE) div PGSIZE))))"

definition init_inv :: "kstate \<Rightarrow> nat list \<Rightarrow> kstate \<Rightarrow> bool" where
  "init_inv s is t \<longleftrightarrow> (\<exists>ps fl. t = s\<lparr>pages := ps, page_free_list := fl\<rparr> \<and>
     length ps = length (pages s) \<and>
     linked (\<lambda>i. pp_link (ps ! i)) fl (rev (filter (page_freed s) is)) \<and>
     (\<forall>i \<in> set is. pp_ref (ps ! i) = (if page_freed s i then 0 else 1) \<and>
       (\<not> page_freed s i \<longrightarrow> pp_link (ps ! i) = None)))"

text \<open>The page a successful allocation returns, and the state it leaves.\<close>

definition after_alloc :: "kstate \<Rightarrow> nat \<Rightarrow> u32 \<Rightarrow> kstate" where
  "after_alloc s x flags = s\<lparr>page_free_list := pp_link (pages s ! x),
     pages := (pages s)[x := (pages s ! x)\<lparr>pp_link := None\<rparr>],
     pmem := (if flags AND ALLOC_ZERO \<noteq> 0 then fill (pmem s) (page2pa x) 0 4096 else pmem s)\<rparr>"

text \<open>A sequence of allocations, with their results, and a sequence of frees.\<close>

primrec alloc_many :: "('s, nat option) kernel \<Rightarrow> nat \<Rightarrow> ('s, nat option list) kernel" where
  "alloc_many alloc 0 = kret []"
| "alloc_many alloc (Suc n) = kbind alloc (\<lambda>r. kbind (alloc_many alloc n) (\<lambda>rs. kret (r # rs)))"

definition page_idle :: "kstate \<Rightarrow> nat \<Rightarrow> bool" where
  "page_idle s x \<longleftrightarrow> x < length (pages s) \<and> pp_ref (pages s ! x) = 0"

definition with_ref :: "kstate \<Rightarrow> nat \<Rightarrow> u16 \<Rightarrow> kstate" where
  "with_ref s x r = s\<lparr>pages := (pages s)[x := (pages s ! x)\<lparr>pp_ref := r\<rparr>]\<rparr>"

section \<open>Building the free list\<close>

lemma page_freed_cong [simp]:
  "page_freed (s\<lparr>pages := ps, page_free_list := fl\<rparr>) i = page_freed s i"
  by (simp add: page_freed_def)

lemma page_init_step_usable:
  assumes "nextfree s \<noteq> 0" "i < length (pages s)"
  shows "page_init_step kend i s = (if page_freed s i
    then Returns () (s\<lparr>pages := (pages s)[i := (pages s ! i)\<lparr>pp_ref := 0, pp_link := page_free_list s\<rparr>],
                       page_free_list := Some i\<rparr>)
    else Returns () (s\<lparr>pages := (pages s)[i := (pages s ! i)\<lparr>pp_ref := 1, pp_link := None\<rparr>]\<rparr>))"
  using assms
  by (auto simp: page_init_step_def page_freed_def page_mark_used_def page_mark_free_def
      set_page_def boot_alloc_def kbind_apply kseq_apply)


lemma linked_pp_link [simp]:
  "i \<notin> set xs \<Longrightarrow> linked (\<lambda>j. pp_link (if i = j then p else f j)) q xs \<longleftrightarrow> linked (\<lambda>j. pp_link (f j)) q xs"
  by (rule linked_cong) auto

lemma init_inv_step:
  assumes I: "init_inv s is t" and i: "i < length (pages s)" "i \<notin> set is" and nf: "nextfree s \<noteq> 0"
  shows "\<exists>u. page_init_step kend i t = Returns () u \<and> init_inv s (is @ [i]) u"
proof -
  obtain ps fl where t: "t = s\<lparr>pages := ps, page_free_list := fl\<rparr>" and len: "length ps = length (pages s)"
    and ln: "linked (\<lambda>i. pp_link (ps ! i)) fl (rev (filter (page_freed s) is))"
    and st: "\<forall>i \<in> set is. pp_ref (ps ! i) = (if page_freed s i then 0 else 1) \<and>
       (\<not> page_freed s i \<longrightarrow> pp_link (ps ! i) = None)"
    using I by (auto simp: init_inv_def)
  let ?p = "if page_freed s i then (ps ! i)\<lparr>pp_ref := 0, pp_link := fl\<rparr>
     else (ps ! i)\<lparr>pp_ref := 1, pp_link := None\<rparr>"
  let ?u = "s\<lparr>pages := ps[i := ?p], page_free_list := if page_freed s i then Some i else fl\<rparr>"
  have "page_init_step kend i t = Returns () ?u"
    using i nf len by (simp add: t page_init_step_usable)
  moreover have "init_inv s (is @ [i]) ?u"
    unfolding init_inv_def
    using len i ln st by (intro exI[of _ "ps[i := ?p]"] exI[of _ "if page_freed s i then Some i else fl"])
      (auto simp: nth_list_update)
  ultimately show ?thesis by blast
qed

lemma page_init_inv:
  assumes "nextfree s \<noteq> 0" "pages_ok s" "page_free_list s = None"
  shows "\<exists>t. page_init kend s = Returns () t \<and> init_inv s [0..<length (pages s)] t"
proof -
  let ?n = "length (pages s)"
  have "\<exists>t. kfor [0..<?n] (page_init_step kend) s = Returns () t \<and> init_inv s [0..<?n] t"
  proof (rule kfor_rule)
    show "init_inv s [] s" using assms(3) by (auto simp: init_inv_def intro!: exI[of _ "pages s"])
    fix "is" i t
    assume a: "is @ [i] = take (Suc (length is)) [0..<?n]" and I: "init_inv s is t"
    have l: "length (is @ [i]) = min (Suc (length is)) ?n" unfolding a by simp
    then have "take (Suc (length is)) [0..<?n] = [0..<Suc (length is)]" by (simp add: take_upt)
    with a have "is = [0..<length is]" "i = length is" by simp_all
    moreover have "length is < ?n" using l by (simp add: min_def split: if_splits)
    ultimately show "\<exists>u. page_init_step kend i t = Returns () u \<and> init_inv s (is @ [i]) u"
      using assms(1) by (intro init_inv_step[OF I]) (metis, metis atLeastLessThan_iff less_irrefl set_upt)
  qed
  then show ?thesis using assms(2) by (simp add: page_init_def pages_ok_def)
qed

lemma page_init_free_list:
  assumes "nextfree s \<noteq> 0" "pages_ok s" "page_free_list s = None"
  shows "\<exists>t. page_init kend s = Returns () t \<and>
    page_inv t (rev (filter (page_freed s) [0..<length (pages s)])) \<and>
    (\<forall>i < length (pages s). pp_ref (pages t ! i) = (if page_freed s i then 0 else 1)) \<and>
    pmem t = pmem s"
proof -
  obtain t where "page_init kend s = Returns () t" and t: "init_inv s [0..<length (pages s)] t"
    using page_init_inv[OF assms] by blast
  moreover from t have "page_inv t (rev (filter (page_freed s) [0..<length (pages s)]))"
    using assms(2) by (auto simp: init_inv_def page_inv_def pages_ok_def page_links_def[abs_def])
  moreover from t have "\<forall>i < length (pages s). pp_ref (pages t ! i) = (if page_freed s i then 0 else 1)"
    "pmem t = pmem s" by (auto simp: init_inv_def)
  ultimately show ?thesis by blast
qed

section \<open>Allocating and freeing\<close>

lemma page2pa_page:
  assumes "i < 2 ^ 20"
  shows "PGOFF (page2pa i) = 0" and "unat (PGNUM (page2pa i)) = i" and "unat (page2pa i) = 4096 * i"
proof -
  have e: "page2pa i = of_nat i * 0x1000" by (simp add: page2pa_def push_bit_eq_mult)
  show "PGOFF (page2pa i) = 0" using assms page_frame_PGOFF[of i] by (simp add: e)
  show u: "unat (page2pa i) = 4096 * i" using assms page_frame[of i] by (simp add: e)
  then show "unat (PGNUM (page2pa i)) = i" by (simp add: unat_PGNUM)
qed

lemma PGNUM_page2pa: "i < 2 ^ 20 \<Longrightarrow> PGNUM (page2pa i) = of_nat i"
  by (simp add: word_unat_eq_iff page2pa_page unat_of_nat)

lemma page_inv_bounds:
  assumes "page_inv s xs"
  shows "length (pages s) = unat (npages s)" and "length (pages s) \<le> 65536" and "distinct xs"
    and "x \<in> set xs \<Longrightarrow> x < length (pages s)" and "x \<in> set xs \<Longrightarrow> pp_ref (pages s ! x) = 0"
    and "x < length (pages s) \<Longrightarrow> x \<notin> set xs \<Longrightarrow> pp_link (pages s ! x) = None"
  using assms by (auto simp: page_inv_def pages_ok_def word_le_nat_alt)

lemma page2kva_ok: "pages_ok s \<Longrightarrow> i < length (pages s) \<Longrightarrow> page2kva i s = Returns (page2pa i + KERNBASE) s"
  by (simp add: page2kva_def KADDR_def pages_ok_def word_le_nat_alt page2pa_page not_le)


lemma page_alloc_None: "page_inv s [] \<Longrightarrow> page_alloc flags s = Returns None s"
  by (simp add: page_inv_def page_alloc_def)

lemma page_alloc_Some:
  assumes "page_inv s (x # xs)"
  shows "page_alloc flags s = Returns (Some x) (after_alloc s x flags)"
proof -
  have "x < length (pages s)" "pages_ok s" "page_free_list s = Some x"
    using assms by (auto simp: page_inv_def)
  then show ?thesis
    by (auto simp: page_alloc_def page_at_def set_page_def after_alloc_def kseq_apply kbind_apply
        page2kva_ok pages_ok_def memset_k_def memset_fill split: if_splits)
qed

lemma page_inv_after_alloc:
  assumes "page_inv s (x # xs)"
  shows "page_inv (after_alloc s x flags) xs"
  using assms
  by (auto simp: page_inv_def after_alloc_def pages_ok_def page_links_def[abs_def] nth_list_update)

lemma page_free_ok:
  assumes "page_inv s xs" "x < length (pages s)" "x \<notin> set xs" "pp_ref (pages s ! x) = 0"
  shows "page_free x s = Returns () (s\<lparr>pages := (pages s)[x := (pages s ! x)\<lparr>pp_link := page_free_list s\<rparr>],
      page_free_list := Some x\<rparr>)"
    and "page_inv (s\<lparr>pages := (pages s)[x := (pages s ! x)\<lparr>pp_link := page_free_list s\<rparr>],
      page_free_list := Some x\<rparr>) (x # xs)"
proof -
  have "pp_link (pages s ! x) = None" using assms by (simp add: page_inv_bounds(6))
  then show "page_free x s = Returns () (s\<lparr>pages := (pages s)[x := (pages s ! x)\<lparr>pp_link := page_free_list s\<rparr>],
      page_free_list := Some x\<rparr>)"
    using assms(2,4) by (simp add: page_free_def page_at_def set_page_def kbind_apply kseq_apply)
  show "page_inv (s\<lparr>pages := (pages s)[x := (pages s ! x)\<lparr>pp_link := page_free_list s\<rparr>],
      page_free_list := Some x\<rparr>) (x # xs)"
    using assms by (auto simp: page_inv_def pages_ok_def page_links_def[abs_def] nth_list_update)
qed

section \<open>The allocator's interface\<close>

text \<open>
  What a client of an allocator over a free list relies on: \<open>avail s xs\<close> are the free objects in the
  order they will be returned, and \<open>idle s x\<close> says that nothing refers to \<open>x\<close>.
\<close>

locale page_stack =
  fixes alloc :: "('s, nat option) kernel"
    and free :: "nat \<Rightarrow> ('s, unit) kernel"
    and avail :: "'s \<Rightarrow> nat list \<Rightarrow> bool"
    and idle :: "'s \<Rightarrow> nat \<Rightarrow> bool"
  assumes avail_distinct: "avail s xs \<Longrightarrow> distinct xs"
    and alloc_none: "avail s [] \<Longrightarrow> alloc s = Returns None s"
    and alloc_some: "avail s (x # xs) \<Longrightarrow>
      \<exists>t. alloc s = Returns (Some x) t \<and> avail t xs \<and> idle t x \<and> (\<forall>y. idle s y \<longrightarrow> idle t y)"
    and free_ok: "avail s xs \<Longrightarrow> idle s x \<Longrightarrow> x \<notin> set xs \<Longrightarrow>
      \<exists>t. free x s = Returns () t \<and> avail t (x # xs) \<and> (\<forall>y. idle s y \<longrightarrow> idle t y)"
begin

lemma alloc_many_ok:
  "avail s (xs @ ys) \<Longrightarrow> \<exists>t. alloc_many alloc (length xs) s = Returns (map Some xs) t \<and> avail t ys \<and>
     (\<forall>x \<in> set xs. idle t x) \<and> (\<forall>y. idle s y \<longrightarrow> idle t y)"
proof (induction xs arbitrary: s)
  case Nil
  then show ?case by simp
next
  case (Cons x xs)
  then obtain t where t: "alloc s = Returns (Some x) t" "avail t (xs @ ys)" "idle t x"
    "\<forall>y. idle s y \<longrightarrow> idle t y"
    using alloc_some[of s x "xs @ ys"] by auto
  then show ?case using Cons.IH[OF t(2)] by auto
qed

lemma alloc_exhausted:
  "avail s xs \<Longrightarrow> \<exists>t. alloc_many alloc (Suc (length xs)) s = Returns (map Some xs @ [None]) t"
proof (induction xs arbitrary: s)
  case Nil
  then show ?case by (simp add: alloc_none)
next
  case (Cons x xs)
  then obtain t where t: "alloc s = Returns (Some x) t" "avail t xs"
    using alloc_some[of s x xs] by auto
  then obtain u where "alloc_many alloc (Suc (length xs)) t = Returns (map Some xs @ [None]) u"
    using Cons.IH by blast
  moreover have "alloc_many alloc (Suc (length (x # xs))) s =
      kbind (alloc_many alloc (Suc (length xs))) (\<lambda>rs. kret (Some x # rs)) t"
    using t(1) by (simp del: alloc_many.simps add: alloc_many.simps(2)[of alloc "Suc (length xs)"])
  ultimately show ?case by simp
qed

lemma free_many_ok:
  "avail s ys \<Longrightarrow> (\<forall>x \<in> set xs. idle s x) \<Longrightarrow> distinct xs \<Longrightarrow> set xs \<inter> set ys = {} \<Longrightarrow>
   \<exists>t. kfor xs free s = Returns () t \<and> avail t (rev xs @ ys)"
proof (induction xs arbitrary: s ys)
  case Nil
  then show ?case by simp
next
  case (Cons x xs)
  then obtain t where t: "free x s = Returns () t" "avail t (x # ys)" "\<forall>y. idle s y \<longrightarrow> idle t y"
    using free_ok[of s ys x] by auto
  then have "\<exists>u. kfor xs free t = Returns () u \<and> avail u (rev xs @ (x # ys))"
    using Cons.prems by (intro Cons.IH) auto
  then show ?case using t(1) by auto
qed

text \<open>Objects taken and given back in the opposite order leave the allocator as it was.\<close>

lemma alloc_free_restores:
  assumes "avail s (xs @ ys)"
  shows "\<exists>t u. alloc_many alloc (length xs) s = Returns (map Some xs) t \<and>
    kfor (rev xs) free t = Returns () u \<and> avail u (xs @ ys)"
proof -
  obtain t where t: "alloc_many alloc (length xs) s = Returns (map Some xs) t" "avail t ys"
    "\<forall>x \<in> set xs. idle t x"
    using alloc_many_ok[OF assms] by blast
  have "distinct (xs @ ys)" using assms by (rule avail_distinct)
  then have "\<exists>u. kfor (rev xs) free t = Returns () u \<and> avail u (rev (rev xs) @ ys)"
    using t by (intro free_many_ok) auto
  then show ?thesis using t(1) by auto
qed

text \<open>Three allocations in a row, and three frees.\<close>

lemma alloc_three:
  assumes "avail s (a # b # c # xs)"
  shows "\<exists>t u v. alloc s = Returns (Some a) t \<and> alloc t = Returns (Some b) u \<and> alloc u = Returns (Some c) v \<and>
    avail v xs \<and> idle v a \<and> idle v b \<and> idle v c \<and> distinct (a # b # c # xs)"
proof -
  obtain t where t: "alloc s = Returns (Some a) t" "avail t (b # c # xs)" "idle t a" using alloc_some[OF assms] by blast
  obtain u where u: "alloc t = Returns (Some b) u" "avail u (c # xs)" "idle u b" "idle u a" using alloc_some[OF t(2)] t(3) by blast
  obtain v where "alloc u = Returns (Some c) v" "avail v xs" "idle v c" "idle v a" "idle v b" using alloc_some[OF u(2)] u(3,4) by blast
  with t u avail_distinct[OF assms] show ?thesis by blast
qed

lemma free_three:
  assumes "avail s xs" "idle s a" "idle s b" "idle s c" "distinct (a # b # c # xs)"
  shows "\<exists>t u v. free a s = Returns () t \<and> free b t = Returns () u \<and> free c u = Returns () v \<and> avail v (c # b # a # xs)"
proof -
  obtain t where t: "free a s = Returns () t" "avail t (a # xs)" "idle t b" "idle t c"
    using free_ok[OF assms(1,2)] assms by auto
  obtain u where u: "free b t = Returns () u" "avail u (b # a # xs)" "idle u c"
    using free_ok[OF t(2,3)] t(4) assms(5) by auto
  obtain v where "free c u = Returns () v" "avail v (c # b # a # xs)"
    using free_ok[OF u(2,3)] assms(5) by auto
  with t u show ?thesis by blast
qed

end

interpretation pa: page_stack "page_alloc flags" page_free page_inv page_idle
proof
  show "page_inv s xs \<Longrightarrow> distinct xs" for s xs
    by (rule page_inv_bounds(3))
  show "page_inv s [] \<Longrightarrow> page_alloc flags s = Returns None s" for s
    by (rule page_alloc_None)
  show "\<exists>t. page_alloc flags s = Returns (Some x) t \<and> page_inv t xs \<and> page_idle t x \<and>
    (\<forall>y. page_idle s y \<longrightarrow> page_idle t y)" if "page_inv s (x # xs)" for s x xs
    using page_alloc_Some[OF that] page_inv_after_alloc[OF that] page_inv_bounds(4,5)[OF that, of x]
    by (auto simp: page_idle_def after_alloc_def nth_list_update)
  show "\<exists>t. page_free x s = Returns () t \<and> page_inv t (x # xs) \<and> (\<forall>y. page_idle s y \<longrightarrow> page_idle t y)"
    if "page_inv s xs" "page_idle s x" "x \<notin> set xs" for s xs x
    using page_free_ok[OF that(1) _ that(3)] that(2) by (auto simp: page_idle_def nth_list_update)
qed

section \<open>Reference counts\<close>


lemma page_inv_with_ref:
  assumes "page_inv s xs" "x < length (pages s)" "x \<notin> set xs \<or> r = 0"
  shows "page_inv (with_ref s x r) xs"
  using assms
  by (auto simp: page_inv_def with_ref_def pages_ok_def page_links_def[abs_def] nth_list_update
      intro: linked_cong[THEN iffD1])
    (erule linked_cong[THEN iffD1, rotated], simp)+

lemma page_decref_keep:
  assumes "x < length (pages s)" "pp_ref (pages s ! x) \<noteq> 1"
  shows "page_decref x s = Returns () (with_ref s x (pp_ref (pages s ! x) - 1))"
  using assms by (simp add: page_decref_def set_page_def page_at_def with_ref_def kseq_apply kbind_apply)

lemma page_decref_last:
  assumes "page_inv s xs" "x < length (pages s)" "pp_ref (pages s ! x) = 1"
  shows "page_decref x s = Returns () (s\<lparr>pages := (pages s)[x := \<lparr>pp_link = page_free_list s, pp_ref = 0\<rparr>],
      page_free_list := Some x\<rparr>)"
    and "page_inv (s\<lparr>pages := (pages s)[x := \<lparr>pp_link = page_free_list s, pp_ref = 0\<rparr>],
      page_free_list := Some x\<rparr>) (x # xs)"
proof -
  have x: "x \<notin> set xs" using assms page_inv_bounds(5)[OF assms(1), of x] by auto
  let ?s = "with_ref s x 0"
  have i: "page_inv ?s xs" using assms by (intro page_inv_with_ref) auto
  have e: "(pages ?s)[x := (pages ?s ! x)\<lparr>pp_link := page_free_list ?s\<rparr>]
    = (pages s)[x := \<lparr>pp_link = page_free_list s, pp_ref = 0\<rparr>]"
    using assms(2) by (cases "pages s ! x") (simp add: with_ref_def)
  note f = page_free_ok[OF i _ x, unfolded e]
  show "page_decref x s = Returns () (s\<lparr>pages := (pages s)[x := \<lparr>pp_link = page_free_list s, pp_ref = 0\<rparr>],
      page_free_list := Some x\<rparr>)"
    using assms f(1) by (simp add: page_decref_def set_page_def page_at_def with_ref_def kseq_apply kbind_apply)
  show "page_inv (s\<lparr>pages := (pages s)[x := \<lparr>pp_link = page_free_list s, pp_ref = 0\<rparr>],
      page_free_list := Some x\<rparr>) (x # xs)"
    using assms(2) f(2) by (simp add: with_ref_def)
qed

lemma page_free_rejects:
  "x < length (pages s) \<Longrightarrow> pp_link (pages s ! x) \<noteq> None \<or> pp_ref (pages s ! x) \<noteq> 0 \<Longrightarrow>
   page_free x s = Panics ''page_free is not right''"
  by (auto simp: page_free_def page_at_def kbind_apply)

text \<open>
  A page freed twice is caught unless it is the last of the list: the last page has no link, and
  freeing it again closes the list into a cycle.
\<close>

lemma linked_next: "linked nxt p (xs @ x # y # ys) \<Longrightarrow> nxt x = Some y"
  by (induction xs arbitrary: p) auto

lemma linked_last: "linked nxt p (xs @ [x]) \<Longrightarrow> nxt x = None"
  by (induction xs arbitrary: p) auto

lemma double_free_caught:
  assumes "page_inv s (xs @ x # y # ys)"
  shows "page_free x s = Panics ''page_free is not right''"
  using assms linked_next[of "page_links s" "page_free_list s" xs x y ys]
  by (intro page_free_rejects) (auto simp: page_inv_def page_links_def)

lemma double_free_last:
  assumes "page_inv s (xs @ [x])"
  shows "\<exists>t. page_free x s = Returns () t \<and> (\<forall>ys. \<not> page_inv t ys)"
proof -
  have x: "x < length (pages s)" "pp_ref (pages s ! x) = 0"
    using page_inv_bounds(4,5)[OF assms, of x] by auto
  have "pp_link (pages s ! x) = None"
    using assms linked_last[of "page_links s" "page_free_list s" xs x]
    by (simp add: page_inv_def page_links_def)
  then have f: "page_free x s = Returns () (s\<lparr>pages := (pages s)[x := (pages s ! x)\<lparr>pp_link := page_free_list s\<rparr>],
      page_free_list := Some x\<rparr>)" (is "_ = Returns () ?t")
    using x by (simp add: page_free_def page_at_def set_page_def kbind_apply kseq_apply)
  have "\<not> page_inv ?t ys" for ys
  proof
    assume t: "page_inv ?t ys"
    then obtain zs where ys: "ys = x # zs" by (cases ys) (auto simp: page_inv_def)
    have ln: "linked (page_links ?t) (page_free_list s) zs"
      using t x by (simp add: page_inv_def ys page_links_def)
    have l: "linked (page_links s) (page_free_list s) (xs @ [x])" "distinct (xs @ [x])"
      using assms by (auto simp: page_inv_def)
    have "x \<in> set zs"
    proof (rule ccontr)
      assume nx: "x \<notin> set zs"
      have "page_links ?t y = page_links s y" if "y \<in> set zs" for y
        using nx that by (cases "y = x") (simp_all add: page_links_def)
      then have "linked (page_links s) (page_free_list s) zs"
        using ln linked_cong[of zs "page_links ?t" "page_links s"] by blast
      then have "zs = xs @ [x]" using linked_unique l(1) by blast
      then show False using nx by simp
    qed
    then show False using t ys by (simp add: page_inv_def)
  qed
  then show ?thesis using f by blast
qed

section \<open>The boot-time allocator\<close>

lemma boot_alloc_ok:
  assumes "nextfree s \<noteq> 0" "PGOFF (nextfree s) = 0" "n \<noteq> 0" "unat (nextfree s) + unat n + 4096 \<le> 2 ^ 32"
  shows "\<exists>t. boot_alloc kend n s = Returns (nextfree s) t \<and> t = s\<lparr>nextfree := nextfree t\<rparr> \<and>
    PGOFF (nextfree t) = 0 \<and> unat (nextfree s) + unat n \<le> unat (nextfree t) \<and>
    unat (nextfree t) < unat (nextfree s) + unat n + 4096"
proof -
  let ?a = "nextfree s + n"
  have a: "unat ?a = unat (nextfree s) + unat n" using assms(4) by (simp add: unat_word_ariths)
  have r: "unat (ROUNDUP ?a PGSIZE) = (unat ?a + 4095) div 4096 * 4096"
    using unat_ROUNDUP[of PGSIZE ?a] assms(4) a by simp
  have "PGOFF (ROUNDUP ?a PGSIZE) = 0"
    by (simp only: ROUNDUP_def ROUNDDOWN_page PGOFF_PTE_ADDR)
  moreover have "boot_alloc kend n s = Returns (nextfree s) (s\<lparr>nextfree := ROUNDUP ?a PGSIZE\<rparr>)"
    using assms(1,3) by (simp add: boot_alloc_def kseq_apply kbind_apply)
  moreover have "unat ?a \<le> unat (ROUNDUP ?a PGSIZE)" "unat (ROUNDUP ?a PGSIZE) < unat ?a + 4096"
    unfolding r using mult_div_mod_eq[of 4096 "unat ?a + 4095"] mod_less_divisor[of 4096 "unat ?a + 4095"]
    by linarith+
  ultimately show ?thesis using a by simp
qed

section \<open>Properties\<close>

lemma small_pages:
  "length (pages small_machine) = 8" "pages small_machine ! 4 = \<lparr>pp_link = None, pp_ref = 0\<rparr>"
  "pages small_machine ! 2 = \<lparr>pp_link = Some 3, pp_ref = 0\<rparr>" "pages small_machine ! 3 = \<lparr>pp_link = None, pp_ref = 0\<rparr>"
  "npages small_machine = 8" "page_free_list small_machine = Some 2"
  by (simp_all add: small_machine_def)

lemma small_links: "i < 8 \<Longrightarrow> i \<noteq> 2 \<Longrightarrow> pp_link (pages small_machine ! i) = None"
  by (auto simp: small_machine_def less_Suc_eq numeral_eq_Suc)

lemma small_inv: "page_inv small_machine [2, 3]"
  using small_links by (auto simp: page_inv_def pages_ok_def page_links_def small_pages)

text \<open>
  C24. \<open>page_init\<close> builds the free list: it returns, and when base memory ends at or below the hole for devices, the list holds exactly the pages that the comments of the
  function call free and, against the comments, also the page at \<open>MPENTRY_PADDR\<close> and the pages between the end of base memory and the hole; each page is there once,
  the highest first; free pages have no references, the others one, and no byte of memory is touched.
\<close>

theorem page_init_free_pages:
  assumes "nextfree s \<noteq> 0" "pages_ok s" "page_free_list s = None" "unat (npages_basemem s) \<le> 160"
  shows "\<exists>t xs. page_init kend s = Returns () t \<and> page_inv t xs \<and>
    (\<forall>i. i \<in> set xs \<longleftrightarrow> i < length (pages s) \<and> (page_usable s i \<or> i = unat (MPENTRY_PADDR div PGSIZE) \<or>
       0 < i \<and> unat (npages_basemem s) \<le> i \<and> i < 160)) \<and> sorted (rev xs) \<and>
    (\<forall>i < length (pages s). pp_ref (pages t ! i) = (if i \<in> set xs then 0 else 1)) \<and> pmem t = pmem s"
proof -
  let ?xs = "rev (filter (page_freed s) [0..<length (pages s)])"
  obtain t where t: "page_init kend s = Returns () t" "page_inv t ?xs" "pmem t = pmem s"
    "\<forall>i < length (pages s). pp_ref (pages t ! i) = (if page_freed s i then 0 else 1)"
    using page_init_free_list[OF assms(1-3)] by blast
  have "page_freed s i \<longleftrightarrow> page_usable s i \<or> i = unat (MPENTRY_PADDR div PGSIZE) \<or> 0 < i \<and> unat (npages_basemem s) \<le> i \<and> i < 160" for i
    using assms(4) unfolding page_freed_def page_usable_def by (simp del: KERNBASE_def) linarith
  then have "i \<in> set ?xs \<longleftrightarrow> i < length (pages s) \<and> (page_usable s i \<or> i = unat (MPENTRY_PADDR div PGSIZE) \<or>
       0 < i \<and> unat (npages_basemem s) \<le> i \<and> i < 160)" for i
    by auto
  moreover have "sorted (rev ?xs)" by (simp add: sorted_filter[of id, simplified])
  moreover have "\<forall>i < length (pages s). pp_ref (pages t ! i) = (if i \<in> set ?xs then 0 else 1)"
    using t(4) by simp
  ultimately show ?thesis using t(1-3) by blast
qed

theorem page_init_free_pages_witness:
  "\<exists>t xs. page_init 0xF0004000 (small_machine\<lparr>page_free_list := None\<rparr>) = Returns () t \<and> page_inv t xs \<and>
    3 \<in> set xs \<and> 7 \<in> set xs \<and> 0 \<notin> set xs"
proof -
  let ?s = "small_machine\<lparr>page_free_list := None\<rparr>"
  have "nextfree ?s \<noteq> 0" "pages_ok ?s" "page_free_list ?s = None" "unat (npages_basemem ?s) \<le> 160"
    by (simp_all add: small_machine_def pages_ok_def)
  from page_init_free_pages[OF this, of "0xF0004000"] obtain t xs where t: "page_init 0xF0004000 ?s = Returns () t" "page_inv t xs"
    and x: "\<And>i. i \<in> set xs \<longleftrightarrow> i < length (pages ?s) \<and> (page_usable ?s i \<or> i = unat (MPENTRY_PADDR div PGSIZE) \<or>
       0 < i \<and> unat (npages_basemem ?s) \<le> i \<and> i < 160)" by blast
  have "length (pages ?s) = 8" "unat (npages_basemem ?s) = 4" by (simp_all add: small_machine_def)
  then have "3 \<in> set xs" "7 \<in> set xs" "0 \<notin> set xs" unfolding x page_usable_def by simp_all
  then show ?thesis using t by blast
qed

text \<open>
  Allocation hands out every free page once and then fails: as many calls as there are free
  pages return them in order, all different, and the next call returns a null pointer.
\<close>

theorem page_alloc_exhausts:
  assumes "page_inv s xs"
  shows "(\<exists>t. alloc_many (page_alloc flags) (Suc (length xs)) s = Returns (map Some xs @ [None]) t) \<and> distinct xs"
  using pa.alloc_exhausted[OF assms] pa.avail_distinct[OF assms] by auto

theorem page_alloc_exhausts_witness:
  "\<exists>t. alloc_many (page_alloc ALLOC_ZERO) 3 small_machine = Returns [Some 2, Some 3, None] t"
  using page_alloc_exhausts[OF small_inv, of ALLOC_ZERO] by (simp add: numeral_eq_Suc)

text \<open>
  Pages allocated and freed again in the opposite order leave the free list as it was.
\<close>

theorem page_alloc_free_restores:
  assumes "page_inv s (xs @ ys)"
  shows "\<exists>t u. alloc_many (page_alloc flags) (length xs) s = Returns (map Some xs) t \<and>
    kfor (rev xs) page_free t = Returns () u \<and> page_inv u (xs @ ys)"
  by (rule pa.alloc_free_restores[OF assms])

theorem page_alloc_free_restores_witness:
  "\<exists>t u. alloc_many (page_alloc 0) 2 small_machine = Returns [Some 2, Some 3] t \<and>
    kfor [3, 2] page_free t = Returns () u \<and> page_inv u [2, 3]"
  using page_alloc_free_restores[of small_machine "[2, 3]" "[]" 0] small_inv
  by (simp only: append_Nil2 list.size list.map rev.simps append.simps) (simp add: numeral_eq_Suc)

text \<open>
  C28. A double free is caught except at the end of the list: freeing a free page panics when the
  page has a successor in the list; freeing the last page succeeds and leaves no well-formed
  list, because the last page has no link and the guard tests only the link and the count.
\<close>

theorem page_free_double:
  assumes "page_inv s xs" "x \<in> set xs"
  shows "if x = last xs then \<exists>t. page_free x s = Returns () t \<and> (\<forall>ys. \<not> page_inv t ys)
    else page_free x s = Panics ''page_free is not right''"
proof -
  obtain ys zs where e: "xs = ys @ x # zs" using assms(2) by (meson split_list)
  have d: "distinct xs" by (rule page_inv_bounds(3)[OF assms(1)])
  show ?thesis
  proof (cases zs)
    case Nil
    then show ?thesis using double_free_last[of s ys x] assms(1) e by simp
  next
    case (Cons z zs')
    then have "x \<noteq> last xs" using d e by auto
    then show ?thesis using double_free_caught[of s ys x z zs'] assms(1) e Cons by simp
  qed
qed

theorem page_free_double_witness:
  "page_free 2 small_machine = Panics ''page_free is not right'' \<and>
   (\<exists>t. page_free 3 small_machine = Returns () t \<and> (\<forall>ys. \<not> page_inv t ys))"
  using page_free_double[OF small_inv, of 2] page_free_double[OF small_inv, of 3] by simp

text \<open>
  The boot-time allocator returns page-aligned, disjoint ranges: the result is the old end of
  the allocated memory, and the new end is the next page boundary past the requested bytes.
\<close>

theorem boot_alloc_disjoint:
  assumes "nextfree s \<noteq> 0" "PGOFF (nextfree s) = 0" "n \<noteq> 0" "unat (nextfree s) + unat n + 4096 \<le> 2 ^ 32"
  shows "\<exists>t. boot_alloc kend n s = Returns (nextfree s) t \<and> t = s\<lparr>nextfree := nextfree t\<rparr> \<and>
    PGOFF (nextfree t) = 0 \<and> unat (nextfree s) + unat n \<le> unat (nextfree t) \<and>
    unat (nextfree t) < unat (nextfree s) + unat n + 4096"
  by (rule boot_alloc_ok[OF assms])

theorem boot_alloc_disjoint_witness:
  "\<exists>t. boot_alloc 0xF0004321 100 small_machine = Returns 0xF0005000 t \<and> PGOFF (nextfree t) = 0"
proof -
  have "nextfree small_machine = 0xF0005000" by (simp add: small_machine_def)
  then show ?thesis using boot_alloc_disjoint[of small_machine 100 "0xF0004321"] by (auto simp: PGOFF_def)
qed

end
