(* ===== verification/Page_Table.thy ===== *)
theory Page_Table
  imports Page_Alloc
begin

text \<open>
  The two-level page tables of \<^verbatim>\<open>kern/pmap.c\<close>: the walk, the operations that map, look up and unmap
  pages, and the check of user memory. A page directory is given by its kernel virtual address;
  directories and tables are bytes of physical memory. \<open>pte_of s pgdir va\<close> is the entry the
  processor finds for \<open>va\<close>; \<open>wf_pgdir\<close> says that the directory and the tables it refers to are
  different allocated pages, apart from the entry at \<open>UVPT\<close> by which the directory maps itself.
\<close>

section \<open>Walking and changing page tables\<close>

definition pgdir_walk_end :: "u32 \<Rightarrow> u32 \<Rightarrow> (kstate, u32 option) kernel" where
  "pgdir_walk_end pde va = kbind (load32 pde) (\<lambda>v. kbind (KADDR (PTE_ADDR v)) (\<lambda>p.
     kret (Some (p + 4 * PTX va))))"

definition pgdir_walk :: "u32 \<Rightarrow> u32 \<Rightarrow> bool \<Rightarrow> (kstate, u32 option) kernel" where
  "pgdir_walk pgdir va create =
     (let pde = pgdir + 4 * PDX va in
      kbind (load32 pde) (\<lambda>v.
        if v AND PTE_P = 0 then
          (if create then
             kbind (page_alloc ALLOC_ZERO) (\<lambda>pg. case pg of
               None \<Rightarrow> kret None
             | Some page \<Rightarrow>
                 kseq (set_page page (\<lambda>p. p\<lparr>pp_ref := pp_ref p + 1\<rparr>))
                 (kseq (store32 pde (page2pa page OR PTE_P OR PTE_U OR PTE_W))
                 (pgdir_walk_end pde va)))
           else kret None)
        else pgdir_walk_end pde va))"

text \<open>The loop of \<^verbatim>\<open>boot_map_region\<close>, which runs \<open>n\<close> times.\<close>

primrec boot_map_loop :: "nat \<Rightarrow> u32 \<Rightarrow> u32 \<Rightarrow> u32 \<Rightarrow> u32 \<Rightarrow> (kstate, unit) kernel" where
  "boot_map_loop 0 pgdir va pa perm = kret ()"
| "boot_map_loop (Suc n) pgdir va pa perm =
     kbind (pgdir_walk pgdir va True) (\<lambda>pte. case pte of
       None \<Rightarrow> kpanic ''boot_map_region panic: out of memory''
     | Some p \<Rightarrow> kseq (store32 p (pa OR perm OR PTE_P))
         (boot_map_loop n pgdir (va + PGSIZE) (pa + PGSIZE) perm))"

definition boot_map_region :: "u32 \<Rightarrow> u32 \<Rightarrow> u32 \<Rightarrow> u32 \<Rightarrow> u32 \<Rightarrow> (kstate, unit) kernel" where
  "boot_map_region pgdir va sz pa perm = boot_map_loop (unat (PGNUM sz)) pgdir va pa perm"

text \<open>
  \<open>page_lookup\<close> gives the page and, as the value stored through \<^verbatim>\<open>pte_store\<close>, the address of
  the entry.
\<close>

definition page_lookup :: "u32 \<Rightarrow> u32 \<Rightarrow> (kstate, (nat \<times> u32) option) kernel" where
  "page_lookup pgdir va =
     kbind (pgdir_walk pgdir va False) (\<lambda>pte. case pte of
       None \<Rightarrow> kret None
     | Some p \<Rightarrow> kbind (load32 p) (\<lambda>v.
         if v AND PTE_P = 0 then kret None
         else kbind (pa2page (PTE_ADDR v)) (\<lambda>pg. kret (Some (pg, p)))))"

definition tlb_invalidate :: "u32 \<Rightarrow> u32 \<Rightarrow> (kstate, unit) kernel" where
  "tlb_invalidate pgdir va =
     kbind (kget curenv) (\<lambda>c. case c of
       None \<Rightarrow> invlpg va
     | Some e \<Rightarrow> kbind (env_at e) (\<lambda>env. if env_pgdir env = pgdir then invlpg va else kret ()))"

definition page_remove :: "u32 \<Rightarrow> u32 \<Rightarrow> (kstate, unit) kernel" where
  "page_remove pgdir va =
     kbind (page_lookup pgdir va) (\<lambda>r. case r of
       None \<Rightarrow> kret ()
     | Some (pg, pte) \<Rightarrow> kbind (load32 pte) (\<lambda>v.
         if v AND PTE_P = 0 then kret ()
         else kseq (store32 pte 0) (kseq (page_decref pg) (tlb_invalidate pgdir va))))"

definition page_insert :: "u32 \<Rightarrow> nat \<Rightarrow> u32 \<Rightarrow> u32 \<Rightarrow> (kstate, int) kernel" where
  "page_insert pgdir pp va perm =
     kbind (pgdir_walk pgdir va True) (\<lambda>pte. case pte of
       None \<Rightarrow> kret (- E_NO_MEM)
     | Some p \<Rightarrow>
         kseq (set_page pp (\<lambda>q. q\<lparr>pp_ref := pp_ref q + 1\<rparr>))
         (kbind (load32 p) (\<lambda>v.
          kseq (kwhen (v AND PTE_P \<noteq> 0) (page_remove pgdir va))
         (kseq (store32 p (page2pa pp OR perm OR PTE_P))
         (kret 0)))))"

definition mmio_map_region :: "u32 \<Rightarrow> u32 \<Rightarrow> (kstate, u32) kernel" where
  "mmio_map_region pa sz = kpanic ''mmio_map_region not implemented''"

section \<open>Checking user memory\<close>

text \<open>
  The addresses a loop \<^verbatim>\<open>for (; begin < end; begin += PGSIZE)\<close> visits when both bounds are page
  aligned.
\<close>

definition pages_between :: "u32 \<Rightarrow> u32 \<Rightarrow> u32 list" where
  "pages_between b e = map (\<lambda>n. b + of_nat n * PGSIZE) [0..<(unat e - unat b) div 4096]"

primrec user_mem_check_loop :: "u32 list \<Rightarrow> u32 \<Rightarrow> u32 \<Rightarrow> u32 \<Rightarrow> (kstate, int) kernel" where
  "user_mem_check_loop [] pgdir check_perm check_va = kret 0"
| "user_mem_check_loop (b # bs) pgdir check_perm check_va =
     kbind (pgdir_walk pgdir b False) (\<lambda>pte.
     kbind (case pte of None \<Rightarrow> kret 0 | Some p \<Rightarrow> load32 p) (\<lambda>v.
       if b \<ge> ULIM \<or> pte = None \<or> v AND check_perm \<noteq> check_perm then
         kseq (kmodify (\<lambda>s. s\<lparr>user_mem_check_addr := (if b \<ge> check_va then b else check_va)\<rparr>))
           (kret (- E_FAULT))
       else user_mem_check_loop bs pgdir check_perm check_va))"

definition user_mem_check :: "nat \<Rightarrow> u32 \<Rightarrow> u32 \<Rightarrow> u32 \<Rightarrow> (kstate, int) kernel" where
  "user_mem_check env va len perm =
     kbind (env_at env) (\<lambda>e.
       let b = ROUNDDOWN va PGSIZE; e_end = ROUNDUP (va + len) PGSIZE
       in user_mem_check_loop (pages_between b e_end) (env_pgdir e) (perm OR PTE_P) va)"

section \<open>The view of the processor\<close>

text \<open>Entry \<open>i\<close> of the table at physical address \<open>b\<close>.\<close>

definition entry :: "mem \<Rightarrow> u32 \<Rightarrow> nat \<Rightarrow> u32" where
  "entry m b i = read32 m (b + 4 * of_nat i)"

definition pde_of :: "kstate \<Rightarrow> u32 \<Rightarrow> nat \<Rightarrow> u32" where
  "pde_of s pgdir d = entry (pmem s) (pgdir - KERNBASE) d"

definition pte_of :: "kstate \<Rightarrow> u32 \<Rightarrow> u32 \<Rightarrow> u32 option" where
  "pte_of s pgdir va =
     (let pde = pde_of s pgdir (unat (PDX va)) in
      if pde AND PTE_P = 0 then None
      else Some (entry (pmem s) (PTE_ADDR pde) (unat (PTX va))))"

text \<open>The page and the flags mapped at an address, if any.\<close>

definition mapped :: "kstate \<Rightarrow> u32 \<Rightarrow> u32 \<Rightarrow> u32 option" where
  "mapped s pgdir va =
     (case pte_of s pgdir va of None \<Rightarrow> None | Some pte \<Rightarrow> if pte AND PTE_P = 0 then None else Some pte)"

definition UVPTX :: nat where [simp, layout_defs]: "UVPTX = 957"

definition dir_page :: "u32 \<Rightarrow> nat" where
  "dir_page pgdir = unat (PGNUM (pgdir - KERNBASE))"

definition table_page :: "kstate \<Rightarrow> u32 \<Rightarrow> nat \<Rightarrow> nat" where
  "table_page s pgdir d = unat (PGNUM (pde_of s pgdir d))"

definition table_present :: "kstate \<Rightarrow> u32 \<Rightarrow> nat \<Rightarrow> bool" where
  "table_present s pgdir d \<longleftrightarrow> d < 1024 \<and> d \<noteq> UVPTX \<and> pde_of s pgdir d AND PTE_P \<noteq> 0"

definition wf_pgdir :: "kstate \<Rightarrow> nat list \<Rightarrow> u32 \<Rightarrow> bool" where
  "wf_pgdir s xs pgdir \<longleftrightarrow> PGOFF pgdir = 0 \<and> KERNBASE \<le> pgdir \<and>
     dir_page pgdir < length (pages s) \<and> dir_page pgdir \<notin> set xs \<and>
     (pde_of s pgdir UVPTX AND PTE_P \<noteq> 0 \<longrightarrow> table_page s pgdir UVPTX = dir_page pgdir) \<and>
     (\<forall>d. table_present s pgdir d \<longrightarrow> table_page s pgdir d < length (pages s) \<and>
        table_page s pgdir d \<notin> set xs \<and> table_page s pgdir d \<noteq> dir_page pgdir) \<and>
     (\<forall>d d'. table_present s pgdir d \<longrightarrow> table_present s pgdir d' \<longrightarrow>
        table_page s pgdir d = table_page s pgdir d' \<longrightarrow> d = d')"

text \<open>Addresses whose tables are not the directory itself.\<close>

definition ordinary :: "u32 \<Rightarrow> bool" where
  "ordinary va \<longleftrightarrow> unat (PDX va) \<noteq> UVPTX"

text \<open>The kernel virtual address of the entry for \<open>va\<close>, when its table exists.\<close>

definition pte_kva :: "kstate \<Rightarrow> u32 \<Rightarrow> u32 \<Rightarrow> u32" where
  "pte_kva s pgdir va = PTE_ADDR (pde_of s pgdir (unat (PDX va))) + KERNBASE + 4 * PTX va"

text \<open>The state after the walk put the fresh page \<open>x\<close> in the directory as the table of \<open>va\<close>.\<close>

definition with_table :: "kstate \<Rightarrow> u32 \<Rightarrow> nat \<Rightarrow> nat \<Rightarrow> kstate" where
  "with_table s pgdir d x = s\<lparr>page_free_list := pp_link (pages s ! x),
     pages := (pages s)[x := \<lparr>pp_link = None, pp_ref = 1\<rparr>],
     pmem := write32 (fill (pmem s) (page2pa x) 0 4096) (pgdir - KERNBASE + 4 * of_nat d) (page2pa x OR 7)\<rparr>"

text \<open>
  The part of the state the paging operations may change, the pages that make up an address
  space, and the memory outside a set of pages.
\<close>

definition unpaged :: "kstate \<Rightarrow> kstate" where
  "unpaged s = s\<lparr>pages := [], page_free_list := None, pmem := (\<lambda>_. 0), invlpgs := []\<rparr>"

definition pages_only :: "kstate \<Rightarrow> kstate \<Rightarrow> bool" where
  "pages_only s t \<longleftrightarrow> unpaged t = unpaged s \<and> length (pages t) = length (pages s)"

definition as_pages :: "kstate \<Rightarrow> u32 \<Rightarrow> nat set" where
  "as_pages s pgdir = insert (dir_page pgdir) (table_page s pgdir ` {d. table_present s pgdir d})"

text \<open>The pages a walk for an address may write: the directory and the table of the address.\<close>

definition walk_pages :: "kstate \<Rightarrow> u32 \<Rightarrow> u32 \<Rightarrow> nat set" where
  "walk_pages s pgdir va = insert (dir_page pgdir)
     (if table_present s pgdir (unat (PDX va)) then {table_page s pgdir (unat (PDX va))} else {})"

definition mem_outside :: "nat set \<Rightarrow> kstate \<Rightarrow> kstate \<Rightarrow> bool" where
  "mem_outside P s t \<longleftrightarrow> (\<forall>a. unat (PGNUM a) \<notin> P \<longrightarrow> pmem t a = pmem s a)"

definition curenv_ok :: "kstate \<Rightarrow> bool" where
  "curenv_ok s \<longleftrightarrow> (case curenv s of None \<Rightarrow> True | Some e \<Rightarrow> e < length (envs s))"

definition flushes :: "kstate \<Rightarrow> u32 \<Rightarrow> bool" where
  "flushes s pgdir \<longleftrightarrow> (case curenv s of None \<Rightarrow> True | Some e \<Rightarrow> env_pgdir (envs s ! e) = pgdir)"

text \<open>What unmapping a page leaves, and what it changes.\<close>

definition removed :: "kstate \<Rightarrow> u32 \<Rightarrow> u32 \<Rightarrow> nat \<Rightarrow> kstate \<Rightarrow> bool" where
  "removed s pgdir va pg t \<longleftrightarrow> pages_only s t \<and>
     (\<forall>va'. ordinary va' \<longrightarrow> mapped t pgdir va' = (if PGNUM va' = PGNUM va then None else mapped s pgdir va')) \<and>
     (\<forall>d < 1024. pde_of t pgdir d = pde_of s pgdir d) \<and>
     (\<forall>i < length (pages s). pp_ref (pages t ! i) = (if i = pg then pp_ref (pages s ! pg) - 1 else pp_ref (pages s ! i))) \<and>
     mem_outside {table_page s pgdir (unat (PDX va))} s t \<and>
     invlpgs t = invlpgs s @ (if flushes s pgdir then [va] else [])"

text \<open>
  After a walk that creates tables as needed: \<open>s'\<close> with its free list \<open>xs'\<close> has the table of \<open>va\<close>,
  and the same pages mapped as \<open>s\<close> with its free list \<open>xs\<close>.
\<close>

definition walked :: "kstate \<Rightarrow> nat list \<Rightarrow> u32 \<Rightarrow> u32 \<Rightarrow> kstate \<Rightarrow> nat list \<Rightarrow> bool" where
  "walked s xs pgdir va s' xs' \<longleftrightarrow> page_inv s' xs' \<and> wf_pgdir s' xs' pgdir \<and>
     table_present s' pgdir (unat (PDX va)) \<and> pages_only s s' \<and> invlpgs s' = invlpgs s \<and>
     (\<forall>va'. ordinary va' \<longrightarrow> mapped s' pgdir va' = mapped s pgdir va') \<and>
     mem_outside (walk_pages s pgdir va \<union> set xs) s s' \<and> table_page s' pgdir (unat (PDX va)) \<in> walk_pages s pgdir va \<union> set xs \<and> set xs' \<subseteq> set xs \<and> length xs \<le> Suc (length xs') \<and>
     as_pages s' pgdir \<subseteq> as_pages s pgdir \<union> (set xs - set xs') \<and>
     (\<forall>d < 1024. d \<noteq> unat (PDX va) \<or> table_present s pgdir d \<longrightarrow> pde_of s' pgdir d = pde_of s pgdir d) \<and>
     (\<forall>i \<in> set xs - set xs'. table_page s' pgdir (unat (PDX va)) = i) \<and>
     (\<forall>i < length (pages s). pp_ref (pages s' ! i) = (if i \<in> set xs - set xs' then 1 else pp_ref (pages s ! i)))"

definition mapped_page :: "kstate \<Rightarrow> u32 \<Rightarrow> u32 \<Rightarrow> nat option" where
  "mapped_page s pgdir va = map_option (\<lambda>pte. unat (PGNUM pte)) (mapped s pgdir va)"

text \<open>
  A page that a mapping may refer to: it exists, it is counted, and it is no table of the address
  space itself.
\<close>

definition good_page :: "kstate \<Rightarrow> u32 \<Rightarrow> nat \<Rightarrow> bool" where
  "good_page s pgdir pg \<longleftrightarrow> pg < length (pages s) \<and> pp_ref (pages s ! pg) \<noteq> 0 \<and> pg \<notin> as_pages s pgdir"

text \<open>The effect of clearing the entry of \<open>va\<close>, in use or not.\<close>

definition cleared :: "kstate \<Rightarrow> nat list \<Rightarrow> u32 \<Rightarrow> u32 \<Rightarrow> kstate \<Rightarrow> nat list \<Rightarrow> bool" where
  "cleared s xs pgdir va t ys \<longleftrightarrow> pages_only s t \<and> page_inv t ys \<and> wf_pgdir t ys pgdir \<and>
    set xs \<subseteq> set ys \<and> set ys \<subseteq> set xs \<union> {pg. mapped_page s pgdir va = Some pg \<and> pp_ref (pages s ! pg) = 1} \<and>
    (\<forall>va'. ordinary va' \<longrightarrow> mapped t pgdir va' = (if PGNUM va' = PGNUM va then None else mapped s pgdir va')) \<and>
    (\<forall>d < 1024. pde_of t pgdir d = pde_of s pgdir d) \<and> mem_outside (walk_pages s pgdir va) s t \<and>
    (\<forall>i < length (pages s). pp_ref (pages t ! i) =
       (if mapped_page s pgdir va = Some i then pp_ref (pages s ! i) - 1 else pp_ref (pages s ! i)))"

text \<open>What a successful insertion gives.\<close>

definition inserted :: "kstate \<Rightarrow> nat list \<Rightarrow> u32 \<Rightarrow> nat \<Rightarrow> u32 \<Rightarrow> u32 \<Rightarrow> kstate \<Rightarrow> nat list \<Rightarrow> bool" where
  "inserted s xs pgdir pp va perm t ys \<longleftrightarrow> page_inv t ys \<and> wf_pgdir t ys pgdir \<and> pages_only s t \<and>
     (\<forall>va'. ordinary va' \<longrightarrow> mapped t pgdir va' = (if PGNUM va' = PGNUM va
        then Some (page2pa pp OR perm OR PTE_P) else mapped s pgdir va')) \<and>
     (\<forall>i < length (pages s). i \<notin> set xs \<longrightarrow> pp_ref (pages t ! i) = pp_ref (pages s ! i)
        + (if i = pp then 1 else 0) - (if mapped_page s pgdir va = Some i then 1 else 0)) \<and>
     mem_outside (walk_pages s pgdir va \<union> set xs) s t \<and> as_pages t pgdir \<subseteq> as_pages s pgdir \<union> set xs \<and>
     set ys \<subseteq> set xs \<union> {pg. mapped_page s pgdir va = Some pg} \<and> length xs \<le> Suc (length ys) \<and>
     (\<forall>d < 1024. d \<noteq> unat (PDX va) \<or> table_present s pgdir d \<longrightarrow> pde_of t pgdir d = pde_of s pgdir d) \<and>
     (\<forall>i \<in> set xs - set ys. pp_ref (pages t ! i) = 1 \<and> table_page t pgdir (unat (PDX va)) = i)"

text \<open>
  The access a user environment has to an address, as the comment of \<open>user_mem_check\<close> puts it:
  the address is below \<open>ULIM\<close> and the page table gives the permissions. The comment does not mention the directory entry, on which the processor insists as well (\<open>mmu_access\<close>).
\<close>

definition user_access :: "kstate \<Rightarrow> u32 \<Rightarrow> u32 \<Rightarrow> u32 \<Rightarrow> bool" where
  "user_access s pgdir perm va \<longleftrightarrow> va < ULIM \<and>
     (case pte_of s pgdir va of None \<Rightarrow> False | Some pte \<Rightarrow> pte AND (perm OR PTE_P) = perm OR PTE_P)"

text \<open>What the processor lets user code do: both the directory entry and the table entry must give the permissions.\<close>

definition mmu_access :: "kstate \<Rightarrow> u32 \<Rightarrow> u32 \<Rightarrow> u32 \<Rightarrow> bool" where
  "mmu_access s pgdir perm va \<longleftrightarrow> pde_of s pgdir (unat (PDX va)) AND (perm OR PTE_P OR PTE_U) = perm OR PTE_P OR PTE_U \<and>
     (case pte_of s pgdir va of None \<Rightarrow> False | Some pte \<Rightarrow> pte AND (perm OR PTE_P OR PTE_U) = perm OR PTE_P OR PTE_U)"

text \<open>The small machine with a second directory on page 5 that shares the table on page 6 with the first one, as every environment shares the kernel's tables.\<close>

definition shared_machine :: kstate where
  "shared_machine = small_machine\<lparr>pmem := write32 (write32 (\<lambda>_. 0) (0x1000 + 4 * of_nat 956) 0x6005) (0x5000 + 4 * of_nat 956) 0x6005\<rparr>"

lemma UVPTX_PDX: "unat (PDX UVPT) = UVPTX"
  by (simp add: unat_PDX)

section \<open>Table entries\<close>

lemma entry_addr:
  assumes "PGOFF b = 0" "i < 1024"
  shows "unat (b + 4 * of_nat i) = unat b + 4 * i" and "aligned4 (b + 4 * of_nat i)"
    and "PGNUM (b + 4 * of_nat i) = PGNUM b"
proof -
  have b: "unat b = 4096 * unat (PGNUM b)" using assms(1) by (rule page_aligned_unat)
  have i: "unat (4 * of_nat i :: u32) = 4 * i" using assms(2) by (simp add: unat_word_ariths unat_of_nat)
  have "unat b + 4 * i < 4294967296"
  proof -
    have "unat (PGNUM b) < 1048576" using unat_u32_less[of b] b by linarith
    then show ?thesis using b assms(2) by linarith
  qed
  then show u: "unat (b + 4 * of_nat i) = unat b + 4 * i"
    using i by (simp add: unat_plus_if')
  have "(4096 * unat (PGNUM b) + 4 * i) mod 4 = 0" by (simp add: mod_eq_0_iff_dvd)
  then show "aligned4 (b + 4 * of_nat i)" by (simp add: aligned4_unat u b)
  have "(4096 * unat (PGNUM b) + 4 * i) div 4096 = unat (PGNUM b)" using assms(2) by simp
  then show "PGNUM (b + 4 * of_nat i) = PGNUM b" by (simp add: word_unat_eq_iff[of "PGNUM _"] unat_PGNUM[of "b + _"] u b)
qed

lemma entry_addr_eq:
  assumes "PGOFF b = 0" "PGOFF c = 0" "i < 1024" "j < 1024"
  shows "b + 4 * of_nat i = c + 4 * of_nat j \<longleftrightarrow> b = c \<and> i = j"
proof
  assume e: "b + 4 * of_nat i = c + 4 * of_nat j"
  have "PGNUM b = PGNUM c"
    using entry_addr(3)[OF assms(1,3)] entry_addr(3)[OF assms(2,4)] by (simp only: e)
  then have "b = c" by (rule page_addr_eq[OF assms(1,2)])
  moreover have "unat b + 4 * i = unat c + 4 * j"
    using entry_addr(1)[OF assms(1,3)] entry_addr(1)[OF assms(2,4)] by (simp only: e)
  ultimately show "b = c \<and> i = j" by simp
qed auto

lemma entry_write [mem_simps]:
  assumes "PGOFF b = 0" "PGOFF c = 0" "i < 1024" "j < 1024"
  shows "entry (write32 m (b + 4 * of_nat i) v) c j = (if b = c \<and> i = j then v else entry m c j)"
proof (cases "b = c \<and> i = j")
  case True
  then show ?thesis by (simp add: entry_def)
next
  case False
  then have "b + 4 * of_nat i \<noteq> c + 4 * of_nat j" using entry_addr_eq[OF assms] by simp
  then have "read32 (write32 m (b + 4 * of_nat i) v) (c + 4 * of_nat j) = read32 m (c + 4 * of_nat j)"
    using assms by (intro read32_write32_other entry_addr(2))
  then show ?thesis unfolding entry_def using False by (simp only: if_False)
qed

lemma entry_fill [mem_simps]:
  assumes "PGOFF b = 0" "PGOFF c = 0" "j < 1024"
  shows "entry (fill m b 0 4096) c j = (if b = c then 0 else entry m c j)"
  using assms entry_addr(2,3)[OF assms(2,3)] page_addr_eq[OF assms(1,2)]
  by (auto simp: entry_def)

section \<open>Frames of page tables\<close>

lemma dir_aligned: "PGOFF pgdir = 0 \<Longrightarrow> PGOFF (pgdir - KERNBASE) = 0"
  using PGOFF_diff_KERNBASE by simp

lemma pde_of_cong: "pmem t = pmem s \<Longrightarrow> pde_of t pgdir d = pde_of s pgdir d"
  by (simp add: pde_of_def)

lemma pte_of_cong: "pmem t = pmem s \<Longrightarrow> pte_of t pgdir va = pte_of s pgdir va"
  by (simp add: pte_of_def pde_of_def Let_def)

lemma mapped_cong: "pmem t = pmem s \<Longrightarrow> mapped t pgdir va = mapped s pgdir va"
  by (simp add: mapped_def pte_of_cong[of t s])

lemma wf_pgdir_cong:
  assumes "wf_pgdir s xs pgdir" "\<And>d. d < 1024 \<Longrightarrow> pde_of t pgdir d = pde_of s pgdir d"
    "length (pages t) = length (pages s)"
    "\<And>d. table_present s pgdir d \<Longrightarrow> table_page s pgdir d \<notin> set ys" "dir_page pgdir \<notin> set ys"
  shows "wf_pgdir t ys pgdir"
proof -
  have p: "table_present t pgdir d = table_present s pgdir d" for d
    using assms(2) by (auto simp: table_present_def)
  moreover have "table_page t pgdir d = table_page s pgdir d" if "table_present s pgdir d" for d
    using that assms(2) by (simp add: table_page_def table_present_def)
  moreover have "table_page t pgdir UVPTX = table_page s pgdir UVPTX" "pde_of t pgdir UVPTX = pde_of s pgdir UVPTX"
    using assms(2)[of UVPTX] by (simp_all add: table_page_def)
  ultimately show ?thesis using assms by (auto simp: wf_pgdir_def)
qed

lemma wf_pgdirD:
  assumes "wf_pgdir s xs pgdir"
  shows "PGOFF (pgdir - KERNBASE) = 0" and "dir_page pgdir < length (pages s)" and "dir_page pgdir \<notin> set xs"
    and "table_present s pgdir d \<Longrightarrow> table_page s pgdir d < length (pages s)"
    and "table_present s pgdir d \<Longrightarrow> table_page s pgdir d \<notin> set xs"
    and "table_present s pgdir d \<Longrightarrow> table_page s pgdir d \<noteq> dir_page pgdir"
  using assms dir_aligned[of pgdir] by (auto simp: wf_pgdir_def)

lemma page_base_eq: "PGOFF b = 0 \<Longrightarrow> PGOFF c = 0 \<Longrightarrow> b = c \<longleftrightarrow> unat (PGNUM b) = unat (PGNUM c)"
  using page_addr_eq[of b c] by (auto simp: word_unat_eq_iff[of "PGNUM _"])

lemma table_base_neq_dir:
  assumes "wf_pgdir s xs pgdir" "table_present s pgdir d"
  shows "PTE_ADDR (pde_of s pgdir d) \<noteq> pgdir - KERNBASE"
  using wf_pgdirD(1,6)[OF assms(1)] assms(2) page_base_eq[of "PTE_ADDR (pde_of s pgdir d)" "pgdir - KERNBASE"]
  by (auto simp: table_page_def dir_page_def)

lemma table_base_inj:
  assumes "wf_pgdir s xs pgdir" "table_present s pgdir d" "table_present s pgdir d'"
  shows "PTE_ADDR (pde_of s pgdir d) = PTE_ADDR (pde_of s pgdir d') \<longleftrightarrow> d = d'"
  using assms page_base_eq[of "PTE_ADDR (pde_of s pgdir d)" "PTE_ADDR (pde_of s pgdir d')"]
  by (auto simp: wf_pgdir_def table_page_def)

lemma present_ordinary:
  "ordinary va \<Longrightarrow> table_present s pgdir (unat (PDX va)) \<longleftrightarrow> pde_of s pgdir (unat (PDX va)) AND PTE_P \<noteq> 0"
  by (simp add: ordinary_def table_present_def)

text \<open>Storing into a table changes the one entry, and no entry of the directory.\<close>

lemma store_pte_frame:
  assumes wf: "wf_pgdir s xs pgdir" and p: "table_present s pgdir d" and i: "i < 1024"
    and m: "pmem t = write32 (pmem s) (PTE_ADDR (pde_of s pgdir d) + 4 * of_nat i) v"
  shows "d' < 1024 \<Longrightarrow> pde_of t pgdir d' = pde_of s pgdir d'"
    and "ordinary va \<Longrightarrow> pte_of t pgdir va =
      (if unat (PDX va) = d \<and> unat (PTX va) = i then Some v else pte_of s pgdir va)"
proof -
  have pde: "pde_of t pgdir d' = pde_of s pgdir d'" if "d' < 1024" for d'
  proof -
    have "pde_of t pgdir d' = entry (write32 (pmem s) (PTE_ADDR (pde_of s pgdir d) + 4 * of_nat i) v) (pgdir - KERNBASE) d'"
      by (simp only: pde_of_def[of t] m)
    also have "\<dots> = entry (pmem s) (pgdir - KERNBASE) d'"
      using table_base_neq_dir[OF wf p] by (subst entry_write[OF _ wf_pgdirD(1)[OF wf] i that]) simp_all
    finally show ?thesis by (simp only: pde_of_def)
  qed
  then show "d' < 1024 \<Longrightarrow> pde_of t pgdir d' = pde_of s pgdir d'" .
  assume o: "ordinary va"
  let ?e = "unat (PDX va)"
  show "pte_of t pgdir va = (if ?e = d \<and> unat (PTX va) = i then Some v else pte_of s pgdir va)"
  proof (cases "table_present s pgdir ?e")
    case True
    then have "PTE_ADDR (pde_of s pgdir d) = PTE_ADDR (pde_of s pgdir ?e) \<longleftrightarrow> ?e = d"
      using table_base_inj[OF wf p] by blast
    then have "entry (pmem t) (PTE_ADDR (pde_of s pgdir ?e)) (unat (PTX va)) =
      (if ?e = d \<and> unat (PTX va) = i then v else entry (pmem s) (PTE_ADDR (pde_of s pgdir ?e)) (unat (PTX va)))"
      unfolding m by (subst entry_write) (auto simp: i)
    then show ?thesis using True by (auto simp: pte_of_def pde present_ordinary[OF o] Let_def)
  next
    case False
    then have "?e \<noteq> d" using p by auto
    then show ?thesis using False by (simp add: pte_of_def pde present_ordinary[OF o])
  qed
qed

section \<open>The walk\<close>

lemma entry_kva: "read32 m (a + KERNBASE + 4 * i - KERNBASE) = read32 m (a + 4 * i)"
  by (simp add: algebra_simps)

lemma load_pde: "load32 (pgdir + 4 * PDX va) s = Returns (pde_of s pgdir (unat (PDX va))) s"
  by (simp add: load32_def pde_of_def entry_def algebra_simps)


lemma load_pte:
  "load32 (pte_kva s pgdir va) t =
   Returns (entry (pmem t) (PTE_ADDR (pde_of s pgdir (unat (PDX va)))) (unat (PTX va))) t"
  by (simp add: load32_def entry_def pte_kva_def algebra_simps)

lemma store_pte:
  "store32 (pte_kva s pgdir va) v t = Returns () (t\<lparr>pmem :=
     write32 (pmem t) (PTE_ADDR (pde_of s pgdir (unat (PDX va))) + 4 * of_nat (unat (PTX va))) v\<rparr>)"
  by (simp add: store32_def pte_kva_def algebra_simps)

lemma store_pde:
  "store32 (pgdir + 4 * PDX va) v s =
   Returns () (s\<lparr>pmem := write32 (pmem s) (pgdir - KERNBASE + 4 * of_nat (unat (PDX va))) v\<rparr>)"
  by (simp add: store32_def algebra_simps)

lemma walk_absent:
  "pde_of s pgdir (unat (PDX va)) AND PTE_P = 0 \<Longrightarrow> pgdir_walk pgdir va False s = Returns None s"
  by (simp add: pgdir_walk_def Let_def load_pde)

lemma walk_present:
  assumes "wf_pgdir s xs pgdir" "pages_ok s" "table_present s pgdir (unat (PDX va))"
  shows "pgdir_walk pgdir va create s =
    Returns (Some (pte_kva s pgdir va)) s"
proof -
  have "table_page s pgdir (unat (PDX va)) < unat (npages s)"
    using wf_pgdirD(4)[OF assms(1,3)] assms(2) by (simp add: pages_ok_def)
  then have "PGNUM (pde_of s pgdir (unat (PDX va))) < npages s"
    by (simp add: table_page_def word_less_nat_alt)
  then show ?thesis using assms(3)
    by (simp add: pgdir_walk_def pgdir_walk_end_def Let_def load_pde KADDR_def pte_kva_def table_present_def not_le[symmetric])
qed

lemma walk_oom:
  assumes "page_inv s []" "pde_of s pgdir (unat (PDX va)) AND PTE_P = 0"
  shows "pgdir_walk pgdir va True s = Returns None s"
  using assms by (simp add: pgdir_walk_def Let_def load_pde page_alloc_None)

lemma page_inv_head:
  assumes "page_inv s (x # xs)"
  shows "x < 65536" and "x < length (pages s)" and "x \<notin> set xs" and "pp_ref (pages s ! x) = 0" and "pages_ok s"
  using assms page_inv_bounds(2)[OF assms] by (auto simp: page_inv_def)

lemma page_flags:
  assumes "x < 65536" "f < 4096"
  shows "PTE_ADDR (page2pa x OR f) = page2pa x" and "PGNUM (page2pa x OR f) = of_nat x"
    and "PGOFF (page2pa x OR f) = f"
proof -
  have o: "PGOFF (page2pa x) = 0" using assms(1) by (intro page2pa_page) simp
  show a: "PTE_ADDR (page2pa x OR f) = page2pa x" and "PGOFF (page2pa x OR f) = f"
    using PTE_ADDR_or[OF o assms(2)] by simp_all
  have "PGNUM (page2pa x OR f) = PGNUM (page2pa x)" using a by (metis PGNUM_PTE_ADDR)
  then show "PGNUM (page2pa x OR f) = of_nat x" using assms(1) by (simp add: PGNUM_page2pa)
qed

lemma page_flags_present: "x < 65536 \<Longrightarrow> f < 4096 \<Longrightarrow> (page2pa x OR f) AND 1 = f AND 1"
  using page_flags(3)[of x f] PGOFF_present by metis

lemma with_table_frame:
  assumes wf: "wf_pgdir s (x # xs) pgdir" and inv: "page_inv s (x # xs)"
    and d: "d < 1024" "d \<noteq> UVPTX" "pde_of s pgdir d AND PTE_P = 0"
  shows "d' < 1024 \<Longrightarrow> pde_of (with_table s pgdir d x) pgdir d' = (if d' = d then page2pa x OR 7 else pde_of s pgdir d')"
    and "ordinary va \<Longrightarrow> mapped (with_table s pgdir d x) pgdir va = mapped s pgdir va"
proof -
  let ?t = "with_table s pgdir d x" and ?b = "pgdir - KERNBASE"
  have x: "x < 65536" using page_inv_head[OF inv] by simp
  have xo: "PGOFF (page2pa x) = 0" and xn: "unat (PGNUM (page2pa x)) = x"
    using x page2pa_page[of x] by simp_all
  have bo: "PGOFF ?b = 0" using wf_pgdirD(1)[OF wf] .
  have "page2pa x \<noteq> ?b" using wf_pgdirD(3)[OF wf] page_base_eq[OF xo bo] xn by (auto simp: dir_page_def)
  then have pde: "pde_of ?t pgdir d' = (if d' = d then page2pa x OR 7 else pde_of s pgdir d')" if "d' < 1024" for d'
    using that d(1) bo xo by (auto simp: pde_of_def with_table_def entry_write entry_fill simp del: KERNBASE_def)
  then show "d' < 1024 \<Longrightarrow> pde_of ?t pgdir d' = (if d' = d then page2pa x OR 7 else pde_of s pgdir d')" .
  have tab: "entry (pmem ?t) b i = (if b = page2pa x then 0 else entry (pmem s) b i)"
    if "i < 1024" "PGOFF b = 0" "b \<noteq> ?b" for b i
    using that d(1) bo xo by (auto simp: with_table_def entry_write entry_fill simp del: KERNBASE_def)
  assume o: "ordinary va"
  let ?e = "unat (PDX va)"
  show "mapped ?t pgdir va = mapped s pgdir va"
  proof (cases "?e = d")
    case True
    have "pde_of ?t pgdir ?e = page2pa x OR 7" using True d(1) by (simp add: pde)
    moreover have "(page2pa x OR 7) AND PTE_P \<noteq> 0" "PTE_ADDR (page2pa x OR 7) = page2pa x"
      using x page_flags(1)[of x 7] page_flags_present[of x 7] by simp_all
    moreover have "entry (pmem ?t) (page2pa x) (unat (PTX va)) = 0"
      using tab[of "unat (PTX va)" "page2pa x"] xo \<open>page2pa x \<noteq> ?b\<close> by simp
    ultimately have "pte_of ?t pgdir va = Some 0" by (simp add: pte_of_def)
    then show ?thesis using True d(3) by (simp add: mapped_def pte_of_def)
  next
    case False
    then have e: "pde_of ?t pgdir ?e = pde_of s pgdir ?e" by (simp add: pde)
    show ?thesis
    proof (cases "table_present s pgdir ?e")
      case True
      have "PTE_ADDR (pde_of s pgdir ?e) \<noteq> page2pa x"
        using wf_pgdirD(5)[OF wf True] xn by (metis PGNUM_PTE_ADDR list.set_intros(1) table_page_def)
      then have "entry (pmem ?t) (PTE_ADDR (pde_of s pgdir ?e)) (unat (PTX va)) =
          entry (pmem s) (PTE_ADDR (pde_of s pgdir ?e)) (unat (PTX va))"
        using tab[of "unat (PTX va)" "PTE_ADDR (pde_of s pgdir ?e)"] table_base_neq_dir[OF wf True] by simp
      then show ?thesis by (simp add: mapped_def pte_of_def e Let_def)
    next
      case False
      then show ?thesis using e by (simp add: mapped_def pte_of_def present_ordinary[OF o])
    qed
  qed
qed

lemma with_table_inv:
  assumes wf: "wf_pgdir s (x # xs) pgdir" and inv: "page_inv s (x # xs)"
    and d: "d < 1024" "d \<noteq> UVPTX" "pde_of s pgdir d AND PTE_P = 0"
  shows "page_inv (with_table s pgdir d x) xs" and "wf_pgdir (with_table s pgdir d x) xs pgdir"
    and "table_present (with_table s pgdir d x) pgdir d"
proof -
  let ?t = "with_table s pgdir d x"
  have x: "x < 65536" "x < length (pages s)" "x \<notin> set xs"
    using page_inv_head[OF inv] by simp_all
  note pde = with_table_frame(1)[OF assms]
  have p7: "(page2pa x OR 7) AND 1 \<noteq> 0" using page_flags_present[of x 7] x(1) by simp
  have n7: "unat (PGNUM (page2pa x OR 7)) = x" using page_flags(2)[of x 7] x(1) by (simp add: unat_of_nat)
  show "page_inv ?t xs" using inv x
    by (auto simp: page_inv_def with_table_def pages_ok_def page_links_def[abs_def] nth_list_update)
  show tp: "table_present ?t pgdir d" using d(1,2) p7 pde[of d] by (simp add: table_present_def)
  have tpe: "table_present ?t pgdir d' \<longleftrightarrow> d' = d \<or> table_present s pgdir d'" for d'
    using tp pde[of d'] by (cases "d' = d") (auto simp: table_present_def)
  have pg: "table_page ?t pgdir d' = (if d' = d then x else table_page s pgdir d')" if "table_present ?t pgdir d'" for d'
    using that pde[of d'] n7 by (auto simp: table_page_def table_present_def)
  have nd: "\<not> table_present s pgdir d" using d(3) by (simp add: table_present_def)
  have xd: "x \<noteq> dir_page pgdir" using wf_pgdirD(3)[OF wf] by auto
  have len: "length (pages ?t) = length (pages s)" by (simp add: with_table_def)
  show "wf_pgdir ?t xs pgdir" unfolding wf_pgdir_def len
  proof (intro conjI allI impI)
    show "PGOFF pgdir = 0" "KERNBASE \<le> pgdir" "dir_page pgdir < length (pages s)" "dir_page pgdir \<notin> set xs"
      using wf by (auto simp: wf_pgdir_def)
    show "table_page ?t pgdir UVPTX = dir_page pgdir" if "pde_of ?t pgdir UVPTX AND PTE_P \<noteq> 0"
      using wf that pde[of UVPTX] d(2) by (auto simp: wf_pgdir_def table_page_def)
    fix d1
    assume t1: "table_present ?t pgdir d1"
    show "table_page ?t pgdir d1 < length (pages s)" "table_page ?t pgdir d1 \<notin> set xs"
      "table_page ?t pgdir d1 \<noteq> dir_page pgdir"
      using t1 pg[OF t1] tpe[of d1] x xd wf_pgdirD(4,5,6)[OF wf, of d1] by (auto split: if_splits)
    fix d2
    assume t2: "table_present ?t pgdir d2" and e: "table_page ?t pgdir d1 = table_page ?t pgdir d2"
    show "d1 = d2"
      using t1 t2 e pg[OF t1] pg[OF t2] tpe wf_pgdirD(5)[OF wf, of d1] wf_pgdirD(5)[OF wf, of d2] wf
      by (auto simp: wf_pgdir_def split: if_splits)
  qed
qed

lemma walk_create:
  assumes wf: "wf_pgdir s (x # xs) pgdir" and inv: "page_inv s (x # xs)" and o: "ordinary va"
    and a: "pde_of s pgdir (unat (PDX va)) AND PTE_P = 0"
  shows "pgdir_walk pgdir va True s =
    Returns (Some (pte_kva (with_table s pgdir (unat (PDX va)) x) pgdir va)) (with_table s pgdir (unat (PDX va)) x)"
proof -
  let ?d = "unat (PDX va)" and ?t = "with_table s pgdir (unat (PDX va)) x"
  have d: "?d < 1024" "?d \<noteq> UVPTX" using o by (simp_all add: ordinary_def)
  have x: "x < 65536" "x < length (pages s)" using page_inv_head[OF inv] by simp_all
  have ok: "pages_ok s" using inv by (simp add: page_inv_def)
  have r: "pp_ref (pages s ! x) = 0" using page_inv_bounds(5)[OF inv, of x] by simp
  have al: "page_alloc ALLOC_ZERO s = Returns (Some x) (after_alloc s x ALLOC_ZERO)"
    using inv by (rule page_alloc_Some)
  have st: "kseq (set_page x (\<lambda>p. p\<lparr>pp_ref := pp_ref p + 1\<rparr>))
      (store32 (pgdir + 4 * PDX va) (page2pa x OR PTE_P OR PTE_U OR PTE_W)) (after_alloc s x ALLOC_ZERO) = Returns () ?t"
    using x r by (cases "pages s ! x")
      (simp add: set_page_def after_alloc_def kseq_apply store_pde with_table_def or.assoc)
  have pde: "pde_of ?t pgdir ?d = page2pa x OR 7" using with_table_frame(1)[OF wf inv d a, of ?d] by simp
  have en: "pgdir_walk_end (pgdir + 4 * PDX va) va ?t = Returns (Some (page2pa x + KERNBASE + 4 * PTX va)) ?t"
  proof -
    have "PTE_ADDR (page2pa x OR 7) = page2pa x" using x page_flags(1)[of x 7] by simp
    moreover have "KADDR (page2pa x) ?t = Returns (page2pa x + KERNBASE) ?t"
      using page2kva_ok[of ?t x] ok x by (simp add: page2kva_def pages_ok_def with_table_def)
    ultimately show ?thesis by (simp add: pgdir_walk_end_def load_pde pde)
  qed
  have pte7: "pte_kva ?t pgdir va = page2pa x + KERNBASE + 4 * PTX va"
    using x page_flags(1)[of x 7] by (simp add: pte_kva_def pde)
  show ?thesis
    using al st en a pte7
    by (auto simp: pgdir_walk_def Let_def load_pde kseq_apply kbind_apply split: outcome.splits)
qed

section \<open>What paging operations keep\<close>

lemma pages_only_refl [simp]: "pages_only s s"
  by (simp add: pages_only_def)

lemma pages_only_trans [trans]: "pages_only s t \<Longrightarrow> pages_only t u \<Longrightarrow> pages_only s u"
  by (simp add: pages_only_def)

lemma pages_only_upd [simp]:
  "length ps = length (pages s) \<Longrightarrow> pages_only s (s\<lparr>pages := ps, page_free_list := fl\<rparr>)"
  "length ps = length (pages s) \<Longrightarrow> pages_only s (s\<lparr>pages := ps\<rparr>)"
  "pages_only s (s\<lparr>pmem := m\<rparr>)" "pages_only s (s\<lparr>invlpgs := iv\<rparr>)"
  by (simp_all add: pages_only_def unpaged_def)

lemma pages_only_fields:
  assumes "pages_only s t"
  shows "envs t = envs s" and "cpus t = cpus s" and "cpunum t = cpunum s" and "npages t = npages s"
    and "kern_pgdir t = kern_pgdir s" and "env_free_list t = env_free_list s" and "cr3 t = cr3 s"
    and "klog t = klog s" and "length (pages t) = length (pages s)"
proof -
  have u: "unpaged t = unpaged s" and l: "length (pages t) = length (pages s)"
    using assms by (simp_all add: pages_only_def)
  show "envs t = envs s" using arg_cong[OF u, of envs] by (simp add: unpaged_def)
  show "cpus t = cpus s" using arg_cong[OF u, of cpus] by (simp add: unpaged_def)
  show "cpunum t = cpunum s" using arg_cong[OF u, of cpunum] by (simp add: unpaged_def)
  show "npages t = npages s" using arg_cong[OF u, of npages] by (simp add: unpaged_def)
  show "kern_pgdir t = kern_pgdir s" using arg_cong[OF u, of kern_pgdir] by (simp add: unpaged_def)
  show "env_free_list t = env_free_list s" using arg_cong[OF u, of env_free_list] by (simp add: unpaged_def)
  show "cr3 t = cr3 s" using arg_cong[OF u, of cr3] by (simp add: unpaged_def)
  show "klog t = klog s" using arg_cong[OF u, of klog] by (simp add: unpaged_def)
  show "length (pages t) = length (pages s)" by (rule l)
qed

lemma pages_only_current:
  assumes "pages_only s t"
  shows "thiscpu t = thiscpu s" and "curenv t = curenv s" and "curenv_ok t = curenv_ok s"
    and "flushes t pgdir = flushes s pgdir"
  using pages_only_fields[OF assms]
  by (simp_all add: curenv_def thiscpu_def curenv_ok_def flushes_def cong: option.case_cong)

lemma mem_outside_refl [simp]: "mem_outside P s s"
  by (simp add: mem_outside_def)

lemma mem_outside_trans: "mem_outside P s t \<Longrightarrow> mem_outside P t u \<Longrightarrow> mem_outside P s u"
  by (simp add: mem_outside_def)

lemma mem_outside_mono: "mem_outside P s t \<Longrightarrow> P \<subseteq> Q \<Longrightarrow> mem_outside Q s t"
  by (auto simp: mem_outside_def)

lemma write32_outside: "aligned4 a \<Longrightarrow> PGNUM x \<noteq> PGNUM a \<Longrightarrow> write32 m a v x = m x"
  using PGNUM_add_small[of a 1] PGNUM_add_small[of a 2] PGNUM_add_small[of a 3]
  by (auto simp: write32_def)

lemma entry_outside:
  assumes "mem_outside P s t" "PGOFF b = 0" "unat (PGNUM b) \<notin> P" "i < 1024"
  shows "entry (pmem t) b i = entry (pmem s) b i"
proof -
  have a: "aligned4 (b + 4 * of_nat i)" "PGNUM (b + 4 * of_nat i) = PGNUM b"
    using entry_addr[OF assms(2,4)] by simp_all
  have "PGNUM (b + 4 * of_nat i + k) = PGNUM b" if "k < 4" for k
    using PGNUM_add_small[OF a(1) that] a(2) by simp
  then have "pmem t (b + 4 * of_nat i + k) = pmem s (b + 4 * of_nat i + k)" if "k < 4" for k
    using assms(1,3) that by (simp add: mem_outside_def)
  from this[of 0] this[of 1] this[of 2] this[of 3] show ?thesis
    by (simp add: entry_def read32_def)
qed

text \<open>An address space that shares no page with the changed ones is as it was.\<close>

lemma other_space:
  assumes "mem_outside P s t" "PGOFF pgdir = 0" "as_pages s pgdir \<inter> P = {}"
  shows "d < 1024 \<Longrightarrow> pde_of t pgdir d = pde_of s pgdir d"
    and "ordinary va \<Longrightarrow> mapped t pgdir va = mapped s pgdir va"
proof -
  have pde: "pde_of t pgdir d = pde_of s pgdir d" if "d < 1024" for d
    unfolding pde_of_def using assms that dir_aligned[OF assms(2)]
    by (intro entry_outside[OF assms(1)]) (auto simp: as_pages_def dir_page_def)
  then show "d < 1024 \<Longrightarrow> pde_of t pgdir d = pde_of s pgdir d" .
  assume o: "ordinary va"
  show "mapped t pgdir va = mapped s pgdir va"
  proof (cases "table_present s pgdir (unat (PDX va))")
    case True
    then have "table_page s pgdir (unat (PDX va)) \<notin> P" using assms(3) by (auto simp: as_pages_def)
    then have "entry (pmem t) (PTE_ADDR (pde_of s pgdir (unat (PDX va)))) (unat (PTX va)) =
      entry (pmem s) (PTE_ADDR (pde_of s pgdir (unat (PDX va)))) (unat (PTX va))"
      by (intro entry_outside[OF assms(1)]) (simp_all add: table_page_def)
    then show ?thesis by (simp add: mapped_def pte_of_def pde Let_def)
  next
    case False
    then show ?thesis by (simp add: mapped_def pte_of_def pde present_ordinary[OF o] Let_def)
  qed
qed

lemma wf_other_space:
  assumes "wf_pgdir s xs pgdir" "mem_outside P s t" "as_pages s pgdir \<inter> P = {}"
    "length (pages t) = length (pages s)" "as_pages s pgdir \<inter> set ys = {}"
  shows "wf_pgdir t ys pgdir"
proof -
  have "PGOFF pgdir = 0" using assms(1) by (simp add: wf_pgdir_def)
  then show ?thesis
    using assms other_space(1)[OF assms(2) _ assms(3)]
    by (intro wf_pgdir_cong[OF assms(1)]) (auto simp: as_pages_def)
qed

section \<open>Looking up pages\<close>

lemma lookup_None:
  assumes "wf_pgdir s xs pgdir" "pages_ok s" "ordinary va" "mapped s pgdir va = None"
  shows "page_lookup pgdir va s = Returns None s"
proof (cases "table_present s pgdir (unat (PDX va))")
  case True
  then show ?thesis
    using assms walk_present[OF assms(1,2) True, of False]
    by (auto simp: page_lookup_def load_pte mapped_def pte_of_def table_present_def Let_def
        kbind_apply split: if_splits)
next
  case False
  then show ?thesis
    using walk_absent[of s pgdir va] by (simp add: present_ordinary[OF assms(3)] page_lookup_def)
qed

lemma mapped_present:
  assumes "ordinary va" "mapped s pgdir va = Some pte"
  shows "table_present s pgdir (unat (PDX va))" and "pte AND PTE_P \<noteq> 0"
    and "entry (pmem s) (PTE_ADDR (pde_of s pgdir (unat (PDX va)))) (unat (PTX va)) = pte"
  using assms by (auto simp: mapped_def pte_of_def present_ordinary Let_def split: option.splits if_splits)

lemma lookup_Some:
  assumes "wf_pgdir s xs pgdir" "pages_ok s" "ordinary va" "mapped s pgdir va = Some pte"
    "unat (PGNUM pte) < length (pages s)"
  shows "page_lookup pgdir va s = Returns (Some (unat (PGNUM pte), pte_kva s pgdir va)) s"
proof -
  note m = mapped_present[OF assms(3,4)]
  have "PGNUM pte < npages s" using assms(2,5) by (simp add: pages_ok_def word_less_nat_alt)
  then show ?thesis
    using walk_present[OF assms(1,2) m(1), of False] m(2,3)
    by (simp add: page_lookup_def load_pte pa2page_def kbind_apply not_le[symmetric])
qed

section \<open>Unmapping\<close>

lemma tlb_invalidate_ok:
  "curenv_ok s \<Longrightarrow> tlb_invalidate pgdir va s =
     Returns () (if flushes s pgdir then s\<lparr>invlpgs := invlpgs s @ [va]\<rparr> else s)"
  by (auto simp: tlb_invalidate_def curenv_ok_def flushes_def env_at_def kbind_apply invlpg_def
      split: option.splits)

lemma remove_None:
  assumes "wf_pgdir s xs pgdir" "pages_ok s" "ordinary va" "mapped s pgdir va = None"
  shows "page_remove pgdir va s = Returns () s"
  using lookup_None[OF assms] by (simp add: page_remove_def)

lemma decref_ok:
  assumes inv: "page_inv s xs" and x: "x < length (pages s)" "pp_ref (pages s ! x) \<noteq> 0"
  shows "\<exists>t. page_decref x s = Returns () t \<and> pages_only s t \<and> pmem t = pmem s \<and> invlpgs t = invlpgs s \<and>
    page_inv t (if pp_ref (pages s ! x) = 1 then x # xs else xs) \<and>
    (\<forall>i < length (pages s). pp_ref (pages t ! i) = (if i = x then pp_ref (pages s ! x) - 1 else pp_ref (pages s ! i)))"
proof (cases "pp_ref (pages s ! x) = 1")
  case True
  show ?thesis using page_decref_last[OF inv x(1) True] True x(1)
    by (intro exI[of _ "s\<lparr>pages := (pages s)[x := \<lparr>pp_link = page_free_list s, pp_ref = 0\<rparr>], page_free_list := Some x\<rparr>"])
      (auto simp: nth_list_update)
next
  case False
  have "x \<notin> set xs" using x page_inv_bounds(5)[OF inv, of x] by auto
  then have "page_inv (with_ref s x (pp_ref (pages s ! x) - 1)) xs"
    using inv x(1) by (intro page_inv_with_ref) auto
  then show ?thesis using page_decref_keep[OF x(1) False] False x(1)
    by (intro exI[of _ "with_ref s x (pp_ref (pages s ! x) - 1)"]) (auto simp: with_ref_def nth_list_update)
qed

lemma PGNUM_fields: "PGNUM a = PGNUM b \<longleftrightarrow> unat (PDX a) = unat (PDX b) \<and> unat (PTX a) = unat (PTX b)"
proof -
  have d: "unat (PDX c) = unat (PGNUM c) div 1024" "unat (PTX c) = unat (PGNUM c) mod 1024" for c
    by (simp_all add: unat_PGNUM unat_PDX unat_PTX div_mult2_eq[of _ 4096 1024, simplified])
  show ?thesis unfolding d word_unat_eq_iff[of "PGNUM _"] by (metis div_mult_mod_eq)
qed

lemma page_inv_cong:
  assumes "pages t = pages s" "page_free_list t = page_free_list s" "npages t = npages s"
  shows "page_inv t xs = page_inv s xs"
  using assms by (simp add: page_inv_def pages_ok_def page_links_def[abs_def])

text \<open>A store into the entry of \<open>va\<close>, seen through the mapping.\<close>

lemma store_mapped:
  assumes wf: "wf_pgdir s xs pgdir" and o: "ordinary va" and p: "table_present s pgdir (unat (PDX va))"
    and t: "t = s\<lparr>pmem := write32 (pmem s)
      (PTE_ADDR (pde_of s pgdir (unat (PDX va))) + 4 * of_nat (unat (PTX va))) v\<rparr>"
  shows "wf_pgdir t xs pgdir" and "d < 1024 \<Longrightarrow> pde_of t pgdir d = pde_of s pgdir d"
    and "ordinary va' \<Longrightarrow> mapped t pgdir va' = (if PGNUM va' = PGNUM va
      then (if v AND PTE_P = 0 then None else Some v) else mapped s pgdir va')"
    and "mem_outside {table_page s pgdir (unat (PDX va))} s t"
proof -
  have m: "pmem t = write32 (pmem s) (PTE_ADDR (pde_of s pgdir (unat (PDX va))) + 4 * of_nat (unat (PTX va))) v"
    by (simp only: t) simp
  note f = store_pte_frame[OF wf p PTX_less m]
  show "wf_pgdir t xs pgdir" using f(1) wf
    by (intro wf_pgdir_cong[OF wf]) (auto simp: t wf_pgdirD)
  show "d < 1024 \<Longrightarrow> pde_of t pgdir d = pde_of s pgdir d" by (rule f(1))
  show "mapped t pgdir va' = (if PGNUM va' = PGNUM va
      then (if v AND PTE_P = 0 then None else Some v) else mapped s pgdir va')" if "ordinary va'"
    using f(2)[OF that] by (simp add: mapped_def PGNUM_fields)
  show "mem_outside {table_page s pgdir (unat (PDX va))} s t"
    unfolding mem_outside_def m using entry_addr(2,3)[of "PTE_ADDR (pde_of s pgdir (unat (PDX va)))" "unat (PTX va)"]
    by (auto simp: table_page_def intro!: write32_outside)
qed


lemma remove_Some:
  assumes wf: "wf_pgdir s xs pgdir" and inv: "page_inv s xs" and o: "ordinary va"
    and m: "mapped s pgdir va = Some pte" and pg: "pg = unat (PGNUM pte)" "pg < length (pages s)"
    and ref: "pp_ref (pages s ! pg) \<noteq> 0" and tab: "pg \<notin> as_pages s pgdir" and cur: "curenv_ok s"
  shows "\<exists>t. page_remove pgdir va s = Returns () t \<and> removed s pgdir va pg t \<and>
    page_inv t (if pp_ref (pages s ! pg) = 1 then pg # xs else xs) \<and>
    wf_pgdir t (if pp_ref (pages s ! pg) = 1 then pg # xs else xs) pgdir"
proof -
  have ok: "pages_ok s" using inv by (simp add: page_inv_def)
  note mp = mapped_present[OF o m]
  define t1 where "t1 = s\<lparr>pmem := write32 (pmem s)
      (PTE_ADDR (pde_of s pgdir (unat (PDX va))) + 4 * of_nat (unat (PTX va))) 0\<rparr>"
  note st = store_mapped[OF wf o mp(1) t1_def]
  have i1: "page_inv t1 xs" using inv by (subst page_inv_cong[of t1 s]) (simp_all add: t1_def)
  have p1: "pages t1 = pages s" "invlpgs t1 = invlpgs s" by (simp_all add: t1_def)
  obtain t2 where t2: "page_decref pg t1 = Returns () t2" "pages_only t1 t2" "pmem t2 = pmem t1" "invlpgs t2 = invlpgs s"
    "page_inv t2 (if pp_ref (pages s ! pg) = 1 then pg # xs else xs)"
    "\<forall>i < length (pages s). pp_ref (pages t2 ! i) = (if i = pg then pp_ref (pages s ! pg) - 1 else pp_ref (pages s ! i))"
    using decref_ok[OF i1, of pg] pg ref p1 by auto
  have po: "pages_only s t2" using pages_only_trans[of s t1 t2] t2(2) by (simp add: t1_def)
  define t where "t = (if flushes t2 pgdir then t2\<lparr>invlpgs := invlpgs t2 @ [va]\<rparr> else t2)"
  have tl: "tlb_invalidate pgdir va t2 = Returns () t"
    using cur pages_only_current(3)[OF po] by (simp add: tlb_invalidate_ok t_def)
  have t: "pages_only t2 t" "pmem t = pmem t1" "pages t = pages t2" "page_free_list t = page_free_list t2"
    by (simp_all add: t_def t2(3))
  have "store32 (pte_kva s pgdir va) 0 s = Returns () t1" by (simp only: store_pte t1_def)
  then have rm: "page_remove pgdir va s = Returns () t"
    using lookup_Some[OF wf ok o m] pg mp(2,3) t2(1) tl
    by (simp add: page_remove_def load_pte)
  have iv: "invlpgs t = invlpgs s @ (if flushes s pgdir then [va] else [])"
    using pages_only_current(4)[OF po] t2(4) by (simp add: t_def)
  have "removed s pgdir va pg t"
    unfolding removed_def iv
    using pages_only_trans[OF po t(1)] t2(6) st(2,3,4)
    by (auto simp: pde_of_cong[OF t(2)] mapped_cong[OF t(2)] mem_outside_def t(2,3))
  moreover have "page_inv t (if pp_ref (pages s ! pg) = 1 then pg # xs else xs)"
    using t2(5) page_inv_cong[OF t(3,4)] pages_only_fields(4)[OF t(1)] by simp
  moreover have "wf_pgdir t (if pp_ref (pages s ! pg) = 1 then pg # xs else xs) pgdir"
    using st(2) tab pages_only_fields(9)[OF pages_only_trans[OF po t(1)]]
    by (intro wf_pgdir_cong[OF wf]) (auto simp: pde_of_cong[OF t(2)] as_pages_def wf_pgdirD[OF wf])
  ultimately show ?thesis using rm by blast
qed

section \<open>Mapping\<close>

lemma present_cong:
  assumes "\<And>d. d < 1024 \<Longrightarrow> pde_of t pgdir d = pde_of s pgdir d"
  shows "table_present t pgdir d = table_present s pgdir d" and "as_pages t pgdir = as_pages s pgdir"
proof -
  show p: "table_present t pgdir d = table_present s pgdir d" for d
    using assms by (auto simp: table_present_def)
  have "table_page t pgdir d = table_page s pgdir d" if "table_present s pgdir d" for d
    using that assms[of d] by (simp add: table_page_def table_present_def)
  then show "as_pages t pgdir = as_pages s pgdir" by (auto simp: as_pages_def p)
qed

lemma with_table_as_pages:
  assumes "wf_pgdir s (x # xs) pgdir" "page_inv s (x # xs)" "d < 1024" "d \<noteq> UVPTX" "pde_of s pgdir d AND PTE_P = 0"
  shows "as_pages (with_table s pgdir d x) pgdir \<subseteq> insert x (as_pages s pgdir)"
proof -
  let ?t = "with_table s pgdir d x"
  have x: "x < 65536" using page_inv_head[OF assms(2)] by simp
  have "table_page ?t pgdir e = (if e = d then x else table_page s pgdir e) \<and> (e \<noteq> d \<longrightarrow> table_present s pgdir e)"
    if "table_present ?t pgdir e" for e
    using that with_table_frame(1)[OF assms, of e] page_flags(2)[of x 7] x
    by (auto simp: table_page_def table_present_def unat_of_nat)
  then show ?thesis by (auto simp: as_pages_def split: if_splits)
qed

lemma with_table_outside:
  assumes "wf_pgdir s (x # xs) pgdir" "page_inv s (x # xs)" "d < 1024"
  shows "mem_outside {dir_page pgdir, x} s (with_table s pgdir d x)"
proof -
  have x: "x < 65536" using page_inv_head[OF assms(2)] by simp
  have o: "PGOFF (page2pa x) = 0" "unat (PGNUM (page2pa x)) = x" using x page2pa_page[of x] by simp_all
  note e = entry_addr(2,3)[OF wf_pgdirD(1)[OF assms(1)] assms(3)]
  show ?thesis
    unfolding mem_outside_def
  proof (intro allI impI)
    fix a
    assume a: "unat (PGNUM a) \<notin> {dir_page pgdir, x}"
    then have "PGNUM a \<noteq> PGNUM (pgdir - KERNBASE)" "PGNUM a \<noteq> PGNUM (page2pa x)"
      using o(2) by (auto simp: dir_page_def)
    then show "pmem (with_table s pgdir d x) a = pmem s a"
      using write32_outside[OF e(1), of a] fill_outside[OF o(1), of a] by (simp add: with_table_def e(2) del: KERNBASE_def)
  qed
qed

lemma walk_pages_sub: "walk_pages s pgdir va \<subseteq> as_pages s pgdir"
  by (auto simp: walk_pages_def as_pages_def)

lemma walk_ready:
  assumes wf: "wf_pgdir s xs pgdir" and inv: "page_inv s xs" and o: "ordinary va"
    and a: "table_present s pgdir (unat (PDX va)) \<or> xs \<noteq> []"
  shows "\<exists>s' xs'. pgdir_walk pgdir va True s = Returns (Some (pte_kva s' pgdir va)) s' \<and> walked s xs pgdir va s' xs'"
proof (cases "table_present s pgdir (unat (PDX va))")
  case True
  have "pages_ok s" using inv by (simp add: page_inv_def)
  then have "pgdir_walk pgdir va True s = Returns (Some (pte_kva s pgdir va)) s"
    by (rule walk_present[OF wf _ True])
  moreover have "walked s xs pgdir va s xs" using wf inv True by (auto simp: walked_def walk_pages_def)
  ultimately show ?thesis by blast
next
  case False
  then obtain x ys where xs: "xs = x # ys" using a by (cases xs) auto
  note w = wf[unfolded xs] and i = inv[unfolded xs]
  let ?d = "unat (PDX va)" and ?t = "with_table s pgdir (unat (PDX va)) x"
  have d: "?d < 1024" "?d \<noteq> UVPTX" "pde_of s pgdir ?d AND PTE_P = 0"
    using o False by (simp_all add: ordinary_def table_present_def)
  have x: "x < length (pages s)" "x \<notin> set ys" using page_inv_head[OF i] by simp_all
  have "set xs - set ys = {x}" using x xs by auto
  moreover have "table_page ?t pgdir ?d = x"
    using with_table_frame(1)[OF w i d d(1)] page_flags(2)[of x 7] page_inv_head(1)[OF i] by (simp add: table_page_def unat_of_nat)
  moreover have "pages_only s ?t" using x by (simp add: pages_only_def unpaged_def with_table_def)
  moreover have "mem_outside (walk_pages s pgdir va \<union> set xs) s ?t"
    using with_table_outside[OF w i d(1)] by (rule mem_outside_mono) (auto simp: walk_pages_def xs)
  ultimately have "walked s xs pgdir va ?t ys"
    using with_table_inv[OF w i d] with_table_frame[OF w i d] with_table_as_pages[OF w i d] x False
    by (auto simp: walked_def xs) (simp_all add: with_table_def nth_list_update)
  then show ?thesis using walk_create[OF w i o d(3)] by blast
qed

lemma insert_oom:
  assumes "page_inv s []" "pde_of s pgdir (unat (PDX va)) AND PTE_P = 0"
  shows "page_insert pgdir pp va perm s = Returns (- E_NO_MEM) s"
  using walk_oom[OF assms] by (simp add: page_insert_def)

lemma mapped_same_page: "PGNUM va' = PGNUM va \<Longrightarrow> mapped s pgdir va' = mapped s pgdir va"
  by (simp add: PGNUM_fields mapped_def pte_of_def Let_def)

lemma cleared_refl:
  assumes "wf_pgdir s xs pgdir" "page_inv s xs" "mapped s pgdir va = None"
  shows "cleared s xs pgdir va s xs"
proof -
  have "mapped s pgdir va' = None" if "PGNUM va' = PGNUM va" for va'
    using assms(3) mapped_same_page[OF that] by simp
  then show ?thesis using assms by (auto simp: cleared_def mapped_page_def)
qed

lemma clear_entry:
  assumes wf: "wf_pgdir s xs pgdir" and inv: "page_inv s xs" and o: "ordinary va"
    and cur: "curenv_ok s" and m: "mapped s pgdir va = Some pte" and g: "good_page s pgdir (unat (PGNUM pte))"
  shows "\<exists>t ys. page_remove pgdir va s = Returns () t \<and> cleared s xs pgdir va t ys"
proof -
  define pg where "pg = unat (PGNUM pte)"
  have mp: "mapped_page s pgdir va = Some pg" using m by (simp add: mapped_page_def pg_def)
  have g': "pg < length (pages s)" "pp_ref (pages s ! pg) \<noteq> 0" "pg \<notin> as_pages s pgdir"
    using g by (simp_all add: good_page_def pg_def)
  let ?ys = "if pp_ref (pages s ! pg) = 1 then pg # xs else xs"
  obtain t where t: "page_remove pgdir va s = Returns () t" "removed s pgdir va pg t"
    "page_inv t ?ys" "wf_pgdir t ?ys pgdir"
    using remove_Some[OF wf inv o m pg_def g' cur] by (elim exE conjE) (rule that)
  have rmo: "mem_outside {table_page s pgdir (unat (PDX va))} s t"
    using t(2) by (simp only: removed_def)
  have "table_page s pgdir (unat (PDX va)) \<in> walk_pages s pgdir va"
    using mapped_present(1)[OF o m] by (simp add: walk_pages_def)
  then have mo: "mem_outside (walk_pages s pgdir va) s t"
    by (intro mem_outside_mono[OF rmo]) simp
  have ys: "set xs \<subseteq> set ?ys" "set ?ys \<subseteq> set xs \<union> {pg'. mapped_page s pgdir va = Some pg' \<and> pp_ref (pages s ! pg') = 1}"
    using mp by auto
  have eq: "(if mapped_page s pgdir va = Some i then pp_ref (pages s ! i) - 1 else pp_ref (pages s ! i))
    = (if i = pg then pp_ref (pages s ! pg) - 1 else pp_ref (pages s ! i))" for i
    using mp by auto
  have "cleared s xs pgdir va t ?ys"
    unfolding cleared_def eq
    by (insert t(2)[unfolded removed_def] t(3,4) mo ys, elim conjE, intro conjI) assumption+
  then show ?thesis using t(1) by blast
qed

lemma or_present: "(a OR f OR 1 :: u32) AND 1 = 1"
  by (rule bit_word_eqI) (auto simp: bit_simps)

lemma ref_inc: "(r :: u16) \<noteq> 0xFFFF \<Longrightarrow> r + 1 \<noteq> 0"
proof
  assume "r + 1 = 0"
  then have "r = - 1" by (simp add: add_eq_0_iff2)
  moreover assume "r \<noteq> 0xFFFF"
  ultimately show False by simp
qed

text \<open>Counting the reference that is about to be made.\<close>

lemma walked_counted:
  assumes k: "walked s xs pgdir va s1 xs1" and pp: "pp < length (pages s)" "pp \<notin> set xs"
    and s2: "s2 = with_ref s1 pp (pp_ref (pages s1 ! pp) + 1)"
  shows "page_inv s2 xs1" and "wf_pgdir s2 xs1 pgdir" and "pages_only s s2"
    and "as_pages s2 pgdir = as_pages s1 pgdir" and "pmem s2 = pmem s1"
    and "i < length (pages s) \<Longrightarrow> i \<notin> set xs \<Longrightarrow>
      pp_ref (pages s2 ! i) = pp_ref (pages s ! i) + (if i = pp then 1 else 0)"
proof -
  have len: "length (pages s1) = length (pages s)" using k by (simp add: walked_def pages_only_def)
  show m: "pmem s2 = pmem s1" by (simp add: s2 with_ref_def)
  show "page_inv s2 xs1" unfolding s2 using k pp len
    by (intro page_inv_with_ref) (auto simp: walked_def)
  have wf1: "wf_pgdir s1 xs1 pgdir" using k by (simp add: walked_def)
  show "wf_pgdir s2 xs1 pgdir"
    using pde_of_cong[OF m] wf_pgdirD[OF wf1] len
    by (intro wf_pgdir_cong[OF wf1]) (auto simp: s2 with_ref_def)
  have "pages_only s1 s2" by (simp add: s2 with_ref_def)
  then show "pages_only s s2" using k pages_only_trans by (auto simp: walked_def)
  show "as_pages s2 pgdir = as_pages s1 pgdir" by (rule present_cong(2)) (rule pde_of_cong[OF m])
  show "pp_ref (pages s2 ! i) = pp_ref (pages s ! i) + (if i = pp then 1 else 0)"
    if "i < length (pages s)" "i \<notin> set xs"
  proof -
    have "pp_ref (pages s1 ! i) = pp_ref (pages s ! i)" using k that by (simp add: walked_def)
    then show ?thesis using that pp len by (auto simp: s2 with_ref_def nth_list_update)
  qed
qed

text \<open>The last step of an insertion: the entry is written over a cleared one.\<close>

lemma write_entry:
  assumes k: "walked s xs pgdir va s1 xs1" and o: "ordinary va"
    and c: "cleared s2 xs1 pgdir va s3 ys" and m2: "pmem s2 = pmem s1" "pages_only s s2"
    and t: "t = s3\<lparr>pmem := write32 (pmem s3)
      (PTE_ADDR (pde_of s1 pgdir (unat (PDX va))) + 4 * of_nat (unat (PTX va))) (page2pa pp OR perm OR PTE_P)\<rparr>"
  shows "page_inv t ys" and "wf_pgdir t ys pgdir" and "pages_only s t" and "pages t = pages s3"
    and "ordinary va' \<Longrightarrow> mapped t pgdir va' = (if PGNUM va' = PGNUM va
        then Some (page2pa pp OR perm OR PTE_P) else mapped s pgdir va')"
    and "mem_outside (walk_pages s pgdir va \<union> set xs) s t"
    and "as_pages t pgdir \<subseteq> as_pages s pgdir \<union> set xs" and "d < 1024 \<Longrightarrow> pde_of t pgdir d = pde_of s1 pgdir d"
proof -
  let ?d = "unat (PDX va)"
  have pde: "pde_of s3 pgdir d = pde_of s1 pgdir d" if "d < 1024" for d
    using c that by (simp add: cleared_def pde_of_cong[OF m2(1)])
  have tp: "table_present s3 pgdir ?d" using k present_cong(1)[of s3 pgdir s1, OF pde] by (simp add: walked_def)
  have t': "t = s3\<lparr>pmem := write32 (pmem s3)
      (PTE_ADDR (pde_of s3 pgdir ?d) + 4 * of_nat (unat (PTX va))) (page2pa pp OR perm OR PTE_P)\<rparr>"
    by (simp only: t pde PDX_less)
  have wf3: "wf_pgdir s3 ys pgdir" and i3: "page_inv s3 ys" using c by (simp_all add: cleared_def)
  note st = store_mapped[OF wf3 o tp t']
  show "d < 1024 \<Longrightarrow> pde_of t pgdir d = pde_of s1 pgdir d" by (simp only: st(2) pde)
  show pg: "pages t = pages s3" by (simp only: t') simp
  show "page_inv t ys" using i3 by (subst page_inv_cong[of t s3]) (simp_all add: t')
  show "wf_pgdir t ys pgdir" by (rule st(1))
  have "pages_only s3 t" by (simp only: t') simp
  moreover have "pages_only s2 s3" using c by (simp add: cleared_def)
  ultimately show "pages_only s t" by (rule pages_only_trans[OF m2(2) pages_only_trans, rotated])
  show "mapped t pgdir va' = (if PGNUM va' = PGNUM va
      then Some (page2pa pp OR perm OR PTE_P) else mapped s pgdir va')" if "ordinary va'"
  proof -
    have "mapped s3 pgdir va' = mapped s pgdir va'" if "PGNUM va' \<noteq> PGNUM va"
      using c k that \<open>ordinary va'\<close> by (simp add: cleared_def walked_def mapped_cong[OF m2(1)])
    then show ?thesis using st(3)[OF that] or_present[of "page2pa pp" perm] by simp
  qed
  have sub: "as_pages s1 pgdir \<subseteq> as_pages s pgdir \<union> set xs" using k by (auto simp: walked_def)
  moreover have "as_pages t pgdir = as_pages s3 pgdir" by (rule present_cong(2)) (rule st(2))
  moreover have as3: "as_pages s3 pgdir = as_pages s1 pgdir" by (rule present_cong(2)) (rule pde)
  ultimately show "as_pages t pgdir \<subseteq> as_pages s pgdir \<union> set xs" by simp
  show "mem_outside (walk_pages s pgdir va \<union> set xs) s t"
  proof -
    let ?P = "walk_pages s pgdir va \<union> set xs"
    have k1: "table_page s1 pgdir ?d \<in> ?P" using k by (simp only: walked_def)
    have "table_page s3 pgdir ?d = table_page s1 pgdir ?d" "table_page s2 pgdir ?d = table_page s1 pgdir ?d"
      by (simp_all add: table_page_def pde pde_of_cong[OF m2(1)])
    then have p: "table_page s3 pgdir ?d \<in> ?P" "walk_pages s2 pgdir va \<subseteq> ?P" using k1 by (auto simp: walk_pages_def)
    have "mem_outside ?P s3 t" by (rule mem_outside_mono[OF st(4)]) (use p(1) in simp)
    moreover have "mem_outside (walk_pages s2 pgdir va) s2 s3" using c by (simp only: cleared_def)
    then have "mem_outside ?P s2 s3" by (rule mem_outside_mono) (rule p(2))
    moreover have "mem_outside ?P s s1" using k by (simp only: walked_def)
    then have "mem_outside ?P s s2" by (simp only: mem_outside_def m2(1))
    ultimately show ?thesis using mem_outside_trans by metis
  qed
qed

lemma walked_good:
  assumes k: "walked s xs pgdir va s1 xs1" and inv: "page_inv s xs"
    and pp: "pp < length (pages s)" "pp \<notin> set xs" "pp_ref (pages s ! pp) \<noteq> 0xFFFF"
    and s2: "s2 = with_ref s1 pp (pp_ref (pages s1 ! pp) + 1)" and g: "good_page s pgdir pg"
  shows "good_page s2 pgdir pg"
proof -
  note c = walked_counted[OF k pp(1,2) s2]
  have nx: "pg \<notin> set xs" using g page_inv_bounds(5)[OF inv, of pg] by (auto simp: good_page_def)
  have pl: "pg < length (pages s)" using g by (simp add: good_page_def)
  have "pp_ref (pages s2 ! pg) \<noteq> 0"
    using c(6)[OF pl nx] g ref_inc[OF pp(3)] by (auto simp: good_page_def)
  moreover have "pg \<notin> as_pages s1 pgdir" using k g nx by (auto simp: walked_def good_page_def)
  moreover have "length (pages s2) = length (pages s)" using c(3) by (simp add: pages_only_def)
  ultimately show ?thesis using pl c(4) by (simp add: good_page_def)
qed

lemma insert_ok:
  assumes wf: "wf_pgdir s xs pgdir" and inv: "page_inv s xs" and o: "ordinary va" and cur: "curenv_ok s"
    and pp: "pp < length (pages s)" "pp \<notin> set xs" "pp_ref (pages s ! pp) \<noteq> 0xFFFF"
    and old: "\<forall>pg. mapped_page s pgdir va = Some pg \<longrightarrow> good_page s pgdir pg"
    and a: "table_present s pgdir (unat (PDX va)) \<or> xs \<noteq> []"
  shows "\<exists>t ys. page_insert pgdir pp va perm s = Returns 0 t \<and> inserted s xs pgdir pp va perm t ys"
proof -
  obtain s1 xs1 where w1: "pgdir_walk pgdir va True s = Returns (Some (pte_kva s1 pgdir va)) s1"
    and k: "walked s xs pgdir va s1 xs1" using walk_ready[OF wf inv o a] by blast
  define s2 where "s2 = with_ref s1 pp (pp_ref (pages s1 ! pp) + 1)"
  note c2 = walked_counted[OF k pp(1,2) s2_def]
  have len1: "length (pages s1) = length (pages s)" using k by (simp add: walked_def pages_only_def)
  have st2: "set_page pp (\<lambda>q. q\<lparr>pp_ref := pp_ref q + 1\<rparr>) s1 = Returns () s2"
    using pp len1 by (simp add: set_page_def s2_def with_ref_def)
  have m2: "mapped s2 pgdir va = mapped s pgdir va"
    using k o by (simp add: walked_def mapped_cong[OF c2(5)])
  then have mp2: "mapped_page s2 pgdir va = mapped_page s pgdir va" by (simp add: mapped_page_def)
  have cur2: "curenv_ok s2" using cur pages_only_current(3)[OF c2(3)] by simp
  let ?v = "entry (pmem s2) (PTE_ADDR (pde_of s1 pgdir (unat (PDX va)))) (unat (PTX va))"
  have v: "?v AND PTE_P \<noteq> 0 \<longleftrightarrow> mapped s pgdir va \<noteq> None"
    using k m2 by (auto simp: walked_def mapped_def pte_of_def table_present_def Let_def
      pde_of_cong[OF c2(5)] split: if_splits)
  have "\<exists>s3 ys. kwhen (?v AND PTE_P \<noteq> 0) (page_remove pgdir va) s2 = Returns () s3 \<and> cleared s2 xs1 pgdir va s3 ys"
  proof (cases "mapped s pgdir va")
    case None
    then show ?thesis using cleared_refl[OF c2(2,1)] m2 v by auto
  next
    case (Some pte)
    then have "good_page s pgdir (unat (PGNUM pte))" using old by (simp add: mapped_page_def)
    then have "good_page s2 pgdir (unat (PGNUM pte))" by (rule walked_good[OF k inv pp s2_def])
    then show ?thesis using clear_entry[OF c2(2,1) o cur2] Some m2 v by auto
  qed
  then obtain s3 ys where r3: "kwhen (?v AND PTE_P \<noteq> 0) (page_remove pgdir va) s2 = Returns () s3"
    and c3: "cleared s2 xs1 pgdir va s3 ys" by blast
  define t where "t = s3\<lparr>pmem := write32 (pmem s3)
      (PTE_ADDR (pde_of s1 pgdir (unat (PDX va))) + 4 * of_nat (unat (PTX va))) (page2pa pp OR perm OR PTE_P)\<rparr>"
  note w = write_entry[OF k o c3 c2(5,3) t_def]
  have stt: "store32 (pte_kva s1 pgdir va) (page2pa pp OR perm OR PTE_P) s3 = Returns () t"
    by (simp only: store_pte t_def)
  have "page_insert pgdir pp va perm s = Returns 0 t"
    unfolding page_insert_def using w1 st2 r3 stt
    by (simp only: kbind_Returns kseq_Returns option.case load_pte kret_apply)
  moreover have "inserted s xs pgdir pp va perm t ys"
    unfolding inserted_def
  proof (intro conjI allI impI ballI)
    show "page_inv t ys" "wf_pgdir t ys pgdir" "pages_only s t" "mem_outside (walk_pages s pgdir va \<union> set xs) s t"
      "as_pages t pgdir \<subseteq> as_pages s pgdir \<union> set xs"
      using w by simp_all
    show "mapped t pgdir va' = (if PGNUM va' = PGNUM va
        then Some (page2pa pp OR perm OR PTE_P) else mapped s pgdir va')" if "ordinary va'" for va'
      by (rule w(5)[OF that])
    show "pp_ref (pages t ! i) = pp_ref (pages s ! i)
        + (if i = pp then 1 else 0) - (if mapped_page s pgdir va = Some i then 1 else 0)"
      if i: "i < length (pages s)" "i \<notin> set xs" for i
    proof -
      have "i < length (pages s2)" using i(1) c2(3) by (simp add: pages_only_def)
      then show ?thesis using c3 c2(6)[OF i] w(4) by (simp add: cleared_def mp2)
    qed
    show "set ys \<subseteq> set xs \<union> {pg. mapped_page s pgdir va = Some pg}"
      using c3 k by (auto simp: cleared_def mp2 walked_def)
    show "pde_of t pgdir d = pde_of s pgdir d" if "d < 1024" "d \<noteq> unat (PDX va) \<or> table_present s pgdir d" for d
      using w(8)[OF that(1)] k that by (simp add: walked_def)
    have "card (set xs1) \<le> card (set ys)" using c3 by (intro card_mono) (simp_all add: cleared_def)
    then show "length xs \<le> Suc (length ys)"
      using k page_inv_bounds(3)[OF c2(1)] page_inv_bounds(3)[OF w(1)]
      by (simp add: walked_def distinct_card)
    fix i
    assume i: "i \<in> set xs - set ys"
    then have l: "i < length (pages s)" and z: "pp_ref (pages s ! i) = 0" and n: "i \<noteq> pp"
      using page_inv_bounds(4,5)[OF inv] pp(2) by auto
    have "set xs1 \<subseteq> set ys" using c3 by (simp add: cleared_def)
    then have "pp_ref (pages s1 ! i) = 1" using k i l by (auto simp: walked_def)
    then have "pp_ref (pages s2 ! i) = 1" using n by (simp add: s2_def with_ref_def)
    moreover have "mapped_page s pgdir va \<noteq> Some i" using old z by (auto simp: good_page_def)
    moreover have "i < length (pages s2)" using l c2(3) by (simp add: pages_only_def)
    ultimately show "pp_ref (pages t ! i) = 1" using c3 w(4) by (simp add: cleared_def mp2)
    have "table_page s1 pgdir (unat (PDX va)) = i" using k i \<open>set xs1 \<subseteq> set ys\<close> by (auto simp: walked_def)
    then show "table_page t pgdir (unat (PDX va)) = i" by (simp add: table_page_def w(8))
  qed
  ultimately show ?thesis by blast
qed

section \<open>Checking user memory\<close>


lemma walk_any:
  assumes "wf_pgdir s xs pgdir" "pages_ok s" "pde_of s pgdir (unat (PDX va)) AND PTE_P \<noteq> 0"
  shows "pgdir_walk pgdir va create s = Returns (Some (pte_kva s pgdir va)) s"
proof -
  let ?d = "unat (PDX va)"
  have "table_page s pgdir ?d < length (pages s)"
  proof (cases "?d = UVPTX")
    case True
    then show ?thesis using assms(1,3) by (simp add: wf_pgdir_def)
  next
    case False
    then have "table_present s pgdir ?d" using assms(3) by (simp add: table_present_def)
    then show ?thesis by (rule wf_pgdirD(4)[OF assms(1)])
  qed
  then have "PGNUM (pde_of s pgdir ?d) < npages s"
    using assms(2) by (simp add: table_page_def word_less_nat_alt pages_ok_def)
  then show ?thesis using assms(3)
    by (simp add: pgdir_walk_def pgdir_walk_end_def Let_def load_pde KADDR_def pte_kva_def not_le[symmetric])
qed

lemma check_step:
  assumes "wf_pgdir s xs pgdir" "pages_ok s"
  shows "user_mem_check_loop (b # bs) pgdir (perm OR PTE_P) va s =
    (if user_access s pgdir perm b then user_mem_check_loop bs pgdir (perm OR PTE_P) va s
     else Returns (- E_FAULT) (s\<lparr>user_mem_check_addr := MAX_macro b va\<rparr>))"
proof (cases "pde_of s pgdir (unat (PDX b)) AND PTE_P = 0")
  case True
  then have "pte_of s pgdir b = None" by (simp add: pte_of_def)
  then show ?thesis using walk_absent[OF True] by (simp add: user_access_def MAX_macro_def)
next
  case False
  note w = walk_any[OF assms False, of False]
  have "pte_of s pgdir b = Some (entry (pmem s) (PTE_ADDR (pde_of s pgdir (unat (PDX b)))) (unat (PTX b)))"
    using False by (simp add: pte_of_def Let_def)
  then show ?thesis using w by (auto simp: load_pte user_access_def MAX_macro_def kbind_apply kseq_apply)
qed

lemma check_loop:
  assumes "wf_pgdir s xs pgdir" "pages_ok s"
  shows "user_mem_check_loop bs pgdir (perm OR PTE_P) va s =
    (case filter (\<lambda>b. \<not> user_access s pgdir perm b) bs of
       [] \<Rightarrow> Returns 0 s
     | b # _ \<Rightarrow> Returns (- E_FAULT) (s\<lparr>user_mem_check_addr := MAX_macro b va\<rparr>))"
proof (induction bs)
  case Nil
  then show ?case by simp
next
  case (Cons b bs)
  then show ?case unfolding check_step[OF assms] by simp
qed

lemma pte_of_page: "PGNUM va' = PGNUM va \<Longrightarrow> pte_of s pgdir va' = pte_of s pgdir va"
  by (simp add: PGNUM_fields pte_of_def Let_def)

lemma ULIM_page: "va < ULIM \<longleftrightarrow> unat (PGNUM va) < 980992"
  by (simp add: word_less_nat_alt unat_PGNUM less_mult_imp_div_less div_less_iff_less_mult)

lemma user_access_page: "PGNUM va' = PGNUM va \<Longrightarrow> user_access s pgdir perm va' = user_access s pgdir perm va"
proof -
  assume p: "PGNUM va' = PGNUM va"
  show ?thesis unfolding user_access_def pte_of_page[OF p] ULIM_page p ..
qed

text \<open>The pages of a range that does not wrap around are those its bytes lie in.\<close>

lemma unat_diff_range: "in_range va n a \<Longrightarrow> unat va + n \<le> 2 ^ 32 \<Longrightarrow> unat va \<le> unat a \<and> unat a < unat va + n"
  unfolding in_range_def by (auto simp: unat_sub_if' split: if_splits)

lemma range_bounds:
  assumes "unat va + n \<le> 4294963200" "0 < n"
  shows "{p. \<exists>a. in_range va n a \<and> p = unat (PGNUM a)} = {unat va div 4096..<(unat va + n + 4095) div 4096}"
proof (rule set_eqI, rule iffI)
  fix p
  assume "p \<in> {p. \<exists>a. in_range va n a \<and> p = unat (PGNUM a)}"
  then obtain a where i: "in_range va n a" and p: "p = unat a div 4096" by (auto simp: unat_PGNUM)
  have a: "unat va \<le> unat a" "unat a < unat va + n" using unat_diff_range[OF i] assms(1) by simp_all
  have "unat a div 4096 < (unat a + 4096) div 4096" by simp
  also have "\<dots> \<le> (unat va + n + 4095) div 4096" using a(2) by (intro div_le_mono) simp
  finally show "p \<in> {unat va div 4096..<(unat va + n + 4095) div 4096}"
    using div_le_mono[OF a(1), of 4096] p by simp
next
  fix p
  assume p: "p \<in> {unat va div 4096..<(unat va + n + 4095) div 4096}"
  define k where "k = max (unat va) (4096 * p)"
  have "unat va div 4096 < p + 1" using p by simp
  then have lo: "unat va < 4096 * (p + 1)"
    by (subst (asm) div_less_iff_less_mult) (simp_all add: mult.commute)
  have "4096 * (p + 1) \<le> 4096 * ((unat va + n + 4095) div 4096)" using p by simp
  also have "\<dots> \<le> unat va + n + 4095" by simp
  finally have hi: "k < unat va + n" using assms(2) by (auto simp: k_def)
  then have un: "unat (of_nat k :: u32) = k" using assms(1) by (simp add: unat_of_nat)
  have "unat va \<le> k" by (simp add: k_def)
  then have "in_range va n (of_nat k)" unfolding in_range_def using hi un by (simp add: unat_sub_if')
  moreover have "k div 4096 = p" using lo by (auto simp: k_def max_def div_nat_eqI)
  ultimately show "p \<in> {p. \<exists>a. in_range va n a \<and> p = unat (PGNUM a)}"
    using un by (auto simp: unat_PGNUM intro!: exI[of _ "of_nat k"])
qed

lemma pages_between_numbers:
  assumes "unat e \<le> 4294963200" "PGOFF b = 0" "PGOFF e = 0"
  shows "map (\<lambda>a. unat (PGNUM a)) (pages_between b e) = [unat (PGNUM b)..<unat (PGNUM e)]"
proof -
  have ub: "unat b = 4096 * unat (PGNUM b)" "unat e = 4096 * unat (PGNUM e)"
    using assms by (simp_all add: page_aligned_unat)
  let ?n = "(unat e - unat b) div 4096"
  have n: "?n = unat (PGNUM e) - unat (PGNUM b)" using ub by (simp add: diff_mult_distrib2[symmetric])
  have "unat (PGNUM (b + of_nat k * PGSIZE)) = unat (PGNUM b) + k" if "k < ?n" for k
  proof -
    have "unat b + 4096 * k < 4294967296" using that n ub assms(1) by linarith
    moreover have "unat (of_nat k * 4096 :: u32) = 4096 * k"
      using calculation by (simp add: unat_word_ariths unat_of_nat)
    ultimately have "unat (b + of_nat k * PGSIZE) = 4096 * (unat (PGNUM b) + k)"
      by (simp add: unat_plus_if' ub(1)[symmetric] distrib_left)
    then show ?thesis by (simp add: unat_PGNUM[of "b + _"])
  qed
  then have "map (\<lambda>a. unat (PGNUM a)) (pages_between b e) = map (\<lambda>k. unat (PGNUM b) + k) [0..<?n]"
    by (auto simp: pages_between_def simp del: PGSIZE_def)
  also have "\<dots> = [unat (PGNUM b)..<unat (PGNUM e)]"
    unfolding n by (rule nth_equalityI) auto
  finally show ?thesis .
qed

lemma check_bounds:
  assumes "unat va + unat len \<le> 4294963200"
  shows "unat (PGNUM (ROUNDDOWN va PGSIZE)) = unat va div 4096"
    and "unat (PGNUM (ROUNDUP (va + len) PGSIZE)) = (unat va + unat len + 4095) div 4096"
    and "PGOFF (ROUNDDOWN va PGSIZE) = 0" and "PGOFF (ROUNDUP (va + len) PGSIZE) = 0"
    and "unat (ROUNDUP (va + len) PGSIZE) \<le> 4294963200"
proof -
  have u: "unat (va + len) = unat va + unat len" using assms by (simp add: unat_word_ariths)
  have r: "unat (ROUNDUP (va + len) PGSIZE) = (unat va + unat len + 4095) div 4096 * 4096"
    using unat_ROUNDUP[of PGSIZE "va + len"] assms u by simp
  show "unat (PGNUM (ROUNDDOWN va PGSIZE)) = unat va div 4096"
    unfolding ROUNDDOWN_page by (simp add: unat_PGNUM)
  show "unat (PGNUM (ROUNDUP (va + len) PGSIZE)) = (unat va + unat len + 4095) div 4096"
    unfolding unat_PGNUM r by simp
  show "PGOFF (ROUNDDOWN va PGSIZE) = 0" "PGOFF (ROUNDUP (va + len) PGSIZE) = 0"
    by (simp_all only: ROUNDUP_def ROUNDDOWN_page PGOFF_PTE_ADDR)
  have "(unat va + unat len + 4095) div 4096 \<le> (4294963200 + 4095) div 4096"
    using assms by (intro div_le_mono) simp
  then show "unat (ROUNDUP (va + len) PGSIZE) \<le> 4294963200" unfolding r by simp
qed

lemma check_access:
  assumes "unat va + unat len \<le> 4294963200" "len \<noteq> 0"
  shows "(\<forall>b \<in> set (pages_between (ROUNDDOWN va PGSIZE) (ROUNDUP (va + len) PGSIZE)). user_access s pgdir perm b) \<longleftrightarrow>
    (\<forall>a. in_range va (unat len) a \<longrightarrow> user_access s pgdir perm a)"
proof -
  let ?bs = "pages_between (ROUNDDOWN va PGSIZE) (ROUNDUP (va + len) PGSIZE)"
  note c = check_bounds[OF assms(1)]
  have "set (map (\<lambda>a. unat (PGNUM a)) ?bs) = {unat va div 4096..<(unat va + unat len + 4095) div 4096}"
    using pages_between_numbers[OF c(5,3,4)] c(1,2) by (simp only: set_upt)
  then have e: "(\<lambda>a. unat (PGNUM a)) ` set ?bs = {p. \<exists>a. in_range va (unat len) a \<and> p = unat (PGNUM a)}"
    using range_bounds[OF assms(1)] assms(2) by (simp only: set_map) (simp add: unat_gt_0)
  show ?thesis
  proof (intro iffI allI ballI impI)
    fix a
    assume all: "\<forall>b \<in> set ?bs. user_access s pgdir perm b" and "in_range va (unat len) a"
    then have "unat (PGNUM a) \<in> (\<lambda>a. unat (PGNUM a)) ` set ?bs" unfolding e by blast
    then obtain b where "b \<in> set ?bs" "PGNUM a = PGNUM b" by (auto simp: word_unat_eq_iff[of "PGNUM a"])
    then show "user_access s pgdir perm a" using all user_access_page by blast
  next
    fix b
    assume all: "\<forall>a. in_range va (unat len) a \<longrightarrow> user_access s pgdir perm a" and b: "b \<in> set ?bs"
    then have "unat (PGNUM b) \<in> {p. \<exists>a. in_range va (unat len) a \<and> p = unat (PGNUM a)}" unfolding e[symmetric] by blast
    then obtain a where "in_range va (unat len) a" "PGNUM b = PGNUM a" by (auto simp: word_unat_eq_iff[of "PGNUM b"])
    then show "user_access s pgdir perm b" using all user_access_page by blast
  qed
qed

section \<open>Properties\<close>

lemma or_less_4096: "(f :: u32) < 4096 \<Longrightarrow> f OR 1 < 4096"
proof -
  assume f: "f < 4096"
  have "PGOFF (f OR 1) = f OR 1"
    by (rule bit_word_eqI) (auto simp: bit_PGOFF bit_simps dest: small_bits(2)[OF f])
  then have "unat (f OR 1) < 4096" using unat_PGOFF[of "f OR 1"] by simp
  then show ?thesis by (simp add: word_less_nat_alt)
qed

lemma entry_zero [simp]: "entry (\<lambda>_. 0) b i = 0"
  by (simp add: entry_def read32_def)

lemma small_pde: "pde_of small_machine pgdir d = 0"
  by (simp add: pde_of_def small_machine_def)

lemma small_mapped: "mapped small_machine pgdir va = None"
  by (simp add: mapped_def pte_of_def small_pde)

lemma small_dir_page: "dir_page 0xF0001000 = 1"
  by (simp add: dir_page_def unat_PGNUM)

lemma small_wf: "wf_pgdir small_machine [2, 3] 0xF0001000"
  by (simp add: wf_pgdir_def table_present_def small_pde small_dir_page)
    (simp add: small_machine_def PGOFF_def)

lemma small_curenv: "curenv_ok small_machine"
  by (simp add: curenv_ok_def curenv_def thiscpu_def small_machine_def)

lemma small_inserted:
  "\<exists>t ys. page_insert 0xF0001000 4 0x800000 7 small_machine = Returns 0 t \<and>
    inserted small_machine [2, 3] 0xF0001000 4 0x800000 7 t ys"
proof -
  have "ordinary 0x800000" by (simp add: ordinary_def unat_PDX)
  then show ?thesis
    using insert_ok[OF small_wf small_inv _ small_curenv, of "0x800000" 4 7]
    by (simp add: mapped_page_def small_mapped small_pages)
qed

lemma small_after:
  assumes "inserted small_machine [2, 3] 0xF0001000 4 0x800000 7 t ys"
  shows "wf_pgdir t ys 0xF0001000" "page_inv t ys" "curenv_ok t" "envs t = envs small_machine"
    "PGNUM a = PGNUM 0x800000 \<Longrightarrow> mapped t 0xF0001000 a = Some 0x4007" "good_page t 0xF0001000 4"
    "pp_ref (pages t ! 4) = 1"
proof -
  have po: "pages_only small_machine t" using assms by (simp add: inserted_def)
  show "wf_pgdir t ys 0xF0001000" "page_inv t ys" using assms by (simp_all add: inserted_def)
  show "curenv_ok t" using small_curenv pages_only_current(3)[OF po] by simp
  show "envs t = envs small_machine" by (rule pages_only_fields(1)[OF po])
  have "ordinary 0x800000" by (simp add: ordinary_def unat_PDX)
  then have "ordinary a" if "PGNUM a = PGNUM 0x800000" for a using that by (simp add: ordinary_def PGNUM_fields)
  then show "mapped t 0xF0001000 a = Some 0x4007" if "PGNUM a = PGNUM 0x800000"
    using assms that by (simp add: inserted_def page2pa_def)
  have "\<not> table_present small_machine 0xF0001000 d" for d by (simp add: table_present_def small_pde)
  then have "as_pages t 0xF0001000 \<subseteq> {1, 2, 3}"
    using assms by (auto simp: inserted_def as_pages_def[of small_machine] small_dir_page)
  moreover show r: "pp_ref (pages t ! 4) = 1"
    using assms by (simp add: inserted_def small_pages mapped_page_def small_mapped)
  ultimately show "good_page t 0xF0001000 4"
    using pages_only_fields(9)[OF po] by (auto simp: good_page_def small_pages)
qed

text \<open>
  C1. \<open>page_insert\<close> maps the page: with the free list and the directory well formed, and a page
  table in place or a free page to make one, it returns 0, the entry of \<open>va\<close> is the page with the
  permissions and the present bit, every other mapping is as it was, the reference counts move
  by one from the page formerly mapped to the new one, and the invariants hold again.
\<close>

theorem page_insert_maps:
  assumes "wf_pgdir s xs pgdir" "page_inv s xs" "ordinary va" "curenv_ok s"
    "pp < length (pages s)" "pp \<notin> set xs" "pp_ref (pages s ! pp) \<noteq> 0xFFFF"
    "\<forall>pg. mapped_page s pgdir va = Some pg \<longrightarrow> good_page s pgdir pg"
    "table_present s pgdir (unat (PDX va)) \<or> xs \<noteq> []"
  shows "\<exists>t ys. page_insert pgdir pp va perm s = Returns 0 t \<and> page_inv t ys \<and> wf_pgdir t ys pgdir \<and>
    (\<forall>va'. ordinary va' \<longrightarrow> mapped t pgdir va' = (if PGNUM va' = PGNUM va
       then Some (page2pa pp OR perm OR PTE_P) else mapped s pgdir va')) \<and>
    (\<forall>i < length (pages s). i \<notin> set xs \<longrightarrow> pp_ref (pages t ! i) = pp_ref (pages s ! i)
       + (if i = pp then 1 else 0) - (if mapped_page s pgdir va = Some i then 1 else 0))"
  using insert_ok[OF assms, of perm] by (auto simp: inserted_def)

theorem page_insert_maps_witness:
  "\<exists>t ys. page_insert 0xF0001000 4 0x800000 7 small_machine = Returns 0 t \<and> page_inv t ys \<and>
    mapped t 0xF0001000 0x800123 = Some 0x4007"
proof -
  have o: "ordinary 0x800000" "ordinary 0x800123" by (simp_all add: ordinary_def unat_PDX)
  have p: "PGNUM 0x800123 = PGNUM 0x800000" by (simp add: word_unat_eq_iff unat_PGNUM)
  obtain t ys where t: "page_insert 0xF0001000 4 0x800000 7 small_machine = Returns 0 t" "page_inv t ys"
    "\<forall>va'. ordinary va' \<longrightarrow> mapped t 0xF0001000 va' = (if PGNUM va' = PGNUM 0x800000
       then Some (page2pa 4 OR 7 OR PTE_P) else mapped small_machine 0xF0001000 va')"
    using page_insert_maps[OF small_wf small_inv o(1) small_curenv, of 4 7]
    by (auto simp: mapped_page_def small_mapped small_pages)
  then have "mapped t 0xF0001000 0x800123 = Some (page2pa 4 OR 7 OR PTE_P)" using o(2) p by simp
  then show ?thesis using t by (auto simp: page2pa_def)
qed

text \<open>
  A page inserted at an address is the page a lookup at any address of that page finds.
\<close>

theorem page_insert_lookup:
  assumes "wf_pgdir s xs pgdir" "page_inv s xs" "ordinary va" "curenv_ok s"
    "pp < length (pages s)" "pp \<notin> set xs" "pp_ref (pages s ! pp) \<noteq> 0xFFFF"
    "\<forall>pg. mapped_page s pgdir va = Some pg \<longrightarrow> good_page s pgdir pg"
    "table_present s pgdir (unat (PDX va)) \<or> xs \<noteq> []" "perm < 4096" "PGNUM va' = PGNUM va"
  shows "\<exists>t pte. page_insert pgdir pp va perm s = Returns 0 t \<and> page_lookup pgdir va' t = Returns (Some (pp, pte)) t"
proof -
  obtain t ys where t: "page_insert pgdir pp va perm s = Returns 0 t" and i: "inserted s xs pgdir pp va perm t ys"
    using insert_ok[OF assms(1-9), of perm] by blast
  have pp: "pp < 65536" using assms(5) page_inv_bounds(2)[OF assms(2)] by simp
  have o: "ordinary va'" using assms(3,11) by (simp add: ordinary_def PGNUM_fields)
  have f: "perm OR 1 < 4096" using or_less_4096[OF assms(10)] by simp
  have "mapped t pgdir va' = Some (page2pa pp OR (perm OR 1))"
    using i o assms(11) by (simp add: inserted_def or.assoc)
  moreover have n: "unat (PGNUM (page2pa pp OR (perm OR 1))) = pp"
    using page_flags(2)[OF pp f] pp by (simp add: unat_of_nat)
  moreover have "length (pages t) = length (pages s)" using i by (simp add: inserted_def pages_only_def)
  ultimately have "page_lookup pgdir va' t = Returns (Some (pp, pte_kva t pgdir va')) t"
    using lookup_Some[of t ys pgdir va'] i o assms(5) by (simp add: inserted_def page_inv_def)
  then show ?thesis using t by blast
qed

theorem page_insert_lookup_witness:
  "\<exists>t pte. page_insert 0xF0001000 4 0x800000 7 small_machine = Returns 0 t \<and>
    page_lookup 0xF0001000 0x800ABC t = Returns (Some (4, pte)) t"
proof -
  have o: "ordinary 0x800000" by (simp add: ordinary_def unat_PDX)
  have p: "PGNUM 0x800ABC = PGNUM 0x800000" by (simp add: word_unat_eq_iff unat_PGNUM)
  show ?thesis
    using page_insert_lookup[OF small_wf small_inv o small_curenv, of 4 7 "0x800ABC"] p
    by (simp add: mapped_page_def small_mapped small_pages)
qed

text \<open>
  C3. \<open>page_remove\<close> unmaps: the address has no page afterwards and every other address keeps its
  page, the reference count of the page drops by one, the page goes to the head of the free list
  exactly when the count reaches zero, and the translation cache is flushed for the address
  when the directory is the one in use.
\<close>

theorem page_remove_unmaps:
  assumes "wf_pgdir s xs pgdir" "page_inv s xs" "ordinary va" "mapped s pgdir va = Some pte"
    "good_page s pgdir (unat (PGNUM pte))" "curenv_ok s"
  shows "\<exists>t. page_remove pgdir va s = Returns () t \<and>
    (\<forall>va'. ordinary va' \<longrightarrow> mapped t pgdir va' = (if PGNUM va' = PGNUM va then None else mapped s pgdir va')) \<and>
    pp_ref (pages t ! unat (PGNUM pte)) = pp_ref (pages s ! unat (PGNUM pte)) - 1 \<and>
    page_inv t (if pp_ref (pages s ! unat (PGNUM pte)) = 1 then unat (PGNUM pte) # xs else xs) \<and>
    invlpgs t = invlpgs s @ (if flushes s pgdir then [va] else [])"
proof -
  have g: "unat (PGNUM pte) < length (pages s)" "pp_ref (pages s ! unat (PGNUM pte)) \<noteq> 0"
    "unat (PGNUM pte) \<notin> as_pages s pgdir" using assms(5) by (simp_all add: good_page_def)
  show ?thesis
    using remove_Some[OF assms(1-4) refl g assms(6)] g(1) by (auto simp only: removed_def) auto
qed

theorem page_remove_unmaps_witness:
  "\<exists>t u. page_insert 0xF0001000 4 0x800000 7 small_machine = Returns 0 t \<and>
    page_remove 0xF0001000 0x800000 t = Returns () u \<and> pp_ref (pages u ! 4) = 0"
proof -
  obtain t ys where t: "page_insert 0xF0001000 4 0x800000 7 small_machine = Returns 0 t"
    and i: "inserted small_machine [2, 3] 0xF0001000 4 0x800000 7 t ys" using small_inserted by blast
  note a = small_after[OF i]
  have o: "ordinary 0x800000" by (simp add: ordinary_def unat_PDX)
  have "unat (PGNUM 0x4007) = 4" by (simp add: unat_PGNUM)
  then show ?thesis
    using page_remove_unmaps[OF a(1,2) o a(5)[OF refl] _ a(3)] a(6,7) t by auto
qed

lemma rounded_aligned: "PGOFF (ROUNDDOWN va PGSIZE) = 0" "PGOFF (ROUNDUP va PGSIZE) = 0"
  by (simp_all only: ROUNDUP_def ROUNDDOWN_page PGOFF_PTE_ADDR)

lemma aligned_bound: "PGOFF e = 0 \<Longrightarrow> unat e \<le> 4294963200"
proof -
  assume "PGOFF e = 0"
  then have "unat e = 4096 * unat (PGNUM e)" by (simp add: page_aligned_unat)
  moreover have "unat (PGNUM e) < 1048576" using unat_u32_less[of e] by (simp add: unat_PGNUM less_mult_imp_div_less)
  ultimately show ?thesis by linarith
qed

lemma aligned_le: "PGOFF b = 0 \<Longrightarrow> b \<le> a \<longleftrightarrow> unat (PGNUM b) \<le> unat (PGNUM a)"
proof -
  assume "PGOFF b = 0"
  then have "unat b = 4096 * unat (PGNUM b)" by (simp add: page_aligned_unat)
  then show ?thesis by (simp add: word_le_nat_alt unat_PGNUM[of a] less_eq_div_iff_mult_less_eq mult.commute)
qed

lemma aligned_less: "PGOFF e = 0 \<Longrightarrow> a < e \<longleftrightarrow> unat (PGNUM a) < unat (PGNUM e)"
  using aligned_le[of e a] by (simp add: not_le[symmetric])

text \<open>The pages of an aligned range in order: the page numbers from the first to the last.\<close>

lemma pages_between_set:
  assumes "PGOFF b = 0" "PGOFF e = 0" "b \<le> a" "a < e"
  shows "\<exists>p \<in> set (pages_between b e). PGNUM p = PGNUM a"
proof -
  have "unat (PGNUM a) \<in> set [unat (PGNUM b)..<unat (PGNUM e)]"
    using assms(3,4) aligned_le[OF assms(1)] aligned_less[OF assms(2)] by simp
  then have "unat (PGNUM a) \<in> set (map (\<lambda>a. unat (PGNUM a)) (pages_between b e))"
    unfolding pages_between_numbers[OF aligned_bound[OF assms(2)] assms(1,2)] .
  then show ?thesis by (auto simp: word_unat_eq_iff)
qed

lemma pages_between_range:
  assumes "PGOFF b = 0" "PGOFF e = 0" "p \<in> set (pages_between b e)"
  shows "b \<le> p" "p < e"
proof -
  have "unat (PGNUM p) \<in> set (map (\<lambda>a. unat (PGNUM a)) (pages_between b e))" using assms(3) by simp
  then have "unat (PGNUM p) \<in> set [unat (PGNUM b)..<unat (PGNUM e)]"
    unfolding pages_between_numbers[OF aligned_bound[OF assms(2)] assms(1,2)] .
  then show "b \<le> p" "p < e" using aligned_le[OF assms(1)] aligned_less[OF assms(2)] by simp_all
qed

lemma check_pages:
  assumes "PGOFF b = 0" "PGOFF e = 0"
  shows "(\<forall>p \<in> set (pages_between b e). user_access s pgdir perm p) \<longleftrightarrow> (\<forall>a. b \<le> a \<and> a < e \<longrightarrow> user_access s pgdir perm a)"
  using pages_between_set[OF assms] pages_between_range[OF assms] user_access_page by metis

text \<open>The first page without access: all addresses before it have access.\<close>

lemma first_refused:
  assumes "PGOFF e = 0" "filter (\<lambda>b. \<not> user_access s pgdir perm b) (pages_between (ROUNDDOWN va PGSIZE) e) = b # bs"
  shows "va \<le> MAX_macro b va \<and> MAX_macro b va < e \<and> \<not> user_access s pgdir perm (MAX_macro b va) \<and> (\<forall>x. va \<le> x \<and> x < MAX_macro b va \<longrightarrow> user_access s pgdir perm x)"
proof -
  let ?r = "ROUNDDOWN va PGSIZE"
  obtain us vs where u: "pages_between ?r e = us @ b # vs" "\<forall>u \<in> set us. user_access s pgdir perm u" "\<not> user_access s pgdir perm b"
    using filter_eq_ConsD[OF assms(2)] by auto
  have r: "PGNUM ?r = PGNUM va" "PGOFF ?r = 0" by (simp_all only: ROUNDDOWN_page PGNUM_PTE_ADDR PGOFF_PTE_ADDR)
  have b: "?r \<le> b" "b < e" using pages_between_range[OF r(2) assms(1), of b] u(1) by simp_all
  have nums: "map (\<lambda>a. unat (PGNUM a)) us @ unat (PGNUM b) # map (\<lambda>a. unat (PGNUM a)) vs = [unat (PGNUM va)..<unat (PGNUM e)]"
    using pages_between_numbers[OF aligned_bound[OF assms(1)] r(2) assms(1)] unfolding u(1) r(1) by simp
  have bn: "unat (PGNUM b) = unat (PGNUM va) + length us"
    using arg_cong[OF nums, of "\<lambda>l. l ! length us"] arg_cong[OF nums, of length] by (simp add: nth_append)
  have us: "map (\<lambda>a. unat (PGNUM a)) us = [unat (PGNUM va)..<unat (PGNUM b)]"
    using arg_cong[OF nums, of "take (length us)"] arg_cong[OF nums, of length] take_upt[of "unat (PGNUM va)" "length us" "unat (PGNUM e)"]
    unfolding bn by simp
  have bo: "PGOFF b = 0"
  proof -
    have "b \<in> set (pages_between ?r e)" unfolding u(1) by simp
    then obtain n :: nat where "b = ?r + of_nat n * PGSIZE" by (auto simp only: pages_between_def set_map)
    then have "unat b = (unat ?r + n * 4096) mod 4294967296" by (simp add: unat_word_ariths unat_of_nat mod_add_right_eq mod_mult_left_eq)
    moreover have "(4096 :: nat) dvd 4294967296" by simp
    ultimately have "unat b mod 4096 = (unat ?r + n * 4096) mod 4096" by (simp only: mod_mod_cancel)
    also have "\<dots> = unat (PGOFF ?r)" by (simp only: unat_PGOFF mod_mult_self1)
    finally have "unat (PGOFF b) = 0" unfolding r(2) unat_PGOFF by simp
    then show ?thesis by (simp only: unat_eq_0)
  qed
  show ?thesis
  proof (cases "b \<ge> va")
    case True
    have "user_access s pgdir perm x" if "va \<le> x" "x < b" for x
    proof -
      have "unat (PGNUM va) \<le> unat (PGNUM x)" using that(1) by (simp add: unat_PGNUM word_le_nat_alt div_le_mono)
      then have "unat (PGNUM x) \<in> set (map (\<lambda>a. unat (PGNUM a)) us)" unfolding us using that(2) aligned_less[OF bo, of x] by simp
      then obtain y where "y \<in> set us" "PGNUM x = PGNUM y" by (auto simp: word_unat_eq_iff)
      then show ?thesis using u(2) user_access_page by metis
    qed
    then show ?thesis using True u(3) b by (auto simp: MAX_macro_def)
  next
    case False
    then have "unat (PGNUM b) \<le> unat (PGNUM va)" by (simp add: unat_PGNUM word_le_nat_alt div_le_mono)
    then have p: "PGNUM va = PGNUM b" using bn by (simp add: word_unat_eq_iff)
    have "va < e" using b(2) unfolding aligned_less[OF assms(1)] p .
    moreover have "\<not> user_access s pgdir perm va" using u(3) unfolding user_access_page[OF p] .
    moreover have "MAX_macro b va = va" using False by (simp add: MAX_macro_def)
    ultimately show ?thesis by auto
  qed
qed

lemma mapped_access:
  assumes "mapped s pgdir a = Some pte" "a < ULIM" "pte AND (perm OR PTE_P) = perm OR PTE_P"
  shows "user_access s pgdir perm a"
  using assms by (auto simp: user_access_def mapped_def split: option.splits if_splits)

text \<open>
  \<open>user_mem_check\<close> does not look at the directory entry: through the recursive entry at \<open>UVPT\<close>, which is read-only for the user, the page of a table with a
  writable directory entry counts as writable, although a store to it faults.
\<close>

lemma uvpt_write_accepted:
  assumes "d < 1024" "pde_of s pgdir UVPTX AND 7 = PTE_P OR PTE_U" "PTE_ADDR (pde_of s pgdir UVPTX) = pgdir - KERNBASE"
    "pde_of s pgdir d AND 7 = 7"
  shows "user_access s pgdir (PTE_W OR PTE_U) (UVPT + of_nat d * PGSIZE) \<and> \<not> mmu_access s pgdir (PTE_W OR PTE_U) (UVPT + of_nat d * PGSIZE)"
proof -
  let ?va = "UVPT + of_nat d * PGSIZE"
  have u: "unat ?va = 0xEF400000 + d * 4096" using assms(1) by (simp add: unat_word_ariths unat_of_nat)
  have "(979968 + d) mod 1024 = d" using assms(1) mod_mult_self3[of 957 1024 d] by simp
  then have x: "unat (PDX ?va) = UVPTX" "unat (PTX ?va) = d" unfolding unat_PDX unat_PTX u using assms(1) by simp_all
  have "pde_of s pgdir UVPTX AND 1 \<noteq> 0"
  proof
    assume "pde_of s pgdir UVPTX AND 1 = 0"
    then have "(pde_of s pgdir UVPTX AND 7) AND 1 = 0" by (simp add: and.assoc)
    then show False unfolding assms(2) by simp
  qed
  then have p: "pte_of s pgdir ?va = Some (pde_of s pgdir d)" using x assms(3) by (simp add: pte_of_def Let_def pde_of_def)
  have "?va < ULIM" unfolding word_less_nat_alt u using assms(1) by simp
  then show ?thesis unfolding user_access_def mmu_access_def x(1) p using assms(2,4) by simp
qed

text \<open>
  C4. \<open>user_mem_check\<close> on every input: it returns 0 and changes nothing exactly when each address from the start rounded down to the end rounded up, both
  computed with 32 bits, lies below \<open>ULIM\<close> and has a table entry with the permissions asked for; otherwise it returns \<open>-E_FAULT\<close> and leaves the first address of the
  range without access in \<open>user_mem_check_addr\<close>. For a non-empty range that ends before the last page of the address space this is access to every byte of the
  range; a range that reaches the last page or wraps around has a rounded end that has wrapped around, so that only addresses below that end are tested, if any.
\<close>

theorem user_mem_check_exact:
  fixes va len perm :: u32
  assumes "wf_pgdir s xs (env_pgdir (envs s ! e))" "pages_ok s" "e < length (envs s)"
  defines "ok \<equiv> user_access s (env_pgdir (envs s ! e)) perm"
  shows "(user_mem_check e va len perm s = Returns 0 s \<longleftrightarrow>
      (\<forall>a. ROUNDDOWN va PGSIZE \<le> a \<and> a < ROUNDUP (va + len) PGSIZE \<longrightarrow> ok a)) \<and>
    (user_mem_check e va len perm s \<noteq> Returns 0 s \<longrightarrow>
      (\<exists>a. user_mem_check e va len perm s = Returns (- E_FAULT) (s\<lparr>user_mem_check_addr := a\<rparr>) \<and>
        va \<le> a \<and> a < ROUNDUP (va + len) PGSIZE \<and> \<not> ok a \<and> (\<forall>x. va \<le> x \<and> x < a \<longrightarrow> ok x))) \<and>
    (len \<noteq> 0 \<and> unat va + unat len \<le> 2 ^ 32 - 4096 \<longrightarrow>
      (user_mem_check e va len perm s = Returns 0 s \<longleftrightarrow> (\<forall>a. in_range va (unat len) a \<longrightarrow> ok a)))"
proof -
  let ?e = "ROUNDUP (va + len) PGSIZE" and ?pd = "env_pgdir (envs s ! e)"
  let ?bs = "pages_between (ROUNDDOWN va PGSIZE) ?e"
  have "user_mem_check e va len perm s = user_mem_check_loop ?bs ?pd (perm OR PTE_P) va s"
    using assms(3) by (simp add: user_mem_check_def env_at_def kbind_apply Let_def)
  then have r: "user_mem_check e va len perm s = (case filter (\<lambda>b. \<not> ok b) ?bs of [] \<Rightarrow> Returns 0 s
      | b # _ \<Rightarrow> Returns (- E_FAULT) (s\<lparr>user_mem_check_addr := MAX_macro b va\<rparr>))" unfolding check_loop[OF assms(1,2)] ok_def .
  then have z: "user_mem_check e va len perm s = Returns 0 s \<longleftrightarrow> (\<forall>b \<in> set ?bs. ok b)"
    by (auto simp: filter_empty_conv split: list.split dest: filter_eq_ConsD)
  have "\<exists>a. user_mem_check e va len perm s = Returns (- E_FAULT) (s\<lparr>user_mem_check_addr := a\<rparr>) \<and>
      va \<le> a \<and> a < ?e \<and> \<not> ok a \<and> (\<forall>x. va \<le> x \<and> x < a \<longrightarrow> ok x)" if n: "user_mem_check e va len perm s \<noteq> Returns 0 s"
  proof -
    obtain b bs where b: "filter (\<lambda>b. \<not> ok b) ?bs = b # bs" using n z by (cases "filter (\<lambda>b. \<not> ok b) ?bs") (auto simp: filter_empty_conv simp del: PGSIZE_def)
    then show ?thesis using first_refused[OF rounded_aligned(2) b[unfolded ok_def]] r unfolding ok_def by auto
  qed
  moreover have "user_mem_check e va len perm s = Returns 0 s \<longleftrightarrow> (\<forall>a. in_range va (unat len) a \<longrightarrow> ok a)"
    if "len \<noteq> 0 \<and> unat va + unat len \<le> 2 ^ 32 - 4096"
    using z check_access[of va len s ?pd perm] that unfolding ok_def by simp
  ultimately show ?thesis using z check_pages[OF rounded_aligned, of va "va + len" s ?pd perm] unfolding ok_def by blast
qed

theorem user_mem_check_exact_witness:
  "\<exists>t. page_insert 0xF0001000 4 0x800000 7 small_machine = Returns 0 t \<and> user_mem_check 0 0x800010 256 4 t = Returns 0 t \<and>
    user_mem_check 0 0xFFFFF000 16 4 t = Returns 0 t"
proof -
  obtain t ys where t: "page_insert 0xF0001000 4 0x800000 7 small_machine = Returns 0 t"
    and i: "inserted small_machine [2, 3] 0xF0001000 4 0x800000 7 t ys" using small_inserted by blast
  note a = small_after[OF i]
  have e: "env_pgdir (envs t ! 0) = 0xF0001000" "0 < length (envs t)" unfolding a(4) by (simp_all add: small_machine_def)
  have "user_access t 0xF0001000 4 x" if "in_range 0x800010 256 x" for x
  proof -
    have x: "0x800010 \<le> unat x" "unat x < 0x800110" using unat_diff_range[OF that] by simp_all
    then have "unat x div 4096 = 2048" by (intro div_nat_eqI) simp_all
    then have "PGNUM x = PGNUM 0x800000" by (simp add: word_unat_eq_iff unat_PGNUM)
    then show ?thesis using x by (intro mapped_access[OF a(5)]) (simp_all add: word_less_nat_alt)
  qed
  moreover have "ROUNDUP (0xFFFFF000 + 16) PGSIZE = 0" by (simp add: ROUNDUP_def ROUNDDOWN_def)
  ultimately show ?thesis
    using user_mem_check_exact[of t ys 0 "0x800010" 256 4] user_mem_check_exact[of t ys 0 "0xFFFFF000" 16 4] a(1,2) e t by (simp add: page_inv_def)
qed

text \<open>
  When the end, rounded up with 32 bits, lies at or below the start rounded down, \<open>user_mem_check\<close> tests no page and returns 0, also for an address
  above \<open>ULIM\<close>.
\<close>

theorem user_mem_check_wraps:
  assumes "e < length (envs s)" "ROUNDUP (va + len) PGSIZE \<le> ROUNDDOWN va PGSIZE"
  shows "user_mem_check e va len perm s = Returns 0 s"
  using assms by (simp add: user_mem_check_def env_at_def kbind_apply Let_def pages_between_def
      word_le_nat_alt del: PGSIZE_def)

theorem user_mem_check_wraps_witness:
  "user_mem_check 0 0xF0100000 0x10000000 (PTE_W OR PTE_U) small_machine = Returns 0 small_machine"
  by (rule user_mem_check_wraps) (simp_all add: small_machine_def ROUNDUP_def ROUNDDOWN_def)

lemma shared_pde:
  "d < 1024 \<Longrightarrow> pde_of shared_machine 0xF0001000 d = (if d = 956 then 0x6005 else 0)"
  "d < 1024 \<Longrightarrow> pde_of shared_machine 0xF0005000 d = (if d = 956 then 0x6005 else 0)"
proof -
  assume d: "d < 1024"
  have a: "PGOFF 0x1000 = 0" "PGOFF 0x5000 = 0" by (simp_all add: PGOFF_def)
  have z: "entry (\<lambda>_. 0) b d = 0" for b by (simp add: entry_def)
  have e: "entry (write32 m (b + 4 * of_nat 956) v) c d = (if b = c \<and> 956 = d then v else entry m c d)"
    if "PGOFF b = 0" "PGOFF c = 0" for m b c v using entry_write[of b c 956 d] that d by simp
  have m: "pmem shared_machine = write32 (write32 (\<lambda>_. 0) (0x1000 + 4 * of_nat 956) 0x6005) (0x5000 + 4 * of_nat 956) 0x6005"
    by (simp only: shared_machine_def kstate.select_convs kstate.update_convs kstate.surjective) simp
  show "pde_of shared_machine 0xF0001000 d = (if d = 956 then 0x6005 else 0)"
    unfolding pde_of_def m by (simp only: e a z KERNBASE_def) (simp add: e a z del: of_nat_numeral)
  show "pde_of shared_machine 0xF0005000 d = (if d = 956 then 0x6005 else 0)"
    unfolding pde_of_def m by (simp only: e a z KERNBASE_def) (simp add: e a z del: of_nat_numeral)
qed

lemma shared_present:
  "table_present shared_machine 0xF0001000 d \<longleftrightarrow> d = 956" "table_present shared_machine 0xF0005000 d \<longleftrightarrow> d = 956"
  by (auto simp: table_present_def shared_pde split: if_splits)

lemma shared_pages:
  "table_page shared_machine 0xF0001000 956 = 6" "table_page shared_machine 0xF0005000 956 = 6" "dir_page 0xF0005000 = 5"
  by (simp_all add: table_page_def shared_pde dir_page_def unat_PGNUM)

lemma shared_ready:
  "wf_pgdir shared_machine [2, 3] 0xF0001000" "wf_pgdir shared_machine [2, 3] 0xF0005000" "page_inv shared_machine [2, 3]" "curenv_ok shared_machine"
  "pages shared_machine = pages small_machine"
proof -
  show p: "pages shared_machine = pages small_machine" by (simp add: shared_machine_def)
  show "wf_pgdir shared_machine [2, 3] 0xF0001000" "wf_pgdir shared_machine [2, 3] 0xF0005000"
    by (simp_all add: wf_pgdir_def shared_present shared_pages shared_pde small_dir_page p small_pages) (simp_all add: PGOFF_def)
  show "page_inv shared_machine [2, 3]" using small_inv
    by (simp add: page_inv_def pages_ok_def page_links_def[abs_def] p) (simp add: shared_machine_def)
  show "curenv_ok shared_machine" using small_curenv
    by (simp add: curenv_ok_def curenv_def thiscpu_def shared_machine_def split: option.splits)
qed

text \<open>
  C5. Address spaces are isolated: a successful \<open>page_insert\<close> into one directory leaves every mapping of another directory as it was, and that directory well formed. The
  two spaces may share tables, as all spaces share those of the kernel's part: it is enough that the directory and the table of the address itself
  are not pages of the other space.
\<close>

theorem page_insert_isolated:
  assumes "wf_pgdir s xs pgdir" "page_inv s xs" "ordinary va" "curenv_ok s"
    "pp < length (pages s)" "pp \<notin> set xs" "pp_ref (pages s ! pp) \<noteq> 0xFFFF"
    "\<forall>pg. mapped_page s pgdir va = Some pg \<longrightarrow> good_page s pgdir pg \<and> pg \<notin> as_pages s other"
    "table_present s pgdir (unat (PDX va)) \<or> xs \<noteq> []"
    "wf_pgdir s xs other" "as_pages s other \<inter> walk_pages s pgdir va = {}"
  shows "\<exists>t ys. page_insert pgdir pp va perm s = Returns 0 t \<and>
    (\<forall>va'. ordinary va' \<longrightarrow> mapped t other va' = mapped s other va') \<and> wf_pgdir t ys other \<and> wf_pgdir t ys pgdir \<and> page_inv t ys"
proof -
  obtain t ys where t: "page_insert pgdir pp va perm s = Returns 0 t" and i: "inserted s xs pgdir pp va perm t ys"
    using insert_ok[OF assms(1-7) _ assms(9)] assms(8) by blast
  have mo: "mem_outside (walk_pages s pgdir va \<union> set xs) s t" and len: "length (pages t) = length (pages s)"
    and ys: "set ys \<subseteq> set xs \<union> {pg. mapped_page s pgdir va = Some pg}"
    using i by (simp_all add: inserted_def pages_only_def)
  have po: "PGOFF other = 0" using assms(10) by (simp add: wf_pgdir_def)
  have d: "as_pages s other \<inter> (walk_pages s pgdir va \<union> set xs) = {}"
    using assms(11) wf_pgdirD(3,5)[OF assms(10)] by (auto simp: as_pages_def[of s other])
  have "\<forall>va'. ordinary va' \<longrightarrow> mapped t other va' = mapped s other va'" using other_space(2)[OF mo po d] by blast
  moreover have "as_pages s other \<inter> set ys = {}" using d ys assms(8) by auto
  then have "wf_pgdir t ys other" by (rule wf_other_space[OF assms(10) mo d len])
  ultimately show ?thesis using t i by (auto simp: inserted_def)
qed

theorem page_insert_isolated_witness:
  "\<exists>t. page_insert 0xF0001000 4 0x800000 7 shared_machine = Returns 0 t \<and>
    mapped t 0xF0005000 0x800000 = None \<and> mapped t 0xF0005000 0xEF000000 = mapped shared_machine 0xF0005000 0xEF000000 \<and>
    table_page shared_machine 0xF0005000 956 = table_page shared_machine 0xF0001000 956"
proof -
  have o: "ordinary 0x800000" "ordinary 0xEF000000" "unat (PDX 0x800000) = 2" by (simp_all add: ordinary_def unat_PDX)
  have n: "mapped shared_machine pgdir 0x800000 = None" if "pgdir = 0xF0001000 \<or> pgdir = 0xF0005000" for pgdir
    using that shared_pde[of 2] o(3) by (auto simp: mapped_def pte_of_def)
  have "as_pages shared_machine 0xF0005000 \<inter> walk_pages shared_machine 0xF0001000 0x800000 = {}"
    by (simp add: as_pages_def walk_pages_def shared_present shared_pages small_dir_page o(3))
  then have "\<exists>t ys. page_insert 0xF0001000 4 0x800000 7 shared_machine = Returns 0 t \<and>
      (\<forall>va'. ordinary va' \<longrightarrow> mapped t 0xF0005000 va' = mapped shared_machine 0xF0005000 va') \<and>
      wf_pgdir t ys 0xF0005000 \<and> wf_pgdir t ys 0xF0001000 \<and> page_inv t ys"
    using shared_ready by (intro page_insert_isolated) (simp_all add: o small_pages mapped_page_def n)
  then show ?thesis using o n by (auto simp: shared_pages)
qed

end
