(* ===== verification/Spinlock.thy ===== *)
theory Spinlock
  imports Kernel_State
begin

text \<open>
  The spin lock of \<^verbatim>\<open>kern/spinlock.c\<close> and the big kernel lock, with the debugging checks that
  \<^verbatim>\<open>kern/spinlock.h\<close> turns on. First the operations as one processor executes them, on the
  kernel state; then the lock word and its debugging fields shared by several processors as a step
  relation in which every exchange, store and test is a step of its own, with the proof that at most one processor is
  between a lock and its unlock.
\<close>

section \<open>The operations\<close>

text \<open>The saved frame pointers are followed until they leave the kernel, at most ten.\<close>

fun caller_pcs :: "nat \<Rightarrow> mem \<Rightarrow> u32 \<Rightarrow> u32 list" where
  "caller_pcs 0 m fp = []"
| "caller_pcs (Suc k) m fp =
     (if fp = 0 \<or> fp < ULIM then replicate (Suc k) 0
      else read32 m (fp + 4 - KERNBASE) # caller_pcs k m (read32 m (fp - KERNBASE)))"

definition get_caller_pcs :: "kstate \<Rightarrow> u32 list" where
  "get_caller_pcs s = caller_pcs 10 (pmem s) (ebp s)"

definition holding :: "spinlock \<Rightarrow> nat \<Rightarrow> bool" where
  "holding lock cpu \<longleftrightarrow> locked lock \<and> lk_cpu lock = Some cpu"

definition spin_initlock :: "spinlock" where
  "spin_initlock = \<lparr>locked = False, lk_cpu = None, pcs = replicate 10 0\<rparr>"

definition lock_kernel :: "(kstate, unit) kernel" where
  "lock_kernel = (\<lambda>s.
     if holding (kernel_lock s) (cpunum s) then Panics ''CPU cannot acquire kernel_lock: already holding''
     else if locked (kernel_lock s) then Leaves Spins s
     else Returns () (s\<lparr>kernel_lock := \<lparr>locked = True, lk_cpu = Some (cpunum s), pcs = get_caller_pcs s\<rparr>\<rparr>))"

text \<open>
  A release by a processor that does not hold the lock prints the holder, through the pointer to
  its \<^verbatim>\<open>CpuInfo\<close>, and panics; with no holder that pointer is null.
\<close>

definition unlock_kernel :: "(kstate, unit) kernel" where
  "unlock_kernel = (\<lambda>s.
     if \<not> holding (kernel_lock s) (cpunum s) then
       (case lk_cpu (kernel_lock s) of
          None \<Rightarrow> Panics ''null pointer dereference''
        | Some _ \<Rightarrow> Panics ''spin_unlock'')
     else Returns () (s\<lparr>kernel_lock := (kernel_lock s)\<lparr>pcs := (pcs (kernel_lock s))[0 := 0],
       lk_cpu := None, locked := False\<rparr>\<rparr>))"

section \<open>Several processors\<close>

text \<open>
  Where a processor is: outside the lock, past the test that it does not hold it, past the
  exchange that took the lock word but before the holder is recorded, inside, and during the release after
  the holder is cleared but before the exchange that frees the lock word.
\<close>

datatype pc = Outside | Spinning | Taken | Inside | Releasing | Dead

record lock_state =
  lword :: bool
  lholder :: "nat option"
  lpc :: "nat \<Rightarrow> pc"

definition lheld :: "lock_state \<Rightarrow> nat \<Rightarrow> bool" where
  "lheld s i \<longleftrightarrow> lword s \<and> lholder s = Some i"

definition goto :: "nat \<Rightarrow> pc \<Rightarrow> lock_state \<Rightarrow> lock_state" where
  "goto i p s = s\<lparr>lpc := (lpc s)(i := p)\<rparr>"

inductive lock_step :: "lock_state \<Rightarrow> lock_state \<Rightarrow> bool" where
  lock_test: "lpc s i = Outside \<Longrightarrow> \<not> lheld s i \<Longrightarrow> lock_step s (goto i Spinning s)"
| lock_test_fails: "lpc s i = Outside \<Longrightarrow> lheld s i \<Longrightarrow> lock_step s (goto i Dead s)"
| lock_xchg: "lpc s i = Spinning \<Longrightarrow> \<not> lword s \<Longrightarrow> lock_step s (goto i Taken (s\<lparr>lword := True\<rparr>))"
| lock_xchg_busy: "lpc s i = Spinning \<Longrightarrow> lword s \<Longrightarrow> lock_step s (s\<lparr>lword := True\<rparr>)"
| lock_record: "lpc s i = Taken \<Longrightarrow> lock_step s (goto i Inside (s\<lparr>lholder := Some i\<rparr>))"
| unlock_test: "lpc s i = Inside \<Longrightarrow> lheld s i \<Longrightarrow> lock_step s (goto i Releasing (s\<lparr>lholder := None\<rparr>))"
| unlock_test_fails: "lpc s i = Inside \<Longrightarrow> \<not> lheld s i \<Longrightarrow> lock_step s (goto i Dead s)"
| unlock_xchg: "lpc s i = Releasing \<Longrightarrow> lock_step s (goto i Outside (s\<lparr>lword := False\<rparr>))"

inductive_cases lock_stepE: "lock_step s t"

definition lock_init :: lock_state where
  "lock_init = \<lparr>lword = False, lholder = None, lpc = (\<lambda>_. Outside)\<rparr>"

inductive lock_reachable :: "lock_state \<Rightarrow> bool" where
  init: "lock_reachable lock_init"
| step: "lock_reachable s \<Longrightarrow> lock_step s t \<Longrightarrow> lock_reachable t"

definition owns :: "pc \<Rightarrow> bool" where
  "owns p \<longleftrightarrow> p = Taken \<or> p = Inside \<or> p = Releasing"

text \<open>At most one processor, the owner, is between taking and freeing the lock word.\<close>

definition lock_inv_for :: "nat option \<Rightarrow> lock_state \<Rightarrow> bool" where
  "lock_inv_for w s \<longleftrightarrow> (\<forall>i. owns (lpc s i) \<longleftrightarrow> w = Some i) \<and> (lword s \<longleftrightarrow> w \<noteq> None) \<and>
     (\<forall>i. lpc s i = Inside \<longleftrightarrow> lholder s = Some i) \<and> (\<forall>i. lpc s i \<noteq> Dead)"

definition lock_inv :: "lock_state \<Rightarrow> bool" where
  "lock_inv s \<longleftrightarrow> (\<exists>w. lock_inv_for w s)"

section \<open>Mutual exclusion\<close>

lemma owns_simps [simp]: "owns Taken" "owns Inside" "owns Releasing" "\<not> owns Outside" "\<not> owns Spinning" "\<not> owns Dead"
  by (simp_all add: owns_def)

lemma goto_simps [simp]:
  "lpc (goto i p s) = (lpc s)(i := p)" "lword (goto i p s) = lword s" "lholder (goto i p s) = lholder s"
  by (simp_all add: goto_def)

lemma lock_inv_init: "lock_inv lock_init"
  by (auto simp: lock_inv_def lock_inv_for_def lock_init_def intro!: exI[of _ None])

lemma lock_inv_step:
  assumes inv: "lock_inv_for w s" and st: "lock_step s t"
  shows "lock_inv t"
proof -
  have ow: "owns (lpc s i) \<longleftrightarrow> w = Some i" and wd: "lword s \<longleftrightarrow> w \<noteq> None"
    and ho: "lpc s i = Inside \<longleftrightarrow> lholder s = Some i" and nd: "lpc s i \<noteq> Dead" for i
    using inv by (auto simp: lock_inv_for_def)
  from st show ?thesis
  proof cases
    case (lock_test i)
    then have "lock_inv_for w t" using ow[of i] ho[of i] wd nd inv by (auto simp: lock_inv_for_def)
    then show ?thesis by (auto simp: lock_inv_def)
  next
    case (lock_test_fails i)
    then show ?thesis using ho[of i] by (simp add: lheld_def)
  next
    case (lock_xchg i)
    then have "lock_inv_for (Some i) t" using ow ho[of i] wd nd inv by (auto simp: lock_inv_for_def)
    then show ?thesis by (auto simp: lock_inv_def)
  next
    case (lock_xchg_busy i)
    then have "lock_inv_for w t" using inv by (auto simp: lock_inv_for_def)
    then show ?thesis by (auto simp: lock_inv_def)
  next
    case (lock_record i)
    then have w: "w = Some i" using ow[of i] by simp
    have "lpc s j \<noteq> Inside" for j using ow[of j] w lock_record(2) by auto
    then have "lock_inv_for w t" using w inv lock_record by (auto simp: lock_inv_for_def)
    then show ?thesis by (auto simp: lock_inv_def)
  next
    case (unlock_test i)
    then have w: "w = Some i" using ow[of i] by simp
    then have "lock_inv_for w t" using inv unlock_test by (auto simp: lock_inv_for_def)
    then show ?thesis by (auto simp: lock_inv_def)
  next
    case (unlock_test_fails i)
    then show ?thesis using ho[of i] ow[of i] wd by (simp add: lheld_def)
  next
    case (unlock_xchg i)
    then have w: "w = Some i" using ow[of i] by simp
    have "lholder s \<noteq> Some i" using ho[of i] unlock_xchg by simp
    then have "lock_inv_for None t" using w inv unlock_xchg by (auto simp: lock_inv_for_def)
    then show ?thesis by (auto simp: lock_inv_def)
  qed
qed

lemma lock_inv_reachable: "lock_reachable s \<Longrightarrow> lock_inv s"
proof (induction rule: lock_reachable.induct)
  case init
  show ?case by (rule lock_inv_init)
next
  case (step s t)
  from step.IH obtain w where "lock_inv_for w s" by (auto simp: lock_inv_def)
  then show ?case using step.hyps(2) by (rule lock_inv_step)
qed

text \<open>
  C16. The lock excludes: in every reachable state, whatever the interleaving, at most one processor
  is between the exchange that takes the lock and the one that frees it, the recorded holder is
  the processor inside, and the debugging checks never panic on processors that release what
  they acquired.
\<close>

theorem spinlock_mutual_exclusion:
  assumes "lock_reachable s"
  shows "(lpc s i \<in> {Taken, Inside, Releasing} \<longrightarrow> lpc s j \<in> {Taken, Inside, Releasing} \<longrightarrow> i = j) \<and>
    (lpc s i = Inside \<longrightarrow> lheld s i) \<and> lpc s i \<noteq> Dead"
proof -
  obtain w where "lock_inv_for w s" using lock_inv_reachable[OF assms] by (auto simp: lock_inv_def)
  then have "\<forall>k. owns (lpc s k) \<longleftrightarrow> w = Some k" "lword s \<longleftrightarrow> w \<noteq> None"
    "\<forall>k. lpc s k = Inside \<longleftrightarrow> lholder s = Some k" "\<forall>k. lpc s k \<noteq> Dead" by (simp_all add: lock_inv_for_def)
  then show ?thesis by (auto simp: owns_def lheld_def)
qed

theorem spinlock_mutual_exclusion_witness:
  "\<exists>s. lock_reachable s \<and> lpc s 0 = Inside \<and> lpc s 1 = Spinning \<and> lheld s 0"
proof -
  let ?s1 = "goto 0 Spinning lock_init" let ?s2 = "goto 0 Taken (?s1\<lparr>lword := True\<rparr>)"
  let ?s3 = "goto 0 Inside (?s2\<lparr>lholder := Some 0\<rparr>)" let ?s4 = "goto 1 Spinning ?s3"
  have "lock_step lock_init ?s1" by (rule lock_test) (simp_all add: lock_init_def lheld_def)
  then have "lock_reachable ?s1" by (rule lock_reachable.step[OF lock_reachable.init])
  moreover have "lock_step ?s1 ?s2" by (rule lock_xchg) (simp_all add: lock_init_def)
  ultimately have "lock_reachable ?s2" by (rule lock_reachable.step)
  moreover have "lock_step ?s2 ?s3" by (rule lock_record) simp
  ultimately have "lock_reachable ?s3" by (rule lock_reachable.step)
  moreover have "lock_step ?s3 ?s4" by (rule lock_test) (simp_all add: lock_init_def lheld_def)
  ultimately have r: "lock_reachable ?s4" by (rule lock_reachable.step)
  then have "lheld ?s4 0" using spinlock_mutual_exclusion[OF r, of 0 1] by simp
  then show ?thesis using r by (intro exI[of _ ?s4]) (simp add: lock_init_def)
qed

end
