(* ===== verification/Sched.thy ===== *)
theory Sched
  imports Spinlock
begin

text \<open>
  The scheduler \<^verbatim>\<open>kern/sched.c\<close>. At this commit \<^verbatim>\<open>sched_yield\<close> chooses no environment: it goes to
  \<^verbatim>\<open>sched_halt\<close>, which stays in the monitor when no environment is runnable, running or dying, and
  otherwise gives up the kernel lock and halts the processor.
\<close>

definition set_cpu_status :: "CpuStatus \<Rightarrow> (kstate, unit) kernel" where
  "set_cpu_status st = kmodify (\<lambda>s. s\<lparr>cpus := (cpus s)[cpunum s := (thiscpu s)\<lparr>cpu_status := st\<rparr>]\<rparr>)"

definition env_alive :: "Env \<Rightarrow> bool" where
  "env_alive e \<longleftrightarrow> env_status e = ENV_RUNNABLE \<or> env_status e = ENV_RUNNING \<or> env_status e = ENV_DYING"

text \<open>The search for the first environment that is alive, or \<open>NENV\<close>.\<close>

fun first_alive :: "Env list \<Rightarrow> nat" where
  "first_alive [] = 0"
| "first_alive (e # es) = (if env_alive e then 0 else Suc (first_alive es))"

definition sched_halt :: "(kstate, unit) kernel" where
  "sched_halt =
     kbind (kget (\<lambda>s. first_alive (envs s))) (\<lambda>i.
     if i = NENV then
       kseq (cprintf ''No runnable environments in the system!\<newline>'' []) (kleave Monitors)
     else
       kseq (set_curenv None)
       (kseq (kbind (kget kern_pgdir) (\<lambda>pgdir. kbind (PADDR pgdir) lcr3))
       (kseq (set_cpu_status CPU_HALTED)
       (kseq unlock_kernel
       (kleave Halts)))))"

definition sched_yield :: "(kstate, unit) kernel" where
  "sched_yield = sched_halt"

section \<open>What halting does\<close>

lemma first_alive_length: "first_alive es = length es \<longleftrightarrow> (\<forall>e \<in> set es. \<not> env_alive e)"
  by (induction es) auto

lemma first_alive_le: "first_alive es \<le> length es"
  by (induction es) auto

lemma sched_halt_monitors:
  assumes "length (envs s) = NENV" "\<forall>e \<in> set (envs s). \<not> env_alive e"
  shows "sched_halt s = Leaves Monitors (s\<lparr>klog := klog s @ [(''No runnable environments in the system!\<newline>'', [])]\<rparr>)"
  using assms first_alive_length[of "envs s"] by (simp add: sched_halt_def cprintf_def)

lemma sched_halt_unlocked:
  assumes "length (envs s) = NENV" "e \<in> set (envs s)" "env_alive e" "\<not> holding (kernel_lock s) (cpunum s)"
  shows "\<exists>msg. sched_halt s = Panics msg"
proof -
  have "first_alive (envs s) \<noteq> NENV" using first_alive_length[of "envs s"] assms by auto
  then show ?thesis using assms(4)
    by (cases "kern_pgdir s < KERNBASE"; cases "lk_cpu (kernel_lock s)")
      (auto simp: sched_halt_def set_curenv_def PADDR_def lcr3_def set_cpu_status_def unlock_kernel_def
        kbind_apply kseq_apply)
qed

lemma sched_halt_locked:
  assumes "length (envs s) = NENV" "e \<in> set (envs s)" "env_alive e" "holding (kernel_lock s) (cpunum s)"
    "KERNBASE \<le> kern_pgdir s" "cpunum s < length (cpus s)"
  shows "\<exists>t. sched_halt s = Leaves Halts t \<and> curenv t = None \<and> cpu_status (thiscpu t) = CPU_HALTED \<and>
    cr3 t = kern_pgdir s - KERNBASE \<and> \<not> locked (kernel_lock t) \<and> envs t = envs s"
proof -
  have "first_alive (envs s) \<noteq> NENV" using first_alive_length[of "envs s"] assms by auto
  then show ?thesis using assms(4-6)
    by (auto simp: sched_halt_def set_curenv_def PADDR_def lcr3_def set_cpu_status_def unlock_kernel_def
        kbind_apply kseq_apply curenv_def thiscpu_def not_less)
qed

text \<open>
  \<open>sched_halt\<close> has exactly these outcomes: with no environment alive it stays in the monitor; with
  one alive it panics unless this processor holds the kernel lock; holding it, the processor
  gives up its environment, switches to the kernel's page directory, frees the lock and halts.
\<close>

theorem sched_halt_outcomes:
  assumes "length (envs s) = NENV" "KERNBASE \<le> kern_pgdir s" "cpunum s < length (cpus s)"
  shows "if \<forall>e \<in> set (envs s). \<not> env_alive e then \<exists>t. sched_halt s = Leaves Monitors t
    else if holding (kernel_lock s) (cpunum s) then \<exists>t. sched_halt s = Leaves Halts t \<and> curenv t = None \<and>
      cpu_status (thiscpu t) = CPU_HALTED \<and> cr3 t = kern_pgdir s - KERNBASE \<and> \<not> locked (kernel_lock t)
    else \<exists>msg. sched_halt s = Panics msg"
  using sched_halt_monitors[OF assms(1)] sched_halt_locked[OF assms(1) _ _ _ assms(2,3)]
    sched_halt_unlocked[OF assms(1)] by auto

theorem sched_halt_outcomes_witness:
  "\<exists>t. sched_halt small_machine = Leaves Monitors t"
proof -
  have "\<forall>e \<in> set (envs small_machine). \<not> env_alive e"
    by (auto simp: small_machine_def env_alive_def Env_zero_def dest!: set_update_subset_insert[THEN subsetD])
  then show ?thesis
    using sched_halt_outcomes[of small_machine] by (simp add: small_machine_def)
qed

end
