(* ===== verification/Envs.thy ===== *)
theory Envs
  imports Page_Table Sched
begin

text \<open>
  Environments, \<^verbatim>\<open>kern/env.c\<close>: identifiers and their lookup, the table and its free list, the
  address space of a new environment, loading a program (\<^verbatim>\<open>inc/elf.h\<close>), freeing, destroying and
  running environments. The invariant \<open>env_inv s xs\<close> says that the free environments are linked in
  the order \<open>xs\<close>.
\<close>

section \<open>Identifiers\<close>

definition ENVGENSHIFT :: nat where [simp, layout_defs]: "ENVGENSHIFT = 12"

text \<open>The result is the return value and what is stored through \<^verbatim>\<open>env_store\<close>.\<close>

definition envid2env :: "u32 \<Rightarrow> bool \<Rightarrow> (kstate, int \<times> nat option) kernel" where
  "envid2env envid checkperm =
     kbind (kget curenv) (\<lambda>cur.
     if envid = 0 then kret (0, cur)
     else kbind (env_at (ENVX envid)) (\<lambda>e.
       if env_status e = ENV_FREE \<or> env_id e \<noteq> envid then kret (- E_BAD_ENV, None)
       else if checkperm \<and> cur \<noteq> Some (ENVX envid) then
         (case cur of
            None \<Rightarrow> kpanic ''null pointer dereference''
          | Some c \<Rightarrow> kbind (env_at c) (\<lambda>ce.
              if env_parent_id e \<noteq> env_id ce then kret (- E_BAD_ENV, None)
              else kret (0, Some (ENVX envid))))
       else kret (0, Some (ENVX envid))))"

text \<open>Signed 32-bit arithmetic that wraps around, and the test for a positive value.\<close>

definition next_generation :: "u32 \<Rightarrow> u32" where
  "next_generation old =
     (let generation = (old + push_bit ENVGENSHIFT 1) AND NOT (of_nat NENV - 1)
      in if sint generation \<le> 0 then push_bit ENVGENSHIFT 1 else generation)"

section \<open>The table\<close>

definition gdt_table :: "Segdesc list" where
  "gdt_table = [SEG_NULL, SEG (STA_X OR STA_R) 0 0xffffffff 0, SEG STA_W 0 0xffffffff 0,
     SEG (STA_X OR STA_R) 0 0xffffffff 3, SEG STA_W 0 0xffffffff 3] @ replicate NCPU SEG_NULL"

definition env_init_percpu :: "(kstate, unit) kernel" where
  "env_init_percpu =
     kseq (hwop ''lgdt'' 0)
     (kseq (hwop ''gs'' (ucast (GD_UD OR 3)))
     (kseq (hwop ''fs'' (ucast (GD_UD OR 3)))
     (kseq (hwop ''es'' (ucast GD_KD))
     (kseq (hwop ''ds'' (ucast GD_KD))
     (kseq (hwop ''ss'' (ucast GD_KD))
     (kseq (hwop ''cs'' (ucast GD_KT))
     (hwop ''lldt'' 0)))))))"

definition env_init_step :: "nat \<Rightarrow> (kstate, unit) kernel" where
  "env_init_step i = kbind (kget env_free_list) (\<lambda>fl.
     kseq (set_env i (\<lambda>e. e\<lparr>env_id := 0, env_status := ENV_FREE, env_link := fl\<rparr>))
     (kmodify (\<lambda>s. s\<lparr>env_free_list := Some i\<rparr>)))"

definition env_init :: "(kstate, unit) kernel" where
  "env_init = kseq (kfor (rev [0..<NENV]) env_init_step) env_init_percpu"

definition env_setup_vm :: "nat \<Rightarrow> (kstate, int) kernel" where
  "env_setup_vm e =
     kbind (page_alloc ALLOC_ZERO) (\<lambda>r. case r of
       None \<Rightarrow> kret (- E_NO_MEM)
     | Some p \<Rightarrow>
         kseq (set_page p (\<lambda>q. q\<lparr>pp_ref := pp_ref q + 1\<rparr>))
         (kbind (page2kva p) (\<lambda>kva.
          kseq (set_env e (\<lambda>x. x\<lparr>env_pgdir := kva\<rparr>))
         (kbind (kget kern_pgdir) (\<lambda>kpd.
          kseq (memcpy_k kva kpd PGSIZE)
         (kbind (PADDR kva) (\<lambda>pa.
          kseq (store32 (kva + 4 * PDX UVPT) (pa OR PTE_P OR PTE_U))
         (kret 0))))))))"

definition env_fresh :: "u32 \<Rightarrow> nat \<Rightarrow> Env \<Rightarrow> Env" where
  "env_fresh parent_id i e = e\<lparr>env_id := next_generation (env_id e) OR of_nat i,
     env_parent_id := parent_id, env_type := ENV_TYPE_USER, env_status := ENV_RUNNABLE, env_runs := 0,
     env_tf := Trapframe_zero\<lparr>tf_ds := GD_UD OR 3, tf_es := GD_UD OR 3, tf_ss := GD_UD OR 3,
       tf_esp := USTACKTOP, tf_cs := GD_UT OR 3\<rparr>,
     env_pgfault_upcall := 0, env_ipc_recving := False\<rparr>"

text \<open>The environment id of the current environment, or 0, as the messages print it.\<close>

definition cur_id :: "(kstate, u32) kernel" where
  "cur_id = kbind (kget curenv) (\<lambda>c. case c of
     None \<Rightarrow> kret 0
   | Some i \<Rightarrow> kbind (env_at i) (\<lambda>e. kret (env_id e)))"

definition env_alloc :: "u32 \<Rightarrow> (kstate, int \<times> nat option) kernel" where
  "env_alloc parent_id =
     kbind (kget env_free_list) (\<lambda>fl. case fl of
       None \<Rightarrow> kret (- E_NO_FREE_ENV, None)
     | Some e \<Rightarrow>
         kbind (env_setup_vm e) (\<lambda>r.
         if r < 0 then kret (r, None)
         else
           kseq (set_env e (env_fresh parent_id e))
           (kbind (env_at e) (\<lambda>x.
            kseq (kmodify (\<lambda>s. s\<lparr>env_free_list := env_link x\<rparr>))
           (kbind cur_id (\<lambda>c.
            kseq (cprintf ''[%08x] new env %08x\<newline>'' [PInt c, PInt (env_id x)])
           (kret (0, Some e))))))))"

section \<open>Loading programs\<close>

primrec region_alloc_loop :: "u32 list \<Rightarrow> u32 \<Rightarrow> (kstate, unit) kernel" where
  "region_alloc_loop [] pgdir = kret ()"
| "region_alloc_loop (b # bs) pgdir =
     kbind (page_alloc 0) (\<lambda>p. case p of
       None \<Rightarrow> kpanic ''env region_alloc failed''
     | Some pg \<Rightarrow> kbind (page_insert pgdir pg b (PTE_W OR PTE_U)) (\<lambda>_. region_alloc_loop bs pgdir))"

definition region_alloc :: "nat \<Rightarrow> u32 \<Rightarrow> u32 \<Rightarrow> (kstate, unit) kernel" where
  "region_alloc e va len = kbind (env_at e) (\<lambda>x.
     region_alloc_loop (pages_between (ROUNDDOWN va PGSIZE) (ROUNDUP (va + len) PGSIZE)) (env_pgdir x))"

text \<open>
  Accesses by virtual address while the environment's directory is in force: kernel addresses
  are physical memory from \<open>KERNBASE\<close>, as the comments of \<open>mem_init\<close> demand of every directory (no code maps them yet), other addresses go through the page tables, and an access with no page (or a
  store to a page that is not writable) faults in the kernel, which panics.
\<close>

definition translate :: "kstate \<Rightarrow> u32 \<Rightarrow> bool \<Rightarrow> u32 option" where
  "translate s va wr =
     (if KERNBASE \<le> va then Some (va - KERNBASE)
      else case mapped s (cr3 s + KERNBASE) va of
        None \<Rightarrow> None
      | Some pte \<Rightarrow> if wr \<and> pte AND PTE_W = 0 then None else Some (PTE_ADDR pte OR PGOFF va))"

definition vload8 :: "u32 \<Rightarrow> (kstate, u8) kernel" where
  "vload8 va = (\<lambda>s. case translate s va False of
     None \<Rightarrow> Panics ''kernel page fault'' | Some pa \<Rightarrow> Returns (pmem s pa) s)"

definition vstore8 :: "u32 \<Rightarrow> u8 \<Rightarrow> (kstate, unit) kernel" where
  "vstore8 va v = (\<lambda>s. case translate s va True of
     None \<Rightarrow> Panics ''kernel page fault'' | Some pa \<Rightarrow> Returns () (s\<lparr>pmem := (pmem s)(pa := v)\<rparr>))"

definition vmemcpy :: "u32 \<Rightarrow> u32 \<Rightarrow> u32 \<Rightarrow> (kstate, unit) kernel" where
  "vmemcpy dst src n = kfor [0..<unat n] (\<lambda>i.
     kbind (vload8 (src + of_nat i)) (\<lambda>v. vstore8 (dst + of_nat i) v))"

definition vmemset :: "u32 \<Rightarrow> u8 \<Rightarrow> u32 \<Rightarrow> (kstate, unit) kernel" where
  "vmemset dst c n = kfor [0..<unat n] (\<lambda>i. vstore8 (dst + of_nat i) c)"

text \<open>The fields of the file header and of a program header.\<close>

definition ELF_PROG_LOAD :: u32 where [simp, layout_defs]: "ELF_PROG_LOAD = 1"

record Elf =
  e_magic :: u32
  e_elf :: "u8 list"
  e_type :: u16
  e_machine :: u16
  e_version :: u32
  e_entry :: u32
  e_phoff :: u32
  e_shoff :: u32
  e_flags :: u32
  e_ehsize :: u16
  e_phentsize :: u16
  e_phnum :: u16
  e_shentsize :: u16
  e_shnum :: u16
  e_shstrndx :: u16

record Proghdr =
  p_type :: u32
  p_offset :: u32
  p_va :: u32
  p_pa :: u32
  p_filesz :: u32
  p_memsz :: u32
  p_flags :: u32
  p_align :: u32

definition elf_at :: "mem \<Rightarrow> u32 \<Rightarrow> Elf" where
  "elf_at m a = \<lparr>e_magic = read32 m a, e_elf = map (\<lambda>i. m (a + 4 + of_nat i)) [0..<12], e_type = read16 m (a + 16),
     e_machine = read16 m (a + 18), e_version = read32 m (a + 20), e_entry = read32 m (a + 24),
     e_phoff = read32 m (a + 28), e_shoff = read32 m (a + 32), e_flags = read32 m (a + 36), e_ehsize = read16 m (a + 40),
     e_phentsize = read16 m (a + 42), e_phnum = read16 m (a + 44), e_shentsize = read16 m (a + 46),
     e_shnum = read16 m (a + 48), e_shstrndx = read16 m (a + 50)\<rparr>"

definition proghdr_at :: "mem \<Rightarrow> u32 \<Rightarrow> Proghdr" where
  "proghdr_at m a = \<lparr>p_type = read32 m a, p_offset = read32 m (a + 4), p_va = read32 m (a + 8),
     p_pa = read32 m (a + 12), p_filesz = read32 m (a + 16), p_memsz = read32 m (a + 20),
     p_flags = read32 m (a + 24), p_align = read32 m (a + 28)\<rparr>"

definition load_segment :: "nat \<Rightarrow> u32 \<Rightarrow> u32 \<Rightarrow> (kstate, unit) kernel" where
  "load_segment e binary ph =
     kbind (kget (\<lambda>s. proghdr_at (pmem s) (ph - KERNBASE))) (\<lambda>h.
     if p_type h = ELF_PROG_LOAD then
       kseq (region_alloc e (p_va h) (p_memsz h))
       (kseq (vmemcpy (p_va h) (binary + p_offset h) (p_filesz h))
       (vmemset (p_va h + p_filesz h) 0 (p_memsz h - p_filesz h)))
     else kret ())"

definition load_icode :: "nat \<Rightarrow> u32 \<Rightarrow> (kstate, unit) kernel" where
  "load_icode e binary =
     kbind (kget (\<lambda>s. elf_at (pmem s) (binary - KERNBASE))) (\<lambda>elf.
     kbind (env_at e) (\<lambda>x.
     kbind (PADDR (env_pgdir x)) (\<lambda>pa.
     let ph = binary + e_phoff elf; eph = ph + 32 * ucast (e_phnum elf) in
     kseq (lcr3 pa)
     (kseq (kfor (if ph < eph then [0..<unat (e_phnum elf)] else [])
              (\<lambda>i. load_segment e binary (ph + 32 * of_nat i)))
     (kbind (kget (\<lambda>s. elf_at (pmem s) (binary - KERNBASE))) (\<lambda>elf'.
      kseq (set_env e (\<lambda>x. x\<lparr>env_tf := (env_tf x)\<lparr>tf_eip := e_entry elf'\<rparr>\<rparr>))
     (kbind (kget kern_pgdir) (\<lambda>kpd. kbind (PADDR kpd) (\<lambda>kpa.
      kseq (lcr3 kpa)
      (region_alloc e (USTACKTOP - PGSIZE) PGSIZE))))))))))"

text \<open>The result of \<^verbatim>\<open>env_alloc\<close> is not tested: when it fails, the pointer used has no value.\<close>

definition env_create :: "u32 \<Rightarrow> EnvType \<Rightarrow> (kstate, unit) kernel" where
  "env_create binary ty = kbind (env_alloc 0) (\<lambda>(r, e). case e of
     None \<Rightarrow> kpanic ''wild Env pointer''
   | Some i \<Rightarrow> kseq (set_env i (\<lambda>x. x\<lparr>env_type := ty\<rparr>)) (load_icode i binary))"

section \<open>Freeing and running\<close>

definition env_free_pte :: "u32 \<Rightarrow> u32 \<Rightarrow> nat \<Rightarrow> nat \<Rightarrow> (kstate, unit) kernel" where
  "env_free_pte pgdir pt pdeno pteno = kbind (load32 (pt + 4 * of_nat pteno)) (\<lambda>v.
     kwhen (v AND PTE_P \<noteq> 0) (page_remove pgdir (PGADDR (of_nat pdeno) (of_nat pteno) 0)))"

definition env_free_pde :: "nat \<Rightarrow> nat \<Rightarrow> (kstate, unit) kernel" where
  "env_free_pde e pdeno =
     kbind (env_at e) (\<lambda>x.
     kbind (load32 (env_pgdir x + 4 * of_nat pdeno)) (\<lambda>pde.
     if pde AND PTE_P = 0 then kret ()
     else kbind (KADDR (PTE_ADDR pde)) (\<lambda>pt.
       kseq (kfor [0..<Suc (unat (PTX (- 1)))] (env_free_pte (env_pgdir x) pt pdeno))
       (kseq (store32 (env_pgdir x + 4 * of_nat pdeno) 0)
       (kbind (pa2page (PTE_ADDR pde)) page_decref)))))"

definition env_free :: "nat \<Rightarrow> (kstate, unit) kernel" where
  "env_free e =
     kbind (kget curenv) (\<lambda>cur.
     kseq (kwhen (cur = Some e) (kbind (kget kern_pgdir) (\<lambda>pd. kbind (PADDR pd) lcr3)))
     (kbind cur_id (\<lambda>c.
     kbind (env_at e) (\<lambda>x.
     kseq (cprintf ''[%08x] free env %08x\<newline>'' [PInt c, PInt (env_id x)])
     (kseq (kfor [0..<unat (PDX UTOP)] (env_free_pde e))
     (kbind (env_at e) (\<lambda>x.
     kbind (PADDR (env_pgdir x)) (\<lambda>pa.
     kseq (set_env e (\<lambda>y. y\<lparr>env_pgdir := 0\<rparr>))
     (kseq (kbind (pa2page pa) page_decref)
     (kbind (kget env_free_list) (\<lambda>fl.
     kseq (set_env e (\<lambda>y. y\<lparr>env_status := ENV_FREE, env_link := fl\<rparr>))
     (kmodify (\<lambda>s. s\<lparr>env_free_list := Some e\<rparr>)))))))))))))"

definition env_destroy :: "nat \<Rightarrow> (kstate, unit) kernel" where
  "env_destroy e =
     kbind (env_at e) (\<lambda>x.
     kbind (kget curenv) (\<lambda>cur.
     if env_status x = ENV_RUNNING \<and> cur \<noteq> Some e then
       set_env e (\<lambda>y. y\<lparr>env_status := ENV_DYING\<rparr>)
     else
       kseq (env_free e)
       (kbind (kget curenv) (\<lambda>cur'.
        if cur' = Some e then kseq (set_curenv None) sched_yield else kret ()))))"

text \<open>The registers are restored from the trap frame of the current environment.\<close>

definition env_pop_tf :: "(kstate, unit) kernel" where
  "env_pop_tf = kbind (kget curenv) (\<lambda>cur. case cur of
     None \<Rightarrow> kpanic ''null pointer dereference''
   | Some e \<Rightarrow> kbind (kget cpunum) (\<lambda>c.
       kseq (set_env e (\<lambda>x. x\<lparr>env_cpunum := c\<rparr>)) (kleave (Resumes e))))"

definition env_run :: "nat \<Rightarrow> (kstate, unit) kernel" where
  "env_run e =
     kbind (kget curenv) (\<lambda>cur.
     kseq (case cur of
             None \<Rightarrow> kret ()
           | Some c \<Rightarrow> kbind (env_at c) (\<lambda>x. kwhen (env_status x = ENV_RUNNING)
               (set_env c (\<lambda>x. x\<lparr>env_status := ENV_RUNNABLE\<rparr>))))
     (kseq (set_curenv (Some e))
     (kseq (set_env e (\<lambda>x. x\<lparr>env_status := ENV_RUNNING, env_runs := env_runs x + 1\<rparr>))
     (kbind (env_at e) (\<lambda>x.
      kseq (kbind (PADDR (env_pgdir x)) lcr3)
      env_pop_tf)))))"

definition user_mem_assert :: "nat \<Rightarrow> u32 \<Rightarrow> u32 \<Rightarrow> u32 \<Rightarrow> (kstate, unit) kernel" where
  "user_mem_assert env va len perm =
     kbind (user_mem_check env va len (perm OR PTE_U)) (\<lambda>r.
     if r < 0 then
       kbind (env_at env) (\<lambda>e. kbind (kget user_mem_check_addr) (\<lambda>a.
       kseq (cprintf ''[%08x] user_mem_check assertion failure for va %08x\<newline>'' [PInt (env_id e), PInt a])
       (env_destroy env)))
     else kret ())"

section \<open>The invariant of the table\<close>

definition env_links :: "kstate \<Rightarrow> nat \<Rightarrow> nat option" where
  "env_links s i = env_link (envs s ! i)"

definition env_inv :: "kstate \<Rightarrow> nat list \<Rightarrow> bool" where
  "env_inv s xs \<longleftrightarrow> length (envs s) = NENV \<and> linked (env_links s) (env_free_list s) xs \<and> distinct xs \<and>
     (\<forall>i < NENV. i \<in> set xs \<longleftrightarrow> env_status (envs s ! i) = ENV_FREE) \<and> set xs \<subseteq> {..<NENV} \<and>
     (\<forall>i < NENV. env_id (envs s ! i) \<noteq> 0 \<longrightarrow> ENVX (env_id (envs s ! i)) = i) \<and>
     (\<forall>i < NENV. 0 \<le> sint (env_id (envs s ! i)))"

text \<open>Who may manipulate environment \<open>i\<close>: itself, and its parent.\<close>

definition may_manage :: "kstate \<Rightarrow> nat \<Rightarrow> nat \<Rightarrow> bool" where
  "may_manage s c i \<longleftrightarrow> c = i \<or> env_parent_id (envs s ! i) = env_id (envs s ! c)"

definition env_init_inv :: "kstate \<Rightarrow> nat list \<Rightarrow> kstate \<Rightarrow> bool" where
  "env_init_inv s is t \<longleftrightarrow> (\<exists>es fl. t = s\<lparr>envs := es, env_free_list := fl\<rparr> \<and> length es = length (envs s) \<and>
     linked (\<lambda>i. env_link (es ! i)) fl (rev is) \<and>
     (\<forall>i \<in> set is. env_id (es ! i) = 0 \<and> env_status (es ! i) = ENV_FREE))"

text \<open>The state after \<open>env_setup_vm e\<close> made page \<open>x\<close> the directory of \<open>e\<close>.\<close>

definition vm_state :: "kstate \<Rightarrow> nat \<Rightarrow> nat \<Rightarrow> kstate" where
  "vm_state s x e = s\<lparr>page_free_list := pp_link (pages s ! x),
     pages := (pages s)[x := \<lparr>pp_link = None, pp_ref = 1\<rparr>],
     envs := (envs s)[e := (envs s ! e)\<lparr>env_pgdir := page2pa x + KERNBASE\<rparr>],
     pmem := write32 (copy (fill (pmem s) (page2pa x) 0 4096) (page2pa x) (kern_pgdir s - KERNBASE) 4096)
       (page2pa x + 4 * of_nat UVPTX) (page2pa x OR 5)\<rparr>"

definition alloc_env :: "kstate \<Rightarrow> nat \<Rightarrow> nat \<Rightarrow> u32 \<Rightarrow> Env" where
  "alloc_env s x e parent = env_fresh parent e ((envs s ! e)\<lparr>env_pgdir := page2pa x + KERNBASE\<rparr>)"

section \<open>Identifiers\<close>

text \<open>The identifier a slot has after the allocations for the parents \<open>ps\<close>, one after the other.\<close>

definition slot_id :: "nat \<Rightarrow> u32 list \<Rightarrow> Env \<Rightarrow> u32" where
  "slot_id i ps x = env_id (fold (\<lambda>p. env_fresh p i) ps x)"

lemma mask_NENV: "(of_nat NENV - 1 :: u32) = mask 10"
  by (simp add: mask_eq_exp_minus_1)

lemma ENVX_less: "ENVX a < NENV"
  unfolding ENVX_def mask_NENV unat_and_mask by simp

lemma ENVX_mod: "ENVX a = unat a mod 1024"
  unfolding ENVX_def mask_NENV unat_and_mask by simp

lemma sint_pos: "0 < sint (w :: u32) \<longleftrightarrow> w \<noteq> 0 \<and> \<not> bit w 31"
proof -
  have "sint w < 0 \<longleftrightarrow> bit w 31" using bit_last_iff[of w] by simp
  moreover have "sint w = 0 \<longleftrightarrow> w = 0" by (rule signed_eq_0_iff)
  ultimately show ?thesis by linarith
qed

lemma next_generation_bits:
  "n < 10 \<Longrightarrow> \<not> bit (next_generation old) n" "\<not> bit (next_generation old) 31" "next_generation old \<noteq> 0"
proof -
  define g :: u32 where "g = (old + push_bit ENVGENSHIFT 1) AND NOT (mask 10)"
  have e: "next_generation old = (if sint g \<le> 0 then push_bit 12 1 else g)"
    by (simp only: next_generation_def mask_NENV Let_def ENVGENSHIFT_def g_def)
  have p: "\<not> bit (push_bit 12 1 :: u32) 31" "(push_bit 12 1 :: u32) \<noteq> 0" by (simp_all add: bit_simps)
  have q: "\<not> bit g 31" "g \<noteq> 0" if "\<not> sint g \<le> 0" using that sint_pos[of g] by auto
  have "\<not> bit g n" if "n < 10" using that by (simp add: g_def bit_and_iff bit_not_iff bit_mask_iff)
  then show "n < 10 \<Longrightarrow> \<not> bit (next_generation old) n" unfolding e
    by (simp add: bit_push_bit_iff del: push_bit_of_1)
  show "\<not> bit (next_generation old) 31" unfolding e using p(1) q(1) by presburger
  show "next_generation old \<noteq> 0" unfolding e using p(2) q(2) by presburger
qed

lemma small_nat_bit: "i < 1024 \<Longrightarrow> bit (of_nat i :: u32) n \<Longrightarrow> n < 10"
proof -
  assume i: "i < 1024" and b: "bit (of_nat i :: u32) n"
  have "(of_nat i :: u32) < 1024" using i by (simp add: word_less_nat_alt unat_of_nat)
  then show "n < 10" using b by (rule small_bits(1))
qed

lemma fresh_id:
  assumes "i < NENV"
  shows "ENVX (next_generation old OR of_nat i) = i" and "0 < sint (next_generation old OR of_nat i)"
proof -
  have i: "i < 1024" using assms by simp
  let ?w = "next_generation old OR of_nat i :: u32"
  have "?w AND mask 10 = of_nat i"
    using small_nat_bit[OF i] next_generation_bits(1)
    by (intro bit_word_eqI) (auto simp: bit_and_iff bit_or_iff bit_mask_iff)
  then show "ENVX ?w = i" unfolding ENVX_def mask_NENV using i by (simp add: unat_of_nat)
  have "\<not> bit ?w 31" using next_generation_bits(2) small_nat_bit[OF i, of 31] by (auto simp: bit_simps)
  moreover have "?w \<noteq> 0" using next_generation_bits(3) by (simp add: or_eq_0_iff)
  ultimately show "0 < sint ?w" by (simp add: sint_pos)
qed

lemma high_bits: "unat (w AND NOT (mask 10)) = unat w div 1024 * 1024" for w :: u32
proof -
  have "w mod 2 ^ 10 = w AND mask 10" by (simp only: take_bit_eq_mod[symmetric] take_bit_eq_mask)
  moreover have "w AND NOT (mask 10) = w - (w AND mask 10)"
    using word_plus_and_or[of "w AND mask 10" "w AND NOT (mask 10)"]
    by (simp only: word_and_split word_and_disj) (simp add: eq_diff_eq ac_simps)
  ultimately have "w AND NOT (mask 10) = w - w mod 1024" by simp
  then show ?thesis using unat_ROUNDDOWN[of w 1024] by (simp add: ROUNDDOWN_def)
qed

text \<open>The identifier given to a slot differs from the one it had before.\<close>

lemma fresh_id_differs:
  assumes "i < NENV" "ENVX old = i"
  shows "next_generation old OR of_nat i \<noteq> old"
proof
  assume e: "next_generation old OR of_nat i = old"
  let ?a = "old + push_bit ENVGENSHIFT 1 :: u32"
  let ?g = "?a AND NOT (mask 10)"
  have g: "next_generation old = (if sint ?g \<le> 0 then push_bit 12 1 else ?g)"
    by (simp only: next_generation_def mask_NENV Let_def ENVGENSHIFT_def)
  have ua: "unat ?a = (if unat old + 4096 < 4294967296 then unat old + 4096 else unat old + 4096 - 4294967296)"
    by (simp add: unat_plus_if')
  have "next_generation old = old AND NOT (mask 10)"
  proof (rule bit_word_eqI)
    fix n
    have "bit old n = (bit (next_generation old) n \<or> bit (of_nat i :: u32) n)"
      by (subst e[symmetric]) (simp add: bit_or_iff)
    then show "bit (next_generation old) n = bit (old AND NOT (mask 10)) n"
      using next_generation_bits(1)[of n old] small_nat_bit[of i n] assms(1)
      by (auto simp: bit_and_iff bit_not_iff bit_mask_iff dest: bit_imp_le_length)
  qed
  then have ng: "unat (next_generation old) = unat old div 1024 * 1024" by (simp only: high_bits)
  show False
  proof (cases "sint ?g \<le> 0")
    case True
    then have "unat (next_generation old) = 4096" by (simp add: g)
    then have "unat old div 1024 = 4" using ng by simp
    then have o: "unat old < 5 * 1024" "4 * 1024 \<le> unat old" by linarith+
    then have "unat ?g = unat (8192 :: u32)" using ua by (simp add: high_bits)
    then have "?g = 8192" by (simp only: word_unat_eq_iff)
    then show False using True by simp
  next
    case False
    then have "unat ?a div 1024 * 1024 = unat old div 1024 * 1024" using ng by (simp add: g high_bits)
    then show False unfolding ua using unat_u32_less[of old] by (simp split: if_splits)
  qed
qed

section \<open>Lookup\<close>

lemma envid2env_eq:
  assumes "length (envs s) = NENV" "curenv s = Some c" "c < NENV" "envid \<noteq> 0"
  shows "envid2env envid checkperm s =
    (if env_status (envs s ! ENVX envid) \<noteq> ENV_FREE \<and> env_id (envs s ! ENVX envid) = envid \<and>
        (checkperm \<longrightarrow> may_manage s c (ENVX envid))
     then Returns (0, Some (ENVX envid)) s else Returns (- E_BAD_ENV, None) s)"
  using assms ENVX_less[of envid]
  by (auto simp: envid2env_def env_at_def kbind_apply may_manage_def)

section \<open>Initialisation\<close>

lemma linked_env_link [simp]:
  "i \<notin> set xs \<Longrightarrow> linked (\<lambda>j. env_link (if i = j then p else f j)) q xs \<longleftrightarrow> linked (\<lambda>j. env_link (f j)) q xs"
  by (rule linked_cong) auto

lemma env_init_inv_step:
  assumes I: "env_init_inv s is t" and i: "i < length (envs s)" "i \<notin> set is"
  shows "\<exists>u. env_init_step i t = Returns () u \<and> env_init_inv s (is @ [i]) u"
proof -
  obtain es fl where t: "t = s\<lparr>envs := es, env_free_list := fl\<rparr>" "length es = length (envs s)"
    "linked (\<lambda>i. env_link (es ! i)) fl (rev is)"
    "\<forall>i \<in> set is. env_id (es ! i) = 0 \<and> env_status (es ! i) = ENV_FREE"
    using I by (auto simp: env_init_inv_def)
  let ?es = "es[i := (es ! i)\<lparr>env_id := 0, env_status := ENV_FREE, env_link := fl\<rparr>]"
  have "env_init_step i t = Returns () (s\<lparr>envs := ?es, env_free_list := Some i\<rparr>)"
    using i t(2) by (simp add: t(1) env_init_step_def set_env_def)
  moreover have "env_init_inv s (is @ [i]) (s\<lparr>envs := ?es, env_free_list := Some i\<rparr>)"
    unfolding env_init_inv_def using t i
    by (intro exI[of _ ?es] exI[of _ "Some i"]) (auto simp: nth_list_update)
  ultimately show ?thesis by blast
qed

lemma env_init_loop:
  assumes "distinct is" "set is \<subseteq> {..<length (envs s)}" "env_free_list s = None"
  shows "\<exists>t. kfor is env_init_step s = Returns () t \<and> env_init_inv s is t"
proof (rule kfor_rule)
  show "env_init_inv s [] s" using assms(3) by (auto simp: env_init_inv_def intro!: exI[of _ "envs s"])
  fix js i t
  assume a: "js @ [i] = take (Suc (length js)) is" and I: "env_init_inv s js t"
  have "distinct (js @ [i])" using assms(1) unfolding a by simp
  moreover have "i \<in> set (take (Suc (length js)) is)" unfolding a[symmetric] by simp
  then have "i < length (envs s)" using assms(2) set_take_subset[of "Suc (length js)" "is"] by auto
  ultimately show "\<exists>u. env_init_step i t = Returns () u \<and> env_init_inv s (js @ [i]) u"
    using I by (intro env_init_inv_step) auto
qed

lemma env_init_ok:
  assumes "length (envs s) = NENV" "env_free_list s = None"
  shows "\<exists>t. env_init s = Returns () t \<and> env_inv t [0..<NENV] \<and>
    (\<exists>es fl ho. t = s\<lparr>envs := es, env_free_list := fl, hwops := ho\<rparr>)"
proof -
  obtain t where t: "kfor (rev [0..<NENV]) env_init_step s = Returns () t" "env_init_inv s (rev [0..<NENV]) t"
    using env_init_loop[of "rev [0..<NENV]" s] assms by (auto simp: subset_iff)
  let ?ops = "[(''lgdt'', 0), (''gs'', ucast (GD_UD OR 3)), (''fs'', ucast (GD_UD OR 3)), (''es'', ucast GD_KD),
     (''ds'', ucast GD_KD), (''ss'', ucast GD_KD), (''cs'', ucast GD_KT), (''lldt'', 0)]"
  have p: "env_init_percpu t = Returns () (t\<lparr>hwops := hwops t @ ?ops\<rparr>)"
    by (simp add: env_init_percpu_def hwop_def kseq_apply)
  have e: "env_init s = Returns () (t\<lparr>hwops := hwops t @ ?ops\<rparr>)"
    unfolding env_init_def using t(1) p by simp
  moreover have "env_inv (t\<lparr>hwops := hwops t @ ?ops\<rparr>) [0..<NENV]"
    using t(2) assms(1) by (auto simp: env_init_inv_def env_inv_def env_links_def[abs_def])
  moreover have "\<exists>es fl ho. t\<lparr>hwops := hwops t @ ?ops\<rparr> = s\<lparr>envs := es, env_free_list := fl, hwops := ho\<rparr>"
    using t(2) by (auto simp: env_init_inv_def)
  ultimately show ?thesis by blast
qed

section \<open>Running\<close>

lemma env_run_ok:
  assumes "length (envs s) = NENV" "e < NENV" "cpunum s < length (cpus s)" "curenv_ok s"
    "KERNBASE \<le> env_pgdir (envs s ! e)"
  shows "\<exists>t. env_run e s = Leaves (Resumes e) t \<and> curenv t = Some e \<and>
    env_status (envs t ! e) = ENV_RUNNING \<and> env_runs (envs t ! e) = env_runs (envs s ! e) + 1 \<and>
    cr3 t = env_pgdir (envs s ! e) - KERNBASE \<and> env_tf (envs t ! e) = env_tf (envs s ! e) \<and>
    (\<forall>i < NENV. i \<noteq> e \<longrightarrow> env_status (envs t ! i) =
       (if curenv s = Some i \<and> env_status (envs s ! i) = ENV_RUNNING then ENV_RUNNABLE
        else env_status (envs s ! i)))"
  using assms
  by (cases "curenv s")
    (auto simp: env_run_def env_at_def set_env_def set_curenv_def PADDR_def lcr3_def env_pop_tf_def
      kbind_apply kseq_apply curenv_def thiscpu_def curenv_ok_def not_less nth_list_update split: if_splits)

section \<open>A new address space\<close>

lemma page_kva:
  assumes "x < 65536"
  shows "KERNBASE \<le> page2pa x + KERNBASE" and "page2pa x + KERNBASE - KERNBASE = page2pa x"
    and "PGOFF (page2pa x + KERNBASE) = 0" and "dir_page (page2pa x + KERNBASE) = x"
proof -
  have u: "unat (page2pa x) = 4096 * x" using assms page2pa_page(3)[of x] by simp
  then have k: "unat (page2pa x + KERNBASE) = 4096 * x + 0xF0000000" using assms by (simp add: unat_plus_if')
  then show "KERNBASE \<le> page2pa x + KERNBASE" by (simp add: word_le_nat_alt)
  show e: "page2pa x + KERNBASE - KERNBASE = page2pa x" by simp
  have "unat (page2pa x + KERNBASE) = 4096 * (x + 983040)" using k by simp
  then have "unat (PGOFF (page2pa x + KERNBASE)) = 0" unfolding unat_PGOFF by (simp only: mod_mult_self1_is_0)
  then show "PGOFF (page2pa x + KERNBASE) = 0" by (simp only: unat_0_iff)
  show "dir_page (page2pa x + KERNBASE) = x" using assms page2pa_page(2)[of x] by (simp add: dir_page_def)
qed

lemma entry_copy_page:
  assumes "PGOFF d = 0" "PGOFF s = 0" "i < 1024"
  shows "entry (copy m d s 4096) d i = entry m s i"
proof -
  have i: "unat (4 * of_nat i :: u32) = 4 * i" using assms(3) by (simp add: unat_word_ariths unat_of_nat)
  have "copy m d s 4096 (d + 4 * of_nat i + k) = m (s + 4 * of_nat i + k)" if "k < 4" for k
  proof -
    have k: "unat k < 4" using that by (simp add: word_less_nat_alt)
    have "unat (4 * of_nat i + k :: u32) = 4 * i + unat k"
      using i k assms(3) by (simp add: unat_plus_if')
    then have "in_range d 4096 (d + 4 * of_nat i + k)" using k assms(3) by (simp add: in_range_def add.assoc)
    then show ?thesis by (simp add: copy_def add.assoc)
  qed
  from this[of 0] this[of 1] this[of 2] this[of 3] show ?thesis by (simp add: entry_def read32_def)
qed

lemma copy_outside: "PGOFF d = 0 \<Longrightarrow> PGNUM x \<noteq> PGNUM d \<Longrightarrow> copy m d s 4096 x = m x"
  by (simp add: copy_def in_range_page)

lemma vm_outside:
  assumes "x < 65536"
  shows "mem_outside {x} s (vm_state s x e)"
proof -
  have o: "PGOFF (page2pa x) = 0" "unat (PGNUM (page2pa x)) = x" using assms page2pa_page[of x] by simp_all
  have uv: "UVPTX < 1024" by simp
  note a = entry_addr(2,3)[OF o(1) uv]
  show ?thesis unfolding mem_outside_def
  proof (intro allI impI)
    fix b
    assume "unat (PGNUM b) \<notin> {x}"
    then have n: "PGNUM b \<noteq> PGNUM (page2pa x)" using o(2) by auto
    show "pmem (vm_state s x e) b = pmem s b"
      using write32_outside[OF a(1), of b] fill_outside[OF o(1) n] copy_outside[OF o(1) n] n a(2)
      by (simp add: vm_state_def del: UVPTX_def)
  qed
qed

lemma vm_entries:
  assumes inv: "page_inv s (x # xs)" and wf: "wf_pgdir s (x # xs) (kern_pgdir s)" and d: "d < 1024"
  shows "pde_of (vm_state s x e) (page2pa x + KERNBASE) d =
    (if d = UVPTX then page2pa x OR 5 else pde_of s (kern_pgdir s) d)"
proof -
  have x: "x < 65536" using page_inv_head[OF inv] by simp
  have o: "PGOFF (page2pa x) = 0" "unat (PGNUM (page2pa x)) = x" using x page2pa_page[of x] by simp_all
  have k: "PGOFF (kern_pgdir s - KERNBASE) = 0" using wf_pgdirD(1)[OF wf] .
  have "page2pa x \<noteq> kern_pgdir s - KERNBASE"
    using wf_pgdirD(3)[OF wf] o(2) page_base_eq[OF o(1) k] by (auto simp: dir_page_def)
  then have "entry (copy (fill (pmem s) (page2pa x) 0 4096) (page2pa x) (kern_pgdir s - KERNBASE) 4096) (page2pa x) d
      = entry (pmem s) (kern_pgdir s - KERNBASE) d"
    using entry_copy_page[OF o(1) k d] entry_fill[OF o(1) k d] by simp
  then show ?thesis
    using entry_write[OF o(1) o(1) _ d, of UVPTX] page_kva(2)[OF x]
    by (auto simp: pde_of_def vm_state_def simp del: KERNBASE_def UVPTX_def) (simp_all add: UVPTX_def)
qed

lemma vm_present:
  assumes inv: "page_inv s (x # xs)" and wf: "wf_pgdir s (x # xs) (kern_pgdir s)"
  shows "table_present (vm_state s x e) (page2pa x + KERNBASE) d \<longleftrightarrow> table_present s (kern_pgdir s) d"
    and "table_present s (kern_pgdir s) d \<Longrightarrow>
      table_page (vm_state s x e) (page2pa x + KERNBASE) d = table_page s (kern_pgdir s) d"
  using vm_entries[OF inv wf, of d e] by (auto simp: table_present_def table_page_def simp del: KERNBASE_def)

lemma vm_wf:
  assumes inv: "page_inv s (x # xs)" and wf: "wf_pgdir s (x # xs) (kern_pgdir s)"
  shows "wf_pgdir (vm_state s x e) xs (page2pa x + KERNBASE)"
proof -
  let ?t = "vm_state s x e" and ?pd = "page2pa x + KERNBASE"
  have x: "x < 65536" "x < length (pages s)" "x \<notin> set xs" using page_inv_head[OF inv] by simp_all
  note p = vm_present[OF inv wf, where e = e]
  have uv: "table_page ?t ?pd UVPTX = dir_page ?pd"
    using vm_entries[OF inv wf, of UVPTX e] page_flags(2)[OF x(1), of 5] x(1) page_kva(4)[OF x(1)]
    by (simp add: table_page_def unat_of_nat del: KERNBASE_def)
  show ?thesis unfolding wf_pgdir_def
  proof (intro conjI allI impI)
    show "PGOFF ?pd = 0" "KERNBASE \<le> ?pd" using page_kva[OF x(1)] by simp_all
    show "dir_page ?pd < length (pages ?t)" "dir_page ?pd \<notin> set xs"
      using page_kva(4)[OF x(1)] x by (simp_all add: vm_state_def del: KERNBASE_def)
    show "table_page ?t ?pd UVPTX = dir_page ?pd" by (rule uv)
    fix d
    assume "table_present ?t ?pd d"
    then have d: "table_present s (kern_pgdir s) d" using p(1) by simp
    show "table_page ?t ?pd d < length (pages ?t)" "table_page ?t ?pd d \<notin> set xs" "table_page ?t ?pd d \<noteq> dir_page ?pd"
      using p(2)[OF d] wf_pgdirD(4,5)[OF wf d] page_kva(4)[OF x(1)] by (auto simp: vm_state_def simp del: KERNBASE_def)
    fix d'
    assume "table_present ?t ?pd d'" and e: "table_page ?t ?pd d = table_page ?t ?pd d'"
    then have d': "table_present s (kern_pgdir s) d'" using p(1) by simp
    show "d = d'" using e wf d d' unfolding p(2)[OF d] p(2)[OF d'] by (simp add: wf_pgdir_def)
  qed
qed

lemma vm_page_inv: "page_inv s (x # xs) \<Longrightarrow> page_inv (vm_state s x e) xs"
  by (auto simp: page_inv_def vm_state_def pages_ok_def page_links_def[abs_def] nth_list_update)

lemma vm_mapped:
  assumes inv: "page_inv s (x # xs)" and wf: "wf_pgdir s (x # xs) (kern_pgdir s)" and o: "ordinary va"
  shows "mapped (vm_state s x e) (page2pa x + KERNBASE) va = mapped s (kern_pgdir s) va"
proof -
  let ?t = "vm_state s x e" and ?pd = "page2pa x + KERNBASE" and ?d = "unat (PDX va)"
  have x: "x < 65536" using page_inv_head[OF inv] by simp
  have e: "pde_of ?t ?pd ?d = pde_of s (kern_pgdir s) ?d"
    using vm_entries[OF inv wf PDX_less[of va], of e] o by (simp add: ordinary_def)
  show ?thesis
  proof (cases "table_present s (kern_pgdir s) ?d")
    case True
    have "table_page s (kern_pgdir s) ?d \<notin> {x}" using wf_pgdirD(5)[OF wf True] by auto
    then have "entry (pmem ?t) (PTE_ADDR (pde_of s (kern_pgdir s) ?d)) (unat (PTX va)) =
        entry (pmem s) (PTE_ADDR (pde_of s (kern_pgdir s) ?d)) (unat (PTX va))"
      by (intro entry_outside[OF vm_outside[OF x]]) (simp_all add: table_page_def)
    then show ?thesis by (simp only: mapped_def pte_of_def e Let_def)
  next
    case False
    then show ?thesis by (simp add: mapped_def pte_of_def e present_ordinary[OF o] Let_def del: KERNBASE_def)
  qed
qed

lemma env_setup_vm_ok:
  assumes inv: "page_inv s (x # xs)" and wf: "wf_pgdir s (x # xs) (kern_pgdir s)" and e: "e < length (envs s)"
  shows "env_setup_vm e s = Returns 0 (vm_state s x e)"
proof -
  have x: "x < 65536" "x < length (pages s)" "pp_ref (pages s ! x) = 0" using page_inv_head[OF inv] by simp_all
  have u: "unat (page2pa x) = 4096 * x" using x page2pa_page(3)[of x] by simp
  have k: "unat (kern_pgdir s - KERNBASE) = 4096 * dir_page (kern_pgdir s)"
    using page_aligned_unat[OF wf_pgdirD(1)[OF wf]] by (simp add: dir_page_def)
  have kl: "dir_page (kern_pgdir s) < 65536" using wf_pgdirD(2)[OF wf] page_inv_bounds(2)[OF inv] by simp
  have mc: "memcpy m (page2pa x) (kern_pgdir s - KERNBASE) 4096 = copy m (page2pa x) (kern_pgdir s - KERNBASE) 4096" for m
    using memmove_copy[of "page2pa x" 4096 "kern_pgdir s - KERNBASE" m] u k kl x(1) by (simp add: memcpy_def)
  have al: "page_alloc ALLOC_ZERO s = Returns (Some x) (after_alloc s x ALLOC_ZERO)" by (rule page_alloc_Some[OF inv])
  let ?s1 = "with_ref (after_alloc s x ALLOC_ZERO) x 1"
  have st: "set_page x (\<lambda>q. q\<lparr>pp_ref := pp_ref q + 1\<rparr>) (after_alloc s x ALLOC_ZERO) = Returns () ?s1"
    using x by (simp add: set_page_def with_ref_def after_alloc_def)
  have kv: "page2kva x ?s1 = Returns (page2pa x + KERNBASE) ?s1"
    using page2kva_ok[of ?s1 x] page_inv_head(5)[OF inv] x
    by (simp add: pages_ok_def with_ref_def after_alloc_def)
  have pd: "PADDR (page2pa x + KERNBASE) t = Returns (page2pa x) t" for t
    using page_kva(1)[OF x(1)] by (simp add: PADDR_def not_less[symmetric])
  have "PDX UVPT = of_nat UVPTX" by (simp add: word_unat_eq_iff unat_PDX)
  then have sd: "page2pa x + KERNBASE + 4 * PDX UVPT - KERNBASE = page2pa x + 4 * of_nat UVPTX"
    by (simp only: add_diff_cancel_right' add.commute[of _ KERNBASE] add.assoc add_diff_cancel_left')
  have r: "(pages s ! x)\<lparr>pp_link := None, pp_ref := 1\<rparr> = \<lparr>pp_link = None, pp_ref = 1\<rparr>" by (cases "pages s ! x") simp
  show ?thesis
    unfolding env_setup_vm_def kbind_Returns[of "page_alloc ALLOC_ZERO", OF al] option.case
      kseq_Returns[of "set_page x _", OF st] kbind_Returns[of "page2kva x", OF kv]
    using e x
    by (simp add: set_env_def memcpy_k_def store32_def pd mc with_ref_def after_alloc_def vm_state_def sd r or.assoc
        kseq_apply kbind_apply del: UVPT_def KERNBASE_def UVPTX_def)
qed

section \<open>Allocating environments\<close>

lemma env_invD:
  assumes "env_inv s xs"
  shows "length (envs s) = NENV" and "distinct xs" and "i \<in> set xs \<Longrightarrow> i < NENV"
    and "i < NENV \<Longrightarrow> i \<in> set xs \<longleftrightarrow> env_status (envs s ! i) = ENV_FREE"
    and "i < NENV \<Longrightarrow> env_id (envs s ! i) \<noteq> 0 \<Longrightarrow> ENVX (env_id (envs s ! i)) = i"
    and "i < NENV \<Longrightarrow> 0 \<le> sint (env_id (envs s ! i))"
  using assms by (auto simp: env_inv_def)

lemma env_alloc_none: "env_free_list s = None \<Longrightarrow> env_alloc parent s = Returns (- E_NO_FREE_ENV, None) s"
  by (simp add: env_alloc_def)

lemma env_alloc_nomem:
  assumes "env_free_list s = Some e" "page_inv s []"
  shows "env_alloc parent s = Returns (- E_NO_MEM, None) s"
  using assms by (simp add: env_alloc_def env_setup_vm_def page_alloc_None)

lemma env_alloc_ok:
  assumes inv: "page_inv s (x # xs)" and wf: "wf_pgdir s (x # xs) (kern_pgdir s)"
    and env: "env_inv s (e # es)" and cur: "curenv_ok s"
  shows "\<exists>t. env_alloc parent s = Returns (0, Some e) t \<and> envs t = (envs s)[e := alloc_env s x e parent] \<and>
    env_free_list t = env_link (envs s ! e) \<and> pmem t = pmem (vm_state s x e) \<and>
    pages t = pages (vm_state s x e) \<and> page_free_list t = page_free_list (vm_state s x e) \<and> npages t = npages s \<and>
    kern_pgdir t = kern_pgdir s \<and> cpus t = cpus s \<and> cpunum t = cpunum s"
proof -
  have e: "e < length (envs s)" using env_invD(1,3)[OF env] by simp
  have fl: "env_free_list s = Some e" using env by (simp add: env_inv_def)
  let ?v = "vm_state s x e"
  let ?u = "?v\<lparr>envs := (envs s)[e := alloc_env s x e parent]\<rparr>"
  have sv: "env_setup_vm e s = Returns 0 ?v" by (rule env_setup_vm_ok[OF inv wf e])
  have st: "set_env e (env_fresh parent e) ?v = Returns () ?u"
    using e by (simp add: set_env_def vm_state_def alloc_env_def)
  have at: "env_at e ?u = Returns (alloc_env s x e parent) ?u" using e by (simp add: env_at_def)
  have ln: "env_link (alloc_env s x e parent) = env_link (envs s ! e)" by (simp add: alloc_env_def env_fresh_def)
  let ?w = "?u\<lparr>env_free_list := env_link (envs s ! e)\<rparr>"
  have "curenv ?w = curenv s" by (simp add: curenv_def thiscpu_def vm_state_def)
  then have "\<exists>c. cur_id ?w = Returns c ?w" using cur
    by (auto simp: cur_id_def curenv_ok_def env_at_def kbind_apply split: option.splits)
  then obtain c where c: "cur_id ?w = Returns c ?w" by blast
  have "env_alloc parent s = Returns (0, Some e) (?w\<lparr>klog := klog ?w @
      [(''[%08x] new env %08x\<newline>'', [PInt c, PInt (env_id (alloc_env s x e parent))])]\<rparr>)"
    using sv st at c fl ln
    by (simp add: env_alloc_def cprintf_def)
  then show ?thesis by (simp add: vm_state_def)
qed

lemma alloc_env_inv:
  assumes env: "env_inv s (e # es)" and t: "envs t = (envs s)[e := alloc_env s x e parent]"
    "env_free_list t = env_link (envs s ! e)"
  shows "env_inv t es"
proof -
  have e: "e < NENV" "e \<notin> set es" and len: "length (envs s) = NENV"
    using env_invD(1,2,3)[OF env] by auto
  have id: "env_id (alloc_env s x e parent) = next_generation (env_id (envs s ! e)) OR of_nat e"
    by (simp add: alloc_env_def env_fresh_def)
  have st: "env_status (alloc_env s x e parent) = ENV_RUNNABLE" by (simp add: alloc_env_def env_fresh_def)
  note f = fresh_id[OF e(1), of "env_id (envs s ! e)"]
  have same: "env_links t i = env_link (envs s ! i)" if "i \<in> set es" for i
    using that e(2) by (cases "i = e") (auto simp: env_links_def t(1))
  have "linked (\<lambda>i. env_link (envs s ! i)) (env_link (envs s ! e)) es"
    using env by (simp add: env_inv_def env_links_def[abs_def])
  then have "linked (env_links t) (env_free_list t) es"
    unfolding t(2) using same by (subst linked_cong[of es "env_links t" "\<lambda>i. env_link (envs s ! i)"])
  moreover have "i \<in> set es \<longleftrightarrow> env_status (envs t ! i) = ENV_FREE" if "i < NENV" for i
    using env_invD(4)[OF env that] e len st by (auto simp: t(1) nth_list_update)
  moreover have "ENVX (env_id (envs t ! i)) = i" if "i < NENV" "env_id (envs t ! i) \<noteq> 0" for i
    using that env_invD(5)[OF env that(1)] f(1) e len by (cases "i = e") (auto simp: t(1) id)
  moreover have "0 \<le> sint (env_id (envs t ! i))" if "i < NENV" for i
    using env_invD(6)[OF env that] f(2) e len by (cases "i = e") (auto simp: t(1) id)
  ultimately show ?thesis using env len e by (auto simp: env_inv_def t(1))
qed

section \<open>Properties\<close>

text \<open>
  C12. \<open>env_alloc\<close> takes the first free environment and the first free page: it returns 0; the
  new identifier names its slot, is positive and differs from the slot's last one; the
  environment is runnable with user-mode segments and its stack at the top of user space; its
  page directory is well formed and maps what the kernel's does; and both free lists advance.
\<close>

theorem env_alloc_new:
  assumes "page_inv s (x # xs)" "wf_pgdir s (x # xs) (kern_pgdir s)" "env_inv s (e # es)" "curenv_ok s"
  shows "\<exists>t. env_alloc parent s = Returns (0, Some e) t \<and> env_inv t es \<and> page_inv t xs \<and>
    ENVX (env_id (envs t ! e)) = e \<and> 0 < sint (env_id (envs t ! e)) \<and> env_id (envs t ! e) \<noteq> env_id (envs s ! e) \<and>
    env_parent_id (envs t ! e) = parent \<and> env_status (envs t ! e) = ENV_RUNNABLE \<and>
    tf_cs (env_tf (envs t ! e)) = GD_UT OR 3 \<and> tf_esp (env_tf (envs t ! e)) = USTACKTOP \<and>
    wf_pgdir t xs (env_pgdir (envs t ! e)) \<and> dir_page (env_pgdir (envs t ! e)) = x \<and>
    (\<forall>va. ordinary va \<longrightarrow> mapped t (env_pgdir (envs t ! e)) va = mapped s (kern_pgdir s) va)"
proof -
  let ?v = "vm_state s x e"
  obtain t where t: "env_alloc parent s = Returns (0, Some e) t" "envs t = (envs s)[e := alloc_env s x e parent]"
    "env_free_list t = env_link (envs s ! e)" "pmem t = pmem ?v" "pages t = pages ?v"
    "page_free_list t = page_free_list ?v" "npages t = npages s"
    using env_alloc_ok[OF assms, of parent] by blast
  have e: "e < NENV" and len: "length (envs s) = NENV" using env_invD(1,3)[OF assms(3)] by auto
  have x: "x < 65536" using page_inv_head[OF assms(1)] by simp
  have n: "envs t ! e = alloc_env s x e parent" using e len by (simp add: t(2))
  have pi: "page_inv t xs"
    using vm_page_inv[OF assms(1)] t(7) by (subst page_inv_cong[OF t(5,6)]) (simp_all add: vm_state_def)
  have pd: "env_pgdir (envs t ! e) = page2pa x + KERNBASE" unfolding n by (simp add: alloc_env_def env_fresh_def)
  have wfv: "wf_pgdir ?v xs (page2pa x + KERNBASE)" by (rule vm_wf[OF assms(1,2)])
  have "wf_pgdir t xs (page2pa x + KERNBASE)"
    by (rule wf_pgdir_cong[OF wfv]) (simp_all only: pde_of_cong[OF t(4)] t(5) wf_pgdirD[OF wfv] not_False_eq_True)
  moreover have "\<forall>va. ordinary va \<longrightarrow> mapped t (page2pa x + KERNBASE) va = mapped s (kern_pgdir s) va"
    using vm_mapped[OF assms(1,2)] unfolding mapped_cong[OF t(4)] by blast
  moreover have "env_id (envs t ! e) = next_generation (env_id (envs s ! e)) OR of_nat e"
    unfolding n by (simp add: alloc_env_def env_fresh_def)
  moreover have "next_generation (env_id (envs s ! e)) OR of_nat e \<noteq> env_id (envs s ! e)"
  proof (cases "env_id (envs s ! e) = 0")
    case True
    then show ?thesis using fresh_id(2)[OF e, of 0] by auto
  next
    case False
    then show ?thesis using fresh_id_differs[OF e] env_invD(5)[OF assms(3) e] by simp
  qed
  moreover have "env_parent_id (envs t ! e) = parent" "env_status (envs t ! e) = ENV_RUNNABLE"
    "tf_cs (env_tf (envs t ! e)) = GD_UT OR 3" "tf_esp (env_tf (envs t ! e)) = USTACKTOP"
    unfolding n by (simp_all add: alloc_env_def env_fresh_def)
  ultimately show ?thesis
    using t(1) alloc_env_inv[OF assms(3) t(2,3)] pi fresh_id[OF e, of "env_id (envs s ! e)"] page_kva(4)[OF x]
    by (intro exI[of _ t]) (simp only: pd simp_thms)
qed

lemma small_initialised:
  "\<exists>t. env_init small_machine = Returns () t \<and> env_inv t [0..<NENV] \<and> page_inv t [2, 3] \<and>
    wf_pgdir t [2, 3] (kern_pgdir t) \<and> curenv_ok t \<and> cpunum t = 0 \<and> length (cpus t) = 8 \<and> curenv t = None"
proof -
  have len: "length (envs small_machine) = NENV" and fl: "env_free_list small_machine = None"
    by (simp_all add: small_machine_def)
  obtain t es fl ho where t: "env_init small_machine = Returns () t" "env_inv t [0..<NENV]"
    and e: "t = small_machine\<lparr>envs := es, env_free_list := fl, hwops := ho\<rparr>"
    using env_init_ok[OF len fl] by blast
  have pm: "pmem t = pmem small_machine" by (simp add: e)
  have "page_inv t [2, 3]" using small_inv by (subst page_inv_cong[of t small_machine]) (simp_all add: e)
  moreover have "wf_pgdir t [2, 3] 0xF0001000"
    by (rule wf_pgdir_cong[OF small_wf]) (simp_all only: pde_of_cong[OF pm] wf_pgdirD[OF small_wf] not_False_eq_True, simp add: e)
  moreover have "curenv t = None" "kern_pgdir t = 0xF0001000" "cpunum t = 0" "length (cpus t) = 8"
    by (simp_all add: e curenv_def thiscpu_def small_machine_def)
  moreover from this have "curenv_ok t" by (simp add: curenv_ok_def)
  ultimately show ?thesis using t by (intro exI[of _ t]) (simp only: simp_thms)
qed

theorem env_alloc_new_witness:
  "\<exists>s t. env_init small_machine = Returns () s \<and> env_alloc 0 s = Returns (0, Some 0) t \<and>
    env_status (envs t ! 0) = ENV_RUNNABLE \<and> env_id (envs t ! 0) \<noteq> env_id (envs s ! 0)"
proof -
  obtain s where s: "env_init small_machine = Returns () s" "env_inv s [0..<NENV]" "page_inv s [2, 3]"
    "wf_pgdir s [2, 3] (kern_pgdir s)" "curenv_ok s" using small_initialised by blast
  have "[0..<NENV] = 0 # [Suc 0..<NENV]" by (rule upt_conv_Cons) simp
  then have "env_inv s (0 # [Suc 0..<NENV])" using s(2) by (simp only:)
  from env_alloc_new[OF s(3,4) this s(5), of 0] show ?thesis using s(1) by blast
qed

text \<open>
  \<open>env_alloc\<close> fails cleanly: with no free environment it returns \<open>-E_NO_FREE_ENV\<close>, with no free page
  \<open>-E_NO_MEM\<close>, and in both cases the kernel's state is as before.
\<close>

theorem env_alloc_fails:
  assumes "env_inv s es" "page_inv s xs" "es = [] \<or> xs = []"
  shows "env_alloc parent s = Returns (if es = [] then - E_NO_FREE_ENV else - E_NO_MEM, None) s"
proof (cases es)
  case Nil
  then show ?thesis using assms(1) env_alloc_none[of s parent] by (simp add: env_inv_def)
next
  case (Cons e es')
  then show ?thesis using assms env_alloc_nomem[of s e parent] by (simp add: env_inv_def)
qed

theorem env_alloc_fails_witness:
  "\<exists>s. env_init (small_machine\<lparr>page_free_list := None, pages := (pages small_machine)[2 := \<lparr>pp_link = None, pp_ref = 1\<rparr>]\<rparr>) = Returns () s \<and>
    env_alloc 0 s = Returns (- E_NO_MEM, None) s"
proof -
  let ?m = "small_machine\<lparr>page_free_list := None, pages := (pages small_machine)[2 := \<lparr>pp_link = None, pp_ref = 1\<rparr>]\<rparr>"
  have l: "length (envs ?m) = NENV" "env_free_list ?m = None" by (simp_all add: small_machine_def)
  obtain s es fl ho where s: "env_init ?m = Returns () s" "env_inv s [0..<NENV]"
    and e: "s = ?m\<lparr>envs := es, env_free_list := fl, hwops := ho\<rparr>"
    using env_init_ok[OF l] by blast
  have "page_inv ?m []"
    using small_links by (auto simp: page_inv_def pages_ok_def small_pages nth_list_update)
  then have "page_inv s []" by (subst page_inv_cong[of s ?m]) (simp_all add: e)
  moreover have "[0..<NENV] \<noteq> []" by (simp only: upt_eq_Nil_conv) simp
  ultimately show ?thesis using env_alloc_fails[OF s(2), of "[]" 0] s(1) by (simp only: if_False simp_thms) blast
qed

text \<open>
  C13. \<open>envid2env\<close> finds an environment exactly when the identifier is the one its slot has now, the slot
  is in use and, if permission is checked, the caller is the environment itself or its
  parent; every other identifier gives \<open>-E_BAD_ENV\<close> and a null pointer, so a stale identifier never
  reaches the slot's next environment.
\<close>

theorem envid2env_exact:
  assumes "length (envs s) = NENV" "curenv s = Some c" "c < NENV" "envid \<noteq> 0"
  shows "(envid2env envid checkperm s = Returns (0, Some i) s \<longleftrightarrow> i = ENVX envid \<and>
      env_status (envs s ! i) \<noteq> ENV_FREE \<and> env_id (envs s ! i) = envid \<and>
      (checkperm \<longrightarrow> c = i \<or> env_parent_id (envs s ! i) = env_id (envs s ! c))) \<and>
    ((\<forall>j. envid2env envid checkperm s \<noteq> Returns (0, Some j) s) \<longrightarrow>
      envid2env envid checkperm s = Returns (- E_BAD_ENV, None) s)"
  using envid2env_eq[OF assms, of checkperm] by (auto simp: may_manage_def)

theorem envid2env_exact_witness:
  "envid2env 0x1005 True (small_machine\<lparr>cpus := (cpus small_machine)[0 := (cpus small_machine ! 0)\<lparr>cpu_env := Some 0\<rparr>]\<rparr>) =
     Returns (- E_BAD_ENV, None) (small_machine\<lparr>cpus := (cpus small_machine)[0 := (cpus small_machine ! 0)\<lparr>cpu_env := Some 0\<rparr>]\<rparr>)"
proof -
  let ?m = "small_machine\<lparr>cpus := (cpus small_machine)[0 := (cpus small_machine ! 0)\<lparr>cpu_env := Some 0\<rparr>]\<rparr>"
  have a: "length (envs ?m) = NENV" "curenv ?m = Some 0"
    by (simp_all add: small_machine_def curenv_def thiscpu_def)
  have "env_status (envs ?m ! 5) = ENV_FREE" by (simp add: small_machine_def Env_zero_def)
  moreover have "ENVX 0x1005 = 5" by (simp add: ENVX_mod)
  moreover have p: "(0 :: nat) < NENV" "(0x1005 :: u32) \<noteq> 0" by simp_all
  note th = envid2env_exact[OF a p, of True]
  ultimately have "envid2env 0x1005 True ?m \<noteq> Returns (0, Some j) ?m" for j using th[of j] by simp
  then show ?thesis using th[of 0] by blast
qed

text \<open>
  \<open>env_init\<close> puts all environments on the free list in the order of the table, so that the
  first allocation returns the first one.
\<close>

theorem env_init_order:
  assumes "length (envs s) = NENV" "env_free_list s = None"
  shows "\<exists>t. env_init s = Returns () t \<and> env_inv t [0..<NENV]"
  using env_init_ok[OF assms] by blast

theorem env_init_order_witness:
  "\<exists>t. env_init small_machine = Returns () t \<and> env_inv t [0..<NENV]"
  by (rule env_init_order) (simp_all add: small_machine_def)

text \<open>
  \<open>env_run\<close> switches: it resumes the environment with its saved registers in its own address
  space, marks it running and counts the run; the environment this processor ran before
  becomes runnable if it was running, and no other status changes.
\<close>

theorem env_run_switches:
  assumes "length (envs s) = NENV" "e < NENV" "cpunum s < length (cpus s)" "curenv_ok s"
    "KERNBASE \<le> env_pgdir (envs s ! e)"
  shows "\<exists>t. env_run e s = Leaves (Resumes e) t \<and> curenv t = Some e \<and>
    env_status (envs t ! e) = ENV_RUNNING \<and> env_runs (envs t ! e) = env_runs (envs s ! e) + 1 \<and>
    cr3 t = env_pgdir (envs s ! e) - KERNBASE \<and> env_tf (envs t ! e) = env_tf (envs s ! e) \<and>
    (\<forall>i < NENV. i \<noteq> e \<longrightarrow> env_status (envs t ! i) =
       (if curenv s = Some i \<and> env_status (envs s ! i) = ENV_RUNNING then ENV_RUNNABLE
        else env_status (envs s ! i)))"
  by (rule env_run_ok[OF assms])

theorem env_run_switches_witness:
  "\<exists>t. env_run 0 small_machine = Leaves (Resumes 0) t \<and> cr3 t = 0x1000"
proof -
  have "length (envs small_machine) = NENV" "cpunum small_machine < length (cpus small_machine)"
    "env_pgdir (envs small_machine ! 0) = 0xF0001000" by (simp_all add: small_machine_def)
  then show ?thesis using env_run_switches[of small_machine 0] small_curenv by auto
qed

section \<open>The identifiers of a slot\<close>

lemma or_small: "unat w mod 1024 = 0 \<Longrightarrow> i < 1024 \<Longrightarrow> unat (w OR of_nat i) = unat w + i" for w :: u32
proof -
  assume w: "unat w mod 1024 = 0" and i: "i < 1024"
  have "w AND mask 10 = 0" using w by (simp add: unat_eq_0[symmetric] unat_and_mask del: unat_eq_0)
  then have z: "\<not> bit w n" if "n < 10" for n using that by (metis bit_and_iff bit_mask_iff bit_0_eq bot_apply bot_bool_def possible_bit_word bit_imp_le_length)
  have "w AND of_nat i = 0" using z small_nat_bit[OF i] by (intro bit_word_eqI) (auto simp: bit_and_iff)
  then have "w OR of_nat i = w + of_nat i" using word_plus_and_or[of w "of_nat i"] by simp
  moreover have "unat w + i < 2 ^ 32"
  proof -
    have "unat w = unat w div 1024 * 1024" using w by auto
    moreover have "unat w div 1024 < 4194304" using unat_u32_less[of w] by (simp add: div_less_iff_less_mult)
    ultimately show ?thesis using i by simp
  qed
  ultimately show ?thesis using i by (simp add: unat_word_ariths unat_of_nat)
qed

lemma sint_neg_unat: "sint (w :: u32) \<le> 0 \<longleftrightarrow> unat w = 0 \<or> 2147483648 \<le> unat w"
proof -
  have "unat w div 2147483648 = (if 2147483648 \<le> unat w then 1 else 0)"
    using unat_u32_less[of w] by (auto intro: div_nat_eqI)
  then have "bit (unat w) 31 \<longleftrightarrow> 2147483648 \<le> unat w" by (simp add: bit_iff_odd)
  moreover have "bit (unat w) 31 \<longleftrightarrow> bit w 31" by (simp add: bit_unsigned_iff)
  ultimately have "bit w 31 \<longleftrightarrow> 2147483648 \<le> unat w" by simp
  then show ?thesis using sint_pos[of w] by (auto simp: not_less[symmetric] unat_eq_0)
qed

lemma generation_step:
  assumes i: "i < 1024" and old: "unat old = g * 4096 + r" "r < 1024" "g < 524288"
  shows "unat (next_generation old OR of_nat i) = (if Suc g < 524288 then Suc g else 1) * 4096 + i"
proof -
  let ?a = "old + push_bit ENVGENSHIFT 1 :: u32"
  have "unat ?a = Suc g * 4096 + r" using old by (simp add: unat_plus_if')
  moreover have "(Suc g * 4096 + r) div 1024 = Suc g * 4" using old(2) by (intro div_nat_eqI) simp_all
  ultimately have h: "unat (?a AND NOT (mask 10)) = Suc g * 4096" using high_bits[of ?a] by simp
  have e: "next_generation old = (if sint (?a AND NOT (mask 10)) \<le> 0 then push_bit 12 1 else ?a AND NOT (mask 10))"
    by (simp only: next_generation_def mask_NENV Let_def ENVGENSHIFT_def)
  have n: "unat (next_generation old) = (if Suc g < 524288 then Suc g else 1) * 4096"
    unfolding e sint_neg_unat h using h old(3) by auto
  then have "unat (next_generation old) mod 1024 = 0" by simp
  then show ?thesis using or_small[OF _ i] n by simp
qed

lemma slot_id_number:
  assumes "i < NENV" "env_id x = 0" "ps \<noteq> []"
  shows "unat (slot_id i ps x) = ((length ps - 1) mod 524287 + 1) * 4096 + i"
  using assms(3)
proof (induction ps rule: rev_induct)
  case (snoc p ps)
  have s: "slot_id i (ps @ [p]) x = next_generation (slot_id i ps x) OR of_nat i" by (simp add: slot_id_def env_fresh_def)
  have i: "i < 1024" using assms(1) by simp
  show ?case
  proof (cases "ps = []")
    case True
    then have "unat (slot_id i ps x) = 0 * 4096 + 0" using assms(2) by (simp add: slot_id_def)
    then show ?thesis using generation_step[OF i] True s by simp
  next
    case False
    let ?g = "(length ps - 1) mod 524287"
    have "Suc (length ps - 1) = length ps" using False by simp
    then have "length ps mod 524287 = (if Suc ?g = 524287 then 0 else Suc ?g)" by (metis mod_Suc)
    moreover have "?g < 524287" by simp
    ultimately show ?thesis using generation_step[OF i snoc.IH[OF False] i] s by (simp split: if_splits)
  qed
qed simp

lemma slot_id_eq:
  assumes "i < NENV" "env_id x = 0" "ps \<noteq> []"
  shows "slot_id i (ps @ qs) x = slot_id i ps x \<longleftrightarrow> length qs mod 524287 = 0"
proof -
  have "slot_id i (ps @ qs) x = slot_id i ps x \<longleftrightarrow> (length ps - 1 + length qs) mod 524287 = (length ps - 1) mod 524287"
    using slot_id_number[OF assms(1,2), of "ps @ qs"] slot_id_number[OF assms] assms(3)
    by (cases ps) (simp_all add: word_unat_eq_iff)
  also have "\<dots> \<longleftrightarrow> length qs mod 524287 = 0"
    using mod_eq_dvd_iff_nat[of "length ps - 1" "length ps - 1 + length qs" 524287] by (simp add: dvd_eq_mod_eq_0)
  finally show ?thesis .
qed

text \<open>
  C14. Stale identifiers: an identifier that a slot got at some allocation still finds an environment after \<open>k\<close> further
  allocations of the same slot only when \<open>k\<close> is a multiple of 524287, the number of generations that fit above the twelve
  low bits of a positive identifier; after any other number \<open>envid2env\<close> gives \<open>-E_BAD_ENV\<close>, so the identifier of an environment that is gone
  does not reach its successors until the generations have wrapped around.
\<close>

theorem stale_id_rejected:
  assumes "length (envs s) = NENV" "curenv s = Some c" "c < NENV" "i < NENV" "env_id x = 0" "ps \<noteq> []"
    "env_id (envs s ! i) = slot_id i (ps @ qs) x" "env_status (envs s ! i) \<noteq> ENV_FREE"
  shows "envid2env (slot_id i ps x) False s =
    (if length qs mod 524287 = 0 then Returns (0, Some i) s else Returns (- E_BAD_ENV, None) s)"
proof -
  have u: "unat (slot_id i ps x) = ((length ps - 1) mod 524287 + 1) * 4096 + i" by (rule slot_id_number[OF assms(4-6)])
  then have "slot_id i ps x \<noteq> 0" by (auto simp: unat_eq_0[symmetric] simp del: unat_eq_0)
  moreover have "ENVX (slot_id i ps x) = i"
    unfolding ENVX_mod u using assms(4) mod_mult_self1[of i "((length ps - 1) mod 524287 + 1) * 4" 1024]
    by (simp add: ac_simps)
  ultimately show ?thesis
    using envid2env_eq[OF assms(1-3), of "slot_id i ps x" False] slot_id_eq[OF assms(4-6), of qs] assms(7,8) by simp
qed

theorem stale_id_rejected_witness:
  "envid2env 0x1005 False (small_machine\<lparr>cpus := (cpus small_machine)[0 := (cpus small_machine ! 0)\<lparr>cpu_env := Some 0\<rparr>],
      envs := (envs small_machine)[5 := env_fresh 0 5 (env_fresh 0 5 Env_zero)]\<rparr>) =
    Returns (- E_BAD_ENV, None) (small_machine\<lparr>cpus := (cpus small_machine)[0 := (cpus small_machine ! 0)\<lparr>cpu_env := Some 0\<rparr>],
      envs := (envs small_machine)[5 := env_fresh 0 5 (env_fresh 0 5 Env_zero)]\<rparr>)"
proof -
  let ?m = "small_machine\<lparr>cpus := (cpus small_machine)[0 := (cpus small_machine ! 0)\<lparr>cpu_env := Some 0\<rparr>],
      envs := (envs small_machine)[5 := env_fresh 0 5 (env_fresh 0 5 Env_zero)]\<rparr>"
  have l: "length (envs small_machine) = NENV" by (simp add: small_machine_def)
  have a: "length (envs ?m) = NENV" "curenv ?m = Some 0" "0 < NENV" "5 < NENV"
    using l by (simp_all add: small_machine_def curenv_def thiscpu_def)
  have "envs ?m ! 5 = env_fresh 0 5 (env_fresh 0 5 Env_zero)" using l by simp
  then have b: "env_id (envs ?m ! 5) = slot_id 5 ([0] @ [0]) Env_zero" "env_status (envs ?m ! 5) \<noteq> ENV_FREE"
    by (simp_all add: slot_id_def env_fresh_def)
  have "env_id Env_zero = 0" by (simp add: Env_zero_def)
  moreover from this have "slot_id 5 [0] Env_zero = 0x1005" by (simp add: slot_id_def env_fresh_def next_generation_def)
  ultimately show ?thesis using stale_id_rejected[OF a _ _ b] by simp
qed

end
