(* ===== verification/Kdebug.thy ===== *)
theory Kdebug
  imports Envs
begin

text \<open>
  Symbol lookup for backtraces, \<^verbatim>\<open>kern/kdebug.c\<close>: the binary search over stab tables (\<^verbatim>\<open>inc/stab.h\<close>)
  and the search for the file, function and line of an instruction. A table is a list of stabs with its
  string table as a list of bytes; the kernel's own table, made by the linker, is an argument.
  An index outside the table, which the searches never reach from a range inside it, reads as a
  stab of type 0.
\<close>

section \<open>Stab tables\<close>

record Stab =
  n_strx :: u32
  n_type :: u8
  n_other :: u8
  n_desc :: u16
  n_value :: u32

definition N_FUN :: u8 where [simp, layout_defs]: "N_FUN = 0x24"
definition N_SLINE :: u8 where [simp, layout_defs]: "N_SLINE = 0x44"
definition N_SO :: u8 where [simp, layout_defs]: "N_SO = 0x64"
definition N_SOL :: u8 where [simp, layout_defs]: "N_SOL = 0x84"
definition N_PSYM :: u8 where [simp, layout_defs]: "N_PSYM = 0xa0"

definition stab_at :: "Stab list \<Rightarrow> int \<Rightarrow> Stab" where
  "stab_at stabs i = (if 0 \<le> i \<and> i < int (length stabs) then stabs ! nat i
     else \<lparr>n_strx = 0, n_type = 0, n_other = 0, n_desc = 0, n_value = 0\<rparr>)"

section \<open>The binary search\<close>

text \<open>The inner loop: from \<open>m\<close> down to the last stab of the type, or below \<open>l\<close>.\<close>

function scan_back :: "Stab list \<Rightarrow> u8 \<Rightarrow> int \<Rightarrow> int \<Rightarrow> int" where
  "scan_back stabs ty l m = (if m \<ge> l \<and> n_type (stab_at stabs m) \<noteq> ty then scan_back stabs ty l (m - 1) else m)"
  by pat_completeness auto
termination
  by (relation "measure (\<lambda>(stabs, ty, l, m). nat (m - l + 1))") auto

declare scan_back.simps [simp del]

lemma scan_back_props:
  "scan_back stabs ty l m \<le> m \<and> (l \<le> m + 1 \<longrightarrow> l - 1 \<le> scan_back stabs ty l m) \<and>
   (l \<le> scan_back stabs ty l m \<longrightarrow> n_type (stab_at stabs (scan_back stabs ty l m)) = ty) \<and>
   (\<forall>k. scan_back stabs ty l m < k \<and> k \<le> m \<longrightarrow> n_type (stab_at stabs k) \<noteq> ty)"
proof (induction stabs ty l m rule: scan_back.induct)
  case (1 stabs ty l m)
  show ?case
  proof (cases "m \<ge> l \<and> n_type (stab_at stabs m) \<noteq> ty")
    case True
    then have e: "scan_back stabs ty l m = scan_back stabs ty l (m - 1)" by (subst scan_back.simps) simp
    have "k = m \<or> k \<le> m - 1" if "k \<le> m" for k using that by auto
    then show ?thesis using 1[OF True] True unfolding e by force
  next
    case False
    then have e: "scan_back stabs ty l m = m" by (subst scan_back.simps) auto
    show ?thesis unfolding e using False by auto
  qed
qed

definition at_target :: "Stab list \<Rightarrow> u8 \<Rightarrow> u32 \<Rightarrow> int \<Rightarrow> nat" where
  "at_target stabs ty addr l = (if n_type (stab_at stabs l) = ty \<and> n_value (stab_at stabs l) = addr then 1 else 0)"

function binsearch_loop ::
  "Stab list \<Rightarrow> u8 \<Rightarrow> u32 \<Rightarrow> int \<Rightarrow> int \<Rightarrow> int \<Rightarrow> int \<Rightarrow> bool \<Rightarrow> int \<times> int \<times> bool" where
  "binsearch_loop stabs ty addr l r left right any =
     (if l \<le> r then
        (let true_m = (l + r) div 2; m = scan_back stabs ty l true_m in
         if m < l then binsearch_loop stabs ty addr (true_m + 1) r left right any
         else if n_value (stab_at stabs m) < addr then
           binsearch_loop stabs ty addr (true_m + 1) r m right True
         else if n_value (stab_at stabs m) > addr then
           binsearch_loop stabs ty addr l (m - 1) left (m - 1) True
         else binsearch_loop stabs ty (addr + 1) m r m right True)
      else (left, right, any))"
  by pat_completeness auto
termination
proof (relation "measure (\<lambda>(stabs, ty, addr, l, r, left, right, any).
    2 * nat (r - l + 1) + at_target stabs ty addr l)", goal_cases)
  case 1
  show ?case by simp
next
  case (2 stabs ty addr l r left right any x xa)
  have "nat (r - (x + 1) + 1) < nat (r - l + 1)" using 2(1,2) by auto
  moreover have "at_target stabs ty addr (x + 1) \<le> 1" by (simp add: at_target_def)
  ultimately show ?case by (simp only: in_measure prod.case; linarith)
next
  case (3 stabs ty addr l r left right any x xa)
  have "nat (r - (x + 1) + 1) < nat (r - l + 1)" using 3(1,2) by auto
  moreover have "at_target stabs ty addr (x + 1) \<le> 1" by (simp add: at_target_def)
  ultimately show ?case by (simp only: in_measure prod.case; linarith)
next
  case (4 stabs ty addr l r left right any x xa)
  have "xa \<le> x" using 4(3) scan_back_props[of stabs ty l x] by simp
  then have "nat (xa - 1 - l + 1) < nat (r - l + 1)" using 4(1,2,4) by auto
  then show ?case by (simp only: in_measure prod.case; linarith)
next
  case (5 stabs ty addr l r left right any x xa)
  have t: "n_type (stab_at stabs xa) = ty" "xa \<le> x" using 5(3,4) scan_back_props[of stabs ty l x] by auto
  have v: "n_value (stab_at stabs xa) = addr" using 5(5,6) by auto
  have z: "at_target stabs ty (addr + 1) xa = 0" using v by (simp add: at_target_def)
  show ?case
  proof (cases "xa = l")
    case True
    then have "at_target stabs ty addr l = 1" using t v by (simp add: at_target_def)
    then show ?thesis using z True by (simp only: in_measure prod.case; linarith)
  next
    case False
    then have "nat (r - xa + 1) < nat (r - l + 1)" using t 5(1,2,4) by auto
    then show ?thesis using z by (simp only: in_measure prod.case; linarith)
  qed
qed

text \<open>The final loop, which walks down from the right end to the last stab of the type.\<close>

definition stab_binsearch :: "Stab list \<Rightarrow> int \<Rightarrow> int \<Rightarrow> u8 \<Rightarrow> u32 \<Rightarrow> int \<times> int" where
  "stab_binsearch stabs region_left region_right ty addr =
     (case binsearch_loop stabs ty addr region_left region_right region_left region_right False of
        (left, right, any) \<Rightarrow>
          if \<not> any then (left, left - 1)
          else (scan_back stabs ty (left + 1) right, right))"

declare binsearch_loop.simps [simp del]

section \<open>Looking up an instruction\<close>

record Eipdebuginfo =
  eip_file :: string
  eip_line :: int
  eip_fn_name :: string
  eip_fn_namelen :: nat
  eip_fn_addr :: u32
  eip_fn_narg :: int

definition eip_unknown :: "u32 \<Rightarrow> Eipdebuginfo" where
  "eip_unknown addr = \<lparr>eip_file = ''<unknown>'', eip_line = 0, eip_fn_name = ''<unknown>'',
     eip_fn_namelen = 9, eip_fn_addr = addr, eip_fn_narg = 0\<rparr>"

text \<open>The null-terminated string at an offset of a string table.\<close>

definition str_at :: "string \<Rightarrow> u32 \<Rightarrow> string" where
  "str_at stabstr off = takeWhile (\<lambda>c. c \<noteq> CHR 0x00) (drop (unat off) stabstr)"

text \<open>The loop that walks back from the line to the stab with the file name.\<close>

function file_back :: "Stab list \<Rightarrow> int \<Rightarrow> int \<Rightarrow> int" where
  "file_back stabs lfile l =
     (if l \<ge> lfile \<and> n_type (stab_at stabs l) \<noteq> N_SOL \<and>
         (n_type (stab_at stabs l) \<noteq> N_SO \<or> n_value (stab_at stabs l) = 0)
      then file_back stabs lfile (l - 1) else l)"
  by pat_completeness auto
termination
  by (relation "measure (\<lambda>(stabs, lfile, l). nat (l - lfile + 1))") auto

declare file_back.simps [simp del]

text \<open>The function found for an address, with what is left of the address inside it.\<close>

definition eip_function ::
  "Stab list \<Rightarrow> string \<Rightarrow> u32 \<Rightarrow> int \<Rightarrow> int \<Rightarrow> int \<Rightarrow> int \<Rightarrow> Eipdebuginfo \<times> u32 \<times> int \<times> int" where
  "eip_function stabs stabstr addr lfile rfile lfun rfun =
     (let info = eip_unknown addr; f = stab_at stabs lfun;
          (info, addr, lline, rline) =
            (if lfun \<le> rfun then
               ((if unat (n_strx f) < length stabstr then info\<lparr>eip_fn_name := str_at stabstr (n_strx f)\<rparr> else info)
                  \<lparr>eip_fn_addr := n_value f\<rparr>, addr - n_value f, lfun, rfun)
             else (info\<lparr>eip_fn_addr := addr\<rparr>, addr, lfile, rfile))
      in (info\<lparr>eip_fn_namelen := length (takeWhile (\<lambda>c. c \<noteq> CHR '':'') (eip_fn_name info))\<rparr>,
          addr, lline, rline))"

text \<open>
  The search in a table once it is known: \<open>None\<close> stands for a read before the start of the table,
  which C leaves undefined.
\<close>

definition debuginfo_table :: "Stab list \<Rightarrow> string \<Rightarrow> u32 \<Rightarrow> (int \<times> Eipdebuginfo) option" where
  "debuginfo_table stabs stabstr addr =
     (if stabstr = [] \<or> last stabstr \<noteq> CHR 0x00 then Some (-1, eip_unknown addr)
      else let (lfile, rfile) = stab_binsearch stabs 0 (int (length stabs) - 1) N_SO addr in
      if lfile = 0 then Some (-1, eip_unknown addr)
      else if lfile < 0 then None
      else let (lfun, rfun) = stab_binsearch stabs lfile rfile N_FUN addr;
               (info, addr, lline, rline) = eip_function stabs stabstr addr lfile rfile lfun rfun;
               (lline, rline) = stab_binsearch stabs lline rline N_SLINE addr in
      if \<not> lline \<le> rline then Some (-1, info)
      else if rline < 0 then None
      else let info = info\<lparr>eip_line := uint (n_desc (stab_at stabs rline))\<rparr>;
               lline = file_back stabs lfile lline;
               f = stab_at stabs lline;
               info = (if lline \<ge> lfile \<and> unat (n_strx f) < length stabstr
                       then info\<lparr>eip_file := str_at stabstr (n_strx f)\<rparr> else info);
               narg = (if lfun < rfun
                       then length (takeWhile (\<lambda>i. n_type (stab_at stabs i) = N_PSYM) [lfun + 1..rfun - 1]) else 0)
           in Some (0, info\<lparr>eip_fn_narg := eip_fn_narg info + int narg\<rparr>))"

definition vload32 :: "u32 \<Rightarrow> (kstate, u32) kernel" where
  "vload32 va = kbind (vload8 va) (\<lambda>b0. kbind (vload8 (va + 1)) (\<lambda>b1. kbind (vload8 (va + 2)) (\<lambda>b2.
     kbind (vload8 (va + 3)) (\<lambda>b3. kret (ucast b0 OR push_bit 8 (ucast b1) OR push_bit 16 (ucast b2) OR push_bit 24 (ucast b3))))))"

definition vload_stab :: "u32 \<Rightarrow> (kstate, Stab) kernel" where
  "vload_stab va = kbind (vload32 va) (\<lambda>strx. kbind (vload32 (va + 4)) (\<lambda>w. kbind (vload32 (va + 8)) (\<lambda>v.
     kret \<lparr>n_strx = strx, n_type = ucast w, n_other = ucast (drop_bit 8 w), n_desc = ucast (drop_bit 16 w),
       n_value = v\<rparr>)))"

primrec vload_stabs :: "nat \<Rightarrow> u32 \<Rightarrow> (kstate, Stab list) kernel" where
  "vload_stabs 0 va = kret []"
| "vload_stabs (Suc n) va = kbind (vload_stab va) (\<lambda>st. kbind (vload_stabs n (va + 12)) (\<lambda>sts. kret (st # sts)))"

primrec vload_string :: "nat \<Rightarrow> u32 \<Rightarrow> (kstate, string) kernel" where
  "vload_string 0 va = kret []"
| "vload_string (Suc n) va =
     kbind (vload8 va) (\<lambda>b. kbind (vload_string n (va + 1)) (\<lambda>cs. kret (char_of (unat b) # cs)))"

text \<open>
  What the linker lays out: the symbol tables of the kernel and its symbols, the address of the task state, the
  entry points of the trap handlers (\<^verbatim>\<open>kern/trapentry.S\<close>), the per-processor stacks, the entry code of the
  other processors (\<^verbatim>\<open>kern/mpentry.S\<close>), the program embedded in the kernel.
\<close>

record image =
  im_stabs :: "Stab list"
  im_stabstr :: string
  im_start :: u32
  im_entry :: u32
  im_etext :: u32
  im_edata :: u32
  im_end :: u32
  im_ts :: u32
  im_handler :: "string \<Rightarrow> u32"
  im_kstacks :: u32
  im_mpentry :: "u8 list"
  im_binary :: u32

text \<open>
  \<open>debuginfo_eip\<close>. The tables of a user program are read whole before the search, so that
  a table with an unmapped part counts as a page fault even where the search would not touch
  that part. Pointers in the wrong order give tables with no entries.
\<close>

definition debuginfo_eip :: "image \<Rightarrow> u32 \<Rightarrow> (kstate, int \<times> Eipdebuginfo) kernel" where
  "debuginfo_eip im addr =
     (let look = (\<lambda>stabs stabstr. case debuginfo_table stabs stabstr addr of
            None \<Rightarrow> kpanic ''read before the stab table'' | Some r \<Rightarrow> kret r);
          bad = kret (-1, eip_unknown addr)
      in if addr \<ge> ULIM then look (im_stabs im) (im_stabstr im)
      else kbind (kget curenv) (\<lambda>e. case e of None \<Rightarrow> kpanic ''null curenv'' | Some e \<Rightarrow>
        kbind (user_mem_check e USTABDATA 16 PTE_U) (\<lambda>r. if r \<noteq> 0 then bad else
        kbind (vload32 USTABDATA) (\<lambda>stabs.
        kbind (vload32 (USTABDATA + 4)) (\<lambda>stab_end.
        kbind (vload32 (USTABDATA + 8)) (\<lambda>stabstr.
        kbind (vload32 (USTABDATA + 12)) (\<lambda>stabstr_end.
        kbind (user_mem_check e stabs (word_of_int (sint (stab_end - stabs) div 12)) PTE_U) (\<lambda>r. if r \<noteq> 0 then bad else
        kbind (user_mem_check e stabstr (stabstr_end - stabstr) PTE_U) (\<lambda>r. if r \<noteq> 0 then bad else
        kbind (vload_string (unat stabstr_end - unat stabstr) stabstr) (\<lambda>str.
        kbind (vload_stabs (nat (sint (stab_end - stabs) div 12)) stabs) (\<lambda>tab.
          look tab str)))))))))))"

section \<open>Sorted tables\<close>

text \<open>Stab \<open>k\<close> of the type lies in the region \<open>[L, R]\<close>.\<close>

definition of_type :: "Stab list \<Rightarrow> u8 \<Rightarrow> int \<Rightarrow> int \<Rightarrow> int \<Rightarrow> bool" where
  "of_type stabs ty L R k \<longleftrightarrow> L \<le> k \<and> k \<le> R \<and> n_type (stab_at stabs k) = ty"

definition stabs_sorted :: "Stab list \<Rightarrow> u8 \<Rightarrow> int \<Rightarrow> int \<Rightarrow> bool" where
  "stabs_sorted stabs ty L R \<longleftrightarrow> (\<forall>j k. of_type stabs ty L R j \<longrightarrow> of_type stabs ty L R k \<longrightarrow> j < k \<longrightarrow>
     n_value (stab_at stabs j) < n_value (stab_at stabs k))"

definition search_inv ::
  "Stab list \<Rightarrow> u8 \<Rightarrow> int \<Rightarrow> int \<Rightarrow> u32 \<Rightarrow> u32 \<Rightarrow> int \<Rightarrow> int \<Rightarrow> int \<Rightarrow> bool \<Rightarrow> bool" where
  "search_inv stabs ty L R A a l r left any \<longleftrightarrow> L \<le> l \<and> r \<le> R \<and> (a = A \<or> a = A + 1) \<and>
     (\<forall>k. of_type stabs ty L R k \<longrightarrow> k < l \<longrightarrow> n_value (stab_at stabs k) \<le> A \<and> k \<le> left) \<and>
     (\<forall>k. of_type stabs ty L R k \<longrightarrow> r < k \<longrightarrow> A < n_value (stab_at stabs k)) \<and>
     (of_type stabs ty L R left \<and> n_value (stab_at stabs left) \<le> A \<and> any \<or>
       left = L \<and> (\<forall>k. of_type stabs ty L R k \<longrightarrow> l \<le> k)) \<and>
     (r = R \<or> of_type stabs ty L R (r + 1) \<and> any) \<and> (\<not> any \<longrightarrow> r = R)"

text \<open>Stabs of another type are stepped over; the last one at or before the address is found.\<close>

definition stab_found :: "Stab list \<Rightarrow> u8 \<Rightarrow> int \<Rightarrow> int \<Rightarrow> u32 \<Rightarrow> int \<Rightarrow> int \<Rightarrow> bool" where
  "stab_found stabs ty L R A left right \<longleftrightarrow>
     of_type stabs ty L R left \<and> n_value (stab_at stabs left) \<le> A \<and> right \<le> R \<and>
     (\<forall>k. of_type stabs ty L R k \<longrightarrow> (n_value (stab_at stabs k) \<le> A \<longleftrightarrow> k \<le> left)) \<and>
     (\<forall>k. of_type stabs ty L R k \<longrightarrow> (A < n_value (stab_at stabs k) \<longleftrightarrow> right < k)) \<and>
     (right = R \<or> of_type stabs ty L R (right + 1))"

text \<open>A table with two functions and a line in each, in the only file after the first stab.\<close>

definition sample_stabs :: "Stab list" where
  "sample_stabs = map (\<lambda>(strx, ty, desc, v). \<lparr>n_strx = strx, n_type = ty, n_other = 0, n_desc = desc, n_value = v\<rparr>)
     [(0, 0, 6, 0), (1, 0x64, 0, 0xF0100000), (5, 0x24, 0, 0xF0100000), (0, 0x44, 7, 4),
      (9, 0x24, 0, 0xF0100040), (0, 0xa0, 0, 8), (0, 0x44, 9, 0), (0, 0x44, 12, 8)]"

definition sample_stabstr :: string where
  "sample_stabstr = CHR 0x00 # ''a.c'' @ [CHR 0x00] @ ''f:F'' @ [CHR 0x00] @ ''gg:F'' @ [CHR 0x00]"

section \<open>The search finds the enclosing stab\<close>

text \<open>
  The invariant of the search for \<open>A\<close>: what lies below \<open>l\<close> starts at or before \<open>A\<close>, what lies above \<open>r\<close>
  after it, and \<open>left\<close> is the last stab of the type below \<open>l\<close>, if there is one.
\<close>

lemma less_succ: "(A :: u32) + 1 \<noteq> 0 \<Longrightarrow> v < A + 1 \<longleftrightarrow> v \<le> A"
proof -
  assume "A + 1 \<noteq> 0"
  then have "unat (A + 1) = Suc (unat A)" using unat_minus_one[of "A + 1"] unat_gt_0[of "A + 1"] by simp
  then show ?thesis by (auto simp: word_less_nat_alt word_le_nat_alt)
qed

lemma sorted_le:
  assumes "stabs_sorted stabs ty L R" "of_type stabs ty L R j" "of_type stabs ty L R k" "j \<le> k"
  shows "n_value (stab_at stabs j) \<le> n_value (stab_at stabs k)"
  using assms by (cases "j = k") (auto simp: stabs_sorted_def order.strict_implies_order)

lemma search_skip:
  assumes "search_inv stabs ty L R A a l r left any" "\<forall>k. of_type stabs ty L R k \<longrightarrow> k < l \<or> t < k" "l \<le> t"
  shows "search_inv stabs ty L R A a (t + 1) r left any"
proof -
  have "k < l" if "of_type stabs ty L R k" "k < t + 1" for k using assms(2) that by fastforce
  moreover have "t + 1 \<le> k" if "of_type stabs ty L R k" "l \<le> k" for k using assms(2) that by fastforce
  ultimately show ?thesis using assms(1,3) unfolding search_inv_def by (auto; fastforce)
qed

lemma search_less:
  assumes so: "stabs_sorted stabs ty L R" and inv: "search_inv stabs ty L R A a l r left any"
    and m: "of_type stabs ty L R m" "n_value (stab_at stabs m) \<le> A" and t: "l \<le> t"
    and gap: "\<forall>k. of_type stabs ty L R k \<longrightarrow> k \<le> m \<or> t < k"
  shows "search_inv stabs ty L R A a (t + 1) r m True"
proof -
  have "n_value (stab_at stabs k) \<le> A \<and> k \<le> m" if "of_type stabs ty L R k" "k < t + 1" for k
  proof -
    have "k \<le> m" using gap that by fastforce
    then show ?thesis using sorted_le[OF so that(1) m(1)] m(2) by (meson order_trans)
  qed
  then show ?thesis using inv m t unfolding search_inv_def by auto
qed

lemma search_greater:
  assumes so: "stabs_sorted stabs ty L R" and inv: "search_inv stabs ty L R A a l r left any"
    and m: "of_type stabs ty L R m" "A < n_value (stab_at stabs m)" "m \<le> r"
  shows "search_inv stabs ty L R A a l (m - 1) left True"
proof -
  have "A < n_value (stab_at stabs k)" if "of_type stabs ty L R k" "m - 1 < k" for k
  proof -
    have "m \<le> k" using that(2) by simp
    then show ?thesis using sorted_le[OF so m(1) that(1)] m(2) by (meson less_le_trans)
  qed
  then show ?thesis using inv m unfolding search_inv_def by auto
qed

lemma search_equal:
  assumes so: "stabs_sorted stabs ty L R" and inv: "search_inv stabs ty L R A a l r left any"
    and m: "of_type stabs ty L R m" "n_value (stab_at stabs m) = A"
  shows "search_inv stabs ty L R A (A + 1) m r m True"
proof -
  have "n_value (stab_at stabs k) \<le> A" if "of_type stabs ty L R k" "k < m" for k
    using sorted_le[OF so that(1) m(1)] m(2) that(2) by simp
  then show ?thesis using inv m unfolding search_inv_def by (auto simp: of_type_def)
qed

lemma binsearch_step:
  assumes "l \<le> r" "t = (l + r) div 2" "m = scan_back stabs ty l t"
  shows "binsearch_loop stabs ty addr l r left right any =
    (if m < l then binsearch_loop stabs ty addr (t + 1) r left right any
     else if n_value (stab_at stabs m) < addr then binsearch_loop stabs ty addr (t + 1) r m right True
     else if n_value (stab_at stabs m) > addr then binsearch_loop stabs ty addr l (m - 1) left (m - 1) True
     else binsearch_loop stabs ty (addr + 1) m r m right True)"
  unfolding assms(2,3) using assms(1) by (subst binsearch_loop.simps) (simp only: Let_def if_True)

lemma search_loop:
  assumes "stabs_sorted stabs ty L R" "A + 1 \<noteq> 0"
    "\<forall>k. of_type stabs ty L R k \<longrightarrow> n_value (stab_at stabs k) \<noteq> A + 1"
    "search_inv stabs ty L R A a l r left any" "right = r"
  shows "case binsearch_loop stabs ty a l r left right any of (left', right', any') \<Rightarrow>
    \<exists>a' l'. right' < l' \<and> search_inv stabs ty L R A a' l' right' left' any'"
  using assms
proof (induction stabs ty a l r left right any rule: binsearch_loop.induct)
  case (1 stabs ty addr l r left right any)
  show ?case
  proof (cases "l \<le> r")
    case False
    then have e: "binsearch_loop stabs ty addr l r left right any = (left, right, any)"
      by (subst binsearch_loop.simps) (simp only: if_False)
    have "r < l" using False by simp
    then show ?thesis unfolding e prod.case using "1.prems"(4,5) by blast
  next
    case True
    define t where "t = (l + r) div 2"
    define m where "m = scan_back stabs ty l t"
    have t: "l \<le> t" "t \<le> r" using True unfolding t_def by linarith+
    note so = "1.prems"(1) and A1 = "1.prems"(2) and ne = "1.prems"(3) and inv = "1.prems"(4)
    have rr: "right = r" using "1.prems"(5) .
    note sp = scan_back_props[of stabs ty l t, folded m_def]
    have gap: "\<forall>k. of_type stabs ty L R k \<longrightarrow> k \<le> m \<or> t < k"
      using sp by (auto simp: of_type_def not_le not_less)
    have ml: "m \<le> r" using sp t by simp
    note step = binsearch_step[OF True t_def m_def]
    note ih = "1.IH"[OF True t_def m_def]
    show ?thesis
    proof (cases "m < l")
      case no: True
      have "search_inv stabs ty L R A addr (t + 1) r left any"
        using gap no by (intro search_skip[OF inv _ t(1)]) auto
      from ih(1)[OF no so A1 ne this rr] show ?thesis
        by (simp only: step no if_True)
    next
      case False
      have lr: "L \<le> l" "r \<le> R" and ar: "addr = A \<or> addr = A + 1" using inv unfolding search_inv_def by blast+
      have ty: "of_type stabs ty L R m" using sp False ml lr by (simp add: of_type_def)
      consider "n_value (stab_at stabs m) < addr" | "n_value (stab_at stabs m) > addr" | "n_value (stab_at stabs m) = addr"
        by (rule linorder_cases)
      then show ?thesis
      proof cases
        case lt: 1
        have "n_value (stab_at stabs m) \<le> A" using ar
          by (rule disjE) (use lt less_succ[OF A1] in \<open>blast intro: order.strict_implies_order\<close>)+
        then have "search_inv stabs ty L R A addr (t + 1) r m True" by (rule search_less[OF so inv ty _ t(1) gap])
        from ih(2)[OF False lt so A1 ne this rr] show ?thesis
          by (simp only: step False lt if_True if_False)
      next
        case gt: 2
        have "A < n_value (stab_at stabs m)" using ar
          by (rule disjE) (use gt less_succ[OF A1, of A] in \<open>blast intro: less_trans\<close>)+
        then have i: "search_inv stabs ty L R A addr l (m - 1) left True" by (rule search_greater[OF so inv ty _ ml])
        have n: "\<not> n_value (stab_at stabs m) < addr" using gt by simp
        from ih(3)[OF False n gt so A1 ne i refl] show ?thesis
          by (simp only: step False n gt if_True if_False)
      next
        case eq: 3
        have aA: "addr = A" using ar ne ty eq by blast
        have i: "search_inv stabs ty L R A (addr + 1) m r m True"
          using search_equal[OF so inv ty] eq unfolding aA by blast
        have n: "\<not> n_value (stab_at stabs m) < addr" "\<not> n_value (stab_at stabs m) > addr" using eq by simp_all
        from ih(4)[OF False n so A1 ne i rr] show ?thesis
          by (simp only: step False n if_True if_False)
      qed
    qed
  qed
qed

lemma search_result:
  assumes "search_inv stabs ty L R A a l right left any" "right < l"
    "of_type stabs ty L R k0" "n_value (stab_at stabs k0) \<le> A"
  shows "any \<and> scan_back stabs ty (left + 1) right = left \<and> stab_found stabs ty L R A left right" 
proof -
  have k0: "k0 \<le> right" using assms(1,3,4) unfolding search_inv_def by (metis not_le)
  have left: "of_type stabs ty L R left" "n_value (stab_at stabs left) \<le> A" any
    using assms(1,2,3) k0 unfolding search_inv_def by force+
  have lr: "left \<le> right" using assms(1) left(1,2) unfolding search_inv_def by (metis not_le)
  have below: "k \<le> left" "n_value (stab_at stabs k) \<le> A" if "of_type stabs ty L R k" "k \<le> right" for k
    using assms(1,2) that unfolding search_inv_def by force+
  have above: "A < n_value (stab_at stabs k)" if "of_type stabs ty L R k" "right < k" for k
    using assms(1) that unfolding search_inv_def by blast
  have R: "right \<le> R" "right = R \<or> of_type stabs ty L R (right + 1)" "L \<le> left"
    using assms(1) left(1) unfolding search_inv_def of_type_def by blast+
  let ?b = "scan_back stabs ty (left + 1) right"
  have sb: "?b \<le> right" "left \<le> ?b" "left + 1 \<le> ?b \<Longrightarrow> n_type (stab_at stabs ?b) = ty"
    using scan_back_props[of stabs ty "left + 1" right] lr by auto
  have "?b = left"
  proof (rule ccontr)
    assume "?b \<noteq> left"
    then have "of_type stabs ty L R ?b" using sb R unfolding of_type_def by auto
    then show False using below(1)[of ?b] sb \<open>?b \<noteq> left\<close> by simp
  qed
  moreover have "stab_found stabs ty L R A left right"
    unfolding stab_found_def
  proof (intro conjI allI impI)
    fix k assume k: "of_type stabs ty L R k"
    show "n_value (stab_at stabs k) \<le> A \<longleftrightarrow> k \<le> left"
      using below[OF k] above[OF k] lr by (meson linorder_not_le order_trans)
    show "A < n_value (stab_at stabs k) \<longleftrightarrow> right < k"
      using below[OF k] above[OF k] by (meson linorder_not_le)
  qed (use left R in blast)+
  ultimately show ?thesis using left(3) by simp
qed

lemma binsearch_sorted:
  assumes "stabs_sorted stabs ty L R" "A + 1 \<noteq> 0"
    "\<forall>k. of_type stabs ty L R k \<longrightarrow> n_value (stab_at stabs k) \<noteq> A + 1"
    "of_type stabs ty L R k" "n_value (stab_at stabs k) \<le> A"
  shows "\<exists>left right. stab_binsearch stabs L R ty A = (left, right) \<and> stab_found stabs ty L R A left right"
proof -
  have "search_inv stabs ty L R A A L R L False" by (auto simp: search_inv_def of_type_def)
  from search_loop[OF assms(1-3) this refl] obtain left right any a l
    where b: "binsearch_loop stabs ty A L R L R False = (left, right, any)" "right < l"
      "search_inv stabs ty L R A a l right left any" by (auto split: prod.splits)
  from search_result[OF b(3,2) assms(4,5)] show ?thesis by (simp add: stab_binsearch_def b(1))
qed

lemma binsearch_bounds:
  "L \<le> l \<Longrightarrow> L \<le> left \<Longrightarrow> L - 1 \<le> right \<Longrightarrow>
   case binsearch_loop stabs ty addr l r left right any of (left', right', any') \<Rightarrow> L \<le> left' \<and> L - 1 \<le> right'"
proof (induction stabs ty addr l r left right any rule: binsearch_loop.induct)
  case (1 stabs ty addr l r left right any)
  show ?case
  proof (cases "l \<le> r")
    case False
    then have e: "binsearch_loop stabs ty addr l r left right any = (left, right, any)"
      by (subst binsearch_loop.simps) (simp only: if_False)
    show ?thesis unfolding e prod.case using "1.prems" by simp
  next
    case True
    define t where "t = (l + r) div 2"
    define m where "m = scan_back stabs ty l t"
    have t: "L \<le> t + 1" using True "1.prems"(1) unfolding t_def by linarith
    note ih = "1.IH"[OF True t_def m_def]
    have m: "L \<le> m" "L - 1 \<le> m - 1" if "\<not> m < l" using that "1.prems"(1) by auto
    note step = binsearch_step[OF True t_def m_def]
    show ?thesis
    proof (cases "m < l")
      case no: True
      show ?thesis using ih(1)[OF no t "1.prems"(2,3)] by (simp only: step no if_True)
    next
      case False
      then show ?thesis unfolding step
        using ih(2)[OF False _ t m(1)[OF False] "1.prems"(3)] ih(3)[OF False _ _ "1.prems"(1,2) m(2)[OF False]]
          ih(4)[OF False _ _ m(1)[OF False] m(1)[OF False] "1.prems"(3)]
        by presburger
    qed
  qed
qed

lemma stab_binsearch_bounds:
  assumes "L \<le> R + 1" "stab_binsearch stabs L R ty A = (left, right)"
  shows "L - 1 \<le> left" "L - 1 \<le> right"
proof -
  obtain l r any where b: "binsearch_loop stabs ty A L R L R False = (l, r, any)"
    by (cases "binsearch_loop stabs ty A L R L R False")
  have lr: "L \<le> l" "L - 1 \<le> r" using binsearch_bounds[of L L L R stabs ty A R False] assms(1) b by auto
  have "L - 1 \<le> scan_back stabs ty (l + 1) r"
  proof (cases "l \<le> r")
    case True
    then show ?thesis using scan_back_props[of stabs ty "l + 1" r] lr by auto
  next
    case False
    then show ?thesis using lr by (subst scan_back.simps) simp
  qed
  then show "L - 1 \<le> left" "L - 1 \<le> right" using assms(2) lr by (auto simp: stab_binsearch_def b split: if_splits)
qed

text \<open>
  C21: When the stabs of the wanted type are sorted by address, the binary search for an address
  returns the last one at or before it, and on the right the index just before the next one of the type
  (or the end of the region), whatever stabs of other types lie between. It needs that no stab
  of the type lies exactly one byte above the address: the search advances the address
  by one to move on from an exact match.
\<close>

theorem stab_binsearch_finds:
  assumes "stabs_sorted stabs ty L R" "A + 1 \<noteq> 0"
    "\<forall>k. of_type stabs ty L R k \<longrightarrow> n_value (stab_at stabs k) \<noteq> A + 1"
    "of_type stabs ty L R k" "n_value (stab_at stabs k) \<le> A"
  shows "\<exists>left right. stab_binsearch stabs L R ty A = (left, right) \<and> stab_found stabs ty L R A left right"
  using assms by (rule binsearch_sorted)

section \<open>Functions\<close>

text \<open>
  An address whose file and function are in a sorted table is attributed to the last function of
  the file that starts at or before it, with the offset of the name in the string
  table followed up to the colon, whether or not a line number is found.
\<close>

theorem debuginfo_function:
  assumes "stabstr \<noteq> []" "last stabstr = CHR 0x00"
    "stab_binsearch stabs 0 (int (length stabs) - 1) N_SO A = (lfile, rfile)" "0 < lfile"
    "stabs_sorted stabs N_FUN lfile rfile" "A + 1 \<noteq> 0"
    "\<forall>k. of_type stabs N_FUN lfile rfile k \<longrightarrow> n_value (stab_at stabs k) \<noteq> A + 1"
    "of_type stabs N_FUN lfile rfile k" "n_value (stab_at stabs k) \<le> A"
    "\<forall>k. of_type stabs N_FUN lfile rfile k \<longrightarrow> unat (n_strx (stab_at stabs k)) < length stabstr"
  shows "\<exists>r info f. debuginfo_table stabs stabstr A = Some (r, info) \<and>
    of_type stabs N_FUN lfile rfile f \<and> n_value (stab_at stabs f) \<le> A \<and>
    (\<forall>k. of_type stabs N_FUN lfile rfile k \<and> n_value (stab_at stabs k) \<le> A \<longrightarrow> k \<le> f) \<and>
    eip_fn_addr info = n_value (stab_at stabs f) \<and> eip_fn_name info = str_at stabstr (n_strx (stab_at stabs f)) \<and>
    eip_fn_namelen info = length (takeWhile (\<lambda>c. c \<noteq> CHR '':'') (eip_fn_name info)) \<and> (r = 0 \<or> r = -1)"
proof -
  have "\<exists>f rfun. stab_binsearch stabs lfile rfile N_FUN A = (f, rfun) \<and> stab_found stabs N_FUN lfile rfile A f rfun"
    using assms(5-9) by (rule binsearch_sorted)
  then obtain f rfun where b: "stab_binsearch stabs lfile rfile N_FUN A = (f, rfun)"
    and fo: "stab_found stabs N_FUN lfile rfile A f rfun" by blast
  have f: "of_type stabs N_FUN lfile rfile f" "n_value (stab_at stabs f) \<le> A"
    "\<forall>k. of_type stabs N_FUN lfile rfile k \<and> n_value (stab_at stabs k) \<le> A \<longrightarrow> k \<le> f" "f \<le> rfun"
    using fo unfolding stab_found_def by (auto simp: not_less[symmetric])
  have nm: "unat (n_strx (stab_at stabs f)) < length stabstr" using assms(10) f(1) by blast
  obtain ll rl where l: "stab_binsearch stabs f rfun N_SLINE (A - n_value (stab_at stabs f)) = (ll, rl)" by fastforce
  have "lfile \<le> f" using f(1) by (simp add: of_type_def)
  then have rl: "\<not> rl < 0" using stab_binsearch_bounds(2)[OF _ l] f(4) assms(4) by simp
  let ?name = "str_at stabstr (n_strx (stab_at stabs f))"
  have "\<exists>r info. debuginfo_table stabs stabstr A = Some (r, info) \<and> eip_fn_addr info = n_value (stab_at stabs f) \<and>
    eip_fn_name info = ?name \<and> eip_fn_namelen info = length (takeWhile (\<lambda>c. c \<noteq> CHR '':'') ?name) \<and> (r = 0 \<or> r = -1)"
    using assms(1,2,4) f(4) nm rl
    by (simp add: debuginfo_table_def assms(3) b l eip_function_def eip_unknown_def Let_def
        del: N_SO_def N_FUN_def N_SLINE_def N_PSYM_def)
  then show ?thesis using f(1-3) by metis
qed

lemma sample_type:
  assumes "of_type sample_stabs N_FUN 1 7 k"
  shows "k = 2 \<or> k = 4"
proof -
  have "k = 1 \<or> k = 2 \<or> k = 3 \<or> k = 4 \<or> k = 5 \<or> k = 6 \<or> k = 7" using assms by (auto simp: of_type_def)
  then show ?thesis using assms by (auto simp: of_type_def sample_stabs_def stab_at_def)
qed

lemma sample_sorted: "stabs_sorted sample_stabs N_FUN 1 7"
  unfolding stabs_sorted_def
proof (intro allI impI)
  fix j k
  assume a: "of_type sample_stabs N_FUN 1 7 j" "of_type sample_stabs N_FUN 1 7 k" "j < k"
  from sample_type[OF a(1)] sample_type[OF a(2)] a(3)
  show "n_value (stab_at sample_stabs j) < n_value (stab_at sample_stabs k)"
    by (auto simp: sample_stabs_def stab_at_def)
qed

lemma sample_apart:
  "\<forall>k. of_type sample_stabs N_FUN 1 7 k \<longrightarrow> n_value (stab_at sample_stabs k) \<noteq> 0xF0100048 + 1 \<and>
     unat (n_strx (stab_at sample_stabs k)) < length sample_stabstr"
  using sample_type by (force simp: sample_stabs_def stab_at_def sample_stabstr_def)

lemma sample_has: "of_type sample_stabs N_FUN 1 7 4" "n_value (stab_at sample_stabs 4) \<le> 0xF0100048"
  by (simp_all add: of_type_def sample_stabs_def stab_at_def)

lemma sample_search: "stab_binsearch sample_stabs 0 (int (length sample_stabs) - 1) N_SO 0xF0100048 = (1, 7)"
  by (simp add: stab_binsearch_def sample_stabs_def stab_at_def binsearch_loop.simps scan_back.simps)

theorem stab_binsearch_finds_witness:
  "\<exists>left right. stab_binsearch sample_stabs 1 7 N_FUN 0xF0100048 = (left, right) \<and>
     stab_found sample_stabs N_FUN 1 7 0xF0100048 left right"
  using stab_binsearch_finds[OF sample_sorted _ _ sample_has] sample_apart by simp

theorem debuginfo_function_witness:
  "\<exists>r info f. debuginfo_table sample_stabs sample_stabstr 0xF0100048 = Some (r, info) \<and>
    of_type sample_stabs N_FUN 1 7 f \<and> n_value (stab_at sample_stabs f) \<le> 0xF0100048 \<and>
    (\<forall>k. of_type sample_stabs N_FUN 1 7 k \<and> n_value (stab_at sample_stabs k) \<le> 0xF0100048 \<longrightarrow> k \<le> f) \<and>
    eip_fn_addr info = n_value (stab_at sample_stabs f) \<and>
    eip_fn_name info = str_at sample_stabstr (n_strx (stab_at sample_stabs f)) \<and>
    eip_fn_namelen info = length (takeWhile (\<lambda>c. c \<noteq> CHR '':'') (eip_fn_name info)) \<and> (r = 0 \<or> r = -1)"
  by (rule debuginfo_function[OF _ _ sample_search _ sample_sorted _ _ sample_has])
    (use sample_apart in \<open>auto simp: sample_stabstr_def\<close>)

text \<open>
  The search moves on from an exact match by adding one to the address, so that a stab of the
  type at the next address is returned instead of the one that contains the address.
\<close>

lemma stab_binsearch_next_address:
  "stab_binsearch [st\<lparr>n_type := ty, n_value := 0xF0100040\<rparr>, st\<lparr>n_type := ty, n_value := 0xF0100041\<rparr>]
     0 1 ty 0xF0100040 = (1, 1)"
  by (simp add: stab_binsearch_def stab_at_def binsearch_loop.simps scan_back.simps)

end
