(* ===== verification/Printfmt.thy ===== *)
theory Printfmt
  imports Kernel_State
begin

text \<open>
  Formatted output, \<^verbatim>\<open>lib/printfmt.c\<close>, with its users \<^verbatim>\<open>kern/printf.c\<close> and \<^verbatim>\<open>lib/printf.c\<close>. The calls of \<^verbatim>\<open>putch\<close> are
  the list of integers passed to it, in order, which is the result of \<open>vprintfmt\<close>; arguments are consumed from a
  list, and reading an argument of the wrong kind, or none, is undefined (\<^const>\<open>None\<close>).
\<close>

section \<open>Numbers\<close>

definition hexdigits :: string where
  "hexdigits = ''0123456789abcdef''"

definition ascii :: "char \<Rightarrow> u32" where
  "ascii c = of_char c"

text \<open>The recursion on the more significant digits ends because the base is at least 2.\<close>

function printnum :: "nat \<Rightarrow> nat \<Rightarrow> int \<Rightarrow> char \<Rightarrow> u32 list" where
  "printnum num base width padc =
     (if num \<ge> base \<and> base \<ge> 2 then printnum (num div base) base (width - 1) padc
      else replicate (nat (width - 1)) (ascii padc)) @ [ascii (hexdigits ! (num mod base))]"
  by pat_completeness auto
termination
  by (relation "measure (\<lambda>(num, base, width, padc). num)") auto

declare printnum.simps [simp del]

definition getuint :: "parg list \<Rightarrow> int \<Rightarrow> (u64 \<times> parg list) option" where
  "getuint ap lflag = (case ap of
       PInt v # rest \<Rightarrow> if lflag \<ge> 2 then None else Some (ucast v, rest)
     | PLong v # rest \<Rightarrow> if lflag \<ge> 2 then Some (v, rest) else None
     | _ \<Rightarrow> None)"

definition getint :: "parg list \<Rightarrow> int \<Rightarrow> (u64 \<times> parg list) option" where
  "getint ap lflag = (case ap of
       PInt v # rest \<Rightarrow> if lflag \<ge> 2 then None else Some (scast v, rest)
     | PLong v # rest \<Rightarrow> if lflag \<ge> 2 then Some (v, rest) else None
     | _ \<Rightarrow> None)"

section \<open>Conversions\<close>

text \<open>
  The variables of \<^verbatim>\<open>vprintfmt\<close> for one conversion. Width and precision are \<^verbatim>\<open>int\<close> in the code, whose overflow is undefined, and unbounded here; a string argument is the
  list of its characters before the null character.
\<close>

record pflags =
  padc :: char
  width :: int
  precision :: int
  lflag :: int
  altflag :: bool

definition pflags_init :: pflags where
  "pflags_init = \<lparr>padc = CHR '' '', width = -1, precision = -1, lflag = 0, altflag = False\<rparr>"

definition process_precision :: "pflags \<Rightarrow> pflags" where
  "process_precision f = (if width f < 0 then f\<lparr>width := precision f, precision := -1\<rparr> else f)"

definition is_digit :: "char \<Rightarrow> bool" where
  "is_digit c \<longleftrightarrow> ascii (CHR ''0'') \<le> ascii c \<and> ascii c \<le> ascii (CHR ''9'')"

definition digits_int :: "int \<Rightarrow> string \<Rightarrow> int" where
  "digits_int v cs = foldl (\<lambda>v c. v * 10 + (of_char c - 48)) v cs"

text \<open>
  The flags of an escape sequence: the conversion character that ends them (none at the end of
  the format), the rest of the format, the arguments left.
\<close>

function scan_flags :: "pflags \<Rightarrow> string \<Rightarrow> parg list \<Rightarrow> (pflags \<times> char option \<times> string \<times> parg list) option" where
  "scan_flags f [] ap = Some (f, None, [], ap)"
| "scan_flags f (ch # fmt) ap =
     (if ch = CHR ''-'' then scan_flags (f\<lparr>padc := CHR ''-''\<rparr>) fmt ap
      else if ch = CHR ''0'' then scan_flags (f\<lparr>padc := CHR ''0''\<rparr>) fmt ap
      else if is_digit ch then
        scan_flags (process_precision (f\<lparr>precision := digits_int 0 (ch # takeWhile is_digit fmt)\<rparr>))
          (dropWhile is_digit fmt) ap
      else if ch = CHR ''*'' then
        (case ap of PInt v # ap' \<Rightarrow> scan_flags (process_precision (f\<lparr>precision := sint v\<rparr>)) fmt ap' | _ \<Rightarrow> None)
      else if ch = CHR ''.'' then scan_flags (if width f < 0 then f\<lparr>width := 0\<rparr> else f) fmt ap
      else if ch = CHR ''#'' then scan_flags (f\<lparr>altflag := True\<rparr>) fmt ap
      else if ch = CHR ''l'' then scan_flags (f\<lparr>lflag := lflag f + 1\<rparr>) fmt ap
      else Some (f, Some ch, fmt, ap))"
  by pat_completeness auto
termination
  by (relation "measure (\<lambda>(f, fmt, ap). length fmt)")
    (auto simp: le_imp_less_Suc length_dropWhile_le)

text \<open>A character of a string is a signed \<^verbatim>\<open>char\<close>.\<close>

definition schar :: "char \<Rightarrow> u32" where
  "schar c = scast (of_char c :: u8)"

definition print_string :: "pflags \<Rightarrow> string \<Rightarrow> u32 list" where
  "print_string f p =
     (let n = (if precision f < 0 then length p else min (length p) (nat (precision f)));
          w = (if width f > 0 \<and> padc f \<noteq> CHR ''-'' then width f - int n else width f);
          left = (if width f > 0 \<and> padc f \<noteq> CHR ''-'' then replicate (nat w) (ascii (padc f)) else []);
          w = w - int (length left);
          body = map (\<lambda>c. if altflag f \<and> (sint (schar c) < 32 \<or> sint (schar c) > 126) then ascii (CHR ''?'') else schar c)
            (take n p)
      in left @ body @ replicate (nat (w - int n)) (ascii (CHR '' '')))"

definition error_string :: "int \<Rightarrow> string option" where
  "error_string e =
     (if e = 1 then Some ''unspecified error'' else if e = 2 then Some ''bad environment''
      else if e = 3 then Some ''invalid parameter'' else if e = 4 then Some ''out of memory''
      else if e = 5 then Some ''out of environments'' else if e = 6 then Some ''segmentation fault''
      else if e = 7 then Some ''env is not recving'' else if e = 8 then Some ''unexpected end of file'' else None)"

definition print_decimal :: "pflags \<Rightarrow> u64 \<Rightarrow> u32 list" where
  "print_decimal f num =
     (if sint num < 0 then ascii (CHR ''-'') # printnum (unat (- num)) 10 (width f) (padc f)
      else printnum (unat num) 10 (width f) (padc f))"

text \<open>
  \<^verbatim>\<open>%e\<close>: the calls of \<^verbatim>\<open>printfmt\<close> print \<^verbatim>\<open>error %d\<close> or the string. The negation of the least integer stays
  negative, and reading the table there is undefined.
\<close>

definition print_error :: "u32 \<Rightarrow> u32 list option" where
  "print_error v =
     (let err = sint (if sint v < 0 then - v else v) in
      if err < 0 then None
      else case error_string err of
        None \<Rightarrow> Some (map ascii ''error '' @ print_decimal pflags_init (scast (word_of_int err :: u32)))
      | Some p \<Rightarrow> Some (print_string pflags_init p))"

definition unsigned_base :: "char \<Rightarrow> nat option" where
  "unsigned_base c = (if c = CHR ''u'' then Some 10 else if c = CHR ''o'' then Some 8
     else if c = CHR ''x'' then Some 16 else None)"

text \<open>What one conversion prints and the arguments it leaves; \<open>escape\<close> is the rest of the format after the percent sign.\<close>

definition conversion ::
  "pflags \<Rightarrow> char option \<Rightarrow> string \<Rightarrow> string \<Rightarrow> parg list \<Rightarrow> (u32 list \<times> string \<times> parg list) option" where
  "conversion f ch fmt escape ap = (case ch of
       None \<Rightarrow> Some ([ascii (CHR ''%'')], escape, ap)
     | Some c \<Rightarrow>
       if c = CHR ''c'' then (case ap of PInt v # ap' \<Rightarrow> Some ([v], fmt, ap') | _ \<Rightarrow> None)
       else if c = CHR ''e'' then (case ap of PInt v # ap' \<Rightarrow> map_option (\<lambda>o'. (o', fmt, ap')) (print_error v) | _ \<Rightarrow> None)
       else if c = CHR ''s'' then (case ap of
           PStr p # ap' \<Rightarrow> Some (print_string f p, fmt, ap')
         | PNull # ap' \<Rightarrow> Some (print_string f ''(null)'', fmt, ap') | _ \<Rightarrow> None)
       else if c = CHR ''d'' then map_option (\<lambda>(n, ap'). (print_decimal f n, fmt, ap')) (getint ap (lflag f))
       else if c = CHR ''p'' then (case ap of
           PInt v # ap' \<Rightarrow> Some (map ascii ''0x'' @ printnum (unat v) 16 (width f) (padc f), fmt, ap') | _ \<Rightarrow> None)
       else if c = CHR ''%'' then Some ([ascii c], fmt, ap)
       else (case unsigned_base c of
           Some b \<Rightarrow> map_option (\<lambda>(n, ap'). (printnum (unat n) b (width f) (padc f), fmt, ap')) (getuint ap (lflag f))
         | None \<Rightarrow> Some ([ascii (CHR ''%'')], escape, ap)))"

lemma scan_flags_length:
  "scan_flags f fmt ap = Some (f', ch, fmt', ap') \<Longrightarrow> length fmt' \<le> length fmt"
proof (induction f fmt ap rule: scan_flags.induct)
  case (1 f ap)
  then show ?case by simp
next
  case (2 f ch fmt ap)
  have "length (dropWhile is_digit fmt) \<le> length fmt" by (rule length_dropWhile_le)
  then show ?case using 2 by (auto split: if_splits list.splits parg.splits intro: le_SucI)
qed

lemma conversion_length:
  "conversion f ch rest fmt ap = Some (os, fmt', ap') \<Longrightarrow> fmt' = rest \<or> fmt' = fmt"
  by (auto simp: conversion_def split: option.splits if_splits list.splits parg.splits)

function vprintfmt :: "string \<Rightarrow> parg list \<Rightarrow> u32 list option" where
  "vprintfmt [] ap = Some []"
| "vprintfmt (ch # fmt) ap =
     (if ch \<noteq> CHR ''%'' then map_option (\<lambda>os. ascii ch # os) (vprintfmt fmt ap)
      else case scan_flags pflags_init fmt ap of
        None \<Rightarrow> None
      | Some (f, conv, rest, ap') \<Rightarrow>
          (case conversion f conv rest fmt ap' of
             None \<Rightarrow> None
           | Some (os, fmt', ap'') \<Rightarrow> map_option (\<lambda>os'. os @ os') (vprintfmt fmt' ap'')))"
  by pat_completeness auto
termination
proof (relation "measure (\<lambda>(fmt, ap). length fmt)", goal_cases)
  case 1
  show ?case by simp
next
  case 2
  then show ?case by simp
next
  case (3 ch fmt ap r f x conv y rest ap' z os w fmt' ap'')
  then have "length rest \<le> length fmt" "fmt' = rest \<or> fmt' = fmt"
    using scan_flags_length conversion_length by (auto; blast)+
  then show ?case by auto
qed

section \<open>Printing into a buffer\<close>

record sprintbuf =
  sb_mem :: mem
  sb_buf :: u32
  sb_ebuf :: u32
  sb_cnt :: int

definition sprintputch :: "u32 \<Rightarrow> sprintbuf \<Rightarrow> sprintbuf" where
  "sprintputch ch b =
     (let b = b\<lparr>sb_cnt := sb_cnt b + 1\<rparr> in
      if sb_buf b < sb_ebuf b then b\<lparr>sb_mem := (sb_mem b)(sb_buf b := ucast ch), sb_buf := sb_buf b + 1\<rparr> else b)"

definition vsnprintf :: "mem \<Rightarrow> u32 \<Rightarrow> int \<Rightarrow> string \<Rightarrow> parg list \<Rightarrow> (int \<times> mem) option" where
  "vsnprintf m buf n fmt ap =
     (if buf = 0 \<or> n < 1 then Some (- E_INVAL, m)
      else case vprintfmt fmt ap of
        None \<Rightarrow> None
      | Some os \<Rightarrow>
          let b = fold sprintputch os \<lparr>sb_mem = m, sb_buf = buf, sb_ebuf = buf + word_of_int n - 1, sb_cnt = 0\<rparr>
          in Some (sb_cnt b, (sb_mem b)(sb_buf b := 0)))"

section \<open>The kernel's and the user's cprintf\<close>

text \<open>
  \<^verbatim>\<open>putch\<close> of \<^verbatim>\<open>kern/printf.c\<close> advances its pointer to the counter and not the counter, which stays 0.
\<close>

definition vcprintf_kern :: "string \<Rightarrow> parg list \<Rightarrow> ('a, int) con" where
  "vcprintf_kern fmt ap = (case vprintfmt fmt ap of
       None \<Rightarrow> kpanic ''undefined argument''
     | Some os \<Rightarrow> kseq (kfor os cputchar) (kret 0))"

text \<open>The buffer of \<^verbatim>\<open>lib/printf.c\<close>, with the system calls made so far; \<^verbatim>\<open>idx\<close> is the length of the buffer's contents.\<close>

record printbuf =
  pb_buf :: "u8 list"
  pb_cnt :: int
  pb_calls :: "u8 list list"

definition putch_user :: "u32 \<Rightarrow> printbuf \<Rightarrow> printbuf" where
  "putch_user ch b =
     (let b = b\<lparr>pb_buf := pb_buf b @ [ucast ch]\<rparr>;
          b = (if length (pb_buf b) = 256 - 1 then b\<lparr>pb_calls := pb_calls b @ [pb_buf b], pb_buf := []\<rparr> else b)
      in b\<lparr>pb_cnt := pb_cnt b + 1\<rparr>)"

definition vcprintf_user :: "string \<Rightarrow> parg list \<Rightarrow> (int \<times> u8 list list) option" where
  "vcprintf_user fmt ap = map_option (\<lambda>os.
     let b = fold putch_user os \<lparr>pb_buf = [], pb_cnt = 0, pb_calls = []\<rparr>
     in (pb_cnt b, pb_calls b @ [pb_buf b])) (vprintfmt fmt ap)"

section \<open>Digits\<close>

text \<open>The digits of a number, most significant first.\<close>

function digits_of :: "nat \<Rightarrow> nat \<Rightarrow> nat list" where
  "digits_of num base =
     (if num \<ge> base \<and> base \<ge> 2 then digits_of (num div base) base else []) @ [num mod base]"
  by pat_completeness auto
termination
  by (relation "measure (\<lambda>(num, base). num)") auto

declare digits_of.simps [simp del]

section \<open>Reading printed numbers back\<close>

definition hexbyte :: "nat \<Rightarrow> u8" where
  "hexbyte d = ucast (ascii (hexdigits ! d))"

definition sample_text :: mem where
  "sample_text = (\<lambda>a. if a < 6 then [0x20, 0x20, 0x37, 0x64, 0x30, 0] ! unat a else 0)"

section \<open>Buffers\<close>

text \<open>After the characters \<open>os\<close>, \<open>k\<close> of them are in the buffer, where \<open>k\<close> is at most the room.\<close>

definition stored :: "mem \<Rightarrow> u32 \<Rightarrow> nat \<Rightarrow> u32 list \<Rightarrow> mem" where
  "stored m buf k os = (\<lambda>x. if in_range buf k x then ucast (os ! unat (x - buf)) else m x)"

lemma digits_of_props:
  "2 \<le> base \<Longrightarrow> foldl (\<lambda>v d. v * base + d) 0 (digits_of num base) = num \<and>
     (\<forall>d \<in> set (digits_of num base). d < base) \<and> digits_of num base \<noteq> [] \<and>
     (num \<noteq> 0 \<longrightarrow> hd (digits_of num base) \<noteq> 0)"
proof (induction num base rule: digits_of.induct)
  case (1 num base)
  show ?case
  proof (cases "num \<ge> base")
    case True
    then have e: "digits_of num base = digits_of (num div base) base @ [num mod base]"
      using 1(2) by (subst digits_of.simps) simp
    have "num div base \<noteq> 0" using True 1(2) by (simp add: div_eq_0_iff)
    then show ?thesis unfolding e using 1 True by simp
  next
    case False
    then have "digits_of num base = [num]" by (subst digits_of.simps) simp
    then show ?thesis using False by simp
  qed
qed

lemma printnum_digits:
  "2 \<le> base \<Longrightarrow> printnum num base w c =
     replicate (nat (w - int (length (digits_of num base)))) (ascii c) @
     map (\<lambda>d. ascii (hexdigits ! d)) (digits_of num base)"
proof (induction num base w c rule: printnum.induct)
  case (1 num base w c)
  show ?case
  proof (cases "num \<ge> base")
    case True
    then have e: "digits_of num base = digits_of (num div base) base @ [num mod base]"
      using 1(2) by (subst digits_of.simps) simp
    show ?thesis unfolding e using 1 True by (subst printnum.simps) simp
  next
    case False
    then have "digits_of num base = [num]" by (subst digits_of.simps) simp
    then show ?thesis using False 1(2) by (subst printnum.simps) simp
  qed
qed

lemma hex_table:
  "\<forall>d \<in> set [0..<16]. digit_value (hexbyte d) = Some (int d) \<and> hexbyte d \<noteq> 0x20 \<and> hexbyte d \<noteq> 9 \<and>
     hexbyte d \<noteq> 0x2B \<and> hexbyte d \<noteq> 0x2D \<and> hexbyte d \<noteq> 0x78 \<and> hexbyte d \<noteq> 0"
  by code_simp

lemma digit_value_hex: "d < 16 \<Longrightarrow> digit_value (hexbyte d) = Some (int d)"
  using hex_table by simp

lemma hexbyte_cases:
  "d < 16 \<Longrightarrow> hexbyte d \<noteq> 0x20 \<and> hexbyte d \<noteq> 9 \<and> hexbyte d \<noteq> 0x2B \<and> hexbyte d \<noteq> 0x2D \<and> hexbyte d \<noteq> 0x78 \<and> hexbyte d \<noteq> 0"
  using hex_table by simp

lemma digits_value_of:
  assumes "\<forall>d \<in> set ds. d < 16"
  shows "digits_value (int base) (of_nat v) (map hexbyte ds) = of_nat (foldl (\<lambda>v d. v * base + d) v ds)"
  using assms
proof (induction ds arbitrary: v)
  case Nil
  show ?case by (simp add: digits_value_def)
next
  case (Cons d ds)
  have "digits_value (int base) (of_nat v) (map hexbyte (d # ds)) =
    digits_value (int base) (of_nat (v * base + d)) (map hexbyte ds)"
    using Cons.prems by (simp add: digits_value_def digit_value_hex)
  also have "\<dots> = of_nat (foldl (\<lambda>v d. v * base + d) (v * base + d) ds)"
    using Cons.prems by (intro Cons.IH) simp
  finally show ?case by simp
qed

lemma cstr_nth: "cstr m s xs \<Longrightarrow> (\<forall>i < length xs. m (s + of_nat i) = xs ! i) \<and> m (s + of_nat (length xs)) = 0"
proof (induction xs arbitrary: s)
  case Nil
  then show ?case by simp
next
  case (Cons x xs)
  from Cons.IH[of "s + 1"] Cons.prems show ?case
    by (auto simp: nth_Cons ac_simps split: nat.splits)
qed

lemma skip_blanks_run: "cstr m s (replicate k 0x20 @ xs) \<Longrightarrow> (case xs of [] \<Rightarrow> True | x # _ \<Rightarrow> x \<noteq> 0x20 \<and> x \<noteq> 9) \<Longrightarrow>
   skip_blanks m s = Some (s + of_nat k) \<and> cstr m (s + of_nat k) xs"
proof (induction k arbitrary: s)
  case 0
  then show ?case by (subst skip_blanks.simps) (auto split: list.splits)
next
  case (Suc k)
  then show ?case using Suc.IH[of "s + 1"] by (subst skip_blanks.simps) (auto simp: ac_simps)
qed

lemma strtol_digits_printed:
  assumes c: "cstr m s (map hexbyte ds)" and d: "\<forall>d \<in> set ds. d < base" "ds \<noteq> []" and b: "2 \<le> base" "base \<le> 16"
  shows "strtol m s (int base) = Some (of_nat (foldl (\<lambda>v d. v * base + d) 0 ds), s + of_nat (length ds))"
proof -
  obtain e es where ds: "ds = e # es" using d(2) by (cases ds) auto
  have small: "\<forall>d \<in> set ds. d < 16" using d(1) b(2) by fastforce
  have e: "hexbyte e \<noteq> 0x20 \<and> hexbyte e \<noteq> 9 \<and> hexbyte e \<noteq> 0x2B \<and> hexbyte e \<noteq> 0x2D"
    using hexbyte_cases[of e] small ds by simp
  have ms: "m s = hexbyte e" using c ds by simp
  have nx: "m (s + 1) \<noteq> 0x78"
    using c ds small hexbyte_cases by (cases es) auto
  have sk: "skip_blanks m s = Some s" using e ms by (subst skip_blanks.simps) simp
  have "strtol_digits m s (int base) 0 = Some (digits_value (int base) 0 (map hexbyte ds), s + of_nat (length (map hexbyte ds)))"
  proof (rule strtol_digits_run)
    show "\<forall>i < length (map hexbyte ds). m (s + of_nat i) = map hexbyte ds ! i" using cstr_nth[OF c] by simp
    show "\<forall>x \<in> set (map hexbyte ds). \<exists>d. digit_value x = Some d \<and> d < int base"
      using small d(1) by (auto simp: digit_value_hex)
    have "digit_value (m (s + of_nat (length (map hexbyte ds)))) = None"
      using cstr_nth[OF c] by (simp add: digit_value_def)
    then show "case digit_value (m (s + of_nat (length (map hexbyte ds)))) of None \<Rightarrow> True | Some d \<Rightarrow> d \<ge> int base" by simp
  qed
  then show ?thesis using sk e ms nx b(1) digits_value_of[OF small, of base 0]
    by (simp add: strtol_def)
qed

text \<open>
  C22: A number printed in a base from 2 to 16 and any width, padded with blanks or zeros, is read back by
  \<open>strtol\<close> in the same base, with the end pointer after the last digit.
\<close>

theorem printnum_strtol:
  assumes "cstr m s (map ucast (printnum (unat n) base w c))" "2 \<le> base" "base \<le> 16" "c = CHR '' '' \<or> c = CHR ''0''"
  shows "strtol m s (int base) = Some (n, s + of_nat (length (printnum (unat n) base w c)))"
proof -
  let ?ds = "digits_of (unat n) base" and ?k = "nat (w - int (length (digits_of (unat n) base)))"
  have p: "map ucast (printnum (unat n) base w c) = replicate ?k (ucast (ascii c)) @ map hexbyte ?ds"
    using printnum_digits[OF assms(2)] by (simp add: hexbyte_def)
  note dp = digits_of_props[OF assms(2), of "unat n"]
  have z: "foldl (\<lambda>v d. v * base + d) 0 (replicate k 0) = 0" for k by (induction k) auto
  from assms(4) show ?thesis
  proof
    assume c: "c = CHR '' ''"
    have hd: "case map hexbyte ?ds of [] \<Rightarrow> True | x # _ \<Rightarrow> x \<noteq> 0x20 \<and> x \<noteq> 9"
      using dp hexbyte_cases assms(3) by (fastforce split: list.splits)
    have r: "cstr m s (replicate ?k 0x20 @ map hexbyte ?ds)" using assms(1) unfolding p unfolding c by (simp add: ascii_def)
    from skip_blanks_run[OF r hd] have sk: "skip_blanks m s = Some (s + of_nat ?k)" "cstr m (s + of_nat ?k) (map hexbyte ?ds)" by auto
    have "skip_blanks m (s + of_nat ?k) = Some (s + of_nat ?k)"
      using sk(2) hd by (subst skip_blanks.simps) (auto split: list.splits)
    then have "strtol m s (int base) = strtol m (s + of_nat ?k) (int base)" using sk(1) by (simp add: strtol_def)
    then show ?thesis using strtol_digits_printed[OF sk(2)] dp assms(2,3)
      by (simp add: printnum_digits[OF assms(2)] ac_simps)
  next
    assume c: "c = CHR ''0''"
    have "ucast (ascii (CHR ''0'')) = hexbyte 0" by (simp add: hexbyte_def ascii_def hexdigits_def)
    then have r: "cstr m s (map hexbyte (replicate ?k 0 @ ?ds))" using assms(1) unfolding p unfolding c by simp
    have d: "\<forall>d \<in> set (replicate ?k 0 @ ?ds). d < base" "replicate ?k 0 @ ?ds \<noteq> []"
      using dp assms(2) by (auto simp: set_replicate_conv_if)
    from strtol_digits_printed[OF r d assms(2,3)] show ?thesis using dp
      by (simp add: z printnum_digits[OF assms(2)])
  qed
qed

lemma sample_printnum: "printnum 2000 16 5 (CHR '' '') = [0x20, 0x20, 0x37, 0x64, 0x30]"
  by (simp add: printnum.simps ascii_def hexdigits_def numeral_2_eq_2)

theorem printnum_strtol_witness: "strtol sample_text 0 16 = Some (2000, 5)"
  using printnum_strtol[of sample_text 0 "2000" 16 5 "CHR '' ''"] sample_printnum
  by (simp add: sample_text_def)

lemma unat_room: "unat buf + room < 2 ^ 32 \<Longrightarrow> j \<le> room \<Longrightarrow> unat (buf + of_nat j :: u32) = unat buf + j"
  by (simp add: unat_word_ariths unat_of_nat)

lemma sprint_fold:
  assumes "unat buf + room < 2 ^ 32"
  shows "fold sprintputch os \<lparr>sb_mem = m, sb_buf = buf, sb_ebuf = buf + of_nat room, sb_cnt = 0\<rparr> =
    \<lparr>sb_mem = stored m buf (min (length os) room) os, sb_buf = buf + of_nat (min (length os) room),
     sb_ebuf = buf + of_nat room, sb_cnt = int (length os)\<rparr>"
proof (induction os rule: rev_induct)
  case Nil
  show ?case by (simp add: stored_def in_range_def)
next
  case (snoc c os)
  let ?k = "min (length os) room"
  note u = unat_room[OF assms]
  have lt: "buf + of_nat ?k < buf + of_nat room \<longleftrightarrow> length os < room"
    using u[of ?k] u[of room] by (auto simp: word_less_nat_alt)
  have app: "stored m buf ?k (os @ [c]) = stored m buf ?k os"
    by (auto simp: stored_def in_range_def nth_append)
  show ?case
  proof (cases "length os < room")
    case True
    then have k: "?k = length os" "min (length (os @ [c])) room = Suc (length os)" by simp_all
    have "stored m buf (Suc (length os)) (os @ [c]) = (stored m buf (length os) os)(buf + of_nat (length os) := ucast c)"
    proof
      fix x
      have l: "length os < 2 ^ 32" using assms True by linarith
      show "stored m buf (Suc (length os)) (os @ [c]) x = ((stored m buf (length os) os)(buf + of_nat (length os) := ucast c)) x"
      proof (cases "x = buf + of_nat (length os)")
        case True
        then show ?thesis using l by (simp add: stored_def in_range_last[OF l] nth_append unat_of_nat)
      next
        case False
        then have r: "in_range buf (Suc (length os)) x = in_range buf (length os) x" by (simp add: in_range_last[OF l])
        show ?thesis using False unfolding stored_def r by (simp add: nth_append in_range_def)
      qed
    qed
    then show ?thesis using snoc True lt unfolding k by (simp add: sprintputch_def k ac_simps) (rule ext, simp)
  next
    case False
    then have "min (length (os @ [c])) room = ?k" by simp
    then show ?thesis using snoc False lt app by (simp add: sprintputch_def)
  qed
qed

text \<open>
  C32: \<open>vsnprintf\<close> never writes outside the buffer it is given: it stores as many characters as fit with a terminating null
  byte behind them, and returns the length the whole output has.
\<close>

theorem vsnprintf_bounded:
  assumes "buf \<noteq> 0" "1 \<le> n" "unat buf + nat n \<le> 2 ^ 32" "vprintfmt fmt ap = Some os"
  shows "\<exists>m'. vsnprintf m buf n fmt ap = Some (int (length os), m') \<and>
    (\<forall>x. \<not> in_range buf (nat n) x \<longrightarrow> m' x = m x) \<and>
    (\<forall>i < min (length os) (nat n - 1). m' (buf + of_nat i) = ucast (os ! i)) \<and>
    m' (buf + of_nat (min (length os) (nat n - 1))) = 0"
proof -
  let ?room = "nat n - 1" and ?k = "min (length os) (nat n - 1)"
  have room: "unat buf + ?room < 2 ^ 32" using assms(2,3) by linarith
  have e: "buf + word_of_int n - 1 = buf + of_nat ?room"
  proof -
    have "n = int ?room + 1" using assms(2) by simp
    then have "(word_of_int n :: u32) = of_nat ?room + 1" by (metis of_int_of_nat_eq of_int_add of_int_1)
    then show ?thesis by simp
  qed
  have v: "vsnprintf m buf n fmt ap = Some (int (length os), (stored m buf ?k os)(buf + of_nat ?k := 0))"
    using assms(1,2,4) unfolding vsnprintf_def e sprint_fold[OF room] by (simp add: Let_def)
  have inj: "buf + of_nat i \<noteq> buf + of_nat ?k" "unat (of_nat i :: u32) = i" if "i < ?k" for i
  proof -
    have "unat (buf + of_nat i) \<noteq> unat (buf + of_nat ?k)" using unat_room[OF room, of i] unat_room[OF room, of ?k] that by linarith
    then show "buf + of_nat i \<noteq> buf + of_nat ?k" by auto
    show "unat (of_nat i :: u32) = i" using that room by (simp add: unat_of_nat)
  qed
  have k: "unat (of_nat ?k :: u32) = ?k" "?k < nat n" using room assms(2) by (auto simp: unat_of_nat)
  show ?thesis
  proof (intro exI conjI allI impI, rule v)
    fix x assume "\<not> in_range buf (nat n) x"
    then show "((stored m buf ?k os)(buf + of_nat ?k := 0)) x = m x"
      using k by (auto simp: stored_def in_range_def)
  next
    fix i assume "i < ?k"
    then show "((stored m buf ?k os)(buf + of_nat ?k := 0)) (buf + of_nat i) = ucast (os ! i)"
      using inj[of i] by (simp add: stored_def in_range_def)
  qed simp
qed

lemma sample_format: "vprintfmt ''%d:%04x'' [PInt (- 7), PInt 255] = Some (map ascii ''-7:00ff'')"
  by code_simp

theorem vsnprintf_bounded_witness:
  "\<exists>m'. vsnprintf (\<lambda>_. 1) 0x1000 5 ''%d:%04x'' [PInt (- 7), PInt 255] = Some (7, m') \<and>
    m' 0x1005 = 1 \<and> m' 0x1000 = 0x2D \<and> m' 0x1004 = 0"
proof -
  obtain m' where m: "vsnprintf (\<lambda>_. 1) 0x1000 5 ''%d:%04x'' [PInt (- 7), PInt 255] = Some (int (length (map ascii ''-7:00ff'')), m')"
    "\<forall>x. \<not> in_range 0x1000 (nat 5) x \<longrightarrow> m' x = 1"
    "\<forall>i < min (length (map ascii ''-7:00ff'')) (nat 5 - 1). m' (0x1000 + of_nat i) = ucast (map ascii ''-7:00ff'' ! i)"
    "m' (0x1000 + of_nat (min (length (map ascii ''-7:00ff'')) (nat 5 - 1))) = 0"
    using vsnprintf_bounded[OF _ _ _ sample_format, of "0x1000" 5 "\<lambda>_. 1"] by auto
  have "m' 0x1005 = 1" using m(2) by (simp add: in_range_def)
  moreover have "m' 0x1000 = 0x2D" using m(3)[rule_format, of 0] by (simp add: ascii_def)
  ultimately show ?thesis using m(1,4) by simp
qed

text \<open>
  The buffer of a user program's \<open>cprintf\<close> neither loses nor reorders: the strings passed to the system call, joined, are the
  whole output, each of them has at most 255 bytes, and the count returned is the number of characters.
\<close>

theorem vcprintf_user_flushes:
  assumes "vprintfmt fmt ap = Some os"
  shows "\<exists>calls. vcprintf_user fmt ap = Some (int (length os), calls) \<and> concat calls = map ucast os \<and>
    (\<forall>c \<in> set calls. length c \<le> 255) \<and> length calls = length os div 255 + 1"
proof -
  define b where "b os = fold putch_user os \<lparr>pb_buf = [], pb_cnt = 0, pb_calls = []\<rparr>" for os
  have "pb_cnt (b os) = int (length os) \<and> concat (pb_calls (b os)) @ pb_buf (b os) = map ucast os \<and>
    length (pb_buf (b os)) = length os mod 255 \<and> length (pb_calls (b os)) = length os div 255 \<and>
    (\<forall>c \<in> set (pb_calls (b os)). length c \<le> 255)" for os
  proof (induction os rule: rev_induct)
    case Nil
    show ?case by (simp add: b_def)
  next
    case (snoc c os)
    have "b (os @ [c]) = putch_user c (b os)" by (simp add: b_def)
    then show ?case using snoc by (auto simp: putch_user_def Let_def mod_Suc div_Suc)
  qed
  from this[of os] show ?thesis using assms mod_less_divisor[of 255 "length os"] by (auto simp: vcprintf_user_def b_def[symmetric] Let_def)
qed

theorem vcprintf_user_flushes_witness:
  "\<exists>calls. vcprintf_user ''%d:%04x'' [PInt (- 7), PInt 255] = Some (7, calls) \<and>
     concat calls = map (ucast \<circ> ascii) ''-7:00ff'' \<and> (\<forall>c \<in> set calls. length c \<le> 255)"
  using vcprintf_user_flushes[OF sample_format] by auto

text \<open>
  A left-justified number is padded on the left with minus signs; the kernel's \<^verbatim>\<open>cprintf\<close> returns 0.
\<close>

lemma left_justified_number: "vprintfmt ''%-5d'' [PInt 42] = Some (map ascii ''---42'')"
  by code_simp

lemma vcprintf_kern_returns: "vcprintf_kern fmt ap s = Returns n t \<Longrightarrow> n = 0"
  by (auto simp: vcprintf_kern_def kseq_apply split: option.splits outcome.splits)

end
