(* ===== verification/Monitor.thy ===== *)
theory Monitor
  imports Kdebug Printfmt
begin

text \<open>
  The kernel monitor \<^verbatim>\<open>kern/monitor.c\<close>: command line parsing, the three commands, the stack backtrace, the
  command loop; and the printing of trap frames (\<^verbatim>\<open>kern/trap.c\<close>), which the monitor uses.
\<close>

section \<open>Printing trap frames\<close>

definition T_PGFLT :: u32 where [simp, layout_defs]: "T_PGFLT = 14"
definition T_BRKPT :: u32 where [simp, layout_defs]: "T_BRKPT = 3"
definition T_SYSCALL :: u32 where [simp, layout_defs]: "T_SYSCALL = 48"

definition excnames :: "string list" where
  "excnames = [''Divide error'', ''Debug'', ''Non-Maskable Interrupt'', ''Breakpoint'', ''Overflow'',
     ''BOUND Range Exceeded'', ''Invalid Opcode'', ''Device Not Available'', ''Double Fault'',
     ''Coprocessor Segment Overrun'', ''Invalid TSS'', ''Segment Not Present'', ''Stack Fault'',
     ''General Protection'', ''Page Fault'', ''(unknown trap)'', ''x87 FPU Floating-Point Error'',
     ''Alignment Check'', ''Machine-Check'', ''SIMD Floating-Point Exception'']"

text \<open>
  The first comparison is with an unsigned array size, so that a negative trap number is
  not taken for an index.
\<close>

definition trapname :: "u32 \<Rightarrow> string" where
  "trapname trapno =
     (if trapno < of_nat (length excnames) then excnames ! unat trapno
      else if trapno = T_SYSCALL then ''System call''
      else if sint trapno \<ge> sint IRQ_OFFSET \<and> sint trapno < sint (IRQ_OFFSET + 16) then ''Hardware Interrupt''
      else ''(unknown trap)'')"

definition print_regs :: "PushRegs \<Rightarrow> (kstate, unit) kernel" where
  "print_regs regs =
     kseq (cprintf ''  edi  0x%08x\<newline>'' [PInt (reg_edi regs)])
     (kseq (cprintf ''  esi  0x%08x\<newline>'' [PInt (reg_esi regs)])
     (kseq (cprintf ''  ebp  0x%08x\<newline>'' [PInt (reg_ebp regs)])
     (kseq (cprintf ''  oesp 0x%08x\<newline>'' [PInt (reg_oesp regs)])
     (kseq (cprintf ''  ebx  0x%08x\<newline>'' [PInt (reg_ebx regs)])
     (kseq (cprintf ''  edx  0x%08x\<newline>'' [PInt (reg_edx regs)])
     (kseq (cprintf ''  ecx  0x%08x\<newline>'' [PInt (reg_ecx regs)])
     (cprintf ''  eax  0x%08x\<newline>'' [PInt (reg_eax regs)])))))))"

text \<open>The frame at the address \<open>tfp\<close> with the contents \<open>tf\<close>.\<close>

definition print_trapframe :: "u32 \<Rightarrow> Trapframe \<Rightarrow> (kstate, unit) kernel" where
  "print_trapframe tfp tf =
     kbind (kget cpunum) (\<lambda>cpu.
     kseq (cprintf ''TRAP frame at %p from CPU %d\<newline>'' [PInt tfp, PInt (of_nat cpu)])
     (kseq (print_regs (tf_regs tf))
     (kseq (cprintf ''  es   0x----%04x\<newline>'' [PInt (ucast (tf_es tf))])
     (kseq (cprintf ''  ds   0x----%04x\<newline>'' [PInt (ucast (tf_ds tf))])
     (kseq (cprintf ''  trap 0x%08x %s\<newline>'' [PInt (tf_trapno tf), PStr (trapname (tf_trapno tf))])
     (kseq (kbind (kget last_tf) (\<lambda>l. kbind (kget cr2) (\<lambda>c.
        kwhen (tfp = l \<and> tf_trapno tf = T_PGFLT) (cprintf ''  cr2  0x%08x\<newline>'' [PInt c]))))
     (kseq (cprintf ''  err  0x%08x'' [PInt (tf_err tf)])
     (kseq (if tf_trapno tf = T_PGFLT then
          cprintf '' [%s, %s, %s]\<newline>'' [PStr (if tf_err tf AND 4 \<noteq> 0 then ''user'' else ''kernel''),
            PStr (if tf_err tf AND 2 \<noteq> 0 then ''write'' else ''read''),
            PStr (if tf_err tf AND 1 \<noteq> 0 then ''protection'' else ''not-present'')]
        else cprintf ''\<newline>'' [])
     (kseq (cprintf ''  eip  0x%08x\<newline>'' [PInt (tf_eip tf)])
     (kseq (cprintf ''  cs   0x----%04x\<newline>'' [PInt (ucast (tf_cs tf))])
     (kseq (cprintf ''  flag 0x%08x\<newline>'' [PInt (tf_eflags tf)])
     (kwhen (tf_cs tf AND 3 \<noteq> 0)
       (kseq (cprintf ''  esp  0x%08x\<newline>'' [PInt (tf_esp tf)])
       (cprintf ''  ss   0x----%04x\<newline>'' [PInt (ucast (tf_ss tf))]))))))))))))))"

section \<open>Commands\<close>

text \<open>The names and descriptions in the table of commands.\<close>

definition command_table :: "(string \<times> string) list" where
  "command_table = [(''help'', ''Display this list of commands''),
     (''kerninfo'', ''Display information about the kernel''),
     (''backtrace'', ''Display backtrace info'')]"

definition mon_help :: "(kstate, int) kernel" where
  "mon_help = kseq (kfor command_table (\<lambda>(name, desc). cprintf ''%s - %s\<newline>'' [PStr name, PStr desc])) (kret 0)"

definition mon_kerninfo :: "image \<Rightarrow> (kstate, int) kernel" where
  "mon_kerninfo im =
     kseq (cprintf ''Special kernel symbols:\<newline>'' [])
     (kseq (cprintf ''  _start                  %08x (phys)\<newline>'' [PInt (im_start im)])
     (kseq (cprintf ''  entry  %08x (virt)  %08x (phys)\<newline>'' [PInt (im_entry im), PInt (im_entry im - KERNBASE)])
     (kseq (cprintf ''  etext  %08x (virt)  %08x (phys)\<newline>'' [PInt (im_etext im), PInt (im_etext im - KERNBASE)])
     (kseq (cprintf ''  edata  %08x (virt)  %08x (phys)\<newline>'' [PInt (im_edata im), PInt (im_edata im - KERNBASE)])
     (kseq (cprintf ''  end    %08x (virt)  %08x (phys)\<newline>'' [PInt (im_end im), PInt (im_end im - KERNBASE)])
     (kseq (cprintf ''Kernel executable memory footprint: %dKB\<newline>''
         [PInt (ROUNDUP (im_end im - im_entry im) 1024 div 1024)])
     (kret 0)))))))"

text \<open>
  The loop of the backtrace follows saved frame pointers until a null one. It changes no memory, so
  that a frame seen before means that it goes round in a circle and never ends.
\<close>

function backtrace :: "image \<Rightarrow> u32 list \<Rightarrow> u32 \<Rightarrow> (kstate, int) kernel" where
  "backtrace im seen p =
     (if p = 0 then kret 0
      else if p \<in> set seen then kleave Spins
      else
        kbind (vload32 (p + 4)) (\<lambda>eip.
        kseq (cprintf ''ebp %x eip %x args'' [PInt p, PInt eip])
        (kseq (kfor [0..<5] (\<lambda>i. kbind (vload32 (p + 8 + 4 * of_nat i)) (\<lambda>argi. cprintf '' %08x '' [PInt argi])))
        (kseq (cprintf ''\<newline>'' [])
        (kbind (debuginfo_eip im eip) (\<lambda>(r, info).
         kseq (cprintf (CHR 0x09 # ''%s:%d: %.*s+%d\<newline>'') [PStr (eip_file info), PInt (word_of_int (eip_line info)),
           PInt (of_nat (eip_fn_namelen info)), PStr (eip_fn_name info), PInt (eip - eip_fn_addr info)])
        (kbind (vload32 p) (\<lambda>next. backtrace im (p # seen) next))))))))"
  by pat_completeness auto
termination
proof (relation "measure (\<lambda>(im, seen, p). card (UNIV - set seen))", goal_cases)
  case 1
  show ?case by simp
next
  case (2 im seen p)
  have "card (UNIV - set (p # seen)) < card (UNIV - set seen)" using 2(2) by (intro psubset_card_mono) auto
  then show ?case by simp
qed

declare backtrace.simps [simp del]

definition mon_backtrace :: "image \<Rightarrow> (kstate, int) kernel" where
  "mon_backtrace im = kbind (kget ebp) (backtrace im [])"

section \<open>The command interpreter\<close>

definition MAXARGS :: nat where [simp, layout_defs]: "MAXARGS = 16"

definition is_white :: "u8 \<Rightarrow> bool" where
  "is_white c \<longleftrightarrow> c = 9 \<or> c = 13 \<or> c = 10 \<or> c = 0x20"

text \<open>The words of a command line, or \<^const>\<open>None\<close> when there are too many.\<close>

function parse_args :: "nat \<Rightarrow> u8 list \<Rightarrow> u8 list list option" where
  "parse_args argc buf =
     (let b = dropWhile is_white buf in
      if b = [] then Some []
      else if argc = MAXARGS - 1 then None
      else map_option (\<lambda>args. takeWhile (\<lambda>c. \<not> is_white c) b # args)
        (parse_args (argc + 1) (dropWhile (\<lambda>c. \<not> is_white c) b)))"
  by pat_completeness auto
termination
proof (relation "measure (\<lambda>(argc, buf). length buf)", goal_cases)
  case 1
  show ?case by simp
next
  case (2 argc buf x)
  obtain c cs where x: "x = c # cs" using 2(2) by (cases x) simp_all
  have "\<not> is_white c" using 2(1) x by (metis hd_dropWhile list.sel(1) list.distinct(1))
  then have "length (dropWhile (\<lambda>c. \<not> is_white c) x) \<le> length cs" using x by (simp add: length_dropWhile_le)
  moreover have "length x \<le> length buf" using 2(1) by (simp add: length_dropWhile_le)
  ultimately show ?case using x by simp
qed

declare parse_args.simps [simp del]

definition bytes_of :: "string \<Rightarrow> u8 list" where
  "bytes_of = map byte"

definition chars_of :: "u8 list \<Rightarrow> string" where
  "chars_of = map (\<lambda>b. char_of (unat b))"

text \<open>
  Command lines end at the first null byte; commands are found by comparing the first word
  with their names in the order of the table. No command uses its arguments or the trap frame.
\<close>

definition runcmd :: "image \<Rightarrow> u8 list \<Rightarrow> (kstate, int) kernel" where
  "runcmd im buf =
     (case parse_args 0 (takeWhile (\<lambda>c. c \<noteq> 0) buf) of
        None \<Rightarrow> kseq (cprintf ''Too many arguments (max %d)\<newline>'' [PInt (of_nat MAXARGS)]) (kret 0)
      | Some [] \<Rightarrow> kret 0
      | Some (cmd # args) \<Rightarrow>
          if cmd = bytes_of ''help'' then mon_help
          else if cmd = bytes_of ''kerninfo'' then mon_kerninfo im
          else if cmd = bytes_of ''backtrace'' then mon_backtrace im
          else kseq (cprintf ''Unknown command '%s'\<newline>'' [PStr (chars_of cmd)]) (kret 0))"

text \<open>
  The loop reads lines until a command returns a negative number. Every line takes at least one of the characters
  that are waiting, so that there are not more lines than characters.
\<close>

primrec monitor_loop :: "nat \<Rightarrow> image \<Rightarrow> (kstate, unit) kernel" where
  "monitor_loop 0 im = kleave Spins"
| "monitor_loop (Suc n) im = kbind (readline (Some ''K> '')) (\<lambda>buf. case buf of
       None \<Rightarrow> monitor_loop n im
     | Some line \<Rightarrow> kbind (runcmd im line) (\<lambda>r. if r < 0 then kret () else monitor_loop n im))"

text \<open>The argument is a null pointer or a frame with its address.\<close>

definition monitor :: "image \<Rightarrow> (u32 \<times> Trapframe) option \<Rightarrow> (kstate, unit) kernel" where
  "monitor im tf =
     kseq (cprintf ''Welcome to the JOS kernel monitor!\<newline>'' [])
     (kseq (cprintf ''Type 'help' for a list of commands.\<newline>'' [])
     (kseq (case tf of None \<Rightarrow> kret () | Some (p, f) \<Rightarrow> print_trapframe p f)
     (\<lambda>s. monitor_loop (Suc (waiting s)) im s)))"

section \<open>Command lines\<close>

text \<open>A line made of words, each after some white space.\<close>

definition line_of :: "(u8 list \<times> u8 list) list \<Rightarrow> u8 list \<Rightarrow> u8 list" where
  "line_of pws trail = concat (map (\<lambda>(sep, w). sep @ w) pws) @ trail"

definition separated :: "(u8 list \<times> u8 list) list \<Rightarrow> bool" where
  "separated pws \<longleftrightarrow> (\<forall>(sep, w) \<in> set pws. (\<forall>c \<in> set sep. is_white c) \<and> w \<noteq> [] \<and> (\<forall>c \<in> set w. \<not> is_white c)) \<and>
     (\<forall>(sep, w) \<in> set (tl pws). sep \<noteq> [])"

section \<open>The command loop\<close>

text \<open>Computations whose result, if they return one, is not negative.\<close>

definition nonneg :: "(kstate, int) kernel \<Rightarrow> bool" where
  "nonneg m \<longleftrightarrow> (\<forall>s r t. m s = Returns r t \<longrightarrow> 0 \<le> r)"

section \<open>Backtraces\<close>

definition kword :: "mem \<Rightarrow> u32 \<Rightarrow> u32" where
  "kword m a = read32 m (a - KERNBASE)"

text \<open>The frames on a stack: \<open>fs\<close> are the frame pointers from \<open>p\<close> to the null pointer.\<close>

primrec stack_frames :: "mem \<Rightarrow> u32 \<Rightarrow> u32 list \<Rightarrow> bool" where
  "stack_frames m p [] \<longleftrightarrow> p = 0"
| "stack_frames m p (f # fs) \<longleftrightarrow> p = f \<and> f \<noteq> 0 \<and> stack_frames m (kword m f) fs"

definition frame_ok :: "image \<Rightarrow> mem \<Rightarrow> u32 \<Rightarrow> bool" where
  "frame_ok im m f \<longleftrightarrow> KERNBASE \<le> f \<and> f \<le> 0xFFFFFFE0 \<and> ULIM \<le> kword m (f + 4) \<and>
     debuginfo_table (im_stabs im) (im_stabstr im) (kword m (f + 4)) \<noteq> None"

definition frame_lines :: "image \<Rightarrow> mem \<Rightarrow> u32 \<Rightarrow> (string \<times> parg list) list" where
  "frame_lines im m f =
     (let eip = kword m (f + 4); info = snd (the (debuginfo_table (im_stabs im) (im_stabstr im) eip)) in
      (''ebp %x eip %x args'', [PInt f, PInt eip]) #
      map (\<lambda>i. ('' %08x '', [PInt (kword m (f + 8 + 4 * of_nat i))])) [0..<5] @
      [(''\<newline>'', []), (CHR 0x09 # ''%s:%d: %.*s+%d\<newline>'', [PStr (eip_file info), PInt (word_of_int (eip_line info)),
         PInt (of_nat (eip_fn_namelen info)), PStr (eip_fn_name info), PInt (eip - eip_fn_addr info)])])"

text \<open>A machine whose stack has one frame, at \<open>0xF0002000\<close>, that returns into the sample table.\<close>

definition stack_machine :: kstate where
  "stack_machine = small_machine\<lparr>ebp := 0xF0002000, pmem := write32 (\<lambda>_. 0) 0x2004 0xF0100048\<rparr>"

definition sample_image :: image where
  "sample_image = \<lparr>im_stabs = sample_stabs, im_stabstr = sample_stabstr, im_start = 0x10000C, im_entry = 0xF010000C,
     im_etext = 0xF0101000, im_edata = 0xF0102000, im_end = 0xF0103000, im_ts = 0xF0102800,
     im_handler = (\<lambda>h. if h = ''handler14'' then 0xF01008E0 else 0xF0100800), im_kstacks = 0xF0120000, im_mpentry = [0xFA, 0x31, 0xC0], im_binary = 0xF0110000\<rparr>"

lemma set_tl_subset: "set (tl xs) \<subseteq> set xs"
  by (cases xs) auto

lemma dropWhile_all: "(\<forall>c \<in> set xs. P c) \<Longrightarrow> dropWhile P (xs @ ys) = dropWhile P ys"
  by (induction xs) auto

lemma takeWhile_word:
  "(\<forall>c \<in> set w. \<not> is_white c) \<Longrightarrow> (case r of [] \<Rightarrow> True | c # _ \<Rightarrow> is_white c) \<Longrightarrow>
   takeWhile (\<lambda>c. \<not> is_white c) (w @ r) = w \<and> dropWhile (\<lambda>c. \<not> is_white c) (w @ r) = r"
  by (induction w) (auto split: list.splits)

lemma line_rest_white:
  assumes "separated ((sep, w) # pws)" "\<forall>c \<in> set trail. is_white c"
  shows "case line_of pws trail of [] \<Rightarrow> True | c # _ \<Rightarrow> is_white c"
proof (cases pws)
  case Nil
  then show ?thesis using assms(2) by (auto simp: line_of_def split: list.splits)
next
  case (Cons p qs)
  obtain sp w2 where p: "p = (sp, w2)" by fastforce
  then have "sp \<noteq> []" "\<forall>c \<in> set sp. is_white c" using assms(1) Cons by (auto simp: separated_def)
  then show ?thesis using Cons p by (cases sp) (auto simp: line_of_def)
qed

lemma parse_args_line:
  "separated pws \<Longrightarrow> \<forall>c \<in> set trail. is_white c \<Longrightarrow> argc \<le> 15 \<Longrightarrow>
   parse_args argc (line_of pws trail) = (if argc + length pws \<le> 15 then Some (map snd pws) else None)"
proof (induction pws arbitrary: argc)
  case Nil
  have "dropWhile is_white (line_of [] trail) = []" using Nil by (simp add: line_of_def)
  then show ?case using Nil by (subst parse_args.simps) (simp only: Let_def, simp)
next
  case (Cons pw pws)
  obtain sep w where pw: "pw = (sep, w)" by fastforce
  have s: "\<forall>c \<in> set sep. is_white c" "w \<noteq> []" "\<forall>c \<in> set w. \<not> is_white c" "separated pws"
    using Cons.prems(1) pw by (auto simp: separated_def dest: subsetD[OF set_tl_subset])
  have l: "line_of (pw # pws) trail = sep @ w @ line_of pws trail" using pw by (simp add: line_of_def)
  obtain c cs where w: "w = c # cs" using s(2) by (cases w) auto
  have d: "dropWhile is_white (line_of (pw # pws) trail) = w @ line_of pws trail"
    unfolding l using s(1,3) w by (simp add: dropWhile_all)
  note tw = takeWhile_word[OF s(3) line_rest_white[OF Cons.prems(1)[unfolded pw] Cons.prems(2)]]
  have e: "parse_args argc (line_of (pw # pws) trail) = (if argc = 15 then None
    else map_option (\<lambda>args. w # args) (parse_args (argc + 1) (line_of pws trail)))"
    using s(2) tw by (subst parse_args.simps) (simp add: d Let_def)
  show ?case
  proof (cases "argc = 15")
    case True
    then show ?thesis unfolding e by simp
  next
    case False
    then show ?thesis unfolding e using Cons.IH[OF s(4) Cons.prems(2), of "argc + 1"] Cons.prems(3) pw by simp
  qed
qed

text \<open>
  A command line is split at white space into its words: up to fifteen words, with any white space between and
  around them, become the argument vector in their order; more are rejected.
\<close>

theorem parse_args_words:
  assumes "separated pws" "\<forall>c \<in> set trail. is_white c"
  shows "parse_args 0 (line_of pws trail) = (if length pws \<le> MAXARGS - 1 then Some (map snd pws) else None)"
  using parse_args_line[OF assms, of 0] by simp

theorem parse_args_words_witness:
  "parse_args 0 [0x20, 0x68, 0x69, 0x20, 9, 0x78, 10] = Some [[0x68, 0x69], [0x78]]"
proof -
  have "line_of [([0x20], [0x68, 0x69]), ([0x20, 9], [0x78])] [10] = [0x20, 0x68, 0x69, 0x20, 9, 0x78, 10]"
    by (simp add: line_of_def)
  moreover have "separated [([0x20], [0x68, 0x69]), ([0x20, 9], [0x78])]" by (simp add: separated_def is_white_def)
  ultimately show ?thesis
    using parse_args_words[of "[([0x20], [0x68, 0x69]), ([0x20, 9], [0x78])]" "[10]"] by (simp add: is_white_def)
qed

lemma nonneg_kret: "0 \<le> r \<Longrightarrow> nonneg (kret r)"
  by (simp add: nonneg_def)

lemma nonneg_kseq: "nonneg n \<Longrightarrow> nonneg (kseq m n)"
  by (auto simp: nonneg_def kseq_apply split: outcome.splits)

lemma nonneg_kbind: "(\<And>x. nonneg (f x)) \<Longrightarrow> nonneg (kbind m f)"
  by (auto simp: nonneg_def kbind_apply split: outcome.splits)

lemma nonneg_backtrace: "nonneg (backtrace im seen p)"
proof (induction im seen p rule: backtrace.induct)
  case (1 im seen p)
  show ?case
  proof (cases "p = 0 \<or> p \<in> set seen")
    case True
    then show ?thesis by (subst backtrace.simps) (auto simp: nonneg_def)
  next
    case False
    then show ?thesis using 1
      by (subst backtrace.simps) (auto intro!: nonneg_kbind nonneg_kseq split: prod.splits)
  qed
qed

lemma nonneg_runcmd: "nonneg (runcmd im buf)"
  unfolding runcmd_def mon_help_def mon_kerninfo_def mon_backtrace_def
  by (auto intro!: nonneg_kseq nonneg_kret nonneg_kbind nonneg_backtrace split: option.splits list.splits)

lemma monitor_loop_stays: "monitor_loop n im s \<noteq> Returns r t"
proof (induction n arbitrary: s)
  case 0
  show ?case by simp
next
  case (Suc n)
  have "\<not> r' < 0" if "runcmd im line u = Returns r' v" for line u r' v
    using nonneg_runcmd[of im line] that unfolding nonneg_def by fastforce
  then show ?case using Suc by (auto simp: kbind_apply split: outcome.splits option.splits)
qed

text \<open>
  The monitor never returns: no command gives a negative result, so that a breakpoint of a user
  environment, or a panic, ends in the monitor for good.
\<close>

theorem monitor_never_returns: "monitor im tf s \<noteq> Returns r t"
  unfolding monitor_def by (auto simp: kseq_apply monitor_loop_stays split: outcome.splits simp del: monitor_loop.simps)

lemma stack_frames_unique: "stack_frames m p xs \<Longrightarrow> stack_frames m p ys \<Longrightarrow> xs = ys"
proof (induction xs arbitrary: p ys)
  case Nil
  then show ?case by (cases ys) auto
next
  case (Cons x xs)
  then show ?case by (cases ys) auto
qed

lemma stack_frames_suffix: "stack_frames m p (xs @ y # ys) \<Longrightarrow> stack_frames m y (y # ys)"
  by (induction xs arbitrary: p) auto

lemma stack_frames_distinct: "stack_frames m p fs \<Longrightarrow> distinct fs"
proof (induction fs arbitrary: p)
  case Nil
  show ?case by simp
next
  case (Cons f fs)
  have "f \<notin> set fs"
  proof
    assume "f \<in> set fs"
    then obtain xs ys where fs: "fs = xs @ f # ys" by (meson split_list)
    have "stack_frames m p ((f # xs) @ f # ys)" using Cons.prems unfolding fs by simp
    then have "stack_frames m f (f # ys)" by (rule stack_frames_suffix)
    moreover have "stack_frames m f (f # fs)" using Cons.prems unfolding stack_frames.simps by blast
    ultimately have "f # ys = f # fs" by (rule stack_frames_unique)
    then have "length ys = length fs" by simp
    then show False unfolding fs by simp
  qed
  moreover have "distinct fs" using Cons.prems Cons.IH unfolding stack_frames.simps by blast
  ultimately show ?case by simp
qed

lemma vload8_kernel: "KERNBASE \<le> a \<Longrightarrow> vload8 a s = Returns (pmem s (a - KERNBASE)) s"
  by (simp add: vload8_def translate_def del: KERNBASE_def)

lemma le_add_small:
  assumes "KERNBASE \<le> a" "a \<le> 0xFFFFFFE0" "k < 32"
  shows "KERNBASE \<le> a + (k :: u32)"
proof -
  have "unat a + unat k < 4294967296" using assms(2,3) by (simp add: word_le_nat_alt word_less_nat_alt)
  then have "unat (a + k) = unat a + unat k" by (simp add: unat_word_ariths)
  then show ?thesis using assms(1) by (simp add: word_le_nat_alt)
qed

lemma vload32_kernel:
  assumes "KERNBASE \<le> a" "KERNBASE \<le> a + 1" "KERNBASE \<le> a + 2" "KERNBASE \<le> a + 3"
  shows "vload32 a s = Returns (kword (pmem s) a) s"
  using assms by (simp add: vload32_def vload8_kernel kword_def read32_def add_diff_eq diff_add_eq del: KERNBASE_def)

lemma vload32_frame:
  assumes "KERNBASE \<le> f" "f \<le> 0xFFFFFFE0" "k < 29"
  shows "vload32 (f + k) s = Returns (kword (pmem s) (f + k)) s"
proof -
  have "k + j < 32" "k < 32" if "j < 4" for j
  proof -
    have "unat k + unat j < 32" "unat k < 29" using assms(3) that by (simp_all add: word_less_nat_alt)
    then show "k + j < 32" "k < 32" by (simp_all add: word_less_nat_alt unat_word_ariths)
  qed
  note kj = this
  have "KERNBASE \<le> f + k + j" if "j < 4" for j using le_add_small[OF assms(1,2) kj(1)[OF that]] by (simp only: add.assoc)
  from this[of 0] this[of 1] this[of 2] this[of 3] show ?thesis
    by (intro vload32_kernel) (simp_all del: KERNBASE_def)
qed

lemma kfor_print_words:
  assumes "\<And>i t. i \<in> set is \<Longrightarrow> vload32 (a i) t = Returns (kword (pmem t) (a i)) t"
  shows "kfor is (\<lambda>i. kbind (vload32 (a i)) (\<lambda>v. cprintf fmt [PInt v])) s =
    Returns () (s\<lparr>klog := klog s @ map (\<lambda>i. (fmt, [PInt (kword (pmem s) (a i))])) is\<rparr>)"
  using assms by (induction "is" arbitrary: s) simp_all

lemma backtrace_step:
  assumes ok: "frame_ok im (pmem s) f" and f: "f \<noteq> 0" "f \<notin> set seen"
  shows "backtrace im seen f s =
    backtrace im (f # seen) (kword (pmem s) f) (s\<lparr>klog := klog s @ frame_lines im (pmem s) f\<rparr>)"
proof -
  have k: "KERNBASE \<le> f" "f \<le> 0xFFFFFFE0" and u: "ULIM \<le> kword (pmem s) (f + 4)" using ok by (simp_all add: frame_ok_def)
  obtain r info where d: "debuginfo_table (im_stabs im) (im_stabstr im) (kword (pmem s) (f + 4)) = Some (r, info)"
    using ok by (auto simp: frame_ok_def)
  have l: "vload32 f t = Returns (kword (pmem t) f) t" "vload32 (f + 4) t = Returns (kword (pmem t) (f + 4)) t" for t
    using vload32_frame[OF k, of 0 t] vload32_frame[OF k, of 4 t] by simp_all
  have args: "vload32 (f + 8 + 4 * of_nat i) t = Returns (kword (pmem t) (f + 8 + 4 * of_nat i)) t" if "i < 5" for i t
  proof -
    have "i = 0 \<or> i = 1 \<or> i = 2 \<or> i = 3 \<or> i = 4" using that by linarith
    then have "(8 + 4 * of_nat i :: u32) < 29" by auto
    from vload32_frame[OF k this] show ?thesis by (simp only: add.assoc)
  qed
  have kf: "kfor [0..<5] (\<lambda>i. kbind (vload32 (f + 8 + 4 * of_nat i)) (\<lambda>v. cprintf '' %08x '' [PInt v])) t =
    Returns () (t\<lparr>klog := klog t @ map (\<lambda>i. ('' %08x '', [PInt (kword (pmem t) (f + 8 + 4 * of_nat i))])) [0..<5]\<rparr>)" for t
    by (rule kfor_print_words, rule args) simp
  have de: "debuginfo_eip im (kword (pmem s) (f + 4)) t = Returns (r, info) t" for t
    using u d by (simp add: debuginfo_eip_def Let_def)
  show ?thesis
    using f l de d
    by (subst backtrace.simps) (simp add: frame_lines_def Let_def kf del: KERNBASE_def kfor.simps upt_rec_numeral)
qed

lemma backtrace_frames:
  "stack_frames (pmem s) p fs \<Longrightarrow> \<forall>f \<in> set fs. frame_ok im (pmem s) f \<Longrightarrow> distinct fs \<Longrightarrow> set seen \<inter> set fs = {} \<Longrightarrow>
   backtrace im seen p s = Returns 0 (s\<lparr>klog := klog s @ concat (map (frame_lines im (pmem s)) fs)\<rparr>)"
proof (induction fs arbitrary: p seen s)
  case Nil
  then show ?case by (subst backtrace.simps) simp
next
  case (Cons f fs)
  then have f: "p = f" "f \<noteq> 0" "f \<notin> set seen" "frame_ok im (pmem s) f" by auto
  let ?t = "s\<lparr>klog := klog s @ frame_lines im (pmem s) f\<rparr>"
  have "backtrace im seen p s = backtrace im (f # seen) (kword (pmem s) f) ?t"
    unfolding f(1) using f by (intro backtrace_step)
  also have "\<dots> = Returns 0 (?t\<lparr>klog := klog ?t @ concat (map (frame_lines im (pmem ?t)) fs)\<rparr>)"
    using Cons.prems by (intro Cons.IH) auto
  finally show ?case by simp
qed

text \<open>
  C36: A backtrace ends at the null frame pointer and prints, for each frame on the stack in order, its
  frame pointer, return address, five argument words and the source position found for the return
  address, and changes nothing else.
\<close>

theorem backtrace_prints_stack:
  assumes "stack_frames (pmem s) (ebp s) fs" "\<forall>f \<in> set fs. frame_ok im (pmem s) f"
  shows "mon_backtrace im s = Returns 0 (s\<lparr>klog := klog s @ concat (map (frame_lines im (pmem s)) fs)\<rparr>)"
  unfolding mon_backtrace_def using backtrace_frames[OF assms stack_frames_distinct[OF assms(1)], of "[]"] by simp

lemma sample_lookup: "debuginfo_table sample_stabs sample_stabstr 0xF0100048 \<noteq> None"
  by code_simp

lemma stack_machine_words: "kword (pmem stack_machine) 0xF0002000 = 0" "kword (pmem stack_machine) 0xF0002004 = 0xF0100048"
proof -
  have "aligned4 0x2004" "aligned4 0x2000" by (simp_all add: aligned4_def)
  then show "kword (pmem stack_machine) 0xF0002000 = 0" "kword (pmem stack_machine) 0xF0002004 = 0xF0100048"
    by (simp_all add: kword_def stack_machine_def read32_write32_other) (simp add: read32_def)
qed

theorem backtrace_prints_stack_witness:
  "mon_backtrace sample_image stack_machine = Returns 0 (stack_machine\<lparr>klog := klog stack_machine @
     frame_lines sample_image (pmem stack_machine) 0xF0002000\<rparr>)"
proof -
  have "stack_frames (pmem stack_machine) (ebp stack_machine) [0xF0002000]"
    using stack_machine_words(1) by (simp add: stack_machine_def)
  moreover have "frame_ok sample_image (pmem stack_machine) 0xF0002000"
    using stack_machine_words(2) sample_lookup by (simp add: frame_ok_def sample_image_def)
  ultimately show ?thesis using backtrace_prints_stack[of stack_machine "[0xF0002000]" sample_image] by simp
qed

end
