(* ===== verification/Syscall.thy ===== *)
theory Syscall
  imports Monitor
begin

text \<open>
  System calls, \<^verbatim>\<open>kern/syscall.c\<close>. At this commit \<^verbatim>\<open>syscall\<close> panics before it looks at the number of the call; the
  dispatch behind the panic and the calls it reaches are modelled as \<open>syscall_switch\<close>. The calls of the
  fourth lab are stubs that panic.
\<close>

definition SYS_cputs :: u32 where [simp, layout_defs]: "SYS_cputs = 0"
definition SYS_cgetc :: u32 where [simp, layout_defs]: "SYS_cgetc = 1"
definition SYS_getenvid :: u32 where [simp, layout_defs]: "SYS_getenvid = 2"
definition SYS_env_destroy :: u32 where [simp, layout_defs]: "SYS_env_destroy = 3"

text \<open>The current environment, where the code dereferences \<^verbatim>\<open>curenv\<close>.\<close>

definition the_curenv :: "(kstate, nat) kernel" where
  "the_curenv = kbind (kget curenv) (\<lambda>c. case c of None \<Rightarrow> kpanic ''null pointer dereference'' | Some e \<Rightarrow> kret e)"

text \<open>The bytes of a string in the current address space up to a null byte, at most \<open>n\<close> of them.\<close>

primrec vload_upto :: "nat \<Rightarrow> u32 \<Rightarrow> (kstate, string) kernel" where
  "vload_upto 0 va = kret []"
| "vload_upto (Suc n) va = kbind (vload8 va) (\<lambda>b. if b = 0 then kret []
     else kbind (vload_upto n (va + 1)) (\<lambda>cs. kret (char_of (unat b) # cs)))"

text \<open>A length that is negative as an \<^verbatim>\<open>int\<close> is no limit to \<^verbatim>\<open>%.*s\<close>.\<close>

definition sys_cputs :: "u32 \<Rightarrow> u32 \<Rightarrow> (kstate, unit) kernel" where
  "sys_cputs s len =
     kbind the_curenv (\<lambda>e.
     kseq (user_mem_assert e s len 0)
     (kbind (vload_upto (if sint len < 0 then 2 ^ 32 else unat len) s) (\<lambda>str.
      cprintf ''%.*s'' [PInt len, PStr str])))"

definition sys_cgetc :: "(kstate, int) kernel" where
  "sys_cgetc = cons_getc"

definition sys_getenvid :: "(kstate, int) kernel" where
  "sys_getenvid = kbind the_curenv (\<lambda>c. kbind (env_at c) (\<lambda>e. kret (sint (env_id e))))"

definition sys_env_destroy :: "u32 \<Rightarrow> (kstate, int) kernel" where
  "sys_env_destroy envid =
     kbind (envid2env envid True) (\<lambda>(r, e).
     if r < 0 then kret r
     else kbind the_curenv (\<lambda>c. kbind (env_at c) (\<lambda>ce. case e of
         None \<Rightarrow> kpanic ''null pointer dereference''
       | Some i \<Rightarrow> kbind (env_at i) (\<lambda>ie.
           kseq (if i = c then cprintf ''[%08x] exiting gracefully\<newline>'' [PInt (env_id ce)]
                 else cprintf ''[%08x] destroying %08x\<newline>'' [PInt (env_id ce), PInt (env_id ie)])
           (kseq (env_destroy i) (kret 0))))))"

definition sys_yield :: "(kstate, unit) kernel" where
  "sys_yield = sched_yield"

definition sys_exofork :: "(kstate, int) kernel" where
  "sys_exofork = kpanic ''sys_exofork not implemented''"

definition sys_env_set_status :: "u32 \<Rightarrow> int \<Rightarrow> (kstate, int) kernel" where
  "sys_env_set_status envid status = kpanic ''sys_env_set_status not implemented''"

definition sys_env_set_pgfault_upcall :: "u32 \<Rightarrow> u32 \<Rightarrow> (kstate, int) kernel" where
  "sys_env_set_pgfault_upcall envid func = kpanic ''sys_env_set_pgfault_upcall not implemented''"

definition sys_page_alloc :: "u32 \<Rightarrow> u32 \<Rightarrow> int \<Rightarrow> (kstate, int) kernel" where
  "sys_page_alloc envid va perm = kpanic ''sys_page_alloc not implemented''"

definition sys_page_map :: "u32 \<Rightarrow> u32 \<Rightarrow> u32 \<Rightarrow> u32 \<Rightarrow> int \<Rightarrow> (kstate, int) kernel" where
  "sys_page_map srcenvid srcva dstenvid dstva perm = kpanic ''sys_page_map not implemented''"

definition sys_page_unmap :: "u32 \<Rightarrow> u32 \<Rightarrow> (kstate, int) kernel" where
  "sys_page_unmap envid va = kpanic ''sys_page_unmap not implemented''"

definition sys_ipc_try_send :: "u32 \<Rightarrow> u32 \<Rightarrow> u32 \<Rightarrow> u32 \<Rightarrow> (kstate, int) kernel" where
  "sys_ipc_try_send envid val srcva perm = kpanic ''sys_ipc_try_send not implemented''"

definition sys_ipc_recv :: "u32 \<Rightarrow> (kstate, int) kernel" where
  "sys_ipc_recv dstva = kpanic ''sys_ipc_recv not implemented''"

definition syscall_switch :: "u32 \<Rightarrow> u32 \<Rightarrow> u32 \<Rightarrow> (kstate, int) kernel" where
  "syscall_switch syscallno a1 a2 =
     (if syscallno = SYS_cputs then kseq (sys_cputs a1 a2) (kret 0)
      else if syscallno = SYS_cgetc then sys_cgetc
      else if syscallno = SYS_getenvid then sys_getenvid
      else if syscallno = SYS_env_destroy then sys_env_destroy a1
      else kret (- E_INVAL))"

definition syscall :: "u32 \<Rightarrow> u32 \<Rightarrow> u32 \<Rightarrow> u32 \<Rightarrow> u32 \<Rightarrow> u32 \<Rightarrow> (kstate, int) kernel" where
  "syscall syscallno a1 a2 a3 a4 a5 = kseq (kpanic ''syscall not implemented'' :: (kstate, unit) kernel) (syscall_switch syscallno a1 a2)"

section \<open>Errors of system calls\<close>

text \<open>
  Behind the panic, the dispatch returns the caller's identifier for \<open>SYS_getenvid\<close>, \<open>- E_INVAL\<close> for an unknown call and
  \<open>- E_BAD_ENV\<close> for destroying an environment that does not exist or that the caller is neither nor the
  parent of, and changes nothing in any of these cases.
\<close>

theorem syscall_switch_errors:
  assumes "length (envs s) = NENV" "curenv s = Some c" "c < NENV"
  shows "syscall_switch SYS_getenvid a1 a2 s = Returns (sint (env_id (envs s ! c))) s \<and>
    (no > SYS_env_destroy \<longrightarrow> syscall_switch no a1 a2 s = Returns (- E_INVAL) s) \<and>
    (a1 \<noteq> 0 \<and> \<not> (env_status (envs s ! ENVX a1) \<noteq> ENV_FREE \<and> env_id (envs s ! ENVX a1) = a1 \<and> may_manage s c (ENVX a1)) \<longrightarrow>
      syscall_switch SYS_env_destroy a1 a2 s = Returns (- E_BAD_ENV) s)"
proof -
  have c: "the_curenv s = Returns c s" "env_at c s = Returns (envs s ! c) s"
    using assms by (simp_all add: the_curenv_def env_at_def)
  have n: "no \<noteq> 0 \<and> no \<noteq> 1 \<and> no \<noteq> 2 \<and> no \<noteq> 3" if "no > 3" using that by auto
  show ?thesis using c n envid2env_eq[OF assms, of a1 True]
    by (auto simp: syscall_switch_def sys_getenvid_def sys_env_destroy_def)
qed

theorem syscall_switch_errors_witness:
  "syscall_switch 9 0 0 (small_machine\<lparr>cpus := replicate 8 \<lparr>cpu_id = 0, cpu_status = CPU_STARTED, cpu_env = Some 0, cpu_ts = Taskstate_zero\<rparr>\<rparr>)
   = Returns (- 3) (small_machine\<lparr>cpus := replicate 8 \<lparr>cpu_id = 0, cpu_status = CPU_STARTED, cpu_env = Some 0, cpu_ts = Taskstate_zero\<rparr>\<rparr>)"
  using syscall_switch_errors[of "small_machine\<lparr>cpus := replicate 8 \<lparr>cpu_id = 0, cpu_status = CPU_STARTED, cpu_env = Some 0, cpu_ts = Taskstate_zero\<rparr>\<rparr>"
      0 0 0 9]
  by (simp add: small_machine_def curenv_def thiscpu_def)

end
