(* ===== verification/Trap.thy ===== *)
theory Trap
  imports Syscall
begin

text \<open>
  Traps, \<^verbatim>\<open>kern/trap.c\<close>: building the interrupt descriptor table, the task state of the processor, the handler
  that every trap enters, its dispatch and the page fault handler. The addresses of the entry points in \<^verbatim>\<open>kern/trapentry.S\<close> and of
  the task state come with the image.
\<close>

section \<open>Initialisation\<close>

definition FL_IF :: u32 where [simp, layout_defs]: "FL_IF = 0x200"

text \<open>\<^verbatim>\<open>sizeof(struct Taskstate)\<close>.\<close>

definition sizeof_Taskstate :: nat where [simp, layout_defs]: "sizeof_Taskstate = 104"

definition trap_init_percpu :: "image \<Rightarrow> (kstate, unit) kernel" where
  "trap_init_percpu im =
     kseq (kmodify (\<lambda>s. s\<lparr>ts := (ts s)\<lparr>ts_esp0 := KSTACKTOP, ts_ss0 := GD_KD, ts_iomb := of_nat sizeof_Taskstate\<rparr>\<rparr>))
     (kseq (kmodify (\<lambda>s. s\<lparr>gdt := (gdt s)[unat (drop_bit 3 GD_TSS0) :=
        (SEG16 STS_T32A (im_ts im) (of_nat sizeof_Taskstate - 1) 0)\<lparr>sd_s := 0\<rparr>]\<rparr>))
     (kseq (hwop ''ltr'' (ucast GD_TSS0))
     (hwop ''lidt'' 0)))"

text \<open>The uses of \<^verbatim>\<open>SETGATE\<close> in \<^verbatim>\<open>trap_init\<close>: the vector, the name of the entry point, the privilege level.\<close>

definition gates :: "(nat \<times> string \<times> 2 word) list" where
  "gates = [(0, ''handler0'', 0), (1, ''handler1'', 0), (2, ''handler2'', 0), (3, ''handler3'', 3), (4, ''handler4'', 0),
     (5, ''handler5'', 0), (6, ''handler6'', 0), (7, ''handler7'', 0), (8, ''handler8'', 0), (10, ''handler10'', 0),
     (11, ''handler11'', 0), (12, ''handler12'', 0), (13, ''handler13'', 0), (14, ''handler14'', 0), (16, ''handler16'', 0), (48, ''handler48'', 3)]"

definition set_gate :: "image \<Rightarrow> nat \<times> string \<times> 2 word \<Rightarrow> (kstate, unit) kernel" where
  "set_gate im = (\<lambda>(v, h, dpl). kmodify (\<lambda>s. s\<lparr>idt := (idt s)[v := SETGATE False GD_KT (im_handler im h) dpl]\<rparr>))"

text \<open>
  What the table should hold: for every exception of the processor that has an entry point, and for system calls, the entry point of that vector. Vectors 9 and 15 are
  not used by the processor.
\<close>

definition entry_points :: "(nat \<times> string) list" where
  "entry_points = [(0, ''handler0''), (1, ''handler1''), (2, ''handler2''), (3, ''handler3''), (4, ''handler4''), (5, ''handler5''), (6, ''handler6''), (7, ''handler7''),
     (8, ''handler8''), (10, ''handler10''), (11, ''handler11''), (12, ''handler12''), (13, ''handler13''), (14, ''handler14''), (16, ''handler16''), (48, ''handler48'')]"

definition trap_init :: "image \<Rightarrow> (kstate, unit) kernel" where
  "trap_init im = kseq (kfor gates (set_gate im)) (trap_init_percpu im)"

section \<open>Handling a trap\<close>

text \<open>
  A pointer to a trap frame: one on a kernel stack, with its address and contents, or the saved frame
  of an environment. Structures of environments are 124 bytes long, with the frame first.
\<close>

datatype tfptr = Stack_tf u32 Trapframe | Env_tf nat

definition tf_addr :: "tfptr \<Rightarrow> (kstate, u32) kernel" where
  "tf_addr p = (case p of Stack_tf a f \<Rightarrow> kret a | Env_tf i \<Rightarrow> kget (\<lambda>s. envs_kva s + 124 * of_nat i))"

definition tf_read :: "tfptr \<Rightarrow> (kstate, Trapframe) kernel" where
  "tf_read p = (case p of Stack_tf a f \<Rightarrow> kret f | Env_tf i \<Rightarrow> kbind (env_at i) (\<lambda>e. kret (env_tf e)))"

text \<open>A result stored in a frame on the stack is lost: \<^verbatim>\<open>trap\<close> does not return to it.\<close>

definition tf_set_eax :: "tfptr \<Rightarrow> u32 \<Rightarrow> (kstate, unit) kernel" where
  "tf_set_eax p v = (case p of
       Stack_tf a f \<Rightarrow> kret ()
     | Env_tf i \<Rightarrow> set_env i (\<lambda>e. e\<lparr>env_tf := (env_tf e)\<lparr>tf_regs := (tf_regs (env_tf e))\<lparr>reg_eax := v\<rparr>\<rparr>\<rparr>))"

definition page_fault_handler :: "tfptr \<Rightarrow> (kstate, unit) kernel" where
  "page_fault_handler p =
     kbind (kget cr2) (\<lambda>fault_va.
     kbind the_curenv (\<lambda>c.
     kbind (env_at c) (\<lambda>e.
     kbind (tf_read p) (\<lambda>tf. kbind (tf_addr p) (\<lambda>a.
     kseq (cprintf ''[%08x] user fault va %08x ip %08x\<newline>'' [PInt (env_id e), PInt fault_va, PInt (tf_eip tf)])
     (kseq (print_trapframe a tf)
     (env_destroy c)))))))"

definition trap_dispatch :: "image \<Rightarrow> tfptr \<Rightarrow> (kstate, unit) kernel" where
  "trap_dispatch im p =
     kbind (tf_read p) (\<lambda>tf. kbind (tf_addr p) (\<lambda>a.
     if tf_cs tf AND 3 = 0 then kpanic ''kernel page fault at:%x''
     else if tf_trapno tf = T_SYSCALL then
       kbind (syscall (reg_eax (tf_regs tf)) (reg_edx (tf_regs tf)) (reg_ecx (tf_regs tf))
         (reg_ebx (tf_regs tf)) (reg_edi (tf_regs tf)) (reg_esi (tf_regs tf))) (\<lambda>r. tf_set_eax p (word_of_int r))
     else if tf_trapno tf = T_PGFLT then page_fault_handler p
     else if tf_trapno tf = T_BRKPT then monitor im (Some (a, tf))
     else if tf_trapno tf = IRQ_OFFSET + IRQ_SPURIOUS then
       kseq (cprintf ''Spurious interrupt on irq 7\<newline>'' []) (print_trapframe a tf)
     else kseq (print_trapframe a tf)
       (if tf_cs tf = GD_KT then kpanic ''unhandled trap in kernel''
        else kbind the_curenv env_destroy)))"

text \<open>
  \<^verbatim>\<open>trap\<close>, called with the frame \<open>tf\<close> at the address \<open>tfp\<close> on the kernel stack. The atomic exchange of the processor's
  status returns the old one.
\<close>

definition trap :: "image \<Rightarrow> u32 \<Rightarrow> Trapframe \<Rightarrow> (kstate, unit) kernel" where
  "trap im tfp tf =
     kbind (kget panicstr) (\<lambda>ps.
     if ps \<noteq> None then kleave Halts else
     kbind (kget (\<lambda>s. cpu_status (thiscpu s))) (\<lambda>old.
     kseq (set_cpu_status CPU_STARTED)
     (kseq (kwhen (old = CPU_HALTED) lock_kernel)
     (kbind (kget eflags) (\<lambda>fl.
     kseq (kassert ''!(read_eflags() & FL_IF)'' (fl AND FL_IF = 0))
     (kbind (if tf_cs tf AND 3 = 3 then
         kbind (kget curenv) (\<lambda>cur. case cur of
             None \<Rightarrow> kpanic ''assertion failed: curenv''
           | Some c \<Rightarrow> kbind (env_at c) (\<lambda>e.
               kseq (kwhen (env_status e = ENV_DYING)
                 (kseq (env_free c) (kseq (set_curenv None) sched_yield)))
               (kseq (set_env c (\<lambda>x. x\<lparr>env_tf := tf\<rparr>)) (kret (Env_tf c)))))
       else kret (Stack_tf tfp tf)) (\<lambda>p.
     kbind (tf_addr p) (\<lambda>a.
     kseq (kmodify (\<lambda>s. s\<lparr>last_tf := a\<rparr>))
     (kseq (trap_dispatch im p)
     (kbind (kget curenv) (\<lambda>cur. case cur of
         None \<Rightarrow> sched_yield
       | Some c \<Rightarrow> kbind (env_at c) (\<lambda>e.
           if env_status e = ENV_RUNNING then env_run c else sched_yield))))))))))))"

section \<open>Traps do not return\<close>

definition no_gate :: Gatedesc where
  "no_gate = (SETGATE False 0 0 0)\<lparr>gd_p := 0\<rparr>"

section \<open>Spurious interrupts and system calls\<close>

text \<open>Computations that only print.\<close>

definition prints :: "(kstate, unit) kernel \<Rightarrow> bool" where
  "prints m \<longleftrightarrow> (\<forall>s. \<exists>l. m s = Returns () (s\<lparr>klog := l\<rparr>))"

text \<open>What a trap from user mode has done when it comes to the dispatch.\<close>

definition user_trap_ready :: "kstate \<Rightarrow> nat \<Rightarrow> Trapframe \<Rightarrow> bool" where
  "user_trap_ready s c tf \<longleftrightarrow> panicstr s = None \<and> eflags s AND FL_IF = 0 \<and> tf_cs tf AND 3 = 3 \<and>
     length (envs s) = NENV \<and> c < NENV \<and> cpunum s < length (cpus s) \<and> curenv s = Some c \<and>
     env_status (envs s ! c) = ENV_RUNNING \<and> KERNBASE \<le> env_pgdir (envs s ! c) \<and> cpu_status (thiscpu s) = CPU_STARTED"

text \<open>A machine in the user mode of its first environment.\<close>

definition user_machine :: kstate where
  "user_machine = small_machine\<lparr>envs := (replicate 1024 Env_zero)[0 := Env_zero\<lparr>env_pgdir := 0xF0001000, env_status := ENV_RUNNING\<rparr>],
     cpus := replicate 8 \<lparr>cpu_id = 0, cpu_status = CPU_STARTED, cpu_env = Some 0, cpu_ts = Taskstate_zero\<rparr>\<rparr>"

definition user_frame :: "u32 \<Rightarrow> Trapframe" where
  "user_frame n = Trapframe_zero\<lparr>tf_cs := GD_UT OR 3, tf_trapno := n, tf_eip := 0x800020\<rparr>"

lemma noreturn_sched_yield: "noreturn sched_yield"
  unfolding sched_yield_def sched_halt_def
  by (intro noreturn_kbind) (auto intro!: noreturn_kseq noreturn_kleave)

lemma noreturn_env_run: "noreturn (env_run e)"
proof -
  have "noreturn env_pop_tf" unfolding env_pop_tf_def
    by (intro noreturn_kbind) (auto intro!: noreturn_kseq noreturn_kleave noreturn_kbind split: option.splits)
  then show ?thesis unfolding env_run_def by (auto intro!: noreturn_kseq noreturn_kbind)
qed

text \<open>
  The trap handler never returns to the code that was interrupted: every trap ends with an environment resumed, the
  processor halted, spinning or in the monitor, or the kernel stopped by a panic. The entry code
  relies on it.
\<close>

theorem trap_never_returns: "trap im tfp tf s \<noteq> Returns r t"
proof -
  have "noreturn (case cur of None \<Rightarrow> sched_yield | Some c \<Rightarrow> kbind (env_at c) (\<lambda>e.
      if env_status e = ENV_RUNNING then env_run c else sched_yield))" for cur
    by (auto intro!: noreturn_kbind noreturn_sched_yield noreturn_env_run split: option.splits)
  then have "noreturn (trap im tfp tf)" unfolding trap_def
    by (auto intro!: noreturn_kbind noreturn_kseq noreturn_kleave)
  then show ?thesis by (simp add: noreturn_def)
qed

section \<open>Gates\<close>

lemma set_gates:
  "kfor gs (set_gate im) s = Returns () (s\<lparr>idt := fold (\<lambda>g t. t[fst g := SETGATE False GD_KT (im_handler im (fst (snd g))) (snd (snd g))]) gs (idt s)\<rparr>)"
  by (induction gs arbitrary: s) (auto simp: set_gate_def)

lemma fold_gates_nth:
  "distinct (map fst gs) \<Longrightarrow> v < length t \<Longrightarrow>
   fold (\<lambda>g t. t[fst g := F g]) gs t ! v = (case map_of gs v of None \<Rightarrow> t ! v | Some d \<Rightarrow> F (v, d))"
proof (induction gs arbitrary: t)
  case Nil
  then show ?case by simp
next
  case (Cons g gs)
  obtain n d where g: "g = (n, d)" by fastforce
  have "map_of gs n = None" using Cons.prems(1) g by (auto simp: map_of_eq_None_iff)
  then show ?case using Cons g by (auto split: option.splits)
qed

lemma length_fold_gates: "length (fold (\<lambda>g t. t[fst g := F g]) gs t) = length t"
  by (induction gs arbitrary: t) auto

text \<open>
  C37: Starting from an empty interrupt descriptor table, \<open>trap_init\<close> builds exactly the gates that it should: the exceptions 0 to 8, 10 to 14 and 16 and the
  system call vector 48 have a present interrupt gate in the kernel's code segment to the entry point of that vector, no other vector has a gate, and user
  code may raise exactly the breakpoint and the system call vector itself.
\<close>

theorem trap_init_gates:
  assumes "idt s = replicate 256 g0" "gd_p g0 = 0" "gd_dpl g0 = 0"
  shows "\<exists>t. trap_init im s = Returns () t \<and> length (idt t) = 256 \<and>
    (\<forall>v < 256. (gd_p (idt t ! v) = 1 \<longleftrightarrow> v \<in> {0..8} \<union> {10..14} \<union> {16, 48}) \<and>
      (gd_dpl (idt t ! v) = 3 \<longleftrightarrow> v = 3 \<or> v = 48)) \<and>
    (\<forall>(v, h) \<in> set entry_points. gate_offset (idt t ! v) = im_handler im h \<and> gd_sel (idt t ! v) = GD_KT \<and> gd_type (idt t ! v) = STS_IG32)"
proof -
  define F where "F g = SETGATE False GD_KT (im_handler im (fst (snd g))) (snd (snd g))" for g :: "nat \<times> string \<times> 2 word"
  define I where "I = fold (\<lambda>g t. t[fst g := F g]) gates (idt s)"
  have i: "\<exists>t. trap_init im s = Returns () t \<and> idt t = I"
    unfolding trap_init_def trap_init_percpu_def using set_gates[of gates im s]
    by (simp add: hwop_def I_def F_def)
  have d: "distinct (map fst gates)" by (simp add: gates_def)
  have nth: "I ! v = (case map_of gates v of None \<Rightarrow> g0 | Some d \<Rightarrow> F (v, d))" if "v < 256" for v
  proof -
    have "v < length (idt s)" "idt s ! v = g0" using that by (simp_all only: assms(1) length_replicate nth_replicate)
    then show ?thesis unfolding I_def using fold_gates_nth[OF d, of v "idt s" F] by (simp only:)
  qed
  have len: "length I = 256" using assms(1) by (simp add: I_def length_fold_gates)
  have dom: "map_of gates v \<noteq> None \<longleftrightarrow> v \<in> {0..8} \<union> {10..14} \<union> {16, 48}" for v
  proof -
    have "map_of gates v \<noteq> None \<longleftrightarrow> v \<in> set (map fst gates)" by (simp add: map_of_eq_None_iff)
    also have "set (map fst gates) = {0..8} \<union> {10..14} \<union> {16, 48}" by (simp add: gates_def) code_simp
    finally show ?thesis .
  qed
  have user: "map_of gates v = Some (h, 3) \<Longrightarrow> v = 3 \<or> v = 48" "v = 3 \<or> v = 48 \<Longrightarrow> \<exists>h. map_of gates v = Some (h, 3)" for v h
    by (auto simp: gates_def split: if_splits)
  have f: "gd_p (F g) = 1" "gd_dpl (F g) = snd (snd g)" "gate_offset (F g) = im_handler im (fst (snd g))" "gd_sel (F g) = GD_KT" "gd_type (F g) = STS_IG32" for g
    by (simp_all add: F_def gate_offset_SETGATE del: GD_KT_def) (simp_all add: SETGATE_def)
  have "gd_p (I ! v) = 1 \<longleftrightarrow> v \<in> {0..8} \<union> {10..14} \<union> {16, 48}" if "v < 256" for v
    unfolding dom[symmetric] nth[OF that] using assms(2) f(1) by (cases "map_of gates v") simp_all
  moreover have "gd_dpl (I ! v) = 3 \<longleftrightarrow> v = 3 \<or> v = 48" if "v < 256" for v
  proof (cases "map_of gates v")
    case None
    then show ?thesis using nth[OF that] assms(3) user(2)[of v] by auto
  next
    case (Some g)
    then show ?thesis using nth[OF that] f(2)[of "(v, g)"] user(1)[of v "fst g"] user(2)[of v] by (cases g) auto
  qed
  moreover have "gate_offset (I ! v) = im_handler im h \<and> gd_sel (I ! v) = GD_KT \<and> gd_type (I ! v) = STS_IG32" if "(v, h) \<in> set entry_points" for v h
  proof -
    have "v < 256" "\<exists>p. map_of gates v = Some (h, p)" using that by (auto simp: entry_points_def gates_def)
    then show ?thesis using nth[of v] f by auto
  qed
  ultimately show ?thesis using i len by auto
qed

theorem trap_init_gates_witness:
  "\<exists>t. trap_init sample_image (small_machine\<lparr>idt := replicate 256 no_gate\<rparr>) = Returns () t \<and>
     gate_offset (idt t ! 14) = 0xF01008E0 \<and> gd_dpl (idt t ! 14) \<noteq> 3"
proof -
  have "idt (small_machine\<lparr>idt := replicate 256 no_gate\<rparr>) = replicate 256 no_gate" "gd_p no_gate = 0" "gd_dpl no_gate = 0"
    by (simp_all add: no_gate_def SETGATE_def)
  from trap_init_gates[OF this, of sample_image] obtain t where t: "trap_init sample_image (small_machine\<lparr>idt := replicate 256 no_gate\<rparr>) = Returns () t"
    and d: "\<forall>v < 256. (gd_p (idt t ! v) = 1 \<longleftrightarrow> v \<in> {0..8} \<union> {10..14} \<union> {16, 48}) \<and> (gd_dpl (idt t ! v) = 3 \<longleftrightarrow> v = 3 \<or> v = 48)"
    and h: "\<forall>(v, h) \<in> set entry_points. gate_offset (idt t ! v) = im_handler sample_image h \<and> gd_sel (idt t ! v) = GD_KT \<and> gd_type (idt t ! v) = STS_IG32"
    by blast
  have "(14, ''handler14'') \<in> set entry_points" by (simp add: entry_points_def)
  then have "gate_offset (idt t ! 14) = 0xF01008E0" using h by (auto simp: sample_image_def)
  moreover have "gd_dpl (idt t ! 14) \<noteq> 3" using d by simp
  ultimately show ?thesis using t by blast
qed

lemma prints_kseq:
  assumes "prints m" "prints n"
  shows "prints (kseq m n)"
  unfolding prints_def
proof
  fix s
  obtain l where l: "m s = Returns () (s\<lparr>klog := l\<rparr>)" using assms(1) unfolding prints_def by blast
  obtain k where "n (s\<lparr>klog := l\<rparr>) = Returns () (s\<lparr>klog := l\<rparr>\<lparr>klog := k\<rparr>)" using assms(2) unfolding prints_def by blast
  then show "\<exists>l. kseq m n s = Returns () (s\<lparr>klog := l\<rparr>)" using l by auto
qed

lemma prints_cprintf: "prints (cprintf fmt args)"
  by (auto simp: prints_def)

lemma prints_kwhen: "prints m \<Longrightarrow> prints (kwhen b m)"
proof (cases b)
  case False
  have "kwhen b m s = Returns () (s\<lparr>klog := klog s\<rparr>)" for s using False by simp
  then show ?thesis unfolding prints_def by blast
qed (simp add: kwhen_def)

lemma prints_kget: "(\<And>x. prints (f x)) \<Longrightarrow> prints (kbind (kget g) f)"
  by (simp add: prints_def)

lemma prints_print_trapframe: "prints (print_trapframe a tf)"
  unfolding print_trapframe_def print_regs_def
  by (intro prints_kget prints_kseq prints_kwhen prints_cprintf) (simp add: prints_cprintf)

lemma print_trapframe_ok: "\<exists>l. print_trapframe a tf s = Returns () (s\<lparr>klog := l\<rparr>)"
  using prints_print_trapframe[of a tf] unfolding prints_def by blast

lemma trap_to_dispatch:
  assumes "user_trap_ready s c tf"
  defines "t \<equiv> s\<lparr>envs := (envs s)[c := (envs s ! c)\<lparr>env_tf := tf\<rparr>], last_tf := envs_kva s + 124 * of_nat c\<rparr>"
  shows "trap im tfp tf s =
    kseq (trap_dispatch im (Env_tf c)) (kbind (kget curenv) (\<lambda>cur. case cur of
         None \<Rightarrow> sched_yield
       | Some c \<Rightarrow> kbind (env_at c) (\<lambda>e.
           if env_status e = ENV_RUNNING then env_run c else sched_yield))) t"
proof -
  have "(cpus s ! cpunum s)\<lparr>cpu_status := CPU_STARTED\<rparr> = cpus s ! cpunum s"
    using assms(1) by (cases "cpus s ! cpunum s") (simp add: user_trap_ready_def thiscpu_def)
  then have cpu: "set_cpu_status CPU_STARTED s = Returns () s" by (simp add: set_cpu_status_def thiscpu_def)
  have e: "env_at c s = Returns (envs s ! c) s"
    "set_env c (\<lambda>x. x\<lparr>env_tf := tf\<rparr>) s = Returns () (s\<lparr>envs := (envs s)[c := (envs s ! c)\<lparr>env_tf := tf\<rparr>]\<rparr>)"
    using assms(1) by (simp_all add: user_trap_ready_def env_at_def set_env_def)
  show ?thesis using assms(1) cpu e unfolding t_def user_trap_ready_def
    by (simp add: trap_def tf_addr_def)
qed

lemma trap_spurious_ok:
  assumes "user_trap_ready s c tf" "tf_trapno tf = IRQ_OFFSET + IRQ_SPURIOUS"
  shows "\<exists>t. trap im tfp tf s = Leaves (Resumes c) t \<and> env_tf (envs t ! c) = tf \<and> curenv t = Some c \<and>
    env_status (envs t ! c) = ENV_RUNNING \<and> env_runs (envs t ! c) = env_runs (envs s ! c) + 1 \<and>
    (\<forall>i < NENV. i \<noteq> c \<longrightarrow> env_status (envs t ! i) = env_status (envs s ! i))"
proof -
  let ?t = "s\<lparr>envs := (envs s)[c := (envs s ! c)\<lparr>env_tf := tf\<rparr>], last_tf := envs_kva s + 124 * of_nat c\<rparr>"
  note r = assms(1)[unfolded user_trap_ready_def]
  have f: "tf_read (Env_tf c) ?t = Returns tf ?t" "tf_addr (Env_tf c) ?t = Returns (envs_kva s + 124 * of_nat c) ?t"
    using r by (simp_all add: tf_read_def tf_addr_def env_at_def)
  have cs: "tf_cs tf AND 3 \<noteq> 0" using r by simp
  obtain l where l: "print_trapframe (envs_kva s + 124 * of_nat c) tf (?t\<lparr>klog := klog ?t @ [(''Spurious interrupt on irq 7\<newline>'', [])]\<rparr>)
    = Returns () (?t\<lparr>klog := l\<rparr>)"
    using print_trapframe_ok[of "envs_kva s + 124 * of_nat c" tf "?t\<lparr>klog := klog ?t @ [(''Spurious interrupt on irq 7\<newline>'', [])]\<rparr>"] by auto
  have "trap_dispatch im (Env_tf c) ?t = Returns () (?t\<lparr>klog := l\<rparr>)"
    unfolding trap_dispatch_def using f cs assms(2) l by simp
  moreover have "curenv ?t = Some c" "env_at c (?t\<lparr>klog := l\<rparr>) = Returns ((envs s ! c)\<lparr>env_tf := tf\<rparr>) (?t\<lparr>klog := l\<rparr>)"
    using r by (simp_all add: curenv_def thiscpu_def env_at_def)
  ultimately have e: "trap im tfp tf s = env_run c (?t\<lparr>klog := l\<rparr>)"
    unfolding trap_to_dispatch[OF assms(1)] using r by (simp add: curenv_def thiscpu_def)
  have "\<exists>u. env_run c (?t\<lparr>klog := l\<rparr>) = Leaves (Resumes c) u \<and> curenv u = Some c \<and>
    env_status (envs u ! c) = ENV_RUNNING \<and> env_runs (envs u ! c) = env_runs (envs (?t\<lparr>klog := l\<rparr>) ! c) + 1 \<and>
    env_tf (envs u ! c) = env_tf (envs (?t\<lparr>klog := l\<rparr>) ! c) \<and>
    (\<forall>i < NENV. i \<noteq> c \<longrightarrow> env_status (envs u ! i) =
       (if curenv (?t\<lparr>klog := l\<rparr>) = Some i \<and> env_status (envs (?t\<lparr>klog := l\<rparr>) ! i) = ENV_RUNNING then ENV_RUNNABLE
        else env_status (envs (?t\<lparr>klog := l\<rparr>) ! i)))"
    using env_run_ok[of "?t\<lparr>klog := l\<rparr>" c] r by (auto simp: curenv_ok_def curenv_def thiscpu_def)
  then show ?thesis unfolding e using r by (auto simp: curenv_def thiscpu_def)
qed

text \<open>
  A spurious interrupt is harmless: the interrupted environment is resumed with the registers it
  had, still running and on the same processor, and no other environment changes its status.
\<close>

theorem trap_spurious_resumes:
  assumes "user_trap_ready s c tf" "tf_trapno tf = IRQ_OFFSET + IRQ_SPURIOUS"
  shows "\<exists>t. trap im tfp tf s = Leaves (Resumes c) t \<and> env_tf (envs t ! c) = tf \<and> curenv t = Some c \<and>
    env_status (envs t ! c) = ENV_RUNNING \<and>
    (\<forall>i < NENV. i \<noteq> c \<longrightarrow> env_status (envs t ! i) = env_status (envs s ! i))"
  using trap_spurious_ok[OF assms, of im tfp] by blast

text \<open>
  At this commit no system call is served: a system call trap of any environment panics.
\<close>

theorem trap_syscall_panics:
  assumes "user_trap_ready s c tf" "tf_trapno tf = T_SYSCALL"
  shows "trap im tfp tf s = Panics ''syscall not implemented''"
proof -
  let ?t = "s\<lparr>envs := (envs s)[c := (envs s ! c)\<lparr>env_tf := tf\<rparr>], last_tf := envs_kva s + 124 * of_nat c\<rparr>"
  note r = assms(1)[unfolded user_trap_ready_def]
  have f: "tf_read (Env_tf c) ?t = Returns tf ?t" "tf_addr (Env_tf c) ?t = Returns (envs_kva s + 124 * of_nat c) ?t"
    using r by (simp_all add: tf_read_def tf_addr_def env_at_def)
  have cs: "tf_cs tf AND 3 \<noteq> 0" using r by simp
  have "trap_dispatch im (Env_tf c) ?t = Panics ''syscall not implemented''"
    unfolding trap_dispatch_def syscall_def using f cs assms(2) by simp
  then show ?thesis unfolding trap_to_dispatch[OF assms(1)] by simp
qed

lemma user_machine_ready: "user_trap_ready user_machine 0 (user_frame n)"
  by (simp add: user_trap_ready_def user_machine_def small_machine_def user_frame_def curenv_def thiscpu_def)

theorem trap_spurious_resumes_witness:
  "\<exists>t. trap sample_image 0xEFFFFFBC (user_frame 39) user_machine = Leaves (Resumes 0) t \<and>
     env_tf (envs t ! 0) = user_frame 39 \<and> curenv t = Some 0"
  using trap_spurious_resumes[OF user_machine_ready, of 39 sample_image "0xEFFFFFBC"] by (auto simp: user_frame_def)

theorem trap_syscall_panics_witness:
  "trap sample_image 0xEFFFFFBC (user_frame 48) user_machine = Panics ''syscall not implemented''"
  by (rule trap_syscall_panics[OF user_machine_ready]) (simp add: user_frame_def)

end
