(* ===== verification/Lapic.thy ===== *)
theory Lapic
  imports Page_Table
begin

text \<open>
  The local interrupt controller, \<^verbatim>\<open>kern/lapic.c\<close>. The unit's registers are a device: the model
  keeps the log of the writes, in order (\<open>lapic_outs\<close>, register and value), and takes what the code reads
  from it (the version, and whether a message is still being sent) from the state. A unit that is busy for ever makes the
  loops that wait for it spin. An access before the registers are mapped goes through a null pointer and faults.
\<close>

definition LA_TPR :: u32 where [simp, layout_defs]: "LA_TPR = 0x0080 div 4"
definition LA_EOI :: u32 where [simp, layout_defs]: "LA_EOI = 0x00B0 div 4"
definition LA_SVR :: u32 where [simp, layout_defs]: "LA_SVR = 0x00F0 div 4"
definition LA_ENABLE :: u32 where [simp, layout_defs]: "LA_ENABLE = 0x00000100"
definition LA_ESR :: u32 where [simp, layout_defs]: "LA_ESR = 0x0280 div 4"
definition LA_ICRLO :: u32 where [simp, layout_defs]: "LA_ICRLO = 0x0300 div 4"
definition LA_INIT :: u32 where [simp, layout_defs]: "LA_INIT = 0x00000500"
definition LA_STARTUP :: u32 where [simp, layout_defs]: "LA_STARTUP = 0x00000600"
definition LA_ASSERT :: u32 where [simp, layout_defs]: "LA_ASSERT = 0x00004000"
definition LA_LEVEL :: u32 where [simp, layout_defs]: "LA_LEVEL = 0x00008000"
definition LA_BCAST :: u32 where [simp, layout_defs]: "LA_BCAST = 0x00080000"
definition LA_OTHERS :: u32 where [simp, layout_defs]: "LA_OTHERS = 0x000C0000"
definition LA_FIXED :: u32 where [simp, layout_defs]: "LA_FIXED = 0x00000000"
definition LA_ICRHI :: u32 where [simp, layout_defs]: "LA_ICRHI = 0x0310 div 4"
definition LA_TIMER :: u32 where [simp, layout_defs]: "LA_TIMER = 0x0320 div 4"
definition LA_X1 :: u32 where [simp, layout_defs]: "LA_X1 = 0x0000000B"
definition LA_PERIODIC :: u32 where [simp, layout_defs]: "LA_PERIODIC = 0x00020000"
definition LA_PCINT :: u32 where [simp, layout_defs]: "LA_PCINT = 0x0340 div 4"
definition LA_LINT0 :: u32 where [simp, layout_defs]: "LA_LINT0 = 0x0350 div 4"
definition LA_LINT1 :: u32 where [simp, layout_defs]: "LA_LINT1 = 0x0360 div 4"
definition LA_ERROR :: u32 where [simp, layout_defs]: "LA_ERROR = 0x0370 div 4"
definition LA_MASKED :: u32 where [simp, layout_defs]: "LA_MASKED = 0x00010000"
definition LA_TICR :: u32 where [simp, layout_defs]: "LA_TICR = 0x0380 div 4"
definition LA_TDCR :: u32 where [simp, layout_defs]: "LA_TDCR = 0x03E0 div 4"
definition IRQ_TIMER :: u32 where [simp, layout_defs]: "IRQ_TIMER = 0"
definition IRQ_ERROR :: u32 where [simp, layout_defs]: "IRQ_ERROR = 19"
definition IO_RTC :: u16 where [simp, layout_defs]: "IO_RTC = 0x70"

definition lapicw :: "u32 \<Rightarrow> u32 \<Rightarrow> (kstate, unit) kernel" where
  "lapicw index v = kbind (kget lapic) (\<lambda>l.
     if l = 0 then kpanic ''null pointer dereference''
     else kmodify (\<lambda>s. s\<lparr>lapic_outs := lapic_outs s @ [(index, v)]\<rparr>))"

text \<open>
  \<^verbatim>\<open>cpunum\<close> of the processor whose unit has the given value in the register \<^verbatim>\<open>ID\<close>. The field \<open>cpunum\<close> of the state is this number for
  the processor that runs.
\<close>

definition cpunum_lapic :: "u32 \<Rightarrow> kstate \<Rightarrow> int" where
  "cpunum_lapic id_reg s = (if lapic s \<noteq> 0 then sint (drop_bit 24 id_reg) else 0)"

text \<open>The loop \<^verbatim>\<open>while (lapic[ICRLO] & DELIVS)\<close>.\<close>

definition await_delivery :: "(kstate, unit) kernel" where
  "await_delivery = kbind (kget lapic_busy) (\<lambda>b. if b then kleave Spins else kret ())"

definition lapic_setup :: "(kstate, unit) kernel" where
  "lapic_setup = kseqs [
     lapicw LA_SVR (LA_ENABLE OR (IRQ_OFFSET + IRQ_SPURIOUS)),
     lapicw LA_TDCR LA_X1,
     lapicw LA_TIMER (LA_PERIODIC OR (IRQ_OFFSET + IRQ_TIMER)),
     lapicw LA_TICR 10000000,
     kbind (kget (\<lambda>s. Some (cpunum s) \<noteq> bootcpu s)) (\<lambda>ap. kwhen ap (lapicw LA_LINT0 LA_MASKED)),
     lapicw LA_LINT1 LA_MASKED,
     kbind (kget lapic_ver) (\<lambda>v. kwhen (drop_bit 16 v AND 0xFF \<ge> 4) (lapicw LA_PCINT LA_MASKED)),
     lapicw LA_ERROR (IRQ_OFFSET + IRQ_ERROR),
     lapicw LA_ESR 0,
     lapicw LA_ESR 0,
     lapicw LA_EOI 0,
     lapicw LA_ICRHI 0,
     lapicw LA_ICRLO (LA_BCAST OR LA_INIT OR LA_LEVEL),
     await_delivery,
     lapicw LA_TPR 0]"

definition lapic_init :: "(kstate, unit) kernel" where
  "lapic_init = kbind (kget lapicaddr) (\<lambda>a.
     if a = 0 then kret ()
     else kbind (mmio_map_region a 4096) (\<lambda>l.
       kseq (kmodify (\<lambda>s. s\<lparr>lapic := l\<rparr>)) lapic_setup))"

definition lapic_eoi :: "(kstate, unit) kernel" where
  "lapic_eoi = kbind (kget lapic) (\<lambda>l. kwhen (l \<noteq> 0) (lapicw LA_EOI 0))"

definition microdelay :: "int \<Rightarrow> (kstate, unit) kernel" where
  "microdelay us = kret ()"

definition store16 :: "u32 \<Rightarrow> u16 \<Rightarrow> (kstate, unit) kernel" where
  "store16 kva v = kmodify (\<lambda>s. s\<lparr>pmem := (pmem s)(kva - KERNBASE := ucast v, kva - KERNBASE + 1 := ucast (drop_bit 8 v))\<rparr>)"

definition lapic_startap :: "u8 \<Rightarrow> u32 \<Rightarrow> (kstate, unit) kernel" where
  "lapic_startap apicid addr = kseqs [
     outb IO_RTC 0xF,
     outb (IO_RTC + 1) 0x0A,
     kbind (KADDR (push_bit 4 0x40 OR 0x67)) (\<lambda>wrv. kseq (store16 wrv 0) (store16 (wrv + 2) (ucast (drop_bit 4 addr)))),
     lapicw LA_ICRHI (push_bit 24 (ucast apicid)),
     lapicw LA_ICRLO (LA_INIT OR LA_LEVEL OR LA_ASSERT),
     microdelay 200,
     lapicw LA_ICRLO (LA_INIT OR LA_LEVEL),
     microdelay 100,
     kfor [0..<2] (\<lambda>i :: nat. kseqs [
       lapicw LA_ICRHI (push_bit 24 (ucast apicid)),
       lapicw LA_ICRLO (LA_STARTUP OR drop_bit 12 addr),
       microdelay 200])]"

definition lapic_ipi :: "u32 \<Rightarrow> (kstate, unit) kernel" where
  "lapic_ipi vector = kseq (lapicw LA_ICRLO (LA_OTHERS OR LA_FIXED OR vector)) await_delivery"

section \<open>The messages sent\<close>

lemma lapicw_run: "lapic s \<noteq> 0 \<Longrightarrow> lapicw i v s = Returns () (s\<lparr>lapic_outs := lapic_outs s @ [(i, v)]\<rparr>)"
  by (simp add: lapicw_def)

text \<open>
  Starting a processor sends an INIT, its de-assertion and the startup message with the page number of the entry code twice, all to
  the same unit, after the warm reset vector is set to the entry code.
\<close>

lemma lapic_startap_messages:
  assumes "lapic s \<noteq> 0" "0 < npages s" "addr < 0x100000"
  shows "\<exists>t. lapic_startap apicid addr s = Returns () t \<and>
    lapic_outs t = lapic_outs s @ [(LA_ICRHI, push_bit 24 (ucast apicid)), (LA_ICRLO, LA_INIT OR LA_LEVEL OR LA_ASSERT),
      (LA_ICRLO, LA_INIT OR LA_LEVEL), (LA_ICRHI, push_bit 24 (ucast apicid)), (LA_ICRLO, LA_STARTUP OR drop_bit 12 addr),
      (LA_ICRHI, push_bit 24 (ucast apicid)), (LA_ICRLO, LA_STARTUP OR drop_bit 12 addr)] \<and>
    read16 (pmem t) 0x467 = 0 \<and> read16 (pmem t) 0x469 = ucast (drop_bit 4 addr)"
proof -
  have k: "KADDR (push_bit 4 0x40 OR 0x67) u = Returns 0xF0000467 u" if "npages u = npages s" for u
    using that assms(2) by (simp add: KADDR_def PGNUM_def not_le)
  have b: "(ucast (ucast (v :: u16) :: u8) OR push_bit 8 (ucast (ucast (drop_bit 8 v) :: u8)) :: u16) = v" for v
  proof (rule bit_word_eqI)
    fix n assume "n < LENGTH(16)"
    then have "n < 8 \<or> (8 \<le> n \<and> n < 16)" by auto
    then show "bit (ucast (ucast v :: u8) OR push_bit 8 (ucast (ucast (drop_bit 8 v) :: u8)) :: u16) n \<longleftrightarrow> bit v n"
      by (elim disjE) (auto simp: bit_simps)
  qed
  have two: "[0..<2] = [0, 1 :: nat]" by (simp add: upt_rec)
  show ?thesis unfolding lapic_startap_def two using assms(1) k
    by (simp add: outb_def store16_def lapicw_run microdelay_def read16_def b)
qed

lemma lapic_init_outcome:
  "lapic_init s = (if lapicaddr s = 0 then Returns () s else Panics ''mmio_map_region not implemented'')"
  by (simp add: lapic_init_def mmio_map_region_def)

text \<open>
  The number of a processor is the identifier of its unit, an 8-bit number that the firmware chooses; \<^verbatim>\<open>mp_init\<close> numbers the processors from 0 in
  the order of the table whatever their units are, so that an identifier of 8 or more indexes past the array \<^verbatim>\<open>cpus\<close>.
\<close>

lemma cpunum_lapic_id:
  assumes "lapic s \<noteq> 0"
  shows "cpunum_lapic id_reg s = int (unat id_reg div 2 ^ 24)" and "cpunum_lapic id_reg s < 256"
proof -
  have u: "uint (drop_bit 24 id_reg) = uint id_reg div 2 ^ 24" by (simp add: drop_bit_eq_div uint_div)
  have "uint id_reg < 2 ^ 32" using uint_lt2p[of id_reg] by simp
  then have b: "0 \<le> uint id_reg div 2 ^ 24" "uint id_reg div 2 ^ 24 < 256" by (simp_all add: div_less_iff_less_mult pos_imp_zdiv_nonneg_iff)
  then have "signed_take_bit 31 (uint id_reg div 2 ^ 24) = uint id_reg div 2 ^ 24"
    by (intro signed_take_bit_int_eq_self) (erule order_trans[rotated], simp, erule order_less_trans, simp)
  then have s: "sint (drop_bit 24 id_reg) = uint id_reg div 2 ^ 24" by (simp add: sint_uint u)
  show "cpunum_lapic id_reg s = int (unat id_reg div 2 ^ 24)" using assms s by (simp add: cpunum_lapic_def zdiv_int)
  show "cpunum_lapic id_reg s < 256" using assms s b(2) by (simp add: cpunum_lapic_def)
qed

end
