(* ===== verification/Mpconfig.thy ===== *)
theory Mpconfig
  imports Page_Table
begin

text \<open>
  The search for the multiprocessor tables of the firmware and their evaluation, \<^verbatim>\<open>kern/mpconfig.c\<close>. The tables lie in physical
  memory; a pointer to one is its kernel address, and a field of a packed structure is read at its offset.
\<close>

section \<open>Reading the tables\<close>

definition MPPROC :: u8 where [simp, layout_defs]: "MPPROC = 0x00"
definition MPBUS :: u8 where [simp, layout_defs]: "MPBUS = 0x01"
definition MPIOAPIC :: u8 where [simp, layout_defs]: "MPIOAPIC = 0x02"
definition MPIOINTR :: u8 where [simp, layout_defs]: "MPIOINTR = 0x03"
definition MPLINTR :: u8 where [simp, layout_defs]: "MPLINTR = 0x04"
definition MPPROC_BOOT :: u8 where [simp, layout_defs]: "MPPROC_BOOT = 0x02"

definition load8 :: "u32 \<Rightarrow> (kstate, u8) kernel" where
  "load8 kva = kget (\<lambda>s. pmem s (kva - KERNBASE))"

definition load16 :: "u32 \<Rightarrow> (kstate, u16) kernel" where
  "load16 kva = kget (\<lambda>s. read16 (pmem s) (kva - KERNBASE))"

text \<open>The fields of \<^verbatim>\<open>struct mp\<close> the code reads.\<close>

record mp =
  mp_addr :: u32
  mp_physaddr :: u32
  mp_type :: u8
  mp_imcrp :: u8

definition mp_at :: "mem \<Rightarrow> u32 \<Rightarrow> mp" where
  "mp_at m kva = (let p = kva - KERNBASE in
     \<lparr>mp_addr = kva, mp_physaddr = read32 m (p + 4), mp_type = m (p + 11), mp_imcrp = m (p + 12)\<rparr>)"

text \<open>The fields of \<^verbatim>\<open>struct mpconf\<close> the code reads.\<close>

record mpconf =
  mc_addr :: u32
  mc_length :: u16
  mc_version :: u8
  mc_entry :: u16
  mc_lapicaddr :: u32
  mc_xlength :: u16
  mc_xchecksum :: u8

definition mpconf_at :: "mem \<Rightarrow> u32 \<Rightarrow> mpconf" where
  "mpconf_at m kva = (let p = kva - KERNBASE in
     \<lparr>mc_addr = kva, mc_length = read16 m (p + 4), mc_version = m (p + 6), mc_entry = read16 m (p + 34),
      mc_lapicaddr = read32 m (p + 36), mc_xlength = read16 m (p + 40), mc_xchecksum = m (p + 42)\<rparr>)"

text \<open>The sum of bytes, in a 32-bit integer as the code keeps it, of which the low byte is returned.\<close>

primrec sum_loop :: "mem \<Rightarrow> u32 \<Rightarrow> nat \<Rightarrow> u32 \<Rightarrow> u32" where
  "sum_loop m a 0 acc = acc"
| "sum_loop m a (Suc n) acc = sum_loop m (a + 1) n (acc + ucast (m a))"

definition mp_sum :: "mem \<Rightarrow> u32 \<Rightarrow> nat \<Rightarrow> u8" where
  "mp_sum m a len = ucast (sum_loop m a len 0)"

definition has_signature :: "mem \<Rightarrow> u32 \<Rightarrow> string \<Rightarrow> bool" where
  "has_signature m a sig = (\<forall>i < 4. m (a + of_nat i) = of_nat (of_char (sig ! i)))"

definition is_mp :: "mem \<Rightarrow> u32 \<Rightarrow> bool" where
  "is_mp m a \<longleftrightarrow> has_signature m a ''_MP_'' \<and> mp_sum m a 16 = 0"

primrec mpsearch_loop :: "nat \<Rightarrow> mem \<Rightarrow> u32 \<Rightarrow> u32 \<Rightarrow> u32 option" where
  "mpsearch_loop 0 m p e = None"
| "mpsearch_loop (Suc n) m p e =
     (if p < e then if is_mp m (p - KERNBASE) then Some p else mpsearch_loop n m (p + 16) e else None)"

text \<open>
  A search never looks at more than \<open>len / 16 + 1\<close> places.
\<close>

definition mpsearch1 :: "u32 \<Rightarrow> u32 \<Rightarrow> (kstate, u32 option) kernel" where
  "mpsearch1 a len = kbind (KADDR a) (\<lambda>p. kbind (KADDR (a + len)) (\<lambda>e.
     kget (\<lambda>s. mpsearch_loop (Suc (unat len)) (pmem s) p e)))"

definition mpsearch :: "(kstate, u32 option) kernel" where
  "mpsearch =
     kbind (KADDR (push_bit 4 0x40)) (\<lambda>bda.
     kbind (load16 (bda + 0x0E)) (\<lambda>seg.
     kbind (if seg \<noteq> 0 then mpsearch1 (push_bit 4 (ucast seg)) 1024
            else kbind (load16 (bda + 0x13)) (\<lambda>kb. mpsearch1 (ucast kb * 1024 - 1024) 1024)) (\<lambda>r.
     if r \<noteq> None then kret r else mpsearch1 0xF0000 0x10000)))"

definition mpconfig :: "(kstate, (mp \<times> mpconf) option) kernel" where
  "mpconfig =
     kbind mpsearch (\<lambda>r. case r of None \<Rightarrow> kret None | Some p \<Rightarrow>
     kbind (kget (\<lambda>s. mp_at (pmem s) p)) (\<lambda>mp.
     if mp_physaddr mp = 0 \<or> mp_type mp \<noteq> 0 then
       kseq (cprintf ''SMP: Default configurations not implemented\<newline>'' []) (kret None)
     else kbind (KADDR (mp_physaddr mp)) (\<lambda>c.
     kbind (kget (\<lambda>s. mpconf_at (pmem s) c)) (\<lambda>conf.
     kbind (kget pmem) (\<lambda>m.
     let a = c - KERNBASE in
     if \<not> has_signature m a ''PCMP'' then
       kseq (cprintf ''SMP: Incorrect MP configuration table signature\<newline>'' []) (kret None)
     else if mp_sum m a (unat (mc_length conf)) \<noteq> 0 then
       kseq (cprintf ''SMP: Bad MP configuration checksum\<newline>'' []) (kret None)
     else if mc_version conf \<noteq> 1 \<and> mc_version conf \<noteq> 4 then
       kseq (cprintf ''SMP: Unsupported MP version %d\<newline>'' [PInt (ucast (mc_version conf))]) (kret None)
     else if mp_sum m (a + ucast (mc_length conf)) (unat (mc_xlength conf)) + mc_xchecksum conf \<noteq> 0 then
       kseq (cprintf ''SMP: Bad MP configuration extended checksum\<newline>'' []) (kret None)
     else kret (Some (mp, conf)))))))"

section \<open>The processors\<close>

text \<open>
  An entry for a processor. A pointer to the boot processor may point just past the array of processors; the model keeps its
  index.
\<close>

definition mp_proc :: "u32 \<Rightarrow> (kstate, unit) kernel" where
  "mp_proc p =
     kbind (load8 (p + 3)) (\<lambda>flags.
     kseq (kwhen (flags AND MPPROC_BOOT \<noteq> 0) (kmodify (\<lambda>s. s\<lparr>bootcpu := Some (ncpu s)\<rparr>)))
     (kbind (kget ncpu) (\<lambda>n.
      if n < NCPU then
        kmodify (\<lambda>s. s\<lparr>cpus := (cpus s)[n := (cpus s ! n)\<lparr>cpu_id := of_nat n\<rparr>], ncpu := n + 1\<rparr>)
      else kbind (load8 (p + 1)) (\<lambda>apicid.
        cprintf ''SMP: too many CPUs, CPU %d disabled\<newline>'' [PInt (ucast apicid)]))))"

text \<open>The loop over the entries, at most \<open>n\<close> of which remain.\<close>

primrec mp_entries :: "nat \<Rightarrow> u32 \<Rightarrow> (kstate, unit) kernel" where
  "mp_entries 0 p = kret ()"
| "mp_entries (Suc n) p =
     kbind (load8 p) (\<lambda>t.
     if t = MPPROC then kseq (mp_proc p) (mp_entries n (p + 20))
     else if t \<in> {MPBUS, MPIOAPIC, MPIOINTR, MPLINTR} then mp_entries n (p + 8)
     else kseq (cprintf ''mpinit: unknown config type %x\<newline>'' [PInt (ucast t)])
       (kmodify (\<lambda>s. s\<lparr>ismp := False\<rparr>)))"

text \<open>The store through \<open>bootcpu\<close>: past the array it hits other memory.\<close>

definition start_bootcpu :: "(kstate, CpuInfo) kernel" where
  "start_bootcpu = kbind (kget bootcpu) (\<lambda>b. case b of
     None \<Rightarrow> kpanic ''null pointer dereference''
   | Some i \<Rightarrow> (\<lambda>s. if i < length (cpus s)
       then Returns ((cpus s ! i)\<lparr>cpu_status := CPU_STARTED\<rparr>) (s\<lparr>cpus := (cpus s)[i := (cpus s ! i)\<lparr>cpu_status := CPU_STARTED\<rparr>]\<rparr>)
       else Panics ''wild CpuInfo pointer''))"

text \<open>What follows once the boot processor is marked: the fall-back, or the switch to the local interrupt controllers.\<close>

definition mp_report :: "mp \<Rightarrow> CpuInfo \<Rightarrow> (kstate, unit) kernel" where
  "mp_report mp b =
     kbind (kget ismp) (\<lambda>mpok.
     if \<not> mpok then
       kseq (kmodify (\<lambda>s. s\<lparr>ncpu := 1, lapicaddr := 0\<rparr>))
         (cprintf ''SMP: configuration not found, SMP disabled\<newline>'' [])
     else kbind (kget ncpu) (\<lambda>n.
       kseq (cprintf ''SMP: CPU %d found %d CPU(s)\<newline>'' [PInt (ucast (cpu_id b)), PInt (of_nat n)])
       (kwhen (mp_imcrp mp \<noteq> 0) (kseqs [
         cprintf ''SMP: Setting IMCR to switch from PIC mode to symmetric I/O mode\<newline>'' [],
         outb 0x22 0x70,
         kbind (kget imcr) (\<lambda>v. outb 0x23 (v OR 1))]))))"

definition mp_init :: "(kstate, unit) kernel" where
  "mp_init =
     kseq (kmodify (\<lambda>s. s\<lparr>bootcpu := Some 0\<rparr>))
     (kbind mpconfig (\<lambda>r. case r of None \<Rightarrow> kret () | Some (mp, conf) \<Rightarrow>
      kseq (kmodify (\<lambda>s. s\<lparr>ismp := True, lapicaddr := mc_lapicaddr conf\<rparr>))
     (kseq (mp_entries (unat (mc_entry conf)) (mc_addr conf + 44))
     (kbind start_bootcpu (mp_report mp)))))"

section \<open>What the tables say\<close>

text \<open>The addresses of the processor entries among \<open>n\<close> entries, when all entries have a known type.\<close>

primrec mp_list :: "nat \<Rightarrow> mem \<Rightarrow> u32 \<Rightarrow> u32 list option" where
  "mp_list 0 m p = Some []"
| "mp_list (Suc n) m p = (let t = m (p - KERNBASE) in
     if t = MPPROC then map_option ((#) p) (mp_list n m (p + 20))
     else if t \<in> {MPBUS, MPIOAPIC, MPIOINTR, MPLINTR} then mp_list n m (p + 8) else None)"

definition is_boot :: "mem \<Rightarrow> u32 \<Rightarrow> bool" where
  "is_boot m q \<longleftrightarrow> m (q + 3 - KERNBASE) AND MPPROC_BOOT \<noteq> 0"

text \<open>
  The index the boot processor gets: the number of processors before the last entry with the boot flag, at most
  \<open>NCPU\<close>.
\<close>

primrec boot_index :: "mem \<Rightarrow> nat \<Rightarrow> nat \<Rightarrow> u32 list \<Rightarrow> nat" where
  "boot_index m b n [] = b"
| "boot_index m b n (q # qs) = boot_index m (if is_boot m q then n else b) (min NCPU (n + 1)) qs"

text \<open>The first place with a valid floating pointer, in steps of 16 bytes.\<close>

definition first_mp :: "mem \<Rightarrow> u32 \<Rightarrow> nat \<Rightarrow> u32 option" where
  "first_mp m a len = map_option (\<lambda>i. a + 16 * of_nat i + KERNBASE) (find (\<lambda>i. is_mp m (a + 16 * of_nat i)) [0..<len div 16])"

section \<open>The processors found\<close>

text \<open>What the loop over the entries leaves: processors numbered in order, and the rest as it was.\<close>

definition procs_found :: "kstate \<Rightarrow> nat \<Rightarrow> nat \<Rightarrow> kstate \<Rightarrow> bool" where
  "procs_found s n b t \<longleftrightarrow> pmem t = pmem s \<and> ncpu t = n \<and> bootcpu t = Some b \<and> length (cpus t) = length (cpus s) \<and>
     (\<forall>i < n. cpu_id (cpus t ! i) = of_nat i) \<and>
     ismp t = ismp s \<and> lapicaddr t = lapicaddr s \<and> outs t = outs s \<and> imcr t = imcr s"

text \<open>Firmware tables with two processors, the second of which boots.\<close>

definition sample_tables :: "(u32 \<times> u8) list" where
  "sample_tables = [(0x40F, 0x01), (0x1000, 0x5F), (0x1001, 0x4D), (0x1002, 0x50), (0x1003, 0x5F), (0x1005, 0x20),
     (0x1008, 0x01), (0x1009, 0x04), (0x100A, 0x80), (0x2000, 0x50), (0x2001, 0x43), (0x2002, 0x4D), (0x2003, 0x50), (0x2004, 84),
     (0x2006, 0x04), (0x2007, 0x93), (0x2022, 2), (0x2026, 0xE0), (0x2027, 0xFE), (0x202F, 0x01), (0x2041, 0x01), (0x2043, 0x03)]"

definition sample_memory :: mem where
  "sample_memory = (\<lambda>a. case map_of sample_tables a of None \<Rightarrow> 0 | Some b \<Rightarrow> b)"

definition mp_machine :: kstate where
  "mp_machine = small_machine\<lparr>npages := 300, ncpu := 0, pmem := sample_memory\<rparr>"

section \<open>Checksums and the search\<close>

lemma sum_loop_sum: "sum_loop m a n acc = acc + (\<Sum>i<n. ucast (m (a + of_nat i)))"
proof (induction n arbitrary: a acc)
  case (Suc n)
  have "(\<Sum>i<Suc n. ucast (m (a + of_nat i)) :: u32) = ucast (m a) + (\<Sum>i<n. ucast (m (a + 1 + of_nat i)))"
    by (subst sum.lessThan_Suc_shift) (simp add: ac_simps)
  then show ?case using Suc by (simp add: ac_simps)
qed simp

lemma ucast_sum: "finite A \<Longrightarrow> (ucast (\<Sum>i\<in>A. (ucast (f i :: u8) :: u32)) :: u8) = (\<Sum>i\<in>A. f i)"
proof (induction A rule: finite_induct)
  case (insert x F)
  have "(ucast (u + v :: u32) :: u8) = ucast u + ucast v" for u v
  proof -
    have "(unat u + unat v) mod 4294967296 mod 256 = (unat u mod 256 + unat v mod 256) mod 256"
      by (simp add: mod_mod_cancel mod_add_eq)
    then show ?thesis by (simp add: word_unat_eq_iff unsigned_ucast_eq unat_word_ariths take_bit_eq_mod)
  qed
  moreover have "(ucast (ucast b :: u32) :: u8) = b" for b :: u8 by (rule bit_word_eqI) (simp add: bit_simps)
  ultimately show ?case using insert by simp
qed simp

lemma mp_sum_bytes: "mp_sum m a len = (\<Sum>i<len. m (a + of_nat i))"
  unfolding mp_sum_def sum_loop_sum using ucast_sum[of "{..<len}" "\<lambda>i. m (a + of_nat i)"] by simp

lemma mpsearch_loop_find:
  assumes "unat p + 16 * k < 2 ^ 32" "e = p + 16 * of_nat k" "k < n"
  shows "mpsearch_loop n m p e = map_option (\<lambda>i. p + 16 * of_nat i) (find (\<lambda>i. is_mp m (p - KERNBASE + 16 * of_nat i)) [0..<k])"
  using assms
proof (induction k arbitrary: n p)
  case 0
  then show ?case by (cases n) auto
next
  case (Suc k)
  obtain n' where n: "n = Suc n'" "k < n'" using Suc.prems(3) by (cases n) auto
  have u: "unat (16 * of_nat (Suc k) :: u32) = 16 * Suc k" using Suc.prems(1) by (simp add: unat_word_ariths unat_of_nat)
  then have "unat e = unat p + 16 * Suc k" unfolding Suc.prems(2) using Suc.prems(1) by (simp add: unat_word_ariths)
  then have lt: "p < e" by (simp add: word_less_nat_alt)
  have p: "unat (p + 16) = unat p + 16" using Suc.prems(1) by (simp add: unat_word_ariths)
  have "e = p + 16 + 16 * of_nat k" unfolding Suc.prems(2) by (simp add: algebra_simps)
  with Suc.IH[of "p + 16" n'] n p Suc.prems(1)
  have IH: "mpsearch_loop n' m (p + 16) e = map_option (\<lambda>i. p + 16 + 16 * of_nat i) (find (\<lambda>i. is_mp m (p + 16 - KERNBASE + 16 * of_nat i)) [0..<k])"
    by simp
  have s: "[0..<Suc k] = 0 # map Suc [0..<k]" by (simp add: map_Suc_upt upt_conv_Cons)
  have f: "find P (map Suc xs) = map_option Suc (find (P \<circ> Suc) xs)" for P xs by (induction xs) auto
  show ?case unfolding n(1) s find.simps f mpsearch_loop.simps using lt IH
    by (simp add: option.map_comp comp_def algebra_simps)
qed

lemma mpsearch1_ok:
  assumes "PGNUM a < npages s" "PGNUM (a + len) < npages s" "unat len mod 16 = 0" "unat (a + KERNBASE) + unat len < 2 ^ 32"
  shows "mpsearch1 a len s = Returns (first_mp (pmem s) a (unat len)) s"
proof -
  let ?k = "unat len div 16"
  have k: "16 * ?k = unat len" using mult_div_mod_eq[of 16 "unat len"] assms(3) by linarith
  have "of_nat (16 * ?k) = len" unfolding k by simp
  then have e: "a + len + KERNBASE = a + KERNBASE + 16 * of_nat ?k" by (simp add: algebra_simps)
  have K: "KADDR a s = Returns (a + KERNBASE) s" "KADDR (a + len) s = Returns (a + len + KERNBASE) s"
    using assms(1,2) by (simp_all add: KADDR_def not_le)
  have "mpsearch_loop (Suc (unat len)) (pmem s) (a + KERNBASE) (a + len + KERNBASE) = first_mp (pmem s) a (unat len)"
    using mpsearch_loop_find[OF _ e, of "Suc (unat len)" "pmem s"] assms(4) k
    by (simp add: first_mp_def algebra_simps div_le_dividend le_imp_less_Suc)
  then show ?thesis unfolding mpsearch1_def by (simp only: kbind_Returns K kget_apply)
qed

lemma mp_proc_run:
  assumes "length (cpus s) = NCPU" "ncpu s \<le> NCPU" "\<forall>i < ncpu s. cpu_id (cpus s ! i) = of_nat i" "bootcpu s = Some b"
  shows "\<exists>t. mp_proc p s = Returns () t \<and>
    procs_found s (min NCPU (ncpu s + 1)) (if is_boot (pmem s) p then ncpu s else b) t"
proof (cases "ncpu s < NCPU")
  case True
  then have "\<exists>t. mp_proc p s = Returns () t \<and> procs_found s (ncpu s + 1) (if is_boot (pmem s) p then ncpu s else b) t"
    using assms by (auto simp: mp_proc_def load8_def is_boot_def procs_found_def kseq_apply nth_list_update less_Suc_eq)
  with True show ?thesis by (simp add: min_absorb2)
next
  case False
  then show ?thesis
    using assms by (auto simp: mp_proc_def load8_def is_boot_def procs_found_def kseq_apply cprintf_def)
qed

lemma mp_entries_run:
  assumes "mp_list n (pmem s) p = Some qs" "length (cpus s) = NCPU" "ncpu s \<le> NCPU" "\<forall>i < ncpu s. cpu_id (cpus s ! i) = of_nat i"
    "bootcpu s = Some b"
  shows "\<exists>t. mp_entries n p s = Returns () t \<and> procs_found s (min NCPU (ncpu s + length qs)) (boot_index (pmem s) b (ncpu s) qs) t"
  using assms
proof (induction n arbitrary: s p qs b)
  case 0
  then show ?case by (simp add: procs_found_def min_absorb2)
next
  case (Suc n)
  define t where "t = pmem s (p - KERNBASE)"
  have l: "load8 p s = Returns t s" by (simp add: load8_def t_def)
  show ?case
  proof (cases "t = MPPROC")
    case True
    then obtain qs' where q: "qs = p # qs'" "mp_list n (pmem s) (p + 20) = Some qs'"
      using Suc.prems(1) by (auto simp: t_def)
    let ?b = "if is_boot (pmem s) p then ncpu s else b"
    obtain u where u: "mp_proc p s = Returns () u" "procs_found s (min NCPU (ncpu s + 1)) ?b u"
      using mp_proc_run[OF Suc.prems(2-5)] by blast
    then have pre: "mp_list n (pmem u) (p + 20) = Some qs'" "length (cpus u) = NCPU" "ncpu u \<le> NCPU"
      "\<forall>i < ncpu u. cpu_id (cpus u ! i) = of_nat i" "bootcpu u = Some ?b"
      using q(2) Suc.prems(2) by (simp_all add: procs_found_def)
    obtain v where v: "mp_entries n (p + 20) u = Returns () v"
      "procs_found u (min NCPU (ncpu u + length qs')) (boot_index (pmem u) ?b (ncpu u) qs') v"
      using Suc.IH[OF pre] by blast
    have "mp_entries (Suc n) p s = Returns () v"
      by (simp only: mp_entries.simps kbind_Returns l True if_True kseq_Returns u(1) v(1) refl)
    moreover have "procs_found s (min NCPU (ncpu s + length qs)) (boot_index (pmem s) b (ncpu s) qs) v"
      using u(2) v(2) q(1) by (auto simp: procs_found_def)
    ultimately show ?thesis by blast
  next
    case False
    then have t: "t \<in> {MPBUS, MPIOAPIC, MPIOINTR, MPLINTR}" "mp_list n (pmem s) (p + 8) = Some qs"
      using Suc.prems(1) by (auto simp: t_def Let_def split: if_splits)
    have "mp_entries (Suc n) p s = mp_entries n (p + 8) s"
      by (simp only: mp_entries.simps kbind_Returns l False t(1) if_True if_False)
    then show ?thesis using Suc.IH[OF t(2) Suc.prems(2-5)] by simp
  qed
qed

text \<open>
  C29: When the firmware's tables are valid and hold only known entries, \<open>mp_init\<close> numbers the processors in the order of the
  table, at most \<open>NCPU\<close> of them, and marks the one with the boot flag as started; but when \<open>NCPU\<close> processors come before the boot
  processor, the pointer to it lies past the array and the store through it goes astray.
\<close>

theorem mp_init_processors:
  assumes "length (cpus s) = NCPU" "ncpu s = 0"
    "mpconfig (s\<lparr>bootcpu := Some 0\<rparr>) = Returns (Some (mp, conf)) (s\<lparr>bootcpu := Some 0\<rparr>)"
    "mp_list (unat (mc_entry conf)) (pmem s) (mc_addr conf + 44) = Some qs" "b = boot_index (pmem s) 0 0 qs"
  shows "if b < NCPU then \<exists>t. mp_init s = Returns () t \<and> ncpu t = min NCPU (length qs) \<and> bootcpu t = Some b \<and>
      cpu_status (cpus t ! b) = CPU_STARTED \<and> (\<forall>i < ncpu t. cpu_id (cpus t ! i) = of_nat i) \<and>
      ismp t \<and> lapicaddr t = mc_lapicaddr conf
    else mp_init s = Panics ''wild CpuInfo pointer''"
proof -
  define s1 where "s1 = s\<lparr>bootcpu := Some 0, ismp := True, lapicaddr := mc_lapicaddr conf\<rparr>"
  have s1: "mp_list (unat (mc_entry conf)) (pmem s1) (mc_addr conf + 44) = Some qs" "length (cpus s1) = NCPU" "ncpu s1 \<le> NCPU"
    "\<forall>i < ncpu s1. cpu_id (cpus s1 ! i) = of_nat i" "bootcpu s1 = Some 0"
    using assms(1,2,4) by (simp_all add: s1_def)
  obtain t where t: "mp_entries (unat (mc_entry conf)) (mc_addr conf + 44) s1 = Returns () t"
    "procs_found s1 (min NCPU (ncpu s1 + length qs)) (boot_index (pmem s1) 0 (ncpu s1) qs) t"
    using mp_entries_run[OF s1] by blast
  then have f: "ncpu t = min NCPU (length qs)" "bootcpu t = Some b" "length (cpus t) = NCPU" "ismp t" "lapicaddr t = mc_lapicaddr conf"
    "\<forall>i < ncpu t. cpu_id (cpus t ! i) = of_nat i"
    using assms(1,2,5) by (simp_all add: procs_found_def s1_def)
  have m1: "kmodify (\<lambda>s. s\<lparr>bootcpu := Some 0\<rparr>) s = Returns () (s\<lparr>bootcpu := Some 0\<rparr>)"
    "kmodify (\<lambda>s. s\<lparr>ismp := True, lapicaddr := mc_lapicaddr conf\<rparr>) (s\<lparr>bootcpu := Some 0\<rparr>) = Returns () s1"
    by (simp_all add: s1_def)
  have init: "mp_init s = kbind start_bootcpu (mp_report mp) t"
    unfolding mp_init_def
    by (simp only: kseq_Returns kbind_Returns m1 assms(3) option.case prod.case t(1))
  have r: "\<exists>v. mp_report mp c u = Returns () v \<and> ncpu v = ncpu u \<and> bootcpu v = bootcpu u \<and> cpus v = cpus u \<and> ismp v \<and>
    lapicaddr v = lapicaddr u" if "ismp u" for c u
    unfolding mp_report_def using that by (simp add: cprintf_def outb_def)
  show ?thesis
  proof (cases "b < NCPU")
    case True
    let ?c = "(cpus t ! b)\<lparr>cpu_status := CPU_STARTED\<rparr>"
    let ?u = "t\<lparr>cpus := (cpus t)[b := ?c]\<rparr>"
    have "start_bootcpu t = Returns ?c ?u" unfolding start_bootcpu_def using f(2,3) True by simp
    moreover obtain v where v: "mp_report mp ?c ?u = Returns () v" "ncpu v = ncpu t" "bootcpu v = bootcpu t" "cpus v = (cpus t)[b := ?c]" "ismp v"
      "lapicaddr v = lapicaddr t" using r[of ?u ?c] f(4) by auto
    ultimately have "mp_init s = Returns () v" unfolding init by (simp only: kbind_Returns)
    then show ?thesis using f v True by (auto simp: nth_list_update)
  next
    case False
    then have "start_bootcpu t = Panics ''wild CpuInfo pointer''" unfolding start_bootcpu_def using f(2,3) by simp
    with False show ?thesis unfolding init by simp
  qed
qed

lemma sample_mp:
  "read16 sample_memory 0x40E = 0x100" "first_mp sample_memory 0x1000 1024 = Some 0xF0001000"
  "mp_at sample_memory 0xF0001000 = \<lparr>mp_addr = 0xF0001000, mp_physaddr = 0x2000, mp_type = 0, mp_imcrp = 0\<rparr>"
  "mpconf_at sample_memory 0xF0002000 = \<lparr>mc_addr = 0xF0002000, mc_length = 84, mc_version = 4, mc_entry = 2, mc_lapicaddr = 0xFEE00000,
     mc_xlength = 0, mc_xchecksum = 0\<rparr>"
  "has_signature sample_memory 0x2000 ''PCMP''" "mp_sum sample_memory 0x2000 84 = 0" "mp_sum sample_memory 0x2054 0 = 0"
  "mp_list 2 sample_memory 0xF000202C = Some [0xF000202C, 0xF0002040]" "boot_index sample_memory 0 0 [0xF000202C, 0xF0002040] = 1"
  by code_simp+

lemma sample_mpconfig:
  assumes "pmem s = sample_memory" "npages s = 300"
  shows "mpconfig s = Returns (Some (mp_at sample_memory 0xF0001000, mpconf_at sample_memory 0xF0002000)) s"
proof -
  have K: "KADDR (push_bit 4 0x40) s = Returns 0xF0000400 s" "KADDR 0x2000 s = Returns 0xF0002000 s"
    using assms(2) by (simp_all add: KADDR_def PGNUM_def)
  have l: "load16 (0xF0000400 + 0x0E) s = Returns 0x100 s" using sample_mp(1) assms(1) by (simp add: load16_def)
  have "mpsearch1 0x1000 1024 s = Returns (Some 0xF0001000) s"
    using mpsearch1_ok[of "0x1000" s 1024] assms sample_mp(2) by (simp add: PGNUM_def)
  then have "mpsearch1 (push_bit 4 (ucast (0x100 :: u16))) 1024 s = Returns (Some 0xF0001000) s" by simp
  then have "mpsearch s = Returns (Some 0xF0001000) s" unfolding mpsearch_def
    using K(1) l by (simp add: kbind_Returns)
  then show ?thesis unfolding mpconfig_def using K(2) sample_mp assms(1) by (simp add: Let_def)
qed

theorem mp_init_processors_witness:
  "\<exists>t. mp_init mp_machine = Returns () t \<and> ncpu t = 2 \<and> bootcpu t = Some 1 \<and> cpu_status (cpus t ! 1) = CPU_STARTED"
proof -
  have pre: "length (cpus mp_machine) = NCPU" "ncpu mp_machine = 0"
    "mpconfig (mp_machine\<lparr>bootcpu := Some 0\<rparr>) = Returns (Some (mp_at sample_memory 0xF0001000, mpconf_at sample_memory 0xF0002000)) (mp_machine\<lparr>bootcpu := Some 0\<rparr>)"
    "mp_list (unat (mc_entry (mpconf_at sample_memory 0xF0002000))) (pmem mp_machine) (mc_addr (mpconf_at sample_memory 0xF0002000) + 44)
      = Some [0xF000202C, 0xF0002040]" "1 = boot_index (pmem mp_machine) 0 0 [0xF000202C, 0xF0002040]"
    using sample_mp(4,8,9) by (simp_all add: mp_machine_def small_machine_def sample_mpconfig)
  show ?thesis using mp_init_processors[OF pre] by auto
qed

text \<open>
  The search for the floating pointer over a range that starts at \<open>a\<close> and is a multiple of 16 bytes long returns the first place, in steps of 16
  bytes, that has the signature and whose 16 bytes sum to zero, and none when there is no such place.
\<close>

theorem mpsearch1_first:
  assumes "PGNUM a < npages s" "PGNUM (a + len) < npages s" "unat len mod 16 = 0" "unat (a + KERNBASE) + unat len < 2 ^ 32"
  shows "mpsearch1 a len s = Returns (map_option (\<lambda>i. a + 16 * of_nat i + KERNBASE)
    (find (\<lambda>i. has_signature (pmem s) (a + 16 * of_nat i) ''_MP_'' \<and> (\<Sum>k<16. pmem s (a + 16 * of_nat i + of_nat k)) = 0)
      [0..<unat len div 16])) s"
  using mpsearch1_ok[OF assms] by (simp only: first_mp_def is_mp_def mp_sum_bytes)

theorem mpsearch1_first_witness:
  "mpsearch1 0x1000 1024 mp_machine = Returns (Some 0xF0001000) mp_machine"
  using mpsearch1_first[of "0x1000" mp_machine 1024] sample_mp(2)
  by (simp add: mp_machine_def PGNUM_def first_mp_def is_mp_def mp_sum_bytes)

end
