(* ===== verification/Mem_Init.thy ===== *)
theory Mem_Init
  imports Trap Lapic Mpconfig
begin

text \<open>
  The set-up of memory, \<^verbatim>\<open>mem_init\<close> of \<^verbatim>\<open>kern/pmap.c\<close>, with the checks it runs on the page allocator and the page tables. A loop
  over the free list that does not change it visits the pages it links; a list that does not end
  within the number of pages is circular, and the loop spins.
\<close>

section \<open>Helpers of the checks\<close>

primrec walk_list :: "nat \<Rightarrow> nat option \<Rightarrow> (kstate, nat list) kernel" where
  "walk_list 0 pp = kleave Spins"
| "walk_list (Suc n) pp = (case pp of
     None \<Rightarrow> kret []
   | Some i \<Rightarrow> kbind (page_at i) (\<lambda>p. kbind (walk_list n (pp_link p)) (\<lambda>is. kret (i # is))))"

definition free_pages :: "(kstate, nat list) kernel" where
  "free_pages = (\<lambda>s. walk_list (Suc (length (pages s))) (page_free_list s) s)"

definition alloc_assert :: "u32 \<Rightarrow> (kstate, nat) kernel" where
  "alloc_assert flags = kbind (page_alloc flags) (\<lambda>r. case r of
     None \<Rightarrow> kpanic ''assertion failed: page_alloc'' | Some p \<Rightarrow> kret p)"

definition assert_no_page :: "(kstate, unit) kernel" where
  "assert_no_page = kbind (page_alloc 0) (\<lambda>r. kassert ''!page_alloc(0)'' (r = None))"

definition assert_ref :: "nat \<Rightarrow> u16 \<Rightarrow> (kstate, unit) kernel" where
  "assert_ref pp n = kbind (page_at pp) (\<lambda>p. kassert ''pp_ref'' (pp_ref p = n))"

definition set_ref :: "nat \<Rightarrow> u16 \<Rightarrow> (kstate, unit) kernel" where
  "set_ref pp n = set_page pp (\<lambda>p. p\<lparr>pp_ref := n\<rparr>)"

definition set_free_list :: "nat option \<Rightarrow> (kstate, unit) kernel" where
  "set_free_list fl = kmodify (\<lambda>s. s\<lparr>page_free_list := fl\<rparr>)"

definition check_va2pa :: "u32 \<Rightarrow> u32 \<Rightarrow> (kstate, u32) kernel" where
  "check_va2pa pgdir va =
     kbind (load32 (pgdir + 4 * PDX va)) (\<lambda>pde.
     if pde AND PTE_P = 0 then kret (NOT 0)
     else kbind (KADDR (PTE_ADDR pde)) (\<lambda>p.
       kbind (load32 (p + 4 * PTX va)) (\<lambda>pte.
       if pte AND PTE_P = 0 then kret (NOT 0) else kret (PTE_ADDR pte))))"

definition assert_va2pa :: "u32 \<Rightarrow> u32 \<Rightarrow> u32 \<Rightarrow> (kstate, unit) kernel" where
  "assert_va2pa pgdir va pa = kbind (check_va2pa pgdir va) (\<lambda>v. kassert ''check_va2pa'' (v = pa))"

text \<open>The entry a page table walk finds, read through the pointer it returns.\<close>

definition walked_pte :: "u32 \<Rightarrow> u32 \<Rightarrow> (kstate, u32) kernel" where
  "walked_pte pgdir va = kbind (pgdir_walk pgdir va False) (\<lambda>p. case p of
     None \<Rightarrow> kpanic ''null pointer dereference'' | Some a \<Rightarrow> load32 a)"

definition assert_pte :: "u32 \<Rightarrow> u32 \<Rightarrow> (u32 \<Rightarrow> bool) \<Rightarrow> (kstate, unit) kernel" where
  "assert_pte pgdir va P = kbind (walked_pte pgdir va) (\<lambda>v. kassert ''*pgdir_walk'' (P v))"

definition clear_pte :: "u32 \<Rightarrow> u32 \<Rightarrow> (kstate, unit) kernel" where
  "clear_pte pgdir va = kbind (pgdir_walk pgdir va False) (\<lambda>p. case p of
     None \<Rightarrow> kpanic ''null pointer dereference'' | Some a \<Rightarrow> store32 a 0)"

definition assert_insert :: "u32 \<Rightarrow> nat \<Rightarrow> u32 \<Rightarrow> u32 \<Rightarrow> (int \<Rightarrow> bool) \<Rightarrow> (kstate, unit) kernel" where
  "assert_insert pgdir pp va perm P = kbind (page_insert pgdir pp va perm) (\<lambda>r. kassert ''page_insert'' (P r))"

section \<open>The free list\<close>

text \<open>
  The first part of \<^verbatim>\<open>check_page_free_list\<close> moves low pages to the front. The two pointers of the array \<^verbatim>\<open>tp\<close> point to the local
  list heads \<^verbatim>\<open>pp1\<close> and \<^verbatim>\<open>pp2\<close> at first (no tail yet) and then to the link of the last page put on each list; the
  index is the test \<^verbatim>\<open>pagetype\<close>.
\<close>

record splits =
  sp_head :: "bool \<Rightarrow> nat option"
  sp_tail :: "bool \<Rightarrow> nat option"

definition put :: "bool \<Rightarrow> nat option \<Rightarrow> splits \<Rightarrow> (kstate, splits) kernel" where
  "put b v sp = (case sp_tail sp b of
     None \<Rightarrow> kret (sp\<lparr>sp_head := (sp_head sp)(b := v)\<rparr>)
   | Some t \<Rightarrow> kseq (set_page t (\<lambda>p. p\<lparr>pp_link := v\<rparr>)) (kret sp))"

definition high_page :: "u32 \<Rightarrow> nat \<Rightarrow> bool" where
  "high_page pdx_limit i \<longleftrightarrow> PDX (page2pa i) \<ge> pdx_limit"

primrec split_loop :: "nat \<Rightarrow> u32 \<Rightarrow> nat option \<Rightarrow> splits \<Rightarrow> (kstate, splits) kernel" where
  "split_loop 0 pdx_limit pp sp = kleave Spins"
| "split_loop (Suc n) pdx_limit pp sp = (case pp of
     None \<Rightarrow> kret sp
   | Some i \<Rightarrow>
       let pagetype = high_page pdx_limit i in
       kbind (put pagetype (Some i) sp) (\<lambda>sp.
       kbind (page_at i) (\<lambda>p.
       split_loop n pdx_limit (pp_link p) (sp\<lparr>sp_tail := (sp_tail sp)(pagetype := Some i)\<rparr>))))"

definition low_pages_first :: "u32 \<Rightarrow> (kstate, unit) kernel" where
  "low_pages_first pdx_limit =
     kbind (kget page_free_list) (\<lambda>fl.
     kbind (\<lambda>s. split_loop (Suc (length (pages s))) pdx_limit fl \<lparr>sp_head = (\<lambda>_. None), sp_tail = (\<lambda>_. None)\<rparr> s) (\<lambda>sp.
     kbind (put True None sp) (\<lambda>sp.
     kbind (put False (sp_head sp True) sp) (\<lambda>sp.
     set_free_list (sp_head sp False)))))"

definition check_free_page :: "u32 \<Rightarrow> nat \<Rightarrow> (kstate, unit) kernel" where
  "check_free_page first_free pp =
     kbind (kget npages) (\<lambda>np. kseqs [
       kassert ''pp < pages + npages'' (pp < unat np),
       kassert ''page2pa(pp) != 0'' (page2pa pp \<noteq> 0),
       kassert ''page2pa(pp) != IOPHYSMEM'' (page2pa pp \<noteq> IOPHYSMEM),
       kassert ''page2pa(pp) != EXTPHYSMEM - PGSIZE'' (page2pa pp \<noteq> EXTPHYSMEM - PGSIZE),
       kassert ''page2pa(pp) != EXTPHYSMEM'' (page2pa pp \<noteq> EXTPHYSMEM),
       kwhen (\<not> page2pa pp < EXTPHYSMEM)
         (kbind (page2kva pp) (\<lambda>kva. kassert ''page2kva(pp) >= first_free_page'' (kva \<ge> first_free))),
       kassert ''page2pa(pp) != MPENTRY_PADDR'' (page2pa pp \<noteq> MPENTRY_PADDR)])"

text \<open>The loop that fills the free pages with rubbish.\<close>

definition scribble :: "u32 \<Rightarrow> nat \<Rightarrow> (kstate, unit) kernel" where
  "scribble pdx_limit pp = kwhen (\<not> high_page pdx_limit pp)
     (kbind (page2kva pp) (\<lambda>kva. memset_k kva 0x97 128))"

definition check_listed_pages :: "image \<Rightarrow> u32 \<Rightarrow> (kstate, unit) kernel" where
  "check_listed_pages im pdx_limit =
     kbind free_pages (\<lambda>pps.
     kseq (kfor pps (scribble pdx_limit))
     (kbind (boot_alloc (im_end im) 0) (\<lambda>first_free. kseqs [
        kfor pps (check_free_page first_free),
        kassert ''nfree_basemem > 0'' (\<exists>pp \<in> set pps. page2pa pp < EXTPHYSMEM),
        kassert ''nfree_extmem > 0'' (\<exists>pp \<in> set pps. \<not> page2pa pp < EXTPHYSMEM),
        cprintf ''check_page_free_list() succeeded!\<newline>'' []])))"

definition check_page_free_list :: "image \<Rightarrow> bool \<Rightarrow> (kstate, unit) kernel" where
  "check_page_free_list im only_low_memory =
     (let pdx_limit = (if only_low_memory then 1 else of_nat NPDENTRIES) in
      kbind (kget page_free_list) (\<lambda>fl.
      if fl = None then kpanic ''page_free_list is a null pointer!''
      else kseq (kwhen only_low_memory (low_pages_first pdx_limit)) (check_listed_pages im pdx_limit)))"

section \<open>The allocator\<close>

text \<open>Three pages, all different.\<close>

definition three_pages :: "(kstate, nat \<times> nat \<times> nat) kernel" where
  "three_pages =
     kbind (alloc_assert 0) (\<lambda>pp0. kbind (alloc_assert 0) (\<lambda>pp1. kbind (alloc_assert 0) (\<lambda>pp2.
     kseq (kassert ''pp1 && pp1 != pp0'' (pp1 \<noteq> pp0))
     (kseq (kassert ''pp2 && pp2 != pp1 && pp2 != pp0'' (pp2 \<noteq> pp1 \<and> pp2 \<noteq> pp0))
     (kret (pp0, pp1, pp2))))))"

definition assert_in_memory :: "nat \<Rightarrow> (kstate, unit) kernel" where
  "assert_in_memory pp = kbind (kget npages) (\<lambda>np.
     kassert ''page2pa(pp) < npages*PGSIZE'' (page2pa pp < np * PGSIZE))"

text \<open>A page filled with ones, freed and allocated again with \<^verbatim>\<open>ALLOC_ZERO\<close>.\<close>

definition check_zeroed :: "nat \<Rightarrow> (kstate, unit) kernel" where
  "check_zeroed pp0 = kseqs [
     kbind (page2kva pp0) (\<lambda>kva. memset_k kva 1 PGSIZE),
     page_free pp0,
     kbind (alloc_assert ALLOC_ZERO) (\<lambda>pp.
       kseq (kassert ''pp && pp0 == pp'' (pp0 = pp))
       (kbind (page2kva pp) (\<lambda>c.
         kfor [0..<unat PGSIZE] (\<lambda>i. kbind (kget pmem) (\<lambda>m.
           kassert ''c[i] == 0'' (m (c + of_nat i - KERNBASE) = 0))))))]"

definition check_page_alloc :: "(kstate, unit) kernel" where
  "check_page_alloc =
     kbind (kget pages_kva) (\<lambda>kva.
     if kva = 0 then kpanic ''pages is a null pointer!''
     else
       kbind free_pages (\<lambda>before.
       kbind three_pages (\<lambda>(pp0, pp1, pp2).
       kseq (kseqs [assert_in_memory pp0, assert_in_memory pp1, assert_in_memory pp2])
       (kbind (kget page_free_list) (\<lambda>fl.
        kseq (kseqs [set_free_list None, assert_no_page, page_free pp0, page_free pp1, page_free pp2])
       (kbind three_pages (\<lambda>(pp0, pp1, pp2). kseqs [
          assert_no_page,
          check_zeroed pp0,
          set_free_list fl,
          page_free pp0, page_free pp1, page_free pp2,
          kbind free_pages (\<lambda>after. kassert ''nfree == 0'' (length after = length before)),
          cprintf ''check_page_alloc() succeeded!\<newline>'' []])))))))"

section \<open>Mapping pages\<close>

definition with_kern_pgdir :: "(u32 \<Rightarrow> (kstate, unit) kernel) \<Rightarrow> (kstate, unit) kernel" where
  "with_kern_pgdir f = kbind (kget kern_pgdir) f"

definition assert_not_mapped :: "u32 \<Rightarrow> u32 \<Rightarrow> (kstate, unit) kernel" where
  "assert_not_mapped pgdir va = kbind (page_lookup pgdir va) (\<lambda>r. kassert ''page_lookup'' (r = None))"

definition assert_pde :: "u32 \<Rightarrow> u32 \<Rightarrow> (u32 \<Rightarrow> bool) \<Rightarrow> (kstate, unit) kernel" where
  "assert_pde pgdir i P = kbind (load32 (pgdir + 4 * i)) (\<lambda>v. kassert ''kern_pgdir'' (P v))"

definition assert_alloc_is :: "nat \<Rightarrow> (kstate, unit) kernel" where
  "assert_alloc_is pp = kbind (page_alloc 0) (\<lambda>r. kassert ''(pp = page_alloc(0)) && pp == pp0'' (r = Some pp))"

text \<open>The address of the entry for \<open>va\<close>, found by hand, and by \<^verbatim>\<open>pgdir_walk\<close>.\<close>

definition assert_walk :: "u32 \<Rightarrow> u32 \<Rightarrow> bool \<Rightarrow> (kstate, unit) kernel" where
  "assert_walk pgdir va create =
     kbind (pgdir_walk pgdir va create) (\<lambda>ptep.
     kbind (load32 (pgdir + 4 * PDX va)) (\<lambda>pde.
     kbind (KADDR (PTE_ADDR pde)) (\<lambda>ptep1.
     kassert ''ptep == ptep1 + PTX(va)'' (ptep = Some (ptep1 + 4 * PTX va)))))"

text \<open>The steps of \<^verbatim>\<open>check_page\<close> that insert pages while there is no free memory.\<close>

definition check_page_inserts :: "u32 \<Rightarrow> nat \<Rightarrow> nat \<Rightarrow> nat \<Rightarrow> (kstate, unit) kernel" where
  "check_page_inserts pgdir pp0 pp1 pp2 = kseqs [
     assert_no_page,
     assert_not_mapped pgdir 0,
     assert_insert pgdir pp1 0 PTE_W (\<lambda>r. r < 0),
     page_free pp0,
     assert_insert pgdir pp1 0 PTE_W (\<lambda>r. r = 0),
     assert_pde pgdir 0 (\<lambda>v. PTE_ADDR v = page2pa pp0),
     assert_va2pa pgdir 0 (page2pa pp1),
     assert_ref pp1 1,
     assert_ref pp0 1,
     assert_insert pgdir pp2 PGSIZE PTE_W (\<lambda>r. r = 0),
     assert_va2pa pgdir PGSIZE (page2pa pp2),
     assert_ref pp2 1,
     assert_no_page,
     assert_insert pgdir pp2 PGSIZE PTE_W (\<lambda>r. r = 0),
     assert_va2pa pgdir PGSIZE (page2pa pp2),
     assert_ref pp2 1,
     assert_no_page,
     assert_walk pgdir PGSIZE False,
     assert_insert pgdir pp2 PGSIZE (PTE_W OR PTE_U) (\<lambda>r. r = 0),
     assert_va2pa pgdir PGSIZE (page2pa pp2),
     assert_ref pp2 1,
     assert_pte pgdir PGSIZE (\<lambda>v. v AND PTE_U \<noteq> 0),
     assert_pde pgdir 0 (\<lambda>v. v AND PTE_U \<noteq> 0),
     assert_insert pgdir pp2 PGSIZE PTE_W (\<lambda>r. r = 0),
     assert_pte pgdir PGSIZE (\<lambda>v. v AND PTE_W \<noteq> 0),
     assert_pte pgdir PGSIZE (\<lambda>v. v AND PTE_U = 0),
     assert_insert pgdir pp0 PTSIZE PTE_W (\<lambda>r. r < 0),
     assert_insert pgdir pp1 PGSIZE PTE_W (\<lambda>r. r = 0),
     assert_pte pgdir PGSIZE (\<lambda>v. v AND PTE_U = 0),
     assert_va2pa pgdir 0 (page2pa pp1),
     assert_va2pa pgdir PGSIZE (page2pa pp1),
     assert_ref pp1 2,
     assert_ref pp2 0,
     assert_alloc_is pp2]"

text \<open>The steps that remove them again.\<close>

definition check_page_removes :: "u32 \<Rightarrow> nat \<Rightarrow> nat \<Rightarrow> nat \<Rightarrow> (kstate, unit) kernel" where
  "check_page_removes pgdir pp0 pp1 pp2 = kseqs [
     page_remove pgdir 0,
     assert_va2pa pgdir 0 (NOT 0),
     assert_va2pa pgdir PGSIZE (page2pa pp1),
     assert_ref pp1 1,
     assert_ref pp2 0,
     assert_insert pgdir pp1 PGSIZE 0 (\<lambda>r. r = 0),
     kbind (page_at pp1) (\<lambda>p. kassert ''pp1->pp_ref'' (pp_ref p \<noteq> 0)),
     kbind (page_at pp1) (\<lambda>p. kassert ''pp1->pp_link == NULL'' (pp_link p = None)),
     page_remove pgdir PGSIZE,
     assert_va2pa pgdir 0 (NOT 0),
     assert_va2pa pgdir PGSIZE (NOT 0),
     assert_ref pp1 0,
     assert_ref pp2 0,
     assert_alloc_is pp1,
     assert_no_page,
     assert_pde pgdir 0 (\<lambda>v. PTE_ADDR v = page2pa pp0),
     store32 pgdir 0,
     assert_ref pp0 1,
     set_ref pp0 0]"

text \<open>The steps that look at new page tables.\<close>

definition check_page_tables :: "u32 \<Rightarrow> nat \<Rightarrow> (kstate, unit) kernel" where
  "check_page_tables pgdir pp0 =
     (let va = PGSIZE * of_nat NPDENTRIES + PGSIZE in kseqs [
       page_free pp0,
       assert_walk pgdir va True,
       store32 (pgdir + 4 * PDX va) 0,
       set_ref pp0 0,
       kbind (page2kva pp0) (\<lambda>kva. memset_k kva 0xFF PGSIZE),
       page_free pp0,
       kbind (pgdir_walk pgdir 0 True) (\<lambda>_. kret ()),
       kbind (page2kva pp0) (\<lambda>ptep. kfor [0..<NPTENTRIES] (\<lambda>i.
         kbind (load32 (ptep + 4 * of_nat i)) (\<lambda>v. kassert ''(ptep[i] & PTE_P) == 0'' (v AND PTE_P = 0)))),
       store32 pgdir 0,
       set_ref pp0 0])"

text \<open>The steps that map device memory.\<close>

definition check_page_mmio :: "u32 \<Rightarrow> (kstate, unit) kernel" where
  "check_page_mmio pgdir =
     kbind (mmio_map_region 0 4097) (\<lambda>mm1. kbind (mmio_map_region 0 4096) (\<lambda>mm2. kseqs [
       kassert ''mm1 >= MMIOBASE && mm1 + 8192 < MMIOLIM'' (mm1 \<ge> MMIOBASE \<and> mm1 + 8192 < MMIOLIM),
       kassert ''mm2 >= MMIOBASE && mm2 + 8192 < MMIOLIM'' (mm2 \<ge> MMIOBASE \<and> mm2 + 8192 < MMIOLIM),
       kassert ''mm1 % PGSIZE == 0 && mm2 % PGSIZE == 0'' (mm1 mod PGSIZE = 0 \<and> mm2 mod PGSIZE = 0),
       kassert ''mm1 + 8192 <= mm2'' (mm1 + 8192 \<le> mm2),
       assert_va2pa pgdir mm1 0,
       assert_va2pa pgdir (mm1 + PGSIZE) PGSIZE,
       assert_va2pa pgdir mm2 0,
       assert_va2pa pgdir (mm2 + PGSIZE) (NOT 0),
       assert_pte pgdir mm1 (\<lambda>v. v AND (PTE_W OR PTE_PWT OR PTE_PCD) \<noteq> 0),
       assert_pte pgdir mm1 (\<lambda>v. v AND PTE_U = 0),
       clear_pte pgdir mm1,
       clear_pte pgdir (mm1 + PGSIZE),
       clear_pte pgdir mm2]))"

definition check_page :: "(kstate, unit) kernel" where
  "check_page =
     kbind three_pages (\<lambda>(pp0, pp1, pp2).
     kbind (kget page_free_list) (\<lambda>fl.
     with_kern_pgdir (\<lambda>pgdir. kseqs [
       set_free_list None,
       check_page_inserts pgdir pp0 pp1 pp2,
       check_page_removes pgdir pp0 pp1 pp2,
       check_page_tables pgdir pp0,
       set_free_list fl,
       page_free pp0, page_free pp1, page_free pp2,
       check_page_mmio pgdir,
       cprintf ''check_page() succeeded!\<newline>'' []])))"

section \<open>The kernel's part of the address space\<close>

definition assert_region :: "u32 \<Rightarrow> u32 \<Rightarrow> (kstate, u32) kernel \<Rightarrow> u32 \<Rightarrow> (kstate, unit) kernel" where
  "assert_region pgdir va base n =
     kfor (pages_between 0 n) (\<lambda>i. kbind base (\<lambda>pa. assert_va2pa pgdir (va + i) (pa + i)))"

definition check_kstack :: "image \<Rightarrow> u32 \<Rightarrow> nat \<Rightarrow> (kstate, unit) kernel" where
  "check_kstack im pgdir n =
     (let base = KSTACKTOP - (KSTKSIZE + KSTKGAP) * (of_nat n + 1) in
      kseq (assert_region pgdir (base + KSTKGAP) (PADDR (im_kstacks im + of_nat n * KSTKSIZE)) KSTKSIZE)
      (kfor (pages_between 0 KSTKGAP) (\<lambda>i. assert_va2pa pgdir (base + i) (NOT 0))))"

definition check_pde_perm :: "u32 \<Rightarrow> nat \<Rightarrow> (kstate, unit) kernel" where
  "check_pde_perm pgdir i =
     (if of_nat i \<in> {PDX UVPT, PDX (KSTACKTOP - 1), PDX UPAGES, PDX UENVS, PDX MMIOBASE}
      then assert_pde pgdir (of_nat i) (\<lambda>v. v AND PTE_P \<noteq> 0)
      else if of_nat i \<ge> PDX KERNBASE
      then kseq (assert_pde pgdir (of_nat i) (\<lambda>v. v AND PTE_P \<noteq> 0))
        (assert_pde pgdir (of_nat i) (\<lambda>v. v AND PTE_W \<noteq> 0))
      else assert_pde pgdir (of_nat i) (\<lambda>v. v = 0))"

definition sizeof_PageInfo :: u32 where [simp, layout_defs]: "sizeof_PageInfo = 8"
definition sizeof_Env :: u32 where [simp, layout_defs]: "sizeof_Env = 124"

definition check_kern_pgdir :: "image \<Rightarrow> (kstate, unit) kernel" where
  "check_kern_pgdir im =
     with_kern_pgdir (\<lambda>pgdir.
     kbind (kget npages) (\<lambda>np. kseqs [
       kbind (kget pages_kva) (\<lambda>kva.
         assert_region pgdir UPAGES (PADDR kva) (ROUNDUP (np * sizeof_PageInfo) PGSIZE)),
       kbind (kget envs_kva) (\<lambda>kva.
         assert_region pgdir UENVS (PADDR kva) (ROUNDUP (of_nat NENV * sizeof_Env) PGSIZE)),
       assert_region pgdir KERNBASE (kret 0) (np * PGSIZE),
       kfor [0..<NCPU] (check_kstack im pgdir),
       kfor [0..<NPDENTRIES] (check_pde_perm pgdir),
       cprintf ''check_kern_pgdir() succeeded!\<newline>'' []]))"

section \<open>Pages reached by virtual addresses\<close>

definition vstore32 :: "u32 \<Rightarrow> u32 \<Rightarrow> (kstate, unit) kernel" where
  "vstore32 va v = kfor [0..<4] (\<lambda>i. vstore8 (va + of_nat i) (ucast (drop_bit (8 * i) v)))"

definition fill_page :: "nat \<Rightarrow> u32 \<Rightarrow> (kstate, unit) kernel" where
  "fill_page pp c = kbind (page2kva pp) (\<lambda>kva. memset_k kva c PGSIZE)"

definition check_page_installed_pgdir :: "(kstate, unit) kernel" where
  "check_page_installed_pgdir =
     kbind (alloc_assert 0) (\<lambda>pp0. kbind (alloc_assert 0) (\<lambda>pp1. kbind (alloc_assert 0) (\<lambda>pp2.
     with_kern_pgdir (\<lambda>pgdir. kseqs [
       page_free pp0,
       fill_page pp1 1,
       fill_page pp2 2,
       kbind (page_insert pgdir pp1 PGSIZE PTE_W) (\<lambda>_. kret ()),
       assert_ref pp1 1,
       kbind (vload32 PGSIZE) (\<lambda>v. kassert ''*(uint32_t *)PGSIZE == 0x01010101U'' (v = 0x01010101)),
       kbind (page_insert pgdir pp2 PGSIZE PTE_W) (\<lambda>_. kret ()),
       kbind (vload32 PGSIZE) (\<lambda>v. kassert ''*(uint32_t *)PGSIZE == 0x02020202U'' (v = 0x02020202)),
       assert_ref pp2 1,
       assert_ref pp1 0,
       vstore32 PGSIZE 0x03030303,
       kbind (page2kva pp2) (\<lambda>kva. kbind (load32 kva) (\<lambda>v.
         kassert ''*(uint32_t *)page2kva(pp2) == 0x03030303U'' (v = 0x03030303))),
       page_remove pgdir PGSIZE,
       assert_ref pp2 0,
       assert_pde pgdir 0 (\<lambda>v. PTE_ADDR v = page2pa pp0),
       store32 pgdir 0,
       assert_ref pp0 1,
       set_ref pp0 0,
       page_free pp0,
       cprintf ''check_page_installed_pgdir() succeeded!\<newline>'' []]))))"

section \<open>Setting up memory\<close>

definition CR0_PE :: u32 where [simp, layout_defs]: "CR0_PE = 0x00000001"
definition CR0_MP :: u32 where [simp, layout_defs]: "CR0_MP = 0x00000002"
definition CR0_EM :: u32 where [simp, layout_defs]: "CR0_EM = 0x00000004"
definition CR0_TS :: u32 where [simp, layout_defs]: "CR0_TS = 0x00000008"
definition CR0_NE :: u32 where [simp, layout_defs]: "CR0_NE = 0x00000020"
definition CR0_WP :: u32 where [simp, layout_defs]: "CR0_WP = 0x00010000"
definition CR0_AM :: u32 where [simp, layout_defs]: "CR0_AM = 0x00040000"
definition CR0_PG :: u32 where [simp, layout_defs]: "CR0_PG = 0x80000000"

definition mem_init_mp :: "(kstate, unit) kernel" where
  "mem_init_mp = kret ()"

definition PageInfo_zero :: PageInfo where
  "PageInfo_zero = \<lparr>pp_link = None, pp_ref = 0\<rparr>"

text \<open>
  The arrays and the page directory the boot-time allocator provides. A cleared array is a list of cleared
  records.
\<close>

definition alloc_pages_array :: "image \<Rightarrow> (kstate, unit) kernel" where
  "alloc_pages_array im =
     kbind (kget npages) (\<lambda>np.
     kbind (boot_alloc (im_end im) (sizeof_PageInfo * np)) (\<lambda>a.
     kseq (kmodify (\<lambda>s. s\<lparr>pages_kva := a, pages := replicate (unat np) PageInfo_zero\<rparr>))
     (memset_k a 0 (np * sizeof_PageInfo))))"

definition alloc_kern_pgdir :: "image \<Rightarrow> (kstate, unit) kernel" where
  "alloc_kern_pgdir im =
     kbind (boot_alloc (im_end im) PGSIZE) (\<lambda>a.
     kseq (kmodify (\<lambda>s. s\<lparr>kern_pgdir := a\<rparr>))
     (kseq (memset_k a 0 PGSIZE)
     (kbind (PADDR a) (\<lambda>pa. store32 (a + 4 * PDX UVPT) (pa OR PTE_U OR PTE_P)))))"

definition alloc_envs_array :: "image \<Rightarrow> (kstate, unit) kernel" where
  "alloc_envs_array im =
     kbind (boot_alloc (im_end im) (sizeof_Env * of_nat NENV)) (\<lambda>a.
     kseq (kmodify (\<lambda>s. s\<lparr>envs_kva := a, envs := replicate NENV Env_zero\<rparr>))
     (memset_k a 0 (sizeof_Env * of_nat NENV)))"

definition mem_init :: "image \<Rightarrow> (kstate, unit) kernel" where
  "mem_init im = kseqs [
     i386_detect_memory,
     alloc_pages_array im,
     alloc_kern_pgdir im,
     alloc_envs_array im,
     page_init (im_end im),
     check_page_free_list im True,
     check_page_alloc,
     check_page,
     with_kern_pgdir (\<lambda>pgdir. kbind (kget envs_kva) (\<lambda>kva. kbind (PADDR kva) (\<lambda>pa.
       boot_map_region pgdir UENVS PTSIZE pa PTE_U))),
     mem_init_mp,
     check_kern_pgdir im,
     with_kern_pgdir (\<lambda>pgdir. kbind (PADDR pgdir) lcr3),
     check_page_free_list im False,
     kmodify (\<lambda>s. s\<lparr>cr0 := (cr0 s OR (CR0_PE OR CR0_PG OR CR0_AM OR CR0_WP OR CR0_NE OR CR0_MP))
       AND NOT (CR0_TS OR CR0_EM)\<rparr>),
     check_page_installed_pgdir]"

section \<open>Lists under construction\<close>

text \<open>
  A list whose last link is still to be written: whatever is put there, the list is linked up to it.
\<close>

primrec lseg :: "(nat \<Rightarrow> nat option) \<Rightarrow> nat option \<Rightarrow> nat list \<Rightarrow> nat option \<Rightarrow> bool" where
  "lseg nxt p [] q \<longleftrightarrow> p = q"
| "lseg nxt p (x # xs) q \<longleftrightarrow> p = Some x \<and> lseg nxt (nxt x) xs q"

definition open_list :: "(nat \<Rightarrow> nat option) \<Rightarrow> nat option \<Rightarrow> nat option \<Rightarrow> nat list \<Rightarrow> bool" where
  "open_list nxt h t xs \<longleftrightarrow> (if xs = [] then t = None
     else t = Some (last xs) \<and> (\<forall>v. lseg (nxt(last xs := v)) h xs v))"

definition plinks :: "PageInfo list \<Rightarrow> nat \<Rightarrow> nat option" where
  "plinks ps i = pp_link (ps ! i)"

section \<open>What the check of the free list accepts\<close>

text \<open>The pages that may be on the free list, where \<open>ff\<close> is the end of the boot-time allocations.\<close>

definition may_be_free :: "u32 \<Rightarrow> nat \<Rightarrow> bool" where
  "may_be_free ff x \<longleftrightarrow> x \<notin> {0, 160, 255, 256} \<and> x \<noteq> 7 \<and> (x < 256 \<or> ff \<le> page2pa x + KERNBASE)"

text \<open>A machine of 300 pages with two free ones, one in low and one in extended memory.\<close>

definition checked_machine :: kstate where
  "checked_machine = small_machine\<lparr>npages := 300, page_free_list := Some 5,
     pages := (replicate 300 \<lparr>pp_link = None, pp_ref = 0\<rparr>)[5 := \<lparr>pp_link = Some 260, pp_ref = 0\<rparr>]\<rparr>"

lemma lseg_cong: "(\<And>x. x \<in> set xs \<Longrightarrow> nxt x = nxt' x) \<Longrightarrow> lseg nxt p xs q \<longleftrightarrow> lseg nxt' p xs q"
  by (induction xs arbitrary: p) auto

lemma lseg_append: "lseg nxt p (xs @ ys) q \<longleftrightarrow> (\<exists>r. lseg nxt p xs r \<and> lseg nxt r ys q)"
  by (induction xs arbitrary: p) auto

lemma linked_lseg: "linked nxt p xs \<longleftrightarrow> lseg nxt p xs None"
  by (induction xs arbitrary: p) auto

lemma open_list_cong:
  assumes "\<And>x. x \<in> set xs \<Longrightarrow> nxt x = nxt' x"
  shows "open_list nxt h t xs \<longleftrightarrow> open_list nxt' h t xs"
proof -
  have "lseg (nxt(last xs := v)) h xs v \<longleftrightarrow> lseg (nxt'(last xs := v)) h xs v" for v
    using assms by (intro lseg_cong) auto
  then show ?thesis by (simp add: open_list_def)
qed

lemma open_list_extend:
  assumes "lseg nxt h xs (Some i)" "i \<notin> set xs"
  shows "open_list nxt h (Some i) (xs @ [i])"
proof -
  have "lseg (nxt(i := v)) h xs (Some i)" for v
    using assms by (subst lseg_cong[of xs _ nxt]) auto
  then show ?thesis by (auto simp: open_list_def lseg_append)
qed

lemma plinks_update: "i < length ps \<Longrightarrow> plinks (ps[i := p]) = (plinks ps)(i := pp_link p)"
  by (auto simp: plinks_def fun_eq_iff)

text \<open>Writing the pending link of one of the lists.\<close>

lemma put_ok:
  assumes "open_list (plinks ps) (sp_head sp b) (sp_tail sp b) xs" "\<forall>x \<in> set xs. x < length ps"
  shows "\<exists>ps' h. put b v sp (s\<lparr>pages := ps\<rparr>) = Returns (sp\<lparr>sp_head := (sp_head sp)(b := h)\<rparr>) (s\<lparr>pages := ps'\<rparr>) \<and>
    length ps' = length ps \<and> map pp_ref ps' = map pp_ref ps \<and> lseg (plinks ps') h xs v \<and>
    (\<forall>i. i \<notin> set xs \<longrightarrow> ps' ! i = ps ! i)"
proof (cases "xs = []")
  case True
  with assms(1) have "sp_tail sp b = None" by (simp add: open_list_def)
  then have "put b v sp (s\<lparr>pages := ps\<rparr>) = Returns (sp\<lparr>sp_head := (sp_head sp)(b := v)\<rparr>) (s\<lparr>pages := ps\<rparr>)"
    by (simp add: put_def)
  with True show ?thesis by (intro exI[of _ ps] exI[of _ v]) simp
next
  case False
  let ?t = "last xs"
  let ?ps = "ps[?t := (ps ! ?t)\<lparr>pp_link := v\<rparr>]"
  have t: "?t < length ps" "?t \<in> set xs" using assms(2) False by auto
  have o: "sp_tail sp b = Some ?t" "lseg (plinks ?ps) (sp_head sp b) xs v"
    using assms(1) False by (simp_all add: open_list_def plinks_update[OF t(1)])
  have "sp\<lparr>sp_head := (sp_head sp)(b := sp_head sp b)\<rparr> = sp" by simp
  moreover have "map pp_ref ?ps = map pp_ref ps" using t by (simp add: map_update list_update_same_conv)
  moreover have "put b v sp (s\<lparr>pages := ps\<rparr>) = Returns sp (s\<lparr>pages := ?ps\<rparr>)"
    using o(1) t by (simp add: put_def set_page_def)
  moreover have "\<forall>i. i \<notin> set xs \<longrightarrow> ?ps ! i = ps ! i" using t(2) by (metis nth_list_update_neq)
  ultimately show ?thesis using o(2)
    by (intro exI[of _ ?ps] exI[of _ "sp_head sp b"]) simp
qed

lemma refs_nth: "map pp_ref ps' = map pp_ref ps \<Longrightarrow> i < length ps \<Longrightarrow> pp_ref (ps' ! i) = pp_ref (ps ! i)"
  by (metis nth_map map_eq_imp_length_eq)

text \<open>The loop appends the pages that remain to the two lists, in order.\<close>

lemma split_loop_ok:
  assumes "linked (plinks ps) pp ys" "distinct ys" "\<forall>i \<in> set ys. i < length ps" "length ys < n"
    "\<forall>b. open_list (plinks ps) (sp_head sp b) (sp_tail sp b) (D b)" "\<forall>b. \<forall>x \<in> set (D b). x < length ps"
    "set (D False) \<inter> set (D True) = {}" "\<forall>b. set (D b) \<inter> set ys = {}"
  shows "\<exists>ps' sp'. split_loop n lim pp sp (s\<lparr>pages := ps\<rparr>) = Returns sp' (s\<lparr>pages := ps'\<rparr>) \<and>
    length ps' = length ps \<and> map pp_ref ps' = map pp_ref ps \<and>
    (\<forall>b. open_list (plinks ps') (sp_head sp' b) (sp_tail sp' b) (D b @ filter (\<lambda>i. high_page lim i = b) ys)) \<and>
    (\<forall>i. (\<forall>b. i \<notin> set (D b)) \<longrightarrow> i \<notin> set ys \<longrightarrow> ps' ! i = ps ! i)"
  using assms
proof (induction ys arbitrary: n pp sp ps D)
  case Nil
  then obtain m where "n = Suc m" "pp = None" by (cases n) auto
  then have "split_loop n lim pp sp (s\<lparr>pages := ps\<rparr>) = Returns sp (s\<lparr>pages := ps\<rparr>)" by simp
  with Nil.prems(5) show ?case by (intro exI[of _ ps] exI[of _ sp]) simp
next
  case (Cons i ys)
  obtain m where n: "n = Suc m" "length ys < m" using Cons.prems(4) by (cases n) auto
  define b where "b = high_page lim i"
  have i: "i < length ps" "pp = Some i" "linked (plinks ps) (plinks ps i) ys" using Cons.prems(1,3) by auto
  have fresh: "i \<notin> set (D c)" "set (D c) \<inter> set ys = {}" for c using Cons.prems(8) by auto
  obtain ps1 h where p: "put b (Some i) sp (s\<lparr>pages := ps\<rparr>) = Returns (sp\<lparr>sp_head := (sp_head sp)(b := h)\<rparr>) (s\<lparr>pages := ps1\<rparr>)"
    "length ps1 = length ps" "map pp_ref ps1 = map pp_ref ps" "lseg (plinks ps1) h (D b) (Some i)"
    and keep: "\<forall>j. j \<notin> set (D b) \<longrightarrow> ps1 ! j = ps ! j"
    using put_ok[of ps sp b "D b" "Some i" s] Cons.prems(5,6) by auto
  let ?sp = "sp\<lparr>sp_head := (sp_head sp)(b := h), sp_tail := (sp_tail sp)(b := Some i)\<rparr>"
  let ?D = "D(b := D b @ [i])"
  have other: "set (D (\<not> b)) \<inter> set (D b) = {}" using Cons.prems(7) by (cases b) auto
  have opens: "\<forall>c. open_list (plinks ps1) (sp_head ?sp c) (sp_tail ?sp c) (?D c)"
  proof
    fix c
    show "open_list (plinks ps1) (sp_head ?sp c) (sp_tail ?sp c) (?D c)"
    proof (cases "c = b")
      case True
      then show ?thesis using open_list_extend[OF p(4) fresh(1)] by simp
    next
      case False
      then have "c = (\<not> b)" by auto
      then have "\<And>x. x \<in> set (D c) \<Longrightarrow> plinks ps1 x = plinks ps x"
        using other keep by (auto simp: plinks_def)
      then have "open_list (plinks ps1) (sp_head sp c) (sp_tail sp c) (D c)"
        using Cons.prems(5) open_list_cong[of "D c" "plinks ps1" "plinks ps"] by blast
      with False show ?thesis by simp
    qed
  qed
  have link: "linked (plinks ps1) (plinks ps i) ys"
    using i(3) fresh(2)[of b] keep by (subst linked_cong[of ys _ "plinks ps"]) (auto simp: plinks_def)
  have "ps1 ! i = ps ! i" using keep fresh(1) by blast
  then have step: "split_loop n lim pp sp (s\<lparr>pages := ps\<rparr>) = split_loop m lim (plinks ps i) ?sp (s\<lparr>pages := ps1\<rparr>)"
    using p i b_def by (simp add: n Let_def page_at_def plinks_def)
  have dom: "\<forall>c. \<forall>x \<in> set (?D c). x < length ps1" using Cons.prems(6) i p(2) by auto
  have disj: "set (?D False) \<inter> set (?D True) = {}" using Cons.prems(7) fresh(1) by (cases b) auto
  have rest: "\<forall>c. set (?D c) \<inter> set ys = {}" using fresh(2) Cons.prems(2) by auto
  obtain ps' sp' where r: "split_loop m lim (plinks ps i) ?sp (s\<lparr>pages := ps1\<rparr>) = Returns sp' (s\<lparr>pages := ps'\<rparr>)"
    "length ps' = length ps1" "map pp_ref ps' = map pp_ref ps1"
    and o: "\<forall>c. open_list (plinks ps') (sp_head sp' c) (sp_tail sp' c) (?D c @ filter (\<lambda>i. high_page lim i = c) ys)"
    and k: "\<forall>j. (\<forall>c. j \<notin> set (?D c)) \<longrightarrow> j \<notin> set ys \<longrightarrow> ps' ! j = ps1 ! j"
    using Cons.IH[OF link _ _ n(2) opens dom disj rest] Cons.prems(2,3) p(2) by auto
  have "\<forall>c. open_list (plinks ps') (sp_head sp' c) (sp_tail sp' c) (D c @ filter (\<lambda>i. high_page lim i = c) (i # ys))"
    using o by (auto simp: b_def split: if_splits)
  moreover have "\<forall>j. (\<forall>c. j \<notin> set (D c)) \<longrightarrow> j \<notin> set (i # ys) \<longrightarrow> ps' ! j = ps ! j"
    using k keep by auto
  ultimately show ?case using r p(2,3) by (intro exI[of _ ps'] exI[of _ sp']) (auto simp: step)
qed

lemma page_inv_plinks:
  "page_inv s xs \<longleftrightarrow> pages_ok s \<and> linked (plinks (pages s)) (page_free_list s) xs \<and> distinct xs \<and>
     (\<forall>i \<in> set xs. i < length (pages s) \<and> pp_ref (pages s ! i) = 0) \<and>
     (\<forall>i < length (pages s). i \<notin> set xs \<longrightarrow> plinks (pages s) i = None)"
proof -
  have "page_links s = plinks (pages s)" by (auto simp: page_links_def plinks_def fun_eq_iff)
  then show ?thesis by (simp add: page_inv_def plinks_def)
qed

lemma page_inv_length: "page_inv s xs \<Longrightarrow> length xs \<le> length (pages s)"
proof -
  assume "page_inv s xs"
  then have "set xs \<subseteq> {..<length (pages s)}" "distinct xs" by (auto simp: page_inv_def)
  then show ?thesis using card_mono[of "{..<length (pages s)}" "set xs"] by (simp add: distinct_card)
qed

text \<open>
  Moving the low pages to the front is a stable partition of the free list; only links and the head of the list
  change.
\<close>

lemma low_pages_first_ok:
  assumes inv: "page_inv s xs"
  shows "\<exists>ps fl. low_pages_first lim s = Returns () (s\<lparr>pages := ps, page_free_list := fl\<rparr>) \<and>
    map pp_ref ps = map pp_ref (pages s) \<and>
    page_inv (s\<lparr>pages := ps, page_free_list := fl\<rparr>) (filter (\<lambda>i. \<not> high_page lim i) xs @ filter (high_page lim) xs)"
proof -
  let ?n = "length (pages s)" and ?sp = "\<lparr>sp_head = (\<lambda>_. None), sp_tail = (\<lambda>_. None)\<rparr> :: splits"
  let ?L = "filter (\<lambda>i. \<not> high_page lim i) xs" and ?H = "filter (high_page lim) xs"
  have s: "s\<lparr>pages := pages s\<rparr> = s" by simp
  have xs: "linked (plinks (pages s)) (page_free_list s) xs" "distinct xs" "\<forall>i \<in> set xs. i < ?n"
    "length xs < Suc ?n" "\<forall>i \<in> set xs. pp_ref (pages s ! i) = 0"
    using inv page_inv_length[OF inv] by (simp_all add: page_inv_plinks)
  have "\<forall>b. open_list (plinks (pages s)) (sp_head ?sp b) (sp_tail ?sp b) ((\<lambda>_. []) b)" by (simp add: open_list_def)
  from split_loop_ok[OF xs(1-4) this, of lim s, unfolded s]
  have first: "\<exists>ps' sp'. split_loop (Suc ?n) lim (page_free_list s) ?sp s = Returns sp' (s\<lparr>pages := ps'\<rparr>) \<and>
    length ps' = ?n \<and> map pp_ref ps' = map pp_ref (pages s) \<and>
    (\<forall>b. open_list (plinks ps') (sp_head sp' b) (sp_tail sp' b) (filter (\<lambda>i. high_page lim i = b) xs)) \<and>
    (\<forall>i. i \<notin> set xs \<longrightarrow> ps' ! i = pages s ! i)" by simp
  obtain ps1 sp1 where 1: "split_loop (Suc ?n) lim (page_free_list s) ?sp s = Returns sp1 (s\<lparr>pages := ps1\<rparr>)"
    "length ps1 = ?n" "map pp_ref ps1 = map pp_ref (pages s)"
    "\<forall>b. open_list (plinks ps1) (sp_head sp1 b) (sp_tail sp1 b) (filter (\<lambda>i. high_page lim i = b) xs)"
    "\<forall>i. i \<notin> set xs \<longrightarrow> ps1 ! i = pages s ! i"
    using first by blast
  have f: "filter (\<lambda>i. high_page lim i = True) xs = ?H" "filter (\<lambda>i. high_page lim i = False) xs = ?L" by simp_all
  have opens: "open_list (plinks ps1) (sp_head sp1 True) (sp_tail sp1 True) ?H"
    "open_list (plinks ps1) (sp_head sp1 False) (sp_tail sp1 False) ?L"
    using spec[OF 1(4), of True] spec[OF 1(4), of False] unfolding f by blast+
  have "\<forall>x \<in> set ?H. x < length ps1" using xs(3) 1(2) by simp
  from put_ok[OF opens(1) this, of None s]
  obtain ps2 h where 2: "put True None sp1 (s\<lparr>pages := ps1\<rparr>) = Returns (sp1\<lparr>sp_head := (sp_head sp1)(True := h)\<rparr>) (s\<lparr>pages := ps2\<rparr>)"
    "length ps2 = length ps1" "map pp_ref ps2 = map pp_ref ps1" "lseg (plinks ps2) h ?H None"
    "\<forall>i. i \<notin> set ?H \<longrightarrow> ps2 ! i = ps1 ! i" by blast
  let ?sp2 = "sp1\<lparr>sp_head := (sp_head sp1)(True := h)\<rparr>"
  have "open_list (plinks ps2) (sp_head ?sp2 False) (sp_tail ?sp2 False) ?L"
    using opens(2) open_list_cong[of ?L "plinks ps2" "plinks ps1"] 2(5) by (simp add: plinks_def)
  moreover have "\<forall>x \<in> set ?L. x < length ps2" using xs(3) 1(2) 2(2) by simp
  ultimately obtain ps3 h' where 3: "put False h ?sp2 (s\<lparr>pages := ps2\<rparr>) = Returns (?sp2\<lparr>sp_head := (sp_head ?sp2)(False := h')\<rparr>) (s\<lparr>pages := ps3\<rparr>)"
    "length ps3 = length ps2" "map pp_ref ps3 = map pp_ref ps2" "lseg (plinks ps3) h' ?L h"
    "\<forall>i. i \<notin> set ?L \<longrightarrow> ps3 ! i = ps2 ! i"
    using put_ok[of ps2 ?sp2 False ?L h s] by blast
  have run: "low_pages_first lim s = Returns () (s\<lparr>pages := ps3, page_free_list := h'\<rparr>)"
    unfolding low_pages_first_def set_free_list_def using 1(1) 2(1) 3(1) by simp
  have H: "lseg (plinks ps3) h ?H None"
    using 2(4) lseg_cong[of ?H "plinks ps3" "plinks ps2"] 3(5) by (auto simp: plinks_def)
  have "linked (plinks ps3) h' (?L @ ?H)"
    unfolding linked_lseg lseg_append using H 3(4) by blast
  moreover have "length ps3 = ?n" using 1(2) 2(2) 3(2) by simp
  moreover have refs: "map pp_ref ps3 = map pp_ref (pages s)" using 1(3) 2(3) 3(3) by simp
  then have "\<forall>i \<in> set xs. pp_ref (ps3 ! i) = 0" using xs(3,5) refs_nth[OF refs] by simp
  moreover have "\<forall>i < ?n. i \<notin> set xs \<longrightarrow> plinks ps3 i = None"
    using inv 1(5) 2(5) 3(5) by (auto simp: page_inv_plinks plinks_def)
  moreover have "pages_ok (s\<lparr>pages := ps3, page_free_list := h'\<rparr>)"
    using inv \<open>length ps3 = ?n\<close> by (simp add: page_inv_def pages_ok_def)
  ultimately have "page_inv (s\<lparr>pages := ps3, page_free_list := h'\<rparr>) (?L @ ?H)"
    using xs(2,3) by (auto simp: page_inv_plinks)
  with run refs show ?thesis by blast
qed

lemma walk_list_ok:
  "linked (page_links s) pp xs \<Longrightarrow> \<forall>i \<in> set xs. i < length (pages s) \<Longrightarrow> length xs < n \<Longrightarrow> walk_list n pp s = Returns xs s"
proof (induction xs arbitrary: pp n)
  case Nil
  then show ?case by (cases n) auto
next
  case (Cons x xs)
  then obtain m where "n = Suc m" "length xs < m" by (cases n) auto
  with Cons show ?case by (simp add: page_at_def page_links_def)
qed

lemma free_pages_ok: "page_inv s xs \<Longrightarrow> free_pages s = Returns xs s"
  using walk_list_ok[of s "page_free_list s" xs "Suc (length (pages s))"] page_inv_length[of s xs]
  by (simp add: free_pages_def page_inv_def)

lemma page2pa_eq: "x \<le> 65536 \<Longrightarrow> page2pa x = w \<longleftrightarrow> unat w = 4096 * x"
  using page2pa_page(3)[of x] by (auto simp: word_unat_eq_iff)

lemma page2pa_less: "x \<le> 65536 \<Longrightarrow> page2pa x < w \<longleftrightarrow> 4096 * x < unat w"
  using page2pa_page(3)[of x] by (simp add: word_less_nat_alt)

lemma check_free_page_ok:
  assumes "pages_ok s" "x < length (pages s)"
  shows "may_be_free ff x \<Longrightarrow> check_free_page ff x s = Returns () s"
    and "\<not> may_be_free ff x \<Longrightarrow> \<exists>e. check_free_page ff x s = Panics e"
proof -
  have n: "x < unat (npages s)" "x \<le> 65536"
    using assms by (auto simp: pages_ok_def word_le_nat_alt)
  have eqs: "page2pa x = 0 \<longleftrightarrow> x = 0" "page2pa x = IOPHYSMEM \<longleftrightarrow> x = 160" "page2pa x = EXTPHYSMEM - PGSIZE \<longleftrightarrow> x = 255"
    "page2pa x = EXTPHYSMEM \<longleftrightarrow> x = 256" "page2pa x = MPENTRY_PADDR \<longleftrightarrow> x = 7" "page2pa x < EXTPHYSMEM \<longleftrightarrow> x < 256"
    using n(2) by (auto simp: page2pa_eq page2pa_less)
  have kva: "page2kva x s = Returns (page2pa x + KERNBASE) s" using page2kva_ok[OF assms] .
  show "may_be_free ff x \<Longrightarrow> check_free_page ff x s = Returns () s"
    unfolding check_free_page_def may_be_free_def eqs using n kva by (auto simp: kseq_apply kbind_apply)
  show "\<not> may_be_free ff x \<Longrightarrow> \<exists>e. check_free_page ff x s = Panics e"
    unfolding check_free_page_def may_be_free_def eqs using n kva by (auto simp: kseq_apply kbind_apply)
qed

lemma check_free_pages_ok:
  assumes "pages_ok s" "\<forall>x \<in> set xs. x < length (pages s)"
  shows "(\<forall>x \<in> set xs. may_be_free ff x) \<Longrightarrow> kfor xs (check_free_page ff) s = Returns () s"
    and "\<not> (\<forall>x \<in> set xs. may_be_free ff x) \<Longrightarrow> \<exists>e. kfor xs (check_free_page ff) s = Panics e"
  using assms(2)
proof (induction xs)
  case (Cons x xs)
  case 1
  then show ?case using Cons.IH(1) check_free_page_ok(1)[OF assms(1), of x ff] by simp
next
  case (Cons x xs)
  case 2
  have x: "x < length (pages s)" "\<forall>x \<in> set xs. x < length (pages s)" using 2(2) by simp_all
  show ?case
  proof (cases "may_be_free ff x")
    case True
    with 2 show ?thesis using Cons.IH(2)[OF _ x(2)] check_free_page_ok(1)[OF assms(1) x(1)] by simp
  next
    case False
    then show ?thesis using check_free_page_ok(2)[OF assms(1) x(1) False] by (auto simp: kseq_apply)
  qed
qed simp_all

lemma scribbles_ok:
  assumes "pages_ok s" "\<forall>x \<in> set xs. x < length (pages s)"
  shows "\<exists>m. kfor xs (scribble lim) s = Returns () (s\<lparr>pmem := m\<rparr>)"
  using assms
proof (induction xs arbitrary: s)
  case Nil
  then show ?case by (intro exI[of _ "pmem s"]) simp
next
  case (Cons x xs)
  have "\<exists>m. scribble lim x s = Returns () (s\<lparr>pmem := m\<rparr>)"
  proof (cases "high_page lim x")
    case True
    then show ?thesis by (intro exI[of _ "pmem s"]) (simp add: scribble_def)
  next
    case False
    then show ?thesis using page2kva_ok[OF Cons.prems(1), of x] Cons.prems(2) by (auto simp: scribble_def memset_k_def)
  qed
  then obtain m where m: "scribble lim x s = Returns () (s\<lparr>pmem := m\<rparr>)" by blast
  moreover have "pages_ok (s\<lparr>pmem := m\<rparr>)" using Cons.prems(1) by (simp add: pages_ok_def)
  ultimately show ?case using Cons.IH[of "s\<lparr>pmem := m\<rparr>"] Cons.prems(2) by simp
qed

lemma page_inv_pmem [simp]: "page_inv (s\<lparr>pmem := m\<rparr>) xs \<longleftrightarrow> page_inv s xs"
  by (simp add: page_inv_plinks pages_ok_def)

text \<open>The check once the order of the list is settled.\<close>

lemma check_listed_pages_ok:
  assumes inv: "page_inv s xs" and nf: "nextfree s \<noteq> 0"
  shows "if (\<forall>x \<in> set xs. may_be_free (nextfree s) x) \<and> (\<exists>x \<in> set xs. x < 256) \<and> (\<exists>x \<in> set xs. 256 \<le> x)
    then \<exists>t. check_listed_pages im lim s = Returns () t \<and> page_inv t xs
    else \<exists>e. check_listed_pages im lim s = Panics e"
proof -
  have ok: "pages_ok s" "\<forall>x \<in> set xs. x < length (pages s)" using inv by (auto simp: page_inv_def)
  have small: "x \<in> set xs \<Longrightarrow> x \<le> 65536" for x using page_inv_bounds(2)[OF inv] page_inv_bounds(4)[OF inv, of x] by simp
  obtain m where m: "kfor xs (scribble lim) s = Returns () (s\<lparr>pmem := m\<rparr>)" using scribbles_ok[OF ok] by blast
  let ?t = "s\<lparr>pmem := m\<rparr>" and ?ff = "nextfree s"
  have ok': "pages_ok ?t" "\<forall>x \<in> set xs. x < length (pages ?t)" using ok by (simp_all add: pages_ok_def)
  have b: "boot_alloc (im_end im) 0 ?t = Returns ?ff ?t" using nf by (simp add: boot_alloc_def)
  have low: "(\<exists>pp \<in> set xs. page2pa pp < EXTPHYSMEM) \<longleftrightarrow> (\<exists>x \<in> set xs. x < 256)"
    "(\<exists>pp \<in> set xs. \<not> page2pa pp < EXTPHYSMEM) \<longleftrightarrow> (\<exists>x \<in> set xs. 256 \<le> x)"
    using small by (auto simp: page2pa_less not_less)
  have "check_listed_pages im lim s = kseqs [
        kfor xs (check_free_page ?ff),
        kassert ''nfree_basemem > 0'' (\<exists>x \<in> set xs. x < 256),
        kassert ''nfree_extmem > 0'' (\<exists>x \<in> set xs. 256 \<le> x),
        cprintf ''check_page_free_list() succeeded!\<newline>'' []] ?t"
    by (simp only: check_listed_pages_def kbind_Returns kseq_Returns free_pages_ok[OF inv] m b low)
  note run = this
  show ?thesis
  proof (cases "\<forall>x \<in> set xs. may_be_free ?ff x")
    case True
    have "page_inv (?t\<lparr>klog := l\<rparr>) xs" for l using inv by (auto simp: page_inv_plinks pages_ok_def)
    with check_free_pages_ok(1)[OF ok' True] True show ?thesis
      unfolding run by (auto simp: cprintf_def kseq_apply)
  next
    case False
    then obtain e where "kfor xs (check_free_page ?ff) ?t = Panics e" using check_free_pages_ok(2)[OF ok' False] by blast
    then have "check_listed_pages im lim s = Panics e" unfolding run by simp
    with False show ?thesis by simp
  qed
qed

lemma checked_inv: "page_inv checked_machine [5, 260]" "nextfree checked_machine = 0xF0005000"
  by (auto simp: checked_machine_def page_inv_plinks plinks_def pages_ok_def small_machine_def nth_list_update)

lemma check_page_free_list_ok:
  assumes "page_inv s xs" "xs \<noteq> []" "nextfree s \<noteq> 0"
  shows "if (\<forall>x \<in> set xs. may_be_free (nextfree s) x) \<and> (\<exists>x \<in> set xs. x < 256) \<and> (\<exists>x \<in> set xs. 256 \<le> x)
    then \<exists>t. check_page_free_list im only_low s = Returns () t \<and>
      page_inv t (if only_low then filter (\<lambda>i. \<not> high_page 1 i) xs @ filter (high_page 1) xs else xs)
    else \<exists>e. check_page_free_list im only_low s = Panics e"
proof -
  have fl: "page_free_list s \<noteq> None" using assms(1,2) by (cases xs) (auto simp: page_inv_def)
  show ?thesis
  proof (cases only_low)
    case True
    let ?ys = "filter (\<lambda>i. \<not> high_page 1 i) xs @ filter (high_page 1) xs"
    obtain ps f where 1: "low_pages_first 1 s = Returns () (s\<lparr>pages := ps, page_free_list := f\<rparr>)"
      "page_inv (s\<lparr>pages := ps, page_free_list := f\<rparr>) ?ys" using low_pages_first_ok[OF assms(1), of 1] by blast
    have set: "set ?ys = set xs" by auto
    have "check_page_free_list im only_low s = check_listed_pages im 1 (s\<lparr>pages := ps, page_free_list := f\<rparr>)"
      by (simp only: check_page_free_list_def Let_def True if_True kbind_Returns[of "kget page_free_list", OF kget_apply] fl if_False
          kseq_Returns[of _ s] kwhen_apply 1(1))
    moreover have "nextfree (s\<lparr>pages := ps, page_free_list := f\<rparr>) = nextfree s" by simp
    ultimately show ?thesis using check_listed_pages_ok[OF 1(2), of im 1] assms(3) unfolding set if_P[OF True] by metis
  next
    case False
    then have "check_page_free_list im only_low s = check_listed_pages im (of_nat NPDENTRIES) s"
      by (simp only: check_page_free_list_def Let_def if_False kbind_Returns[of "kget page_free_list", OF kget_apply] fl
          kseq_Returns[of _ s] kwhen_apply simp_thms)
    then show ?thesis using check_listed_pages_ok[OF assms(1,3), of im "of_nat NPDENTRIES"] unfolding if_not_P[OF False] by metis
  qed
qed

text \<open>
  \<open>check_page_free_list\<close> returns exactly when every page on the free list may be there (not page 0, the edges of the I/O hole,
  page 7 with the entry code of the other processors, nor a page of the kernel and its boot-time allocations) and there are
  pages in low and in extended memory; otherwise it panics. With \<open>only_low_memory\<close> it leaves the pages the
  boot page tables map before the others, in the same order.
\<close>

theorem check_page_free_list_exact:
  assumes "page_inv s xs" "xs \<noteq> []" "nextfree s \<noteq> 0"
  shows "if (\<forall>x \<in> set xs. may_be_free (nextfree s) x) \<and> (\<exists>x \<in> set xs. x < 256) \<and> (\<exists>x \<in> set xs. 256 \<le> x)
    then \<exists>t. check_page_free_list im only_low s = Returns () t \<and>
      page_inv t (if only_low then filter (\<lambda>i. \<not> high_page 1 i) xs @ filter (high_page 1) xs else xs)
    else \<exists>e. check_page_free_list im only_low s = Panics e"
  by (rule check_page_free_list_ok[OF assms])

theorem check_page_free_list_exact_witness:
  "\<exists>t. check_page_free_list sample_image False checked_machine = Returns () t \<and> page_inv t [5, 260]"
  using check_page_free_list_exact[OF checked_inv(1), of sample_image False]
  by (simp add: checked_inv(2) may_be_free_def page2pa_def)

section \<open>The free list taken away\<close>

text \<open>
  While a check hides the free list \<open>ys\<close> (from the pointer \<open>fl\<close>), the allocator works on the pages \<open>xs\<close> that are
  freed meanwhile: the hidden pages keep their links.
\<close>

definition stolen_inv :: "nat option \<Rightarrow> nat list \<Rightarrow> kstate \<Rightarrow> nat list \<Rightarrow> bool" where
  "stolen_inv fl ys s xs \<longleftrightarrow> pages_ok s \<and> linked (plinks (pages s)) (page_free_list s) xs \<and>
     linked (plinks (pages s)) fl ys \<and> distinct (xs @ ys) \<and>
     (\<forall>i \<in> set (xs @ ys). i < length (pages s) \<and> pp_ref (pages s ! i) = 0) \<and>
     (\<forall>i < length (pages s). i \<notin> set (xs @ ys) \<longrightarrow> plinks (pages s) i = None)"

definition stolen_idle :: "nat list \<Rightarrow> kstate \<Rightarrow> nat \<Rightarrow> bool" where
  "stolen_idle ys s x \<longleftrightarrow> page_idle s x \<and> x \<notin> set ys"

text \<open>The directory \<open>mem_init\<close> starts with: one entry, by which it maps itself, and room for nothing else.\<close>

definition boot_memory :: "image \<Rightarrow> kstate \<Rightarrow> bool" where
  "boot_memory im t \<longleftrightarrow>
     ROUNDUP (im_end im) PGSIZE = pages_kva t \<and>
     unat (pages_kva t) + 8 * unat (npages t) \<le> unat (kern_pgdir t) \<and>
     unat (kern_pgdir t) + 4096 \<le> unat (envs_kva t) \<and>
     unat (envs_kva t) + 126976 \<le> unat (nextfree t) \<and>
     unat (nextfree t) \<le> 0xF1000000 + 8 * unat (npages t) + 143360 \<and>
     PGOFF (kern_pgdir t) = 0 \<and> pages t = replicate (unat (npages t)) PageInfo_zero \<and> envs t = replicate NENV Env_zero \<and>
     (\<forall>d < 1024. pde_of t (kern_pgdir t) d = (if d = UVPTX then (kern_pgdir t - KERNBASE) OR PTE_U OR PTE_P else 0))"

text \<open>The state in which the checks of \<open>mem_init\<close> start.\<close>

definition boot_ready :: "kstate \<Rightarrow> kstate \<Rightarrow> bool" where
  "boot_ready s t \<longleftrightarrow> (\<exists>xs. page_inv t xs \<and> wf_pgdir t xs (kern_pgdir t) \<and>
     (\<forall>i. i \<in> set xs \<longleftrightarrow> i < unat (npages s) \<and> page_freed t i) \<and> npages_basemem t = npages_basemem s \<and> nextfree t \<noteq> 0)"

lemma pp_ref_relink [simp]: "pp_ref (ps[x := (ps ! x)\<lparr>pp_link := l\<rparr>] ! i) = pp_ref (ps ! i)"
  by (cases "x < length ps") (auto simp: nth_list_update list_update_beyond)

lemma steal: "page_inv s ys \<Longrightarrow> stolen_inv (page_free_list s) ys (s\<lparr>page_free_list := None\<rparr>) []"
  by (auto simp: page_inv_plinks stolen_inv_def pages_ok_def)

lemma give_back: "stolen_inv fl ys s [] \<Longrightarrow> page_inv (s\<lparr>page_free_list := fl\<rparr>) ys"
  by (auto simp: page_inv_plinks stolen_inv_def pages_ok_def)

lemma stolen_alloc:
  assumes "stolen_inv fl ys s (x # xs)"
  shows "page_alloc flags s = Returns (Some x) (after_alloc s x flags)" "stolen_inv fl ys (after_alloc s x flags) xs"
proof -
  have x: "x < length (pages s)" "pages_ok s" "page_free_list s = Some x" "x \<notin> set xs" "x \<notin> set ys"
    using assms by (auto simp: stolen_inv_def)
  then show "page_alloc flags s = Returns (Some x) (after_alloc s x flags)"
    by (auto simp: page_alloc_def page_at_def set_page_def after_alloc_def kseq_apply kbind_apply
        page2kva_ok pages_ok_def memset_k_def memset_fill split: if_splits)
  have "plinks (pages (after_alloc s x flags)) = (plinks (pages s))(x := None)"
    using x(1) by (simp add: after_alloc_def plinks_update)
  moreover have "pp_ref (pages (after_alloc s x flags) ! i) = pp_ref (pages s ! i)" for i
    by (simp add: after_alloc_def)
  ultimately show "stolen_inv fl ys (after_alloc s x flags) xs"
    using assms x unfolding stolen_inv_def by (auto simp: after_alloc_def pages_ok_def plinks_def)
qed

lemma stolen_free:
  assumes "stolen_inv fl ys s xs" "stolen_idle ys s x" "x \<notin> set xs"
  shows "page_free x s = Returns () (s\<lparr>pages := (pages s)[x := (pages s ! x)\<lparr>pp_link := page_free_list s\<rparr>], page_free_list := Some x\<rparr>)"
    "stolen_inv fl ys (s\<lparr>pages := (pages s)[x := (pages s ! x)\<lparr>pp_link := page_free_list s\<rparr>], page_free_list := Some x\<rparr>) (x # xs)"
proof -
  have x: "x < length (pages s)" "pp_ref (pages s ! x) = 0" "x \<notin> set ys" "plinks (pages s) x = None"
    using assms by (auto simp: stolen_idle_def page_idle_def stolen_inv_def)
  then show "page_free x s = Returns () (s\<lparr>pages := (pages s)[x := (pages s ! x)\<lparr>pp_link := page_free_list s\<rparr>], page_free_list := Some x\<rparr>)"
    by (simp add: page_free_def page_at_def set_page_def kbind_apply kseq_apply plinks_def)
  have "plinks ((pages s)[x := (pages s ! x)\<lparr>pp_link := page_free_list s\<rparr>]) = (plinks (pages s))(x := page_free_list s)"
    using x(1) by (simp add: plinks_update)
  then show "stolen_inv fl ys (s\<lparr>pages := (pages s)[x := (pages s ! x)\<lparr>pp_link := page_free_list s\<rparr>], page_free_list := Some x\<rparr>) (x # xs)"
    using assms x unfolding stolen_inv_def by (auto simp: pages_ok_def nth_list_update)
qed

interpretation st: page_stack "page_alloc flags" page_free "stolen_inv fl ys" "stolen_idle ys"
proof
  show "stolen_inv fl ys s xs \<Longrightarrow> distinct xs" for s xs by (simp add: stolen_inv_def)
  show "stolen_inv fl ys s [] \<Longrightarrow> page_alloc flags s = Returns None s" for s
    by (simp add: stolen_inv_def page_alloc_def)
  show "\<exists>t. page_alloc flags s = Returns (Some x) t \<and> stolen_inv fl ys t xs \<and> stolen_idle ys t x \<and>
    (\<forall>y. stolen_idle ys s y \<longrightarrow> stolen_idle ys t y)" if "stolen_inv fl ys s (x # xs)" for s x xs
    using stolen_alloc[OF that, of flags] that
    by (auto simp: stolen_idle_def page_idle_def after_alloc_def stolen_inv_def)
  show "\<exists>t. page_free x s = Returns () t \<and> stolen_inv fl ys t (x # xs) \<and> (\<forall>y. stolen_idle ys s y \<longrightarrow> stolen_idle ys t y)"
    if "stolen_inv fl ys s xs" "stolen_idle ys s x" "x \<notin> set xs" for s xs x
    using stolen_free[OF that] by (auto simp: stolen_idle_def page_idle_def)
qed

lemma three_pages_run:
  assumes "page_alloc 0 s = Returns (Some a) t" "page_alloc 0 t = Returns (Some b) u" "page_alloc 0 u = Returns (Some c) v"
    "distinct (a # b # c # xs)"
  shows "three_pages s = Returns (a, b, c) v"
  using assms unfolding three_pages_def alloc_assert_def by (auto simp: kseq_apply)

lemma assert_no_page_run: "stolen_inv fl ys s [] \<Longrightarrow> assert_no_page s = Returns () s"
  unfolding assert_no_page_def using st.alloc_none[of fl ys s 0] by simp

lemma assert_in_memory_run:
  assumes "pages_ok s" "x < length (pages s)"
  shows "assert_in_memory x s = Returns () s"
proof -
  have x: "x < unat (npages s)" "x \<le> 65536" "unat (npages s) \<le> 65536"
    using assms by (auto simp: pages_ok_def word_le_nat_alt)
  then have "unat (npages s * PGSIZE) = unat (npages s) * 4096" by (simp add: unat_word_ariths)
  then show ?thesis using x unfolding assert_in_memory_def by (simp add: page2pa_less del: PGSIZE_def)
qed

lemma kfor_same: "\<forall>i \<in> set xs. f i s = Returns () s \<Longrightarrow> kfor xs f s = Returns () s"
  by (induction xs) auto

lemma check_zeroed_run:
  assumes inv: "stolen_inv fl ys s []" and x: "stolen_idle ys s x"
  shows "\<exists>t. check_zeroed x s = Returns () t \<and> stolen_inv fl ys t [] \<and> (\<forall>y. stolen_idle ys s y \<longrightarrow> stolen_idle ys t y)"
proof -
  have ok: "pages_ok s" "x < length (pages s)" using inv x by (auto simp: stolen_inv_def stolen_idle_def page_idle_def)
  let ?s = "s\<lparr>pmem := memset (pmem s) (page2pa x) 1 PGSIZE\<rparr>"
  have 1: "kbind (page2kva x) (\<lambda>kva. memset_k kva 1 PGSIZE) s = Returns () ?s"
    using page2kva_ok[OF ok] by (simp add: memset_k_def)
  have "stolen_inv fl ys ?s []" "stolen_idle ys ?s x"
    using inv x by (auto simp: stolen_inv_def stolen_idle_def page_idle_def pages_ok_def)
  then obtain t where t: "page_free x ?s = Returns () t" "stolen_inv fl ys t [x]" "\<forall>y. stolen_idle ys ?s y \<longrightarrow> stolen_idle ys t y"
    using st.free_ok[of fl ys ?s "[]" x] by auto
  let ?u = "after_alloc t x ALLOC_ZERO"
  have u: "page_alloc ALLOC_ZERO t = Returns (Some x) ?u" "stolen_inv fl ys ?u []" using stolen_alloc[OF t(2)] by auto
  have ok': "pages_ok ?u" "x < length (pages ?u)" using t(2) u(2) by (auto simp: stolen_inv_def after_alloc_def)
  have pg: "unat PGSIZE = 4096" by simp
  have "pmem ?u (page2pa x + of_nat i) = 0" if "i < 4096" for i
    using that by (simp add: after_alloc_def fill_def in_range_def unat_of_nat)
  then have z: "kfor [0..<unat PGSIZE] (\<lambda>i. kbind (kget pmem) (\<lambda>m. kassert ''c[i] == 0'' (m (page2pa x + KERNBASE + of_nat i - KERNBASE) = 0))) ?u
    = Returns () ?u" unfolding pg by (intro kfor_same) (simp add: algebra_simps)
  have "check_zeroed x s = Returns () ?u"
    unfolding check_zeroed_def alloc_assert_def kseqs.simps
    by (simp only: kseq_Returns kbind_Returns 1 t(1) u(1) option.case kret_apply kassert_apply simp_thms if_True page2kva_ok[OF ok'] z)
  moreover have "stolen_idle ys ?u y" if "stolen_idle ys s y" for y
    using that t(3) by (simp add: stolen_idle_def page_idle_def after_alloc_def)
  ultimately show ?thesis using u(2) by blast
qed

text \<open>
  C27: The self-test of the allocator passes on every well-formed free list of three pages or more: \<open>check_page_alloc\<close>
  returns, having allocated and freed the first three pages twice, and the free list is the same as before, in
  the same order.
\<close>

theorem check_page_alloc_passes:
  assumes inv: "page_inv s (a # b # c # ys)" and kva: "pages_kva s \<noteq> 0"
  shows "\<exists>t. check_page_alloc s = Returns () t \<and> page_inv t (a # b # c # ys)"
proof -
  let ?xs = "a # b # c # ys"
  obtain t u v where 1: "page_alloc 0 s = Returns (Some a) t" "page_alloc 0 t = Returns (Some b) u"
    "page_alloc 0 u = Returns (Some c) v" "page_inv v ys" "page_idle v a" "page_idle v b" "page_idle v c" "distinct ?xs"
    using pa.alloc_three[OF inv, of 0] by blast
  have three: "three_pages s = Returns (a, b, c) v" by (rule three_pages_run[OF 1(1-3,8)])
  have ok: "pages_ok v" using 1(4) by (simp add: page_inv_def)
  have mem: "kseqs [assert_in_memory a, assert_in_memory b, assert_in_memory c] v = Returns () v"
    using assert_in_memory_run[OF ok] 1(5-7) by (simp add: page_idle_def)
  let ?fl = "page_free_list v" and ?v = "v\<lparr>page_free_list := None\<rparr>"
  have st0: "stolen_inv ?fl ys ?v []" by (rule steal[OF 1(4)])
  have idle: "stolen_idle ys ?v a" "stolen_idle ys ?v b" "stolen_idle ys ?v c"
    using 1(5-8) by (auto simp: stolen_idle_def page_idle_def)
  obtain v1 v2 v3 where f: "page_free a ?v = Returns () v1" "page_free b v1 = Returns () v2" "page_free c v2 = Returns () v3"
    "stolen_inv ?fl ys v3 [c, b, a]"
    using st.free_three[OF st0 idle] 1(8) by auto
  have fl: "set_free_list None v = Returns () ?v" by (simp add: set_free_list_def)
  have again: "kseqs [set_free_list None, assert_no_page, page_free a, page_free b, page_free c] v = Returns () v3"
    using fl assert_no_page_run[OF st0] f(1-3) by simp
  obtain w1 w2 w where w: "page_alloc 0 v3 = Returns (Some c) w1" "page_alloc 0 w1 = Returns (Some b) w2"
    "page_alloc 0 w2 = Returns (Some a) w" "stolen_inv ?fl ys w []" "stolen_idle ys w c" "stolen_idle ys w b" "stolen_idle ys w a"
    "distinct [c, b, a]"
    using st.alloc_three[OF f(4), of 0] by blast
  have three': "three_pages v3 = Returns (c, b, a) w" by (rule three_pages_run[OF w(1-3,8)])
  obtain z where z: "check_zeroed c w = Returns () z" "stolen_inv ?fl ys z []"
    "stolen_idle ys z c" "stolen_idle ys z b" "stolen_idle ys z a" using check_zeroed_run[OF w(4,5)] w(5-7) by blast
  let ?z = "z\<lparr>page_free_list := ?fl\<rparr>"
  have g: "set_free_list ?fl z = Returns () ?z" by (simp add: set_free_list_def)
  have pz: "page_inv ?z ys" by (rule give_back[OF z(2)])
  have idz: "page_idle ?z c" "page_idle ?z b" "page_idle ?z a" using z(3-5) by (auto simp: stolen_idle_def page_idle_def)
  obtain z1 z2 z3 where h: "page_free c ?z = Returns () z1" "page_free b z1 = Returns () z2" "page_free a z2 = Returns () z3"
    "page_inv z3 ?xs"
    using pa.free_three[OF pz idz] 1(8) by auto
  let ?e = "z3\<lparr>klog := klog z3 @ [(''check_page_alloc() succeeded!\<newline>'', [])]\<rparr>"
  have "check_page_alloc s = Returns () ?e"
    unfolding check_page_alloc_def
    by (simp only: kbind_Returns[of "kget pages_kva", OF kget_apply] kva if_False kbind_Returns kseq_Returns free_pages_ok[OF inv] three mem[unfolded kseqs.simps]
        kget_apply case_prod_conv again[unfolded kseqs.simps] three' kseqs.simps assert_no_page_run[OF w(4)] z(1) g h(1-3)
        free_pages_ok[OF h(4)] kassert_apply if_True simp_thms cprintf_def kmodify_apply kret_apply)
  moreover have "page_inv ?e ?xs" using h(4) by (auto simp: page_inv_plinks pages_ok_def)
  ultimately show ?thesis by blast
qed

theorem check_page_alloc_passes_witness:
  "\<exists>t. check_page_alloc (small_machine\<lparr>page_free_list := Some 4, pages := (pages small_machine)[4 := \<lparr>pp_link = Some 2, pp_ref = 0\<rparr>]\<rparr>) = Returns () t \<and>
     page_inv t [4, 2, 3]"
proof -
  let ?s = "small_machine\<lparr>page_free_list := Some 4, pages := (pages small_machine)[4 := \<lparr>pp_link = Some 2, pp_ref = 0\<rparr>]\<rparr>"
  have "page_inv ?s [4, 2, 3]" using small_inv by (auto simp: page_inv_plinks plinks_update pages_ok_def small_pages nth_list_update)
  then show ?thesis using check_page_alloc_passes[of ?s 4 2 3 "[]"] by (simp add: small_machine_def)
qed

section \<open>Memory set-up does not return\<close>

lemma noreturn_with_kern_pgdir: "(\<And>d. noreturn (f d)) \<Longrightarrow> noreturn (with_kern_pgdir f)"
  unfolding with_kern_pgdir_def by (rule noreturn_kbind)

lemma noreturn_check_page: "noreturn check_page"
proof -
  have mm: "noreturn (check_page_mmio d)" for d
    unfolding check_page_mmio_def mmio_map_region_def by (auto simp: noreturn_def)
  show ?thesis unfolding check_page_def
    by (auto intro!: noreturn_kbind noreturn_with_kern_pgdir noreturn_kseqs[OF _ mm] simp del: kseqs.simps)
qed

text \<open>
  \<open>mem_init\<close> never returns at this commit, whatever the machine: the self-test \<open>check_page\<close> calls
  \<open>mmio_map_region\<close>, which panics.
\<close>

theorem mem_init_never_returns: "mem_init im s \<noteq> Returns r t"
proof -
  have "noreturn (mem_init im)" unfolding mem_init_def
    by (rule noreturn_kseqs[OF _ noreturn_check_page]) simp
  then show ?thesis by (simp add: noreturn_def)
qed

section \<open>The state at the start\<close>

lemma boot_alloc_first:
  "nextfree s = 0 \<Longrightarrow> ROUNDUP kend PGSIZE \<noteq> 0 \<Longrightarrow> boot_alloc kend n s = boot_alloc kend n (s\<lparr>nextfree := ROUNDUP kend PGSIZE\<rparr>)"
  by (simp add: boot_alloc_def)

lemma boot_alloc_to:
  assumes "nextfree s \<noteq> 0" "PGOFF (nextfree s) = 0" "0 < unat n" "unat (nextfree s) + unat n + 4096 \<le> 2 ^ 32"
  shows "\<exists>nf. boot_alloc kend n s = Returns (nextfree s) (s\<lparr>nextfree := nf\<rparr>) \<and> PGOFF nf = 0 \<and>
    unat (nextfree s) + unat n \<le> unat nf \<and> unat nf < unat (nextfree s) + unat n + 4096"
proof -
  have "n \<noteq> 0" using assms(3) by auto
  from boot_alloc_ok[OF assms(1,2) this assms(4), of kend] show ?thesis by metis
qed

lemma alloc_pages_array_run:
  assumes "nextfree s \<noteq> 0" "PGOFF (nextfree s) = 0" "0 < unat (npages s)" "unat (npages s) \<le> 65536" "unat (nextfree s) \<le> 0xF1000000"
  shows "\<exists>nf. alloc_pages_array im s = Returns () (s\<lparr>nextfree := nf, pages_kva := nextfree s,
      pages := replicate (unat (npages s)) PageInfo_zero, pmem := fill (pmem s) (nextfree s - KERNBASE) 0 (8 * unat (npages s))\<rparr>) \<and>
    PGOFF nf = 0 \<and> unat (nextfree s) + 8 * unat (npages s) \<le> unat nf \<and> unat nf < unat (nextfree s) + 8 * unat (npages s) + 4096"
proof -
  let ?n = "sizeof_PageInfo * npages s"
  have n: "unat ?n = 8 * unat (npages s)" using assms(4) by (simp add: unat_word_ariths)
  have "0 < unat ?n" "unat (nextfree s) + unat ?n + 4096 \<le> 2 ^ 32" using assms(3-5) n by simp_all
  from boot_alloc_to[OF assms(1,2) this, of "im_end im", unfolded n]
  obtain nf where t: "boot_alloc (im_end im) ?n s = Returns (nextfree s) (s\<lparr>nextfree := nf\<rparr>)"
    "PGOFF nf = 0" "unat (nextfree s) + 8 * unat (npages s) \<le> unat nf"
    "unat nf < unat (nextfree s) + 8 * unat (npages s) + 4096" by blast
  have n': "unat (npages s * sizeof_PageInfo) = 8 * unat (npages s)" using n by (simp only: mult.commute)
  have "alloc_pages_array im s = Returns () (s\<lparr>nextfree := nf, pages_kva := nextfree s,
      pages := replicate (unat (npages s)) PageInfo_zero, pmem := fill (pmem s) (nextfree s - KERNBASE) 0 (8 * unat (npages s))\<rparr>)"
    unfolding alloc_pages_array_def memset_k_def memset_fill n'
    by (simp add: t(1)[unfolded sizeof_PageInfo_def] n'[unfolded sizeof_PageInfo_def])
  with t(2-4) show ?thesis by blast
qed

lemma alloc_kern_pgdir_run:
  assumes "nextfree s \<noteq> 0" "PGOFF (nextfree s) = 0" "KERNBASE \<le> nextfree s" "unat (nextfree s) \<le> 0xF2000000"
  shows "\<exists>nf. alloc_kern_pgdir im s = Returns () (s\<lparr>nextfree := nf, kern_pgdir := nextfree s,
      pmem := write32 (fill (pmem s) (nextfree s - KERNBASE) 0 4096) (nextfree s - KERNBASE + 4 * PDX UVPT)
        ((nextfree s - KERNBASE) OR PTE_U OR PTE_P)\<rparr>) \<and>
    PGOFF nf = 0 \<and> unat (nextfree s) + 4096 \<le> unat nf \<and> unat nf < unat (nextfree s) + 8192"
proof -
  have n: "unat PGSIZE = 4096" by simp
  have "0 < unat PGSIZE" "unat (nextfree s) + unat PGSIZE + 4096 \<le> 2 ^ 32" using assms(4) n by simp_all
  from boot_alloc_to[OF assms(1,2) this, of "im_end im", unfolded n]
  obtain nf where t: "boot_alloc (im_end im) PGSIZE s = Returns (nextfree s) (s\<lparr>nextfree := nf\<rparr>)"
    "PGOFF nf = 0" "unat (nextfree s) + 4096 \<le> unat nf" "unat nf < unat (nextfree s) + 8192" by auto
  have ad: "nextfree s + 4 * PDX UVPT - KERNBASE = nextfree s - KERNBASE + 4 * PDX UVPT"
    by (simp only: diff_conv_add_uminus ac_simps)
  have nb: "(nextfree s < KERNBASE) = False" using assms(3) by (simp only: not_less[symmetric] simp_thms)
  have "alloc_kern_pgdir im s = Returns () (s\<lparr>nextfree := nf, kern_pgdir := nextfree s,
      pmem := write32 (fill (pmem s) (nextfree s - KERNBASE) 0 4096) (nextfree s - KERNBASE + 4 * PDX UVPT)
        ((nextfree s - KERNBASE) OR PTE_U OR PTE_P)\<rparr>)"
    by (simp only: alloc_kern_pgdir_def memset_k_def memset_fill n store32_def PADDR_def kbind_Returns kseq_Returns t(1)
        kmodify_apply nb if_False kret_apply ad ucast_0) (simp del: KERNBASE_def UVPT_def PTE_U_def PTE_P_def)
  with t(2-4) show ?thesis by blast
qed

lemma alloc_envs_array_run:
  assumes "nextfree s \<noteq> 0" "PGOFF (nextfree s) = 0" "unat (nextfree s) \<le> 0xF2000000"
  shows "\<exists>nf. alloc_envs_array im s = Returns () (s\<lparr>nextfree := nf, envs_kva := nextfree s,
      envs := replicate NENV Env_zero, pmem := fill (pmem s) (nextfree s - KERNBASE) 0 126976\<rparr>) \<and>
    PGOFF nf = 0 \<and> unat (nextfree s) + 126976 \<le> unat nf \<and> unat nf < unat (nextfree s) + 131072"
proof -
  let ?n = "sizeof_Env * of_nat NENV"
  have n: "unat ?n = 126976" by simp
  have "0 < unat ?n" "unat (nextfree s) + unat ?n + 4096 \<le> 2 ^ 32" using assms(3) n by simp_all
  from boot_alloc_to[OF assms(1,2) this, of "im_end im", unfolded n]
  obtain nf where t: "boot_alloc (im_end im) ?n s = Returns (nextfree s) (s\<lparr>nextfree := nf\<rparr>)"
    "PGOFF nf = 0" "unat (nextfree s) + 126976 \<le> unat nf" "unat nf < unat (nextfree s) + 131072" by auto
  have "alloc_envs_array im s = Returns () (s\<lparr>nextfree := nf, envs_kva := nextfree s,
      envs := replicate NENV Env_zero, pmem := fill (pmem s) (nextfree s - KERNBASE) 0 126976\<rparr>)"
    unfolding alloc_envs_array_def memset_k_def memset_fill n using t(1) by (simp del: sizeof_Env_def NENV_def)
  with t(2-4) show ?thesis by blast
qed

lemma entry_fill_other:
  assumes "\<forall>k < 4. \<not> in_range e n (b + 4 * of_nat d + k)"
  shows "entry (fill m e c n) b d = entry m b d"
  using spec[OF assms, of 0] spec[OF assms, of 1] spec[OF assms, of 2] spec[OF assms, of 3]
  by (simp add: entry_def read32_def fill_def)

lemma dir_before:
  assumes "unat b + 4096 \<le> unat e" "unat e + n \<le> 2 ^ 32" "d < 1024" "k < (4 :: u32)"
  shows "\<not> in_range e n (b + 4 * of_nat d + k)"
proof (rule not_in_range_below[OF _ assms(2)])
  have k: "unat k < 4" using assms(4) by (simp add: word_less_nat_alt)
  have d: "unat (4 * of_nat d :: u32) = 4 * d" using assms(3) by (simp add: unat_word_ariths unat_of_nat)
  have "unat b + 4 * d + unat k < 2 ^ 32" using assms(1-3) k unat_u32_less[of e] by simp
  then have "unat (b + 4 * of_nat d + k) = unat b + 4 * d + unat k" using d by (simp add: unat_word_ariths)
  then show "unat (b + 4 * of_nat d + k) < unat e" using assms(1,3) k by simp
qed

lemma boot_pde:
  assumes "PGOFF b = 0" "unat b + 4096 \<le> unat e" "unat e + n \<le> 2 ^ 32" "d < 1024"
  shows "entry (fill (write32 (fill m b 0 4096) (b + 4 * PDX UVPT) v) e 0 n) b d = (if d = UVPTX then v else 0)"
proof -
  have u: "PDX UVPT = of_nat UVPTX" "UVPTX < 1024" by (simp_all add: PDX_def)
  have "\<forall>k < 4. \<not> in_range e n (b + 4 * of_nat d + k)" using dir_before[OF assms(2-4)] by blast
  then have "entry (fill (write32 (fill m b 0 4096) (b + 4 * PDX UVPT) v) e 0 n) b d
    = entry (write32 (fill m b 0 4096) (b + 4 * of_nat UVPTX) v) b d" unfolding u by (rule entry_fill_other)
  also have "\<dots> = (if d = UVPTX then v else 0)"
    using entry_write[OF assms(1,1) u(2) assms(4)] entry_fill[OF assms(1,1,4)] by (auto simp del: UVPTX_def)
  finally show ?thesis .
qed

lemma unat_kva: "KERNBASE \<le> a \<Longrightarrow> unat (a - KERNBASE) = unat a - 0xF0000000"
  by (simp add: unat_sub)

lemma boot_end:
  assumes "0xF0100000 \<le> kend" "kend \<le> 0xF0FFF000"
  shows "PGOFF (ROUNDUP kend PGSIZE) = 0" "unat kend \<le> unat (ROUNDUP kend PGSIZE)" "unat (ROUNDUP kend PGSIZE) \<le> 0xF1000000"
    "ROUNDUP kend PGSIZE \<noteq> 0" "KERNBASE \<le> ROUNDUP kend PGSIZE"
proof -
  have k: "0xF0100000 \<le> unat kend" "unat kend \<le> 0xF0FFF000" using assms by (simp_all add: word_le_nat_alt)
  have r: "unat (ROUNDUP kend PGSIZE) = (unat kend + 4095) div 4096 * 4096"
    using unat_ROUNDUP[of PGSIZE kend] k by simp
  have m: "4096 * ((unat kend + 4095) div 4096) + (unat kend + 4095) mod 4096 = unat kend + 4095" by (rule mult_div_mod_eq)
  have d: "(unat kend + 4095) mod 4096 < 4096" by simp
  show "PGOFF (ROUNDUP kend PGSIZE) = 0" by (simp only: ROUNDUP_def ROUNDDOWN_page PGOFF_PTE_ADDR)
  show a: "unat kend \<le> unat (ROUNDUP kend PGSIZE)" unfolding r using m d by linarith
  show "unat (ROUNDUP kend PGSIZE) \<le> 0xF1000000"
    unfolding r using k(2) div_le_mono[of "unat kend + 4095" "0xF1000FFF" 4096] by simp
  show "ROUNDUP kend PGSIZE \<noteq> 0" using a k(1) by (metis not_numeral_le_zero le_zero_eq order_trans unat_0)
  show "KERNBASE \<le> ROUNDUP kend PGSIZE" using a k(1) by (simp add: word_le_nat_alt)
qed

lemma boot_memory_run:
  assumes "nextfree s = 0" "0 < unat (npages s)" "unat (npages s) \<le> 65536" "0xF0100000 \<le> im_end im" "im_end im \<le> 0xF0FFF000"
  shows "\<exists>t. kseqs [alloc_pages_array im, alloc_kern_pgdir im, alloc_envs_array im] s = Returns () t \<and> boot_memory im t \<and>
    npages t = npages s \<and> npages_basemem t = npages_basemem s \<and> page_free_list t = page_free_list s"
proof -
  let ?R = "ROUNDUP (im_end im) PGSIZE" and ?n = "unat (npages s)"
  note R = boot_end[OF assms(4,5)]
  define s0 where "s0 = s\<lparr>nextfree := ?R\<rparr>"
  have s0: "nextfree s0 = ?R" "npages s0 = npages s" "npages_basemem s0 = npages_basemem s" "page_free_list s0 = page_free_list s"
    by (simp_all add: s0_def)
  have first: "alloc_pages_array im s = alloc_pages_array im s0"
    by (simp only: alloc_pages_array_def kbind_apply kget_apply outcome.case s0(2) boot_alloc_first[OF assms(1) R(4)] s0_def[symmetric])
  obtain a where a: "alloc_pages_array im s0 = Returns () (s0\<lparr>nextfree := a, pages_kva := nextfree s0,
      pages := replicate (unat (npages s0)) PageInfo_zero, pmem := fill (pmem s0) (nextfree s0 - KERNBASE) 0 (8 * unat (npages s0))\<rparr>)"
    "PGOFF a = 0" "unat ?R + 8 * ?n \<le> unat a" "unat a < unat ?R + 8 * ?n + 4096"
    using alloc_pages_array_run[of s0 im] R assms(2,3) unfolding s0(1,2) by blast
  define s1 where "s1 = s0\<lparr>nextfree := a, pages_kva := nextfree s0,
      pages := replicate (unat (npages s0)) PageInfo_zero, pmem := fill (pmem s0) (nextfree s0 - KERNBASE) 0 (8 * unat (npages s0))\<rparr>"
  have s1: "nextfree s1 = a" "npages s1 = npages s" "npages_basemem s1 = npages_basemem s" "page_free_list s1 = page_free_list s"
    "pages_kva s1 = ?R" "pages s1 = replicate ?n PageInfo_zero" by (simp_all add: s1_def s0)
  have a': "a \<noteq> 0" "KERNBASE \<le> a" "unat a \<le> 0xF2000000"
    using a(3,4) R(3,5) assms(2,3) by (auto simp: word_le_nat_alt)
  obtain b where b: "alloc_kern_pgdir im s1 = Returns () (s1\<lparr>nextfree := b, kern_pgdir := nextfree s1,
      pmem := write32 (fill (pmem s1) (nextfree s1 - KERNBASE) 0 4096) (nextfree s1 - KERNBASE + 4 * PDX UVPT)
        ((nextfree s1 - KERNBASE) OR PTE_U OR PTE_P)\<rparr>)"
    "PGOFF b = 0" "unat a + 4096 \<le> unat b" "unat b < unat a + 8192"
    using alloc_kern_pgdir_run[of s1 im] a(2) a' unfolding s1(1) by blast
  define s2 where "s2 = s1\<lparr>nextfree := b, kern_pgdir := nextfree s1,
      pmem := write32 (fill (pmem s1) (nextfree s1 - KERNBASE) 0 4096) (nextfree s1 - KERNBASE + 4 * PDX UVPT)
        ((nextfree s1 - KERNBASE) OR PTE_U OR PTE_P)\<rparr>"
  have s2: "nextfree s2 = b" "npages s2 = npages s" "npages_basemem s2 = npages_basemem s" "page_free_list s2 = page_free_list s"
    "pages_kva s2 = ?R" "pages s2 = replicate ?n PageInfo_zero" "kern_pgdir s2 = a"
    "pmem s2 = write32 (fill (pmem s1) (a - KERNBASE) 0 4096) (a - KERNBASE + 4 * PDX UVPT) ((a - KERNBASE) OR PTE_U OR PTE_P)"
    by (simp_all add: s2_def s1)
  have b': "b \<noteq> 0" "KERNBASE \<le> b" "unat b \<le> 0xF2000000"
    using b(3,4) a(4) a'(2) R(3) assms(3) by (auto simp: word_le_nat_alt)
  obtain c where c: "alloc_envs_array im s2 = Returns () (s2\<lparr>nextfree := c, envs_kva := nextfree s2,
      envs := replicate NENV Env_zero, pmem := fill (pmem s2) (nextfree s2 - KERNBASE) 0 126976\<rparr>)"
    "PGOFF c = 0" "unat b + 126976 \<le> unat c" "unat c < unat b + 131072"
    using alloc_envs_array_run[of s2 im] b(2) b' unfolding s2(1) by blast
  define s3 where "s3 = s2\<lparr>nextfree := c, envs_kva := nextfree s2,
      envs := replicate NENV Env_zero, pmem := fill (pmem s2) (nextfree s2 - KERNBASE) 0 126976\<rparr>"
  have s3: "nextfree s3 = c" "npages s3 = npages s" "npages_basemem s3 = npages_basemem s" "page_free_list s3 = page_free_list s"
    "pages_kva s3 = ?R" "pages s3 = replicate ?n PageInfo_zero" "kern_pgdir s3 = a" "envs_kva s3 = b" "envs s3 = replicate NENV Env_zero"
    "pmem s3 = fill (pmem s2) (b - KERNBASE) 0 126976"
    by (simp_all add: s3_def s2 del: NENV_def KERNBASE_def UVPT_def PTE_U_def PTE_P_def)
  have run: "kseqs [alloc_pages_array im, alloc_kern_pgdir im, alloc_envs_array im] s = Returns () s3"
    by (simp only: kseqs.simps first kseq_Returns a(1) b(1) c(1) kret_apply s1_def[symmetric] s2_def[symmetric] s3_def[symmetric])
  have "pde_of s3 a d = (if d = UVPTX then (a - KERNBASE) OR PTE_U OR PTE_P else 0)" if "d < 1024" for d
  proof -
    have "unat (a - KERNBASE) + 4096 \<le> unat (b - KERNBASE)" "unat (b - KERNBASE) + 126976 \<le> 2 ^ 32"
      using b(3) b'(3) a'(2) b'(2) unat_kva[OF a'(2)] unat_kva[OF b'(2)] by (simp_all add: word_le_nat_alt)
    from boot_pde[OF dir_aligned[OF a(2)] this that] show ?thesis unfolding pde_of_def s3(10) s2(8) .
  qed
  then have "boot_memory im s3"
    unfolding boot_memory_def s3 using a(2-4) b(3,4) c(3,4) R(3) by simp
  with run s3(2-4) show ?thesis by blast
qed

lemma detect_run:
  "\<exists>np bm l. i386_detect_memory s = Returns () (s\<lparr>npages := np, npages_basemem := bm, klog := l\<rparr>)"
  by (auto simp: i386_detect_memory_def nvram_read_def mc146818_read_def cprintf_def Let_def)

lemma detect_same:
  assumes "i386_detect_memory s = Returns () t"
  shows "nextfree t = nextfree s" "page_free_list t = page_free_list s"
  using detect_run[of s] assms by auto

lemma boot_ready_init:
  assumes bm: "boot_memory im t" and n: "4200 \<le> unat (npages t)" "unat (npages t) \<le> 65536" "unat (npages_basemem t) \<le> 160"
    "page_free_list t = None" "0xF0100000 \<le> im_end im" "im_end im \<le> 0xF0FFF000"
  shows "\<exists>u. page_init (im_end im) t = Returns () u \<and> boot_ready t u \<and> kern_pgdir u = kern_pgdir t \<and> pmem u = pmem t"
proof -
  let ?d = "kern_pgdir t" and ?xs = "rev (filter (page_freed t) [0..<length (pages t)])"
  have m: "pages_kva t = ROUNDUP (im_end im) PGSIZE" "unat (pages_kva t) + 8 * unat (npages t) \<le> unat ?d"
    "unat ?d + 4096 \<le> unat (envs_kva t)" "unat (envs_kva t) + 126976 \<le> unat (nextfree t)"
    "unat (nextfree t) \<le> 0xF1000000 + 8 * unat (npages t) + 143360" "PGOFF ?d = 0"
    "pages t = replicate (unat (npages t)) PageInfo_zero"
    "\<forall>d < 1024. pde_of t ?d d = (if d = UVPTX then (?d - KERNBASE) OR PTE_U OR PTE_P else 0)"
    using bm by (simp_all add: boot_memory_def)
  have k: "0xF0100000 \<le> unat (pages_kva t)"
    using boot_end(2)[OF n(5,6)] n(5) unfolding m(1) by (simp add: word_le_nat_alt)
  have nf: "nextfree t \<noteq> 0" "KERNBASE \<le> nextfree t" "KERNBASE \<le> ?d"
    using k m(2-4) by (auto simp: word_le_nat_alt)
  have ok: "pages_ok t" using m(7) n(2) by (simp add: pages_ok_def word_le_nat_alt)
  obtain u where u: "page_init (im_end im) t = Returns () u" "page_inv u ?xs" "pmem u = pmem t"
    using page_init_free_list[OF nf(1) ok n(4), of "im_end im"] by blast
  obtain ps fl where u': "u = t\<lparr>pages := ps, page_free_list := fl\<rparr>" "length ps = length (pages t)"
    using page_init_inv[OF nf(1) ok n(4), of "im_end im"] u(1) by (auto simp: init_inv_def)
  have dp: "dir_page ?d = (unat ?d - 0xF0000000) div 4096"
    using unat_kva[OF nf(3)] by (simp add: dir_page_def unat_PGNUM)
  have np: "unat ((nextfree t - KERNBASE) div PGSIZE) = (unat (nextfree t) - 0xF0000000) div 4096"
    using unat_kva[OF nf(2)] by (simp add: unat_div)
  have ge: "256 \<le> dir_page ?d" unfolding dp using div_le_mono[of "0x100000" "unat ?d - 0xF0000000" 4096] k m(2) by simp
  have lt: "dir_page ?d < unat ((nextfree t - KERNBASE) div PGSIZE)"
    unfolding dp np using div_le_mono[of "unat ?d - 0xF0000000 + 4096" "unat (nextfree t) - 0xF0000000" 4096] k m(2-4) by simp
  have "(unat (nextfree t) - 0xF0000000) div 4096 \<le> (0x1000000 + 8 * unat (npages t) + 143360) div 4096"
    using m(5) by (intro div_le_mono) simp
  also have "\<dots> < unat (npages t)" using n(1) by (intro less_mult_imp_div_less) simp
  finally have lim: "unat ((nextfree t - KERNBASE) div PGSIZE) < unat (npages t)" unfolding np .
  have out: "dir_page ?d \<notin> set ?xs" using ge lt n(3) by (simp add: page_freed_def del: KERNBASE_def PGSIZE_def)
  have pde: "pde_of u ?d d = (if d = UVPTX then (?d - KERNBASE) OR PTE_U OR PTE_P else 0)" if "d < 1024" for d
    using m(8) that pde_of_cong[OF u(3), of ?d d] by (simp del: UVPTX_def KERNBASE_def)
  have none: "\<not> table_present u ?d d" for d
    using pde[of d] by (auto simp: table_present_def simp del: UVPTX_def)
  have "PGNUM ((?d - KERNBASE) OR PTE_U OR PTE_P) = PGNUM (?d - KERNBASE)"
    using PTE_ADDR_or(1)[OF dir_aligned[OF m(6)], of 5] PGNUM_PTE_ADDR[of "(?d - KERNBASE) OR 5"] by (simp add: or.assoc)
  then have self: "table_page u ?d UVPTX = dir_page ?d"
    using pde[of UVPTX] by (simp add: table_page_def dir_page_def)
  have "dir_page ?d < length (pages u)" using u' m(7) lt lim by simp
  then have wf: "wf_pgdir u ?xs ?d"
    unfolding wf_pgdir_def using m(6) nf(3) out none self by blast
  have "i \<in> set ?xs \<longleftrightarrow> i < unat (npages t) \<and> page_freed u i" for i
    using m(7) unfolding u'(1) by auto
  moreover have "npages_basemem u = npages_basemem t" "nextfree u \<noteq> 0" "kern_pgdir u = ?d" using u'(1) nf(1) by simp_all
  ultimately show ?thesis using u wf unfolding boot_ready_def by metis
qed

lemma boot_run:
  assumes "i386_detect_memory s = Returns () s1" "4200 \<le> unat (npages s1)" "unat (npages s1) \<le> 65536" "unat (npages_basemem s1) \<le> 160"
    "nextfree s = 0" "page_free_list s = None" "0xF0100000 \<le> im_end im" "im_end im \<le> 0xF0FFF000"
  shows "\<exists>u. kseqs [i386_detect_memory, alloc_pages_array im, alloc_kern_pgdir im, alloc_envs_array im, page_init (im_end im)] s = Returns () u \<and>
    boot_ready s1 u"
proof -
  have "nextfree s1 = 0" "0 < unat (npages s1)" using detect_same[OF assms(1)] assms(2,5) by simp_all
  from boot_memory_run[OF this assms(3,7,8)]
  obtain t where t: "kseqs [alloc_pages_array im, alloc_kern_pgdir im, alloc_envs_array im] s1 = Returns () t" "boot_memory im t"
    "npages t = npages s1" "npages_basemem t = npages_basemem s1" "page_free_list t = None"
    using detect_same(2)[OF assms(1)] assms(6) by auto
  then obtain u where u: "page_init (im_end im) t = Returns () u" "boot_ready t u"
    using boot_ready_init[of im t] assms(2-4,7,8) by auto
  have "kseqs [i386_detect_memory, alloc_pages_array im, alloc_kern_pgdir im, alloc_envs_array im, page_init (im_end im)] s
     = kseq (kseqs [alloc_pages_array im, alloc_kern_pgdir im, alloc_envs_array im]) (page_init (im_end im)) s1"
    using assms(1) by (auto simp: kseq_apply split: outcome.splits)
  also have "\<dots> = Returns () u" using t(1) u(1) by (simp only: kseq_Returns)
  finally show ?thesis using u(2) t(3,4) by (auto simp: boot_ready_def)
qed

section \<open>Starting up\<close>

text \<open>A machine with 640 KB of base memory and 64 MB in all, before the kernel has set up memory.\<close>

definition booting_machine :: kstate where
  "booting_machine = small_machine\<lparr>nextfree := 0, page_free_list := None,
     cmos := (\<lambda>_. 0)(21 := 0x80, 22 := 0x02, 53 := 0x03)\<rparr>"

lemma booting_detect:
  "\<exists>s1. i386_detect_memory booting_machine = Returns () s1 \<and> npages s1 = 16384 \<and> npages_basemem s1 = 160"
  by (simp add: i386_detect_memory_def nvram_read_def mc146818_read_def cprintf_def Let_def booting_machine_def push_bit_eq_mult)

text \<open>
  C25: Before its checks run, \<open>mem_init\<close> has set up what the rest of the kernel relies on. On a machine of 17 to 256 MB the free list is
  well formed and holds exactly the pages that \<open>page_init\<close> frees, and the page directory is well formed: it maps itself at \<open>UVPT\<close>, lies on a page that is not
  free, and has no page tables yet. These are the hypotheses under which inserting and removing pages is proved correct.
\<close>

theorem mem_init_boot:
  assumes "i386_detect_memory s = Returns () s1" "4200 \<le> unat (npages s1)" "unat (npages s1) \<le> 65536" "unat (npages_basemem s1) \<le> 160"
    "nextfree s = 0" "page_free_list s = None" "0xF0100000 \<le> im_end im" "im_end im \<le> 0xF0FFF000"
  shows "\<exists>t xs. kseqs [i386_detect_memory, alloc_pages_array im, alloc_kern_pgdir im, alloc_envs_array im, page_init (im_end im)] s
      = Returns () t \<and> page_inv t xs \<and> wf_pgdir t xs (kern_pgdir t) \<and>
    (\<forall>i. i \<in> set xs \<longleftrightarrow> i < unat (npages s1) \<and> page_freed t i)"
  using boot_run[OF assms] unfolding boot_ready_def by blast

theorem mem_init_boot_witness:
  "\<exists>t xs. kseqs [i386_detect_memory, alloc_pages_array sample_image, alloc_kern_pgdir sample_image, alloc_envs_array sample_image,
      page_init (im_end sample_image)] booting_machine = Returns () t \<and> page_inv t xs \<and> wf_pgdir t xs (kern_pgdir t)"
proof -
  obtain s1 where s1: "i386_detect_memory booting_machine = Returns () s1" "npages s1 = 16384" "npages_basemem s1 = 160"
    using booting_detect by blast
  have "4200 \<le> unat (npages s1)" "unat (npages s1) \<le> 65536" "unat (npages_basemem s1) \<le> 160"
    "nextfree booting_machine = 0" "page_free_list booting_machine = None" "0xF0100000 \<le> im_end sample_image" "im_end sample_image \<le> 0xF0FFF000"
    by (simp_all add: s1 booting_machine_def sample_image_def)
  from mem_init_boot[OF s1(1) this] show ?thesis by blast
qed

text \<open>
  On such a machine \<open>mem_init\<close> panics: \<open>page_init\<close> leaves page 7 on the free list, where the entry code of the other processors
  goes, and \<open>check_page_free_list\<close> does not accept it.
\<close>

theorem mem_init_panics:
  assumes "i386_detect_memory s = Returns () s1" "4200 \<le> unat (npages s1)" "unat (npages s1) \<le> 65536" "unat (npages_basemem s1) \<le> 160"
    "nextfree s = 0" "page_free_list s = None" "0xF0100000 \<le> im_end im" "im_end im \<le> 0xF0FFF000" "7 < unat (npages_basemem s1)"
  shows "\<exists>e. mem_init im s = Panics e"
proof -
  let ?b = "[i386_detect_memory, alloc_pages_array im, alloc_kern_pgdir im, alloc_envs_array im, page_init (im_end im)]"
  obtain t where t: "kseqs ?b s = Returns () t" "boot_ready s1 t" using boot_run[OF assms(1-8)] by blast
  then obtain xs where xs: "page_inv t xs" "7 \<in> set xs" "nextfree t \<noteq> 0"
    using assms(2,9) unfolding boot_ready_def by (auto simp: page_freed_def)
  have "xs \<noteq> []" using xs(2) by auto
  moreover have "\<not> may_be_free (nextfree t) 7" by (simp add: may_be_free_def)
  ultimately obtain e where e: "check_page_free_list im True t = Panics e"
    using check_page_free_list_ok[OF xs(1) _ xs(3), of im True] xs(2) by (auto split: if_splits)
  have "kseqs (?b @ check_page_free_list im True # ms) s = Panics e" for ms
    unfolding kseqs_append using t(1) e by (simp only: kseq_Returns kseqs.simps kseq_Panics)
  then have "\<And>ms. kseqs (i386_detect_memory # alloc_pages_array im # alloc_kern_pgdir im # alloc_envs_array im # page_init (im_end im)
    # check_page_free_list im True # ms) s = Panics e" by (simp only: append_Cons append_Nil)
  then show ?thesis unfolding mem_init_def by blast
qed

theorem mem_init_panics_witness: "\<exists>e. mem_init sample_image booting_machine = Panics e"
proof -
  obtain s1 where s1: "i386_detect_memory booting_machine = Returns () s1" "npages s1 = 16384" "npages_basemem s1 = 160"
    using booting_detect by blast
  show ?thesis by (rule mem_init_panics[OF s1(1)]) (simp_all add: s1 booting_machine_def sample_image_def)
qed

end
