(* ===== verification/Init.thy ===== *)
theory Init
  imports Mem_Init
begin

text \<open>
  Start-up of the kernel and the handling of panics, \<^verbatim>\<open>kern/init.c\<close>.
\<close>

section \<open>Panics\<close>

text \<open>
  The arguments of the message are those of \<^verbatim>\<open>vcprintf\<close>. The monitor does not return, so that the loop around it runs once.
\<close>

definition kpanic_c :: "image \<Rightarrow> string \<Rightarrow> u32 \<Rightarrow> string \<Rightarrow> parg list \<Rightarrow> (kstate, unit) kernel" where
  "kpanic_c im file line fmt args =
     kbind (kget panicstr) (\<lambda>p.
     kseq (kwhen (p = None) (kseqs [
       kmodify (\<lambda>s. s\<lparr>panicstr := Some fmt\<rparr>),
       hwop ''cli; cld'' 0,
       kbind (kget cpunum) (\<lambda>n. cprintf ''kernel panic on CPU %d at %s:%d: '' [PInt (of_nat n), PStr file, PInt line]),
       cprintf fmt args,
       cprintf ''\<newline>'' []]))
     (kseq (monitor im None) (kleave Monitors)))"

definition kwarn :: "string \<Rightarrow> u32 \<Rightarrow> string \<Rightarrow> parg list \<Rightarrow> (kstate, unit) kernel" where
  "kwarn file line fmt args = kseqs [
     cprintf ''kernel warning at %s:%d: '' [PStr file, PInt line],
     cprintf fmt args,
     cprintf ''\<newline>'' []]"

section \<open>The other processors\<close>

definition mp_main :: "image \<Rightarrow> (kstate, unit) kernel" where
  "mp_main im = kseqs [
     kbind (kget kern_pgdir) (\<lambda>d. kbind (PADDR d) lcr3),
     kbind (kget cpunum) (\<lambda>n. cprintf ''SMP: CPU %d starting\<newline>'' [PInt (of_nat n)]),
     lapic_init,
     env_init_percpu,
     trap_init_percpu im,
     set_cpu_status CPU_STARTED,
     kleave Spins]"

section \<open>Start-up\<close>

text \<open>
  What processor \<open>c\<close> does to the shared state when it is started at the physical address \<open>pa\<close>: the code of \<^verbatim>\<open>kern/mpentry.S\<close>, if it is there, switches to the kernel's
  addresses and calls \<open>mp_main\<close>; other bytes are no program. Registers of the processor are its own. When \<open>mp_main\<close> panics the processor stays in the monitor.
\<close>

definition code_at :: "mem \<Rightarrow> u32 \<Rightarrow> u8 list \<Rightarrow> bool" where
  "code_at m a bs \<longleftrightarrow> (\<forall>i < length bs. m (a + of_nat i) = bs ! i)"

definition ap_start :: "image \<Rightarrow> u32 \<Rightarrow> nat \<Rightarrow> kstate \<Rightarrow> kstate" where
  "ap_start im pa c s = (if code_at (pmem s) pa (im_mpentry im) then
     (case mp_main im (s\<lparr>cpunum := c\<rparr>) of
        Leaves x t \<Rightarrow> t\<lparr>cpunum := cpunum s, cr3 := cr3 s\<rparr>
      | Returns x t \<Rightarrow> t\<lparr>cpunum := cpunum s, cr3 := cr3 s\<rparr>
      | Panics e \<Rightarrow> s) else s)"

text \<open>The boot processor waits for the status to change; the other one does all it will ever do to it meanwhile.\<close>

definition boot_ap :: "image \<Rightarrow> u32 \<Rightarrow> nat \<Rightarrow> (kstate, unit) kernel" where
  "boot_ap im code c =
     kbind (kget cpunum) (\<lambda>me.
     if c = me then kret ()
     else kseqs [
       kmodify (\<lambda>s. s\<lparr>mpentry_kstack := im_kstacks im + of_nat c * KSTKSIZE + KSTKSIZE\<rparr>),
       kbind (PADDR code) (\<lambda>pa. kseq (kbind (kget (\<lambda>s. cpu_id (cpus s ! c))) (\<lambda>i. lapic_startap i pa)) (kmodify (ap_start im pa c))),
       kbind (kget (\<lambda>s. cpu_status (cpus s ! c))) (\<lambda>st. if st = CPU_STARTED then kret () else kleave Spins)])"

text \<open>The entry code is copied byte for byte to the page at \<open>MPENTRY_PADDR\<close>.\<close>

definition boot_aps :: "image \<Rightarrow> (kstate, unit) kernel" where
  "boot_aps im =
     kbind (KADDR MPENTRY_PADDR) (\<lambda>code.
     kseq (kmodify (\<lambda>s. s\<lparr>pmem := put_bytes (pmem s) (code - KERNBASE) (im_mpentry im)\<rparr>))
     (kbind (kget ncpu) (\<lambda>n. kfor [0..<n] (boot_ap im code))))"

definition i386_init :: "image \<Rightarrow> (kstate, unit) kernel" where
  "i386_init im = kseqs [
     cons_init,
     cprintf ''6828 decimal is %o octal!\<newline>'' [PInt 6828],
     mem_init im,
     env_init,
     trap_init im,
     mp_init,
     lapic_init,
     pic_init,
     boot_aps im,
     env_create (im_binary im) ENV_TYPE_USER,
     sched_yield]"

section \<open>Starting the other processors\<close>

text \<open>The messages that start one processor at the address \<open>pa\<close>.\<close>

definition startup_messages :: "u32 \<Rightarrow> u8 \<Rightarrow> (u32 \<times> u32) list" where
  "startup_messages pa i = [(LA_ICRHI, push_bit 24 (ucast i)), (LA_ICRLO, LA_INIT OR LA_LEVEL OR LA_ASSERT),
     (LA_ICRLO, LA_INIT OR LA_LEVEL), (LA_ICRHI, push_bit 24 (ucast i)), (LA_ICRLO, LA_STARTUP OR drop_bit 12 pa),
     (LA_ICRHI, push_bit 24 (ucast i)), (LA_ICRLO, LA_STARTUP OR drop_bit 12 pa)]"

text \<open>What starting a processor leaves as it is: only the vector for a warm reset in low memory changes.\<close>

definition same_for_boot :: "kstate \<Rightarrow> kstate \<Rightarrow> bool" where
  "same_for_boot s t \<longleftrightarrow> lapic t = lapic s \<and> lapicaddr t = lapicaddr s \<and> npages t = npages s \<and> cpunum t = cpunum s \<and> ncpu t = ncpu s \<and>
     kern_pgdir t = kern_pgdir s \<and> map cpu_id (cpus t) = map cpu_id (cpus s) \<and> (\<forall>x. 0x1000 \<le> x \<longrightarrow> pmem t x = pmem s x)"

lemma startap_run:
  assumes "lapic s \<noteq> 0" "0 < npages s" "addr < 0x100000"
  shows "\<exists>t. lapic_startap i addr s = Returns () t \<and> lapic_outs t = lapic_outs s @ startup_messages addr i \<and>
    same_for_boot s t \<and> cpus t = cpus s \<and> mpentry_kstack t = mpentry_kstack s"
proof -
  have k: "KADDR (push_bit 4 0x40 OR 0x67) u = Returns 0xF0000467 u" if "npages u = npages s" for u
    using that assms(2) by (simp add: KADDR_def PGNUM_def not_le)
  have two: "[0..<2] = [0, 1 :: nat]" by (simp add: upt_rec)
  show ?thesis unfolding lapic_startap_def two using assms(1) k
    by (auto simp: outb_def store16_def lapicw_run microdelay_def startup_messages_def same_for_boot_def)
qed

lemma same_for_boot_trans: "same_for_boot s t \<Longrightarrow> same_for_boot t u \<Longrightarrow> same_for_boot s u"
  by (simp add: same_for_boot_def)

lemma same_cpu_id: "same_for_boot s t \<Longrightarrow> c < length (cpus s) \<Longrightarrow> cpu_id (cpus t ! c) = cpu_id (cpus s ! c) \<and> c < length (cpus t)"
  unfolding same_for_boot_def by (metis length_map nth_map)

lemma same_code:
  assumes "same_for_boot s t" "code_at (pmem s) 0x7000 bs" "length bs \<le> 4096"
  shows "code_at (pmem t) 0x7000 bs"
  unfolding code_at_def
proof (intro allI impI)
  fix i assume i: "i < length bs"
  have "unat (0x7000 + of_nat i :: u32) = 0x7000 + i" using i assms(3) by (simp add: unat_word_ariths unat_of_nat)
  then have "(0x1000 :: u32) \<le> 0x7000 + of_nat i" by (simp add: word_le_nat_alt)
  then show "pmem t (0x7000 + of_nat i) = bs ! i" using assms(1,2) i by (simp add: same_for_boot_def code_at_def)
qed

text \<open>A processor that is started stops in \<open>mp_main\<close> when there is an interrupt unit to be set up, and comes up otherwise.\<close>

lemma ap_start_stuck: "lapicaddr s \<noteq> 0 \<Longrightarrow> KERNBASE \<le> kern_pgdir s \<Longrightarrow> ap_start im pa c s = s"
  by (simp add: ap_start_def mp_main_def PADDR_def lcr3_def cprintf_def lapic_init_def mmio_map_region_def not_less[symmetric] kbind_apply kseq_apply)

lemma ap_start_up:
  assumes "lapicaddr s = 0" "KERNBASE \<le> kern_pgdir s" "code_at (pmem s) pa (im_mpentry im)" "c < length (cpus s)"
  shows "same_for_boot s (ap_start im pa c s) \<and> lapic_outs (ap_start im pa c s) = lapic_outs s \<and>
    cpus (ap_start im pa c s) = (cpus s)[c := (cpus s ! c)\<lparr>cpu_status := CPU_STARTED\<rparr>]"
  using assms by (simp add: ap_start_def mp_main_def PADDR_def lcr3_def cprintf_def lapic_init_def env_init_percpu_def trap_init_percpu_def hwop_def
      set_cpu_status_def thiscpu_def same_for_boot_def not_less[symmetric] map_update list_update_same_conv)

lemma boot_ap_run:
  assumes s: "lapic s \<noteq> 0" "0 < npages s" "c < length (cpus s)" "KERNBASE \<le> kern_pgdir s" "c \<noteq> cpunum s"
    and code: "code_at (pmem s) 0x7000 (im_mpentry im)" "length (im_mpentry im) \<le> 4096" and st: "cpu_status (cpus s ! c) \<noteq> CPU_STARTED"
  shows "\<exists>t. same_for_boot s t \<and> lapic_outs t = lapic_outs s @ startup_messages 0x7000 (cpu_id (cpus s ! c)) \<and>
    (if lapicaddr s = 0 then boot_ap im 0xF0007000 c s = Returns () t \<and> cpus t = (cpus s)[c := (cpus s ! c)\<lparr>cpu_status := CPU_STARTED\<rparr>]
     else boot_ap im 0xF0007000 c s = Leaves Spins t \<and> cpus t = cpus s \<and> mpentry_kstack t = im_kstacks im + of_nat c * KSTKSIZE + KSTKSIZE)"
proof -
  let ?s = "s\<lparr>mpentry_kstack := im_kstacks im + of_nat c * KSTKSIZE + KSTKSIZE\<rparr>"
  obtain t where t: "lapic_startap (cpu_id (cpus s ! c)) 0x7000 ?s = Returns () t"
    "lapic_outs t = lapic_outs s @ startup_messages 0x7000 (cpu_id (cpus s ! c))" "same_for_boot ?s t" "cpus t = cpus s"
    "mpentry_kstack t = im_kstacks im + of_nat c * KSTKSIZE + KSTKSIZE"
    using startap_run[of ?s "0x7000" "cpu_id (cpus s ! c)"] s by auto
  have st': "same_for_boot s t" using t(3) by (simp add: same_for_boot_def)
  have f: "lapicaddr t = lapicaddr s" "KERNBASE \<le> kern_pgdir t" "c < length (cpus t)" using st' s(3,4) t(4) by (simp_all add: same_for_boot_def)
  have ct: "code_at (pmem t) 0x7000 (im_mpentry im)" by (rule same_code[OF st' code])
  have p: "PADDR 0xF0007000 ?s = Returns 0x7000 ?s" by (simp add: PADDR_def)
  have run: "boot_ap im 0xF0007000 c s = (if cpu_status (cpus (ap_start im 0x7000 c t) ! c) = CPU_STARTED then Returns () (ap_start im 0x7000 c t)
      else Leaves Spins (ap_start im 0x7000 c t))" unfolding boot_ap_def using s(5) p t(1) by simp
  show ?thesis
  proof (cases "lapicaddr s = 0")
    case True
    note u = ap_start_up[of t, OF _ f(2) ct f(3)]
    then show ?thesis using True f(1,3) run t(2,4) same_for_boot_trans[OF st'] by (intro exI[of _ "ap_start im 0x7000 c t"]) simp
  next
    case False
    then have "ap_start im 0x7000 c t = t" using ap_start_stuck[of t] f by simp
    then show ?thesis using False run t(2,4,5) st st' by (intro exI[of _ t]) simp
  qed
qed

lemma boot_aps_loop:
  assumes "lapic s \<noteq> 0" "0 < npages s" "\<forall>c \<in> set xs. c < length (cpus s)" "KERNBASE \<le> kern_pgdir s" "distinct xs"
    "code_at (pmem s) 0x7000 (im_mpentry im)" "length (im_mpentry im) \<le> 4096"
    "\<forall>c \<in> set xs. c \<noteq> cpunum s \<longrightarrow> cpu_status (cpus s ! c) \<noteq> CPU_STARTED" "lapicaddr s = 0"
  shows "\<exists>t. kfor xs (boot_ap im 0xF0007000) s = Returns () t \<and> same_for_boot s t \<and>
    lapic_outs t = lapic_outs s @ concat (map (\<lambda>c. startup_messages 0x7000 (cpu_id (cpus s ! c))) (filter (\<lambda>c. c \<noteq> cpunum s) xs)) \<and>
    (\<forall>c < length (cpus s). cpu_status (cpus t ! c) = (if c \<in> set xs \<and> c \<noteq> cpunum s then CPU_STARTED else cpu_status (cpus s ! c)))"
  using assms
proof (induction xs arbitrary: s)
  case Nil
  then show ?case by (simp add: same_for_boot_def)
next
  case (Cons c xs)
  have "\<exists>t. boot_ap im 0xF0007000 c s = Returns () t \<and> same_for_boot s t \<and>
    lapic_outs t = lapic_outs s @ (if c = cpunum s then [] else startup_messages 0x7000 (cpu_id (cpus s ! c))) \<and>
    cpus t = (if c = cpunum s then cpus s else (cpus s)[c := (cpus s ! c)\<lparr>cpu_status := CPU_STARTED\<rparr>])"
  proof (cases "c = cpunum s")
    case True
    then show ?thesis by (simp add: boot_ap_def same_for_boot_def)
  next
    case False
    then show ?thesis using boot_ap_run[of s c im] Cons.prems by auto
  qed
  then obtain t where t: "boot_ap im 0xF0007000 c s = Returns () t" "same_for_boot s t"
    "lapic_outs t = lapic_outs s @ (if c = cpunum s then [] else startup_messages 0x7000 (cpu_id (cpus s ! c)))"
    "cpus t = (if c = cpunum s then cpus s else (cpus s)[c := (cpus s ! c)\<lparr>cpu_status := CPU_STARTED\<rparr>])" by blast
  have f: "lapic t \<noteq> 0" "0 < npages t" "cpunum t = cpunum s" "KERNBASE \<le> kern_pgdir t" "lapicaddr t = 0"
    using t(2) Cons.prems(1,2,4,9) by (simp_all add: same_for_boot_def)
  have ct: "code_at (pmem t) 0x7000 (im_mpentry im)" by (rule same_code[OF t(2) Cons.prems(6,7)])
  have len: "\<forall>c \<in> set xs. c < length (cpus t)" using same_cpu_id[OF t(2)] Cons.prems(3) by simp
  have "\<forall>d \<in> set xs. d \<noteq> cpunum t \<longrightarrow> cpu_status (cpus t ! d) \<noteq> CPU_STARTED"
  proof (intro ballI impI)
    fix d assume d: "d \<in> set xs" "d \<noteq> cpunum t"
    then have "c \<noteq> d" using Cons.prems(5) by auto
    then have "cpus t ! d = cpus s ! d" using t(4) by simp
    then show "cpu_status (cpus t ! d) \<noteq> CPU_STARTED" using Cons.prems(8) d f(3) by simp
  qed
  then obtain u where u: "kfor xs (boot_ap im 0xF0007000) t = Returns () u" "same_for_boot t u"
    "lapic_outs u = lapic_outs t @ concat (map (\<lambda>c. startup_messages 0x7000 (cpu_id (cpus t ! c))) (filter (\<lambda>c. c \<noteq> cpunum s) xs))"
    "\<forall>c < length (cpus t). cpu_status (cpus u ! c) = (if c \<in> set xs \<and> c \<noteq> cpunum s then CPU_STARTED else cpu_status (cpus t ! c))"
    using Cons.IH[of t] f ct len Cons.prems(5,7) by auto
  have "map (\<lambda>c. startup_messages 0x7000 (cpu_id (cpus t ! c))) (filter (\<lambda>c. c \<noteq> cpunum s) xs) =
    map (\<lambda>c. startup_messages 0x7000 (cpu_id (cpus s ! c))) (filter (\<lambda>c. c \<noteq> cpunum s) xs)"
    using same_cpu_id[OF t(2)] Cons.prems(3) by auto
  then have "lapic_outs u = lapic_outs s @ concat (map (\<lambda>c. startup_messages 0x7000 (cpu_id (cpus s ! c))) (filter (\<lambda>c. c \<noteq> cpunum s) (c # xs)))"
    unfolding u(3) t(3) by (simp only: filter.simps) simp
  moreover have "kfor (c # xs) (boot_ap im 0xF0007000) s = Returns () u" using t(1) u(1) by simp
  moreover have "cpu_status (cpus u ! d) = (if d \<in> set (c # xs) \<and> d \<noteq> cpunum s then CPU_STARTED else cpu_status (cpus s ! d))"
    if "d < length (cpus s)" for d using u(4) t(4) that by (auto simp: nth_list_update)
  ultimately show ?case using same_for_boot_trans[OF t(2) u(2)] by blast
qed

text \<open>The first processor that is not the one that runs.\<close>

lemma boot_aps_first:
  assumes "lapic s \<noteq> 0" "0 < npages s" "\<forall>c \<in> set xs. c < length (cpus s)" "KERNBASE \<le> kern_pgdir s"
    "code_at (pmem s) 0x7000 (im_mpentry im)" "length (im_mpentry im) \<le> 4096" "filter (\<lambda>c. c \<noteq> cpunum s) xs = c # cs"
    "cpu_status (cpus s ! c) \<noteq> CPU_STARTED" "lapicaddr s \<noteq> 0"
  shows "\<exists>t. kfor xs (boot_ap im 0xF0007000) s = Leaves Spins t \<and> same_for_boot s t \<and> cpus t = cpus s \<and>
    lapic_outs t = lapic_outs s @ startup_messages 0x7000 (cpu_id (cpus s ! c)) \<and> mpentry_kstack t = im_kstacks im + of_nat c * KSTKSIZE + KSTKSIZE"
  using assms
proof (induction xs)
  case (Cons d xs)
  show ?case
  proof (cases "d = cpunum s")
    case True
    then have "boot_ap im 0xF0007000 d s = Returns () s" by (simp add: boot_ap_def)
    then show ?thesis using Cons True by simp
  next
    case False
    then have "d = c" using Cons.prems(7) by simp
    then show ?thesis using boot_ap_run[of s c im] Cons.prems False by (auto simp: kseq_apply)
  qed
qed simp



section \<open>Panics and start-up do not return\<close>

lemma kpanic_c_noreturn: "noreturn (kpanic_c im file line fmt args)"
  unfolding kpanic_c_def by (intro noreturn_kbind noreturn_kseq disjI2 noreturn_kleave)

lemma kpanic_c_nested:
  "panicstr s \<noteq> None \<Longrightarrow> kpanic_c im file line fmt args s = kseq (monitor im None) (kleave Monitors) s"
  by (auto simp: kpanic_c_def)

lemma i386_init_noreturn: "noreturn (i386_init im)"
  unfolding i386_init_def by (rule noreturn_kseqs[OF _ noreturn_sched_yield]) simp

end
