(* ===== verification/Bootmain.thy ===== *)
theory Bootmain
  imports Envs
begin

text \<open>
  The boot loader \<^verbatim>\<open>boot/main.c\<close>: it reads the kernel's ELF file from the first disk, sector by sector, into physical memory and jumps to it. Its
  state is the memory, the disk with its controller and the ports of the debugger. A controller that is never ready makes the loader spin.
\<close>

section \<open>The disk\<close>

definition SECTSIZE :: u32 where [simp, layout_defs]: "SECTSIZE = 512"
definition ELFHDR :: u32 where [simp, layout_defs]: "ELFHDR = 0x10000"
definition ELF_MAGIC :: u32 where [simp, layout_defs]: "ELF_MAGIC = 0x464C457F"

text \<open>
  The controller of the first disk, as the ATA interface describes it: it has a register for each of the ports \<^verbatim>\<open>0x1F2\<close> to \<^verbatim>\<open>0x1F7\<close>; \<open>disk_wait\<close> is the number of times its
  status will be read as busy, \<open>None\<close> when it stays busy; \<open>disk_buf\<close> are the bytes that wait at the data port. While it is busy or has bytes waiting it ignores
  what is written to its registers. The command \<^verbatim>\<open>0x20\<close> reads the given number of sectors, 0 standing for 256, from the 28-bit sector number
  in the registers, when these select the first disk and sector numbers (\<^verbatim>\<open>0xE0\<close>); it takes the time \<open>disk_latency\<close>. The data port without data reads as \<^verbatim>\<open>0xFF\<close>.
\<close>

record bootm = pic +
  bmem :: mem
  disk :: "nat \<Rightarrow> u8"
  disk_regs :: "u16 \<Rightarrow> u8"
  disk_wait :: "nat option"
  disk_latency :: "u32 \<Rightarrow> nat option"
  disk_buf :: "u8 list"
  wouts :: "(u16 \<times> u16) list"

definition lba :: "u8 \<Rightarrow> u8 \<Rightarrow> u8 \<Rightarrow> u8 \<Rightarrow> u32" where
  "lba b0 b1 b2 b3 = ucast b0 OR push_bit 8 (ucast b1) OR push_bit 16 (ucast b2) OR push_bit 24 (take_bit 4 (ucast b3))"

definition sector_bytes :: "(nat \<Rightarrow> u8) \<Rightarrow> u32 \<Rightarrow> nat \<Rightarrow> u8 list" where
  "sector_bytes d n c = map (\<lambda>i. d (512 * unat n + i)) [0..<512 * c]"

definition disk_command :: "bootm \<Rightarrow> bootm" where
  "disk_command s = (let r = disk_regs s; n = lba (r 0x1F3) (r 0x1F4) (r 0x1F5) (r 0x1F6); c = (if r 0x1F2 = 0 then 256 else unat (r 0x1F2)) in
     if r 0x1F7 = 0x20 \<and> r 0x1F6 AND 0xF0 = 0xE0 then s\<lparr>disk_buf := sector_bytes (disk s) n c, disk_wait := disk_latency s n\<rparr> else s)"

definition disk_write :: "u16 \<Rightarrow> u8 \<Rightarrow> bootm \<Rightarrow> bootm" where
  "disk_write p v s = (if disk_wait s = Some 0 \<and> disk_buf s = [] \<and> 0x1F2 \<le> p \<and> p \<le> 0x1F7 then
     let t = s\<lparr>disk_regs := (disk_regs s)(p := v)\<rparr> in if p = 0x1F7 then disk_command t else t else s)"

definition boot_outb :: "u16 \<Rightarrow> u8 \<Rightarrow> (bootm, unit) kernel" where
  "boot_outb p v = kseq (outb p v) (kmodify (disk_write p v))"

text \<open>The status register (\<^verbatim>\<open>inb(0x1F7)\<close>): busy or ready. The loop of \<^verbatim>\<open>waitdisk\<close> reads it until the disk is ready.\<close>

definition disk_status :: "(bootm, u8) kernel" where
  "disk_status = (\<lambda>s. Returns (if disk_wait s = Some 0 then 0x40 else 0x80) (s\<lparr>disk_wait := map_option (\<lambda>n. n - 1) (disk_wait s)\<rparr>))"

primrec waitdisk_loop :: "nat \<Rightarrow> (bootm, unit) kernel" where
  "waitdisk_loop 0 = kleave Spins"
| "waitdisk_loop (Suc n) = kbind disk_status (\<lambda>v. if v AND 0xC0 \<noteq> 0x40 then waitdisk_loop n else kret ())"

definition waitdisk :: "(bootm, unit) kernel" where
  "waitdisk = (\<lambda>s. waitdisk_loop (case disk_wait s of None \<Rightarrow> 0 | Some n \<Rightarrow> Suc n) s)"

definition insl :: "u32 \<Rightarrow> nat \<Rightarrow> (bootm, unit) kernel" where
  "insl dst cnt = kmodify (\<lambda>s.
     let data = (if disk_wait s = Some 0 then disk_buf s else []) in
     s\<lparr>bmem := (\<lambda>x. if in_range dst (4 * cnt) x then (if unat (x - dst) < length data then data ! unat (x - dst) else 0xFF) else bmem s x),
       disk_buf := (if disk_wait s = Some 0 then drop (4 * cnt) (disk_buf s) else disk_buf s)\<rparr>)"

definition readsect :: "u32 \<Rightarrow> u32 \<Rightarrow> (bootm, unit) kernel" where
  "readsect dst offset = kseqs [
     waitdisk,
     boot_outb 0x1F2 1,
     boot_outb 0x1F3 (ucast offset),
     boot_outb 0x1F4 (ucast (drop_bit 8 offset)),
     boot_outb 0x1F5 (ucast (drop_bit 16 offset)),
     boot_outb 0x1F6 (ucast (drop_bit 24 offset OR 0xE0)),
     boot_outb 0x1F7 0x20,
     waitdisk,
     insl dst (unat SECTSIZE div 4)]"

text \<open>
  The loop of \<^verbatim>\<open>readseg\<close>. It visits each of the \<open>2\<^sup>23\<close> sector addresses at most once before it comes back to its first one;
  from then on it never ends.
\<close>

primrec readseg_loop :: "nat \<Rightarrow> u32 \<Rightarrow> u32 \<Rightarrow> u32 \<Rightarrow> (bootm, unit) kernel" where
  "readseg_loop 0 pa end_pa offset = kleave Spins"
| "readseg_loop (Suc n) pa end_pa offset =
     (if pa < end_pa then kseq (readsect pa offset) (readseg_loop n (pa + SECTSIZE) end_pa (offset + 1)) else kret ())"

definition readseg :: "u32 \<Rightarrow> u32 \<Rightarrow> u32 \<Rightarrow> (bootm, unit) kernel" where
  "readseg pa count offset =
     (let end_pa = pa + count in
      readseg_loop (2 ^ 23 + 1) (pa AND NOT (SECTSIZE - 1)) end_pa (offset div SECTSIZE + 1))"

section \<open>Loading the kernel\<close>

text \<open>
  The loop that clears the rest of a segment looks at the program header again in every round.
\<close>

primrec zero_loop :: "nat \<Rightarrow> u32 \<Rightarrow> u32 \<Rightarrow> (bootm, unit) kernel" where
  "zero_loop 0 ph i = kleave Spins"
| "zero_loop (Suc n) ph i =
     kbind (kget (\<lambda>s. proghdr_at (bmem s) ph)) (\<lambda>h.
     if i < p_memsz h - p_filesz h
     then kseq (kmodify (\<lambda>s. s\<lparr>bmem := (bmem s)(p_pa h + p_filesz h + i := 0)\<rparr>)) (zero_loop n ph (i + 1))
     else kret ())"

definition boot_segment :: "u32 \<Rightarrow> (bootm, unit) kernel" where
  "boot_segment ph =
     kbind (kget (\<lambda>s. proghdr_at (bmem s) ph)) (\<lambda>h.
     kseq (readseg (p_pa h) (p_memsz h) (p_offset h)) (zero_loop (2 ^ 32) ph 0))"

primrec boot_segments :: "nat \<Rightarrow> u32 \<Rightarrow> u32 \<Rightarrow> (bootm, unit) kernel" where
  "boot_segments 0 ph eph = kret ()"
| "boot_segments (Suc n) ph eph =
     (if ph < eph then kseq (boot_segment ph) (boot_segments n (ph + 32) eph) else kret ())"

definition outw :: "u16 \<Rightarrow> u16 \<Rightarrow> (bootm, unit) kernel" where
  "outw p v = kmodify (\<lambda>s. s\<lparr>wouts := wouts s @ [(p, v)]\<rparr>)"

text \<open>The loader gives the address it jumps to.\<close>

definition bootmain :: "(bootm, u32) kernel" where
  "bootmain =
     kseq (readseg ELFHDR (SECTSIZE * 8) 0)
     (kbind (kget (\<lambda>s. elf_at (bmem s) ELFHDR)) (\<lambda>hdr.
      if e_magic hdr \<noteq> ELF_MAGIC then
        kseq (outw 0x8A00 0x8A00) (kseq (outw 0x8A00 0x8E00) (kleave Spins))
      else
        let ph = ELFHDR + e_phoff hdr; eph = ph + 32 * ucast (e_phnum hdr) in
        kseq (boot_segments (unat (e_phnum hdr)) ph eph)
        (kget (\<lambda>s. e_entry (elf_at (bmem s) ELFHDR)))))"

section \<open>Reading sectors\<close>

text \<open>The disk is idle or will be, and every command ends.\<close>

definition disk_ready :: "bootm \<Rightarrow> bool" where
  "disk_ready s \<longleftrightarrow> disk_wait s \<noteq> None \<and> disk_buf s = [] \<and> (\<forall>n. disk_latency s n \<noteq> None)"

text \<open>Memory with \<open>n\<close> bytes from \<open>a\<close> taken from the image at \<open>o\<close>.\<close>

definition from_image :: "mem \<Rightarrow> (nat \<Rightarrow> u8) \<Rightarrow> u32 \<Rightarrow> nat \<Rightarrow> nat \<Rightarrow> mem" where
  "from_image m img a off n = (\<lambda>x. if in_range a n x then img (off + unat (x - a)) else m x)"

section \<open>Reading segments\<close>

text \<open>The bytes a segment's sectors occupy, and what it means that a segment is in memory.\<close>

definition seg_range :: "Proghdr \<Rightarrow> u32 \<Rightarrow> bool" where
  "seg_range h x \<longleftrightarrow> 512 * (unat (p_pa h) div 512) \<le> unat x \<and> unat x < 512 * ((unat (p_pa h) + unat (p_memsz h) + 511) div 512)"

definition seg_ok :: "Proghdr \<Rightarrow> bool" where
  "seg_ok h \<longleftrightarrow> p_filesz h \<le> p_memsz h \<and> unat (p_pa h) mod 512 = unat (p_offset h) mod 512 \<and>
     unat (p_pa h) + unat (p_memsz h) + 512 \<le> 2 ^ 32"

definition seg_loaded :: "(nat \<Rightarrow> u8) \<Rightarrow> mem \<Rightarrow> Proghdr \<Rightarrow> bool" where
  "seg_loaded img m h \<longleftrightarrow> (\<forall>i < unat (p_memsz h). m (p_pa h + of_nat i) =
     (if i < unat (p_filesz h) then img (512 + unat (p_offset h) + i) else 0))"

text \<open>The file as it appears at \<open>ELFHDR\<close>, after the boot sector.\<close>

definition file_at_hdr :: "(nat \<Rightarrow> u8) \<Rightarrow> mem" where
  "file_at_hdr img = (\<lambda>x. img (512 + unat (x - ELFHDR)))"

definition file_elf :: "(nat \<Rightarrow> u8) \<Rightarrow> Elf" where
  "file_elf img = elf_at (file_at_hdr img) ELFHDR"

definition file_segment :: "(nat \<Rightarrow> u8) \<Rightarrow> nat \<Rightarrow> Proghdr" where
  "file_segment img i = proghdr_at (file_at_hdr img) (ELFHDR + e_phoff (file_elf img) + 32 * of_nat i)"

text \<open>A disk with a kernel of one segment: two bytes of code, two bytes cleared.\<close>

definition sample_disk :: "nat \<Rightarrow> u8" where
  "sample_disk i = (case map_of [(512, 0x7F), (513, 0x45), (514, 0x4C), (515, 0x46), (536, 0x0C), (538, 0x10), (540, 52), (556, 1),
     (564, 1), (569, 0x10), (574, 0x10), (575, 0xF0), (578, 0x10), (580, 2), (584, 4),
     (4608, 0xFA), (4609, 0x31), (4610, 0x99)] i of None \<Rightarrow> 0 | Some b \<Rightarrow> b)"

definition boot_machine :: bootm where
  "boot_machine = \<lparr>irq_mask_8259A = 0xFFFB, didinit = False, outs = [], klog = [], bmem = (\<lambda>_. 0x55), disk = sample_disk,
     disk_regs = (\<lambda>_. 0), disk_wait = Some 7, disk_latency = (\<lambda>_. Some 100), disk_buf = [], wouts = []\<rparr>"

lemma lba_sector:
  assumes "unat n < 2 ^ 28"
  shows "lba (ucast n) (ucast (drop_bit 8 n)) (ucast (drop_bit 16 n)) (ucast (drop_bit 24 n OR 0xE0)) = n"
proof -
  have "take_bit 28 n = n" using assms by (simp add: word_unat_eq_iff unsigned_take_bit_eq take_bit_nat_eq_self)
  then have b: "bit n k \<Longrightarrow> k < 28" for k by (metis bit_take_bit_iff)
  have e: "bit (0xE0 :: u32) k \<Longrightarrow> 5 \<le> k" for k
  proof -
    have "(0xE0 :: u32) = push_bit 5 7" by simp
    then show "bit (0xE0 :: u32) k \<Longrightarrow> 5 \<le> k" by (simp only: bit_push_bit_iff)
  qed
  show ?thesis unfolding lba_def
  proof (rule bit_word_eqI)
    fix k assume k: "k < LENGTH(32)"
    then have "k < 8 \<or> 8 \<le> k \<and> k < 16 \<or> 16 \<le> k \<and> k < 24 \<or> 24 \<le> k \<and> k < 32" by auto
    then show "bit (ucast (ucast n :: u8) OR push_bit 8 (ucast (ucast (drop_bit 8 n) :: u8)) OR push_bit 16 (ucast (ucast (drop_bit 16 n) :: u8))
      OR push_bit 24 (take_bit 4 (ucast (ucast (drop_bit 24 n OR 0xE0) :: u8))) :: u32) k \<longleftrightarrow> bit n k"
      using b[of k] e[of "k - 24"] by (elim disjE) (auto simp: bit_simps)
  qed
qed

lemma lba_mode: "ucast (drop_bit 24 (n :: u32) OR 0xE0) AND (0xF0 :: u8) = 0xE0" if "unat n < 2 ^ 28"
proof -
  have "take_bit 28 n = n" using that by (simp add: word_unat_eq_iff unsigned_take_bit_eq take_bit_nat_eq_self)
  then have b: "bit n k \<Longrightarrow> k < 28" for k by (metis bit_take_bit_iff)
  have f: "(0xF0 :: u8) = push_bit 4 (mask 4)" "(0xE0 :: u8) = push_bit 5 (mask 3)" "(0xE0 :: u32) = push_bit 5 (mask 3)" by (simp_all add: mask_eq_exp_minus_1)
  show ?thesis unfolding f by (rule bit_word_eqI) (use b in \<open>auto simp: bit_simps dest!: b\<close>)
qed

lemma waitdisk_run: "disk_wait s = Some n \<Longrightarrow> waitdisk s = Returns () (s\<lparr>disk_wait := Some 0\<rparr>)"
proof -
  have "disk_wait s = Some n \<Longrightarrow> waitdisk_loop (Suc n) s = Returns () (s\<lparr>disk_wait := Some 0\<rparr>)" for s
  proof (induction n arbitrary: s)
    case 0
    then show ?case by (simp add: disk_status_def kbind_apply)
  next
    case (Suc n)
    then have "disk_status s = Returns 0x80 (s\<lparr>disk_wait := Some n\<rparr>)" by (simp add: disk_status_def)
    then show ?case using Suc.IH[of "s\<lparr>disk_wait := Some n\<rparr>"] by (simp only: waitdisk_loop.simps kbind_Returns) simp
  qed
  then show "disk_wait s = Some n \<Longrightarrow> waitdisk s = Returns () (s\<lparr>disk_wait := Some 0\<rparr>)" by (simp add: waitdisk_def)
qed

lemma sector_bytes_simps: "length (sector_bytes d n c) = 512 * c" "i < 512 * c \<Longrightarrow> sector_bytes d n c ! i = d (512 * unat n + i)"
  by (simp_all add: sector_bytes_def)

text \<open>Setting up the registers for one sector and giving the command.\<close>

lemma setup_run:
  assumes "disk_wait s = Some 0" "disk_buf s = []" "unat offset < 2 ^ 28"
  shows "\<exists>os rg. kseqs [boot_outb 0x1F2 1, boot_outb 0x1F3 (ucast offset), boot_outb 0x1F4 (ucast (drop_bit 8 offset)),
      boot_outb 0x1F5 (ucast (drop_bit 16 offset)), boot_outb 0x1F6 (ucast (drop_bit 24 offset OR 0xE0)), boot_outb 0x1F7 0x20] s =
    Returns () (s\<lparr>outs := os, disk_regs := rg, disk_buf := sector_bytes (disk s) offset 1, disk_wait := disk_latency s offset\<rparr>)"
  using assms lba_sector[OF assms(3)] lba_mode[OF assms(3)]
  by (simp add: boot_outb_def disk_write_def disk_command_def Let_def) blast

lemma readsect_run:
  assumes "disk_ready s" "unat offset < 2 ^ 28"
  shows "\<exists>t. readsect dst offset s = Returns () t \<and> disk_ready t \<and> disk t = disk s \<and> bmem t = from_image (bmem s) (disk s) dst (512 * unat offset) 512"
proof -
  obtain n where n: "disk_wait s = Some n" "disk_buf s = []" "\<forall>n. disk_latency s n \<noteq> None" using assms(1) by (auto simp: disk_ready_def)
  let ?s = "s\<lparr>disk_wait := Some 0\<rparr>"
  obtain os rg where r: "kseqs [boot_outb 0x1F2 1, boot_outb 0x1F3 (ucast offset), boot_outb 0x1F4 (ucast (drop_bit 8 offset)),
      boot_outb 0x1F5 (ucast (drop_bit 16 offset)), boot_outb 0x1F6 (ucast (drop_bit 24 offset OR 0xE0)), boot_outb 0x1F7 0x20] ?s =
    Returns () (?s\<lparr>outs := os, disk_regs := rg, disk_buf := sector_bytes (disk s) offset 1, disk_wait := disk_latency s offset\<rparr>)" (is "kseqs ?cs _ = Returns () ?t")
    using setup_run[of ?s offset] assms(2) n(2) by auto
  obtain m where m: "disk_latency s offset = Some m" using n(3) by auto
  have w2: "waitdisk ?t = Returns () (?t\<lparr>disk_wait := Some 0\<rparr>)" by (rule waitdisk_run[of _ m]) (simp add: m)
  let ?u = "?t\<lparr>disk_wait := Some 0, bmem := from_image (bmem s) (disk s) dst (512 * unat offset) 512, disk_buf := []\<rparr>"
  have c: "4 * (unat SECTSIZE div 4) = 512" by simp
  have "insl dst (unat SECTSIZE div 4) (?t\<lparr>disk_wait := Some 0\<rparr>) = Returns () ?u"
    unfolding insl_def c by (auto simp: Let_def from_image_def in_range_def fun_eq_iff sector_bytes_simps)
  moreover have "readsect dst offset = kseqs (waitdisk # ?cs @ [waitdisk, insl dst (unat SECTSIZE div 4)])" by (simp only: readsect_def append.simps)
  ultimately have "readsect dst offset s = Returns () ?u" using waitdisk_run[OF n(1)] r w2
    by (simp only: kseqs.simps(2) kseqs_append kseq_Returns) simp
  then show ?thesis using n by (intro exI[of _ ?u]) (simp add: disk_ready_def)
qed

lemma unat_diff_add:
  assumes "unat a + j < 2 ^ 32"
  shows "unat (a + of_nat j :: u32) = unat a + j"
  using assms by (simp add: unat_word_ariths unat_of_nat)

lemma from_image_0: "from_image m img a off 0 = m"
  by (simp add: from_image_def in_range_def)

lemma from_image_join:
  assumes "unat a + j + k < 2 ^ 32"
  shows "from_image (from_image m img a off j) img (a + of_nat j) (off + j) k = from_image m img a off (j + k)"
proof
  fix x
  define y where "y = x - a"
  have x: "x = a + y" "x - (a + of_nat j) = y - of_nat j" by (simp_all add: y_def)
  have j: "unat (of_nat j :: u32) = j" using assms by (simp add: unat_of_nat)
  show "from_image (from_image m img a off j) img (a + of_nat j) (off + j) k x = from_image m img a off (j + k) x"
  proof (cases "j \<le> unat y")
    case True
    then have "unat (y - of_nat j) = unat y - j" using j by (simp add: unat_sub word_le_nat_alt)
    with True show ?thesis by (auto simp: from_image_def in_range_def x(2) y_def[symmetric])
  next
    case False
    then have "\<not> in_range (of_nat j) k y" using not_in_range_below[of y "of_nat j" k] j assms by simp
    then have "\<not> unat (y - of_nat j) < k" by (simp add: in_range_def)
    with False show ?thesis by (simp add: from_image_def in_range_def x(2) y_def[symmetric])
  qed
qed

lemma readseg_loop_run:
  assumes "disk_ready s" "unat pa + 512 * k < 2 ^ 32" "unat offset + k \<le> 2 ^ 28" "k < n"
    "unat e \<le> unat pa + 512 * k" "0 < k \<longrightarrow> unat pa + 512 * (k - 1) < unat e"
  shows "\<exists>t. readseg_loop n pa e offset s = Returns () t \<and> disk_ready t \<and> disk t = disk s \<and>
    bmem t = from_image (bmem s) (disk s) pa (512 * unat offset) (512 * k)"
  using assms
proof (induction k arbitrary: n pa offset s)
  case 0
  then obtain m where "n = Suc m" by (cases n) auto
  moreover have "\<not> pa < e" using 0(5) by (simp add: word_less_nat_alt)
  ultimately have "readseg_loop n pa e offset s = Returns () s" by simp
  then show ?case using 0(1) by (simp add: from_image_0)
next
  case (Suc k)
  obtain m where n: "n = Suc m" "k < m" using Suc.prems(4) by (cases n) auto
  obtain u where r: "readsect pa offset s = Returns () u" "disk_ready u" "disk u = disk s"
    "bmem u = from_image (bmem s) (disk s) pa (512 * unat offset) 512"
    using readsect_run[OF Suc.prems(1), of offset pa] Suc.prems(3) by auto
  have lt: "pa < e" using Suc.prems(6) by (simp add: word_less_nat_alt)
  have pa: "unat (pa + 512) = unat pa + 512" using unat_diff_add[of pa 512] Suc.prems(2) by simp
  have o1: "unat (offset + 1) = unat offset + 1" using unat_diff_add[of offset 1] Suc.prems(3) by simp
  have "unat (pa + 512) + 512 * k < 2 ^ 32" "unat (offset + 1) + k \<le> 2 ^ 28" "unat e \<le> unat (pa + 512) + 512 * k"
    "0 < k \<longrightarrow> unat (pa + 512) + 512 * (k - 1) < unat e"
    unfolding pa o1 using Suc.prems(2,3,5,6) by (simp_all) (cases k; simp)
  then obtain t where q: "readseg_loop m (pa + 512) e (offset + 1) u = Returns () t" "disk_ready t" "disk t = disk u"
    "bmem t = from_image (bmem u) (disk u) (pa + 512) (512 * unat (offset + 1)) (512 * k)"
    using Suc.IH[OF r(2), of "pa + 512" "offset + 1" m] n(2) by blast
  have "from_image (from_image (bmem s) (disk s) pa (512 * unat offset) 512) (disk s) (pa + 512) (512 * unat (offset + 1)) (512 * k)
    = from_image (bmem s) (disk s) pa (512 * unat offset) (512 * Suc k)"
    using from_image_join[of pa 512 "512 * k" "bmem s" "disk s" "512 * unat offset"] Suc.prems(2) o1 by (simp add: algebra_simps)
  moreover have "readseg_loop n pa e offset s = Returns () t" unfolding n(1) using lt r(1) q(1) by simp
  ultimately show ?case using q r(3,4) by simp
qed

lemma sector_base: "unat (pa AND NOT (SECTSIZE - 1)) = 512 * (unat pa div 512)"
proof -
  have "pa AND NOT (SECTSIZE - 1) = pa AND NOT (mask 9)" by (simp add: mask_eq_exp_minus_1)
  also have "\<dots> = push_bit 9 (drop_bit 9 pa)" by (rule bit_word_eqI) (auto simp: bit_simps)
  finally have "unat (pa AND NOT (SECTSIZE - 1)) = unat (push_bit 9 (drop_bit 9 pa))" by simp
  also have "\<dots> = 512 * (unat pa div 512)"
  proof -
    have "unat (drop_bit 9 pa) = unat pa div 512" by (simp add: unat_drop_bit_eq drop_bit_eq_div unat_div)
    moreover have "512 * (unat pa div 512) < 4294967296" using unat_u32_less[of pa] by linarith
    ultimately show ?thesis by (simp add: push_bit_eq_mult unat_word_ariths mult.commute)
  qed
  finally show ?thesis .
qed

lemma readseg_run:
  assumes s: "disk_ready s" "disk s = img" and al: "unat pa mod 512 = unat offset mod 512" and ov: "unat pa + unat count + 512 \<le> 2 ^ 32"
  shows "\<exists>t. readseg pa count offset s = Returns () t \<and> disk_ready t \<and> disk t = img \<and>
    (\<forall>i < unat count. bmem t (pa + of_nat i) = img (512 + unat offset + i)) \<and>
    (\<forall>x. \<not> (512 * (unat pa div 512) \<le> unat x \<and> unat x < 512 * ((unat pa + unat count + 511) div 512)) \<longrightarrow> bmem t x = bmem s x)"
proof -
  let ?b = "pa AND NOT (SECTSIZE - 1)" and ?o = "offset div SECTSIZE + 1" and ?e = "pa + count"
  define d k where "d = unat pa mod 512" and "k = (d + unat count + 511) div 512"
  have b: "unat ?b = 512 * (unat pa div 512)" "unat ?b + d = unat pa" using sector_base[of pa] by (simp_all add: d_def)
  have e: "unat ?e = unat pa + unat count" using ov by (simp add: unat_word_ariths)
  have k: "d + unat count \<le> 512 * k" "512 * k < d + unat count + 512"
    using mult_div_mod_eq[of 512 "d + unat count + 511"] mod_less_divisor[of 512 "d + unat count + 511"] unfolding k_def[symmetric] by linarith+
  have top: "512 * ((unat pa + unat count + 511) div 512) = unat ?b + 512 * k"
  proof -
    have "unat pa + unat count + 511 = 512 * (unat pa div 512) + (d + unat count + 511)" using b by simp
    then have "(unat pa + unat count + 511) div 512 = unat pa div 512 + k" unfolding k_def by (simp add: div_mult_self2)
    then show ?thesis using b(1) by simp
  qed
  have od: "unat (offset div SECTSIZE) = unat offset div 512" by (simp add: unat_div)
  have small: "unat offset div 512 \<le> 8388607" "k \<le> 8388608" using unat_u32_less[of offset] k b(2) ov[simplified] by linarith+
  have o1: "unat ?o = unat offset div 512 + 1" using unat_diff_add[of "offset div SECTSIZE" 1] od small by simp
  have "unat ?b + 512 * k < 2 ^ 32" "unat ?o + k \<le> 2 ^ 28" "k < 2 ^ 23 + 1" "unat ?e \<le> unat ?b + 512 * k"
    "0 < k \<longrightarrow> unat ?b + 512 * (k - 1) < unat ?e"
    using k b(2) e ov o1 small by (simp_all add: diff_mult_distrib2) linarith+
  from readseg_loop_run[OF s(1) this]
  obtain t where r: "readseg pa count offset s = Returns () t" "disk_ready t" "disk t = img"
    and bt: "bmem t = from_image (bmem s) img ?b (512 * unat ?o) (512 * k)"
    unfolding readseg_def Let_def s(2) by blast
  have "bmem t (pa + of_nat i) = img (512 + unat offset + i)" if "i < unat count" for i
  proof -
    have "unat (?b + of_nat d) = unat pa" using unat_diff_add[of ?b d] b(2) unat_u32_less[of pa] by simp
    then have "?b + of_nat d = pa" by (simp only: word_unat_eq_iff)
    then have "pa = ?b + of_nat d" by (rule sym)
    then have x: "pa + of_nat i - ?b = of_nat (d + i)" by (simp add: algebra_simps)
    have "d + i < 4294967296" using that b(2) ov[simplified] by linarith
    then have "unat (of_nat (d + i) :: u32) = d + i" using unat_diff_add[of 0 "d + i"] by simp
    then have y: "unat (pa + of_nat i - ?b) = d + i" by (simp only: x)
    have lt: "(d + i < 512 * k) = True" using that k(1) by simp
    have o2: "512 * unat ?o + (d + i) = 512 + unat offset + i" using o1 al by (simp add: d_def)
    show ?thesis by (simp only: bt from_image_def in_range_def y lt if_True o2)
  qed
  moreover have "bmem t x = bmem s x" if "\<not> (unat ?b \<le> unat x \<and> unat x < unat ?b + 512 * k)" for x
  proof -
    have "\<not> in_range ?b (512 * k) x"
    proof (cases "unat x < unat ?b")
      case True
      then show ?thesis using not_in_range_below[of x ?b "512 * k"] k b ov by simp
    next
      case False
      then have "unat (x - ?b) = unat x - unat ?b" by (simp add: unat_sub word_le_nat_alt)
      then show ?thesis using False that by (simp add: in_range_def)
    qed
    then show ?thesis by (simp add: bt from_image_def)
  qed
  ultimately show ?thesis using r unfolding top b(1)[symmetric] by blast
qed

section \<open>Loading the file\<close>

lemma read_cong:
  "(\<And>j. j < 4 \<Longrightarrow> m (a + of_nat j) = m' (a + of_nat j)) \<Longrightarrow> read32 m a = read32 m' a"
  "(\<And>j. j < 2 \<Longrightarrow> m (a + of_nat j) = m' (a + of_nat j)) \<Longrightarrow> read16 m a = read16 m' a"
proof -
  assume a: "\<And>j. j < 4 \<Longrightarrow> m (a + of_nat j) = m' (a + of_nat j)"
  show "read32 m a = read32 m' a" using a[of 0] a[of 1] a[of 2] a[of 3] by (simp add: read32_def)
next
  assume a: "\<And>j. j < 2 \<Longrightarrow> m (a + of_nat j) = m' (a + of_nat j)"
  show "read16 m a = read16 m' a" using a[of 0] a[of 1] by (simp add: read16_def)
qed

lemma proghdr_at_cong:
  assumes "\<And>j. j < 32 \<Longrightarrow> m (a + of_nat j) = m' (a + of_nat j)"
  shows "proghdr_at m a = proghdr_at m' a"
proof -
  have "read32 m (a + of_nat i) = read32 m' (a + of_nat i)" if "i \<le> 28" for i
    using assms[of "i + _"] that by (intro read_cong(1)) (simp add: add.assoc[symmetric])
  from this[of 0] this[of 4] this[of 8] this[of 12] this[of 16] this[of 20] this[of 24] this[of 28]
  show ?thesis by (simp add: proghdr_at_def)
qed

lemma elf_at_cong:
  assumes "\<And>j. j < 52 \<Longrightarrow> m (a + of_nat j) = m' (a + of_nat j)"
  shows "elf_at m a = elf_at m' a"
proof -
  have w: "read32 m (a + of_nat i) = read32 m' (a + of_nat i)" if "i \<le> 48" for i
    using assms[of "i + _"] that by (intro read_cong(1)) (simp add: add.assoc[symmetric])
  have h: "read16 m (a + of_nat i) = read16 m' (a + of_nat i)" if "i \<le> 50" for i
    using assms[of "i + _"] that by (intro read_cong(2)) (simp add: add.assoc[symmetric])
  have b: "map (\<lambda>i. m (a + 4 + of_nat i)) [0..<12] = map (\<lambda>i. m' (a + 4 + of_nat i)) [0..<12]"
    using assms[of "4 + _"] by (intro map_cong) (simp_all add: add.assoc[symmetric])
  from b w[of 0] w[of 20] w[of 24] w[of 28] w[of 32] w[of 36] h[of 16] h[of 18] h[of 40] h[of 42] h[of 44] h[of 46] h[of 48] h[of 50]
  show ?thesis by (simp add: elf_at_def)
qed

text \<open>The clearing loop, as long as the header is not part of what is cleared.\<close>

lemma zero_loop_run:
  assumes "proghdr_at (bmem s) ph = h" "unat i + c = unat (p_memsz h - p_filesz h)" "c < n"
    "\<forall>j < 32. \<forall>l < c. ph + of_nat j \<noteq> p_pa h + p_filesz h + i + of_nat l"
  shows "zero_loop n ph i s = Returns () (s\<lparr>bmem := fill (bmem s) (p_pa h + p_filesz h + i) 0 c\<rparr>)"
  using assms
proof (induction c arbitrary: i n s)
  case 0
  then obtain m where "n = Suc m" by (cases n) auto
  moreover have "\<not> i < p_memsz h - p_filesz h" using 0(2) by (simp add: word_less_nat_alt)
  ultimately show ?case using 0(1) by (simp add: fill_def in_range_def)
next
  case (Suc c)
  obtain m where n: "n = Suc m" "c < m" using Suc.prems(3) by (cases n) auto
  let ?a = "p_pa h + p_filesz h + i"
  let ?s = "s\<lparr>bmem := (bmem s)(?a := 0)\<rparr>"
  have lt: "i < p_memsz h - p_filesz h" using Suc.prems(2) by (simp add: word_less_nat_alt)
  have i1: "unat (i + 1) = unat i + 1" using unat_inc[OF lt] by simp
  have "proghdr_at (bmem ?s) ph = proghdr_at (bmem s) ph"
    using Suc.prems(4) by (intro proghdr_at_cong) force
  then have h: "proghdr_at (bmem ?s) ph = h" using Suc.prems(1) by simp
  have c1: "unat (i + 1) + c = unat (p_memsz h - p_filesz h)" using i1 Suc.prems(2) by simp
  have out: "\<forall>j < 32. \<forall>l < c. ph + of_nat j \<noteq> p_pa h + p_filesz h + (i + 1) + of_nat l"
  proof (intro allI impI)
    fix j l :: nat assume "j < 32" "l < c"
    with Suc.prems(4) have "ph + of_nat j \<noteq> ?a + of_nat (Suc l)" by blast
    then show "ph + of_nat j \<noteq> p_pa h + p_filesz h + (i + 1) + of_nat l" by (simp add: algebra_simps)
  qed
  have IH: "zero_loop m ph (i + 1) ?s = Returns () (?s\<lparr>bmem := fill (bmem ?s) (p_pa h + p_filesz h + (i + 1)) 0 c\<rparr>)"
    by (rule Suc.IH[OF h c1 n(2) out])
  have "c < 4294967296" using Suc.prems(2) unat_u32_less[of "p_memsz h - p_filesz h"] by linarith
  then have "fill (bmem s) ?a 0 (Suc c) = fill ((bmem s)(?a := 0)) (?a + 1) 0 c" by (intro fill_Suc) simp
  then have f: "fill (bmem ?s) (p_pa h + p_filesz h + (i + 1)) 0 c = fill (bmem s) ?a 0 (Suc c)" by (simp add: algebra_simps)
  have "zero_loop n ph i s = zero_loop m ph (i + 1) ?s" unfolding n(1) zero_loop.simps using lt Suc.prems(1) by simp
  then show ?case unfolding IH f by simp
qed

lemma seg_range_inside:
  assumes "seg_ok h" "i < unat (p_memsz h)"
  shows "seg_range h (p_pa h + of_nat i)"
proof -
  let ?n = "unat (p_memsz h)"
  have "unat (p_pa h + of_nat i) = unat (p_pa h) + i" using assms by (intro unat_diff_add) (simp add: seg_ok_def)
  moreover have "unat (p_pa h) + ?n \<le> 512 * ((unat (p_pa h) + ?n + 511) div 512)"
    using mult_div_mod_eq[of 512 "unat (p_pa h) + ?n + 511"] mod_less_divisor[of 512 "unat (p_pa h) + ?n + 511"] by linarith
  moreover have "512 * (unat (p_pa h) div 512) \<le> unat (p_pa h)" by simp
  ultimately show ?thesis using assms(2) unfolding seg_range_def by linarith
qed

lemma all_less_Suc_split: "(\<forall>i < Suc n. P i) \<longleftrightarrow> P 0 \<and> (\<forall>i < n. P (Suc i))"
  by (metis Suc_less_eq not0_implies_Suc zero_less_Suc)

lemma boot_segment_run:
  assumes s: "disk_ready s" "disk s = img" and h: "proghdr_at (bmem s) ph = h" "seg_ok h" and out: "\<forall>j < 32. \<not> seg_range h (ph + of_nat j)"
  shows "\<exists>t. boot_segment ph s = Returns () t \<and> disk_ready t \<and> disk t = img \<and> seg_loaded img (bmem t) h \<and>
    (\<forall>x. \<not> seg_range h x \<longrightarrow> bmem t x = bmem s x)"
proof -
  let ?f = "unat (p_filesz h)" and ?n = "unat (p_memsz h)" and ?z = "p_pa h + p_filesz h"
  have ok: "p_filesz h \<le> p_memsz h" "unat (p_pa h) mod 512 = unat (p_offset h) mod 512" "unat (p_pa h) + ?n + 512 \<le> 2 ^ 32"
    using h(2) by (auto simp: seg_ok_def)
  from readseg_run[OF s ok(2,3)]
  obtain t where t: "readseg (p_pa h) (p_memsz h) (p_offset h) s = Returns () t" "disk_ready t" "disk t = img"
    "\<forall>i < ?n. bmem t (p_pa h + of_nat i) = img (512 + unat (p_offset h) + i)" "\<forall>x. \<not> seg_range h x \<longrightarrow> bmem t x = bmem s x"
    unfolding seg_range_def by blast
  have c: "unat (p_memsz h - p_filesz h) = ?n - ?f" "?f \<le> ?n" using ok(1) by (simp_all add: unat_sub word_le_nat_alt)
  have inseg: "seg_range h (p_pa h + of_nat i)" if "i < ?n" for i by (rule seg_range_inside[OF h(2) that])
  have z: "?z + of_nat l = p_pa h + of_nat (?f + l)" for l by simp
  have "proghdr_at (bmem t) ph = proghdr_at (bmem s) ph" using out t(5) by (intro proghdr_at_cong) blast
  then have ht: "proghdr_at (bmem t) ph = h" using h(1) by simp
  have "\<forall>j < 32. \<forall>l < ?n - ?f. ph + of_nat j \<noteq> ?z + 0 + of_nat l"
  proof (intro allI impI notI)
    fix j l :: nat assume a: "j < 32" "l < ?n - ?f" "ph + of_nat j = ?z + 0 + of_nat l"
    then have "seg_range h (ph + of_nat j)" using inseg[of "?f + l"] z[of l] c(2) by simp
    with out a(1) show False by blast
  qed
  moreover have lt32: "?n - ?f < 2 ^ 32" using unat_u32_less[of "p_memsz h"] by (simp add: less_imp_diff_less)
  ultimately have zr: "zero_loop (2 ^ 32) ph 0 t = Returns () (t\<lparr>bmem := fill (bmem t) (?z + 0) 0 (?n - ?f)\<rparr>)"
    using c lt32 by (intro zero_loop_run[OF ht _ lt32]) auto
  let ?t = "t\<lparr>bmem := fill (bmem t) (?z + 0) 0 (?n - ?f)\<rparr>"
  have run: "boot_segment ph s = Returns () ?t"
    by (simp only: boot_segment_def kbind_Returns[of "kget (\<lambda>s. proghdr_at (bmem s) ph)", OF kget_apply] h(1) kseq_Returns t(1) zr)
  have fl: "in_range (?z + 0) (?n - ?f) (p_pa h + of_nat i) \<longleftrightarrow> ?f \<le> i" if "i < ?n" for i
  proof (cases "?f \<le> i")
    case True
    have "p_pa h + of_nat i - (?z + 0) = of_nat (i - ?f)" using True by (simp add: of_nat_diff)
    moreover have "unat (of_nat (i - ?f) :: u32) = i - ?f" using that ok(3) unat_diff_add[of 0 "i - ?f"] by simp
    ultimately show ?thesis using True that by (simp add: in_range_def)
  next
    case False
    have a: "unat (p_pa h + of_nat i) = unat (p_pa h) + i" "unat (p_pa h + of_nat ?f) = unat (p_pa h) + ?f"
      using that c(2) ok(3) by (intro unat_diff_add; simp)+
    then have "\<not> in_range (?z + 0) (?n - ?f) (p_pa h + of_nat i)"
      using False c(2) ok(3) by (intro not_in_range_below) auto
    with False show ?thesis by simp
  qed
  have "seg_loaded img (bmem ?t) h"
    unfolding seg_loaded_def using t(4) fl by (auto simp: fill_def)
  moreover have "bmem ?t x = bmem s x" if "\<not> seg_range h x" for x
  proof -
    have "\<not> in_range ?z (?n - ?f) x"
    proof
      assume a: "in_range ?z (?n - ?f) x"
      have "x = p_pa h + of_nat (?f + unat (x - ?z))" by simp
      moreover have "?f + unat (x - ?z) < ?n" using a by (simp add: in_range_def)
      ultimately show False using inseg that by metis
    qed
    then show ?thesis using t(5) that by (simp add: fill_def)
  qed
  ultimately show ?thesis using run t(2,3) by (intro exI[of _ ?t]) (simp add: disk_ready_def)
qed

text \<open>
  The loop over the program headers. The headers lie in the page read first, which no segment touches, and the segments do not
  touch each other.
\<close>

lemma boot_segments_run:
  assumes "disk_ready s" "disk s = img" "\<forall>i < n. proghdr_at (bmem s) (ph + 32 * of_nat i) = hs i \<and> seg_ok (hs i) \<and>
      (\<forall>k < n. \<forall>j < 32. \<not> seg_range (hs i) (ph + 32 * of_nat k + of_nat j)) \<and> (\<forall>k < i. \<forall>x. \<not> (seg_range (hs i) x \<and> seg_range (hs k) x))"
    "eph = ph + 32 * of_nat n" "unat ph + 32 * n < 2 ^ 32"
  shows "\<exists>t. boot_segments n ph eph s = Returns () t \<and> disk_ready t \<and> disk t = img \<and> (\<forall>i < n. seg_loaded img (bmem t) (hs i)) \<and>
    (\<forall>x. (\<forall>i < n. \<not> seg_range (hs i) x) \<longrightarrow> bmem t x = bmem s x)"
  using assms
proof (induction n arbitrary: s ph hs)
  case 0
  then show ?case by simp
next
  case (Suc n)
  have u: "unat (ph + 32 * of_nat (Suc n)) = unat ph + 32 * Suc n"
    using unat_diff_add[of ph "32 * Suc n"] Suc.prems(5) by simp
  have lt: "ph < eph" unfolding Suc.prems(4) using u by (simp only: word_less_nat_alt) simp
  have h0: "proghdr_at (bmem s) ph = hs 0" "seg_ok (hs 0)" "\<forall>j < 32. \<not> seg_range (hs 0) (ph + of_nat j)"
    using Suc.prems(3)[rule_format, of 0] by auto
  obtain t where t: "boot_segment ph s = Returns () t" "disk_ready t" "disk t = img" "seg_loaded img (bmem t) (hs 0)"
    "\<forall>x. \<not> seg_range (hs 0) x \<longrightarrow> bmem t x = bmem s x"
    using boot_segment_run[OF Suc.prems(1,2) h0] by blast
  let ?hs = "\<lambda>i. hs (Suc i)"
  have step: "ph + 32 * of_nat (Suc i) = ph + 32 + 32 * of_nat i" for i :: nat by (simp add: algebra_simps)
  have hdr: "\<forall>i < n. proghdr_at (bmem t) (ph + 32 + 32 * of_nat i) = ?hs i \<and> seg_ok (?hs i) \<and>
      (\<forall>k < n. \<forall>j < 32. \<not> seg_range (?hs i) (ph + 32 + 32 * of_nat k + of_nat j)) \<and> (\<forall>k < i. \<forall>x. \<not> (seg_range (?hs i) x \<and> seg_range (?hs k) x))"
  proof (intro allI impI)
    fix i assume i: "i < n"
    note p = Suc.prems(3)[rule_format, of "Suc i", unfolded step]
    have "\<forall>j < 32. \<not> seg_range (hs 0) (ph + 32 + 32 * of_nat i + of_nat j)"
      using Suc.prems(3)[rule_format, of 0] i step[of i] by (metis Suc_less_eq zero_less_Suc)
    then have "proghdr_at (bmem t) (ph + 32 + 32 * of_nat i) = proghdr_at (bmem s) (ph + 32 + 32 * of_nat i)"
      using t(5) by (intro proghdr_at_cong) blast
    moreover have "\<forall>k < n. \<forall>j < 32. \<not> seg_range (?hs i) (ph + 32 + 32 * of_nat k + of_nat j)"
      using p i step by (metis Suc_less_eq)
    ultimately show "proghdr_at (bmem t) (ph + 32 + 32 * of_nat i) = ?hs i \<and> seg_ok (?hs i) \<and>
      (\<forall>k < n. \<forall>j < 32. \<not> seg_range (?hs i) (ph + 32 + 32 * of_nat k + of_nat j)) \<and> (\<forall>k < i. \<forall>x. \<not> (seg_range (?hs i) x \<and> seg_range (?hs k) x))"
      using p i by auto
  qed
  have "unat (ph + 32) = unat ph + 32" using unat_diff_add[of ph 32] Suc.prems(5) by simp
  then have e: "eph = ph + 32 + 32 * of_nat n" "unat (ph + 32) + 32 * n < 2 ^ 32" using Suc.prems(4,5) step[of n] by simp_all
  obtain v where v: "boot_segments n (ph + 32) eph t = Returns () v" "disk_ready v" "disk v = img"
    "\<forall>i < n. seg_loaded img (bmem v) (?hs i)" "\<forall>x. (\<forall>i < n. \<not> seg_range (?hs i) x) \<longrightarrow> bmem v x = bmem t x"
    using Suc.IH[OF t(2,3) hdr e] by blast
  have run: "boot_segments (Suc n) ph eph s = Returns () v" using lt t(1) v(1) by simp
  have "seg_loaded img (bmem v) (hs 0)"
  proof -
    have "bmem v (p_pa (hs 0) + of_nat j) = bmem t (p_pa (hs 0) + of_nat j)" if "j < unat (p_memsz (hs 0))" for j
    proof -
      have "seg_range (hs 0) (p_pa (hs 0) + of_nat j)" by (rule seg_range_inside[OF h0(2) that])
      moreover have "\<not> (seg_range (?hs i) x \<and> seg_range (hs 0) x)" if "i < n" for i x
        using Suc.prems(3)[rule_format, of "Suc i"] that by blast
      ultimately show ?thesis using v(5) by blast
    qed
    then show ?thesis using t(4) by (simp add: seg_loaded_def)
  qed
  then have "\<forall>i < Suc n. seg_loaded img (bmem v) (hs i)" using v(4) by (simp add: all_less_Suc_split)
  moreover have "\<forall>x. (\<forall>i < Suc n. \<not> seg_range (hs i) x) \<longrightarrow> bmem v x = bmem s x"
    using v(5) t(5) by (metis Suc_less_eq zero_less_Suc)
  ultimately show ?case using run v(2,3) by blast
qed

lemma hdr_page:
  assumes "unat o1 + j < 4096"
  shows "unat (ELFHDR + o1 + of_nat j - ELFHDR) = unat o1 + j" "in_range ELFHDR 4096 (ELFHDR + o1 + of_nat j)"
proof -
  have "unat (o1 + of_nat j) = unat o1 + j" using assms by (intro unat_diff_add) simp
  then show "unat (ELFHDR + o1 + of_nat j - ELFHDR) = unat o1 + j" by simp
  then show "in_range ELFHDR 4096 (ELFHDR + o1 + of_nat j)" using assms by (simp only: in_range_def)
qed

text \<open>
  C17: The boot loader loads the kernel: when the disk becomes ready, ends every command, and holds an ELF file whose program headers lie in its first page and whose segments fall
  neither on each other's sectors nor on the page at \<open>ELFHDR\<close>, \<open>bootmain\<close> leaves every segment in memory at its
  physical address, the bytes of the file followed by zeroes up to the size in memory, and jumps to the entry point.
\<close>

theorem bootmain_loads_kernel:
  assumes "disk_ready s" "disk s = img" "e_magic (file_elf img) = ELF_MAGIC"
    and off: "unat (e_phoff (file_elf img)) + 32 * unat (e_phnum (file_elf img)) \<le> 4096"
    and segs: "\<forall>i < unat (e_phnum (file_elf img)). seg_ok (file_segment img i) \<and>
      (\<forall>x. in_range ELFHDR 4096 x \<longrightarrow> \<not> seg_range (file_segment img i) x) \<and>
      (\<forall>k < i. \<forall>x. \<not> (seg_range (file_segment img i) x \<and> seg_range (file_segment img k) x))"
  shows "\<exists>t. bootmain s = Returns (e_entry (file_elf img)) t \<and>
    (\<forall>i < unat (e_phnum (file_elf img)). seg_loaded img (bmem t) (file_segment img i))"
proof -
  let ?E = "file_elf img" and ?n = "unat (e_phnum (file_elf img))"
  let ?ph = "ELFHDR + e_phoff ?E"
  have c: "unat (SECTSIZE * 8) = 4096" "unat ELFHDR = 65536" by simp_all
  from readseg_run[OF assms(1,2), of ELFHDR 0 "SECTSIZE * 8"]
  obtain t where t: "readseg ELFHDR (SECTSIZE * 8) 0 s = Returns () t" "disk_ready t" "disk t = img"
    "\<forall>i < 4096. bmem t (ELFHDR + of_nat i) = img (512 + i)"
    unfolding c by auto
  have pg: "bmem t (ELFHDR + o1 + of_nat j) = file_at_hdr img (ELFHDR + o1 + of_nat j)" if "unat o1 + j < 4096" for o1 j
  proof -
    have "ELFHDR + o1 + of_nat j = ELFHDR + of_nat (unat o1 + j)" by simp
    then show ?thesis using t(4) that hdr_page(1)[OF that] by (simp only: file_at_hdr_def)
  qed
  have elf: "elf_at m ELFHDR = ?E" if "\<And>x. in_range ELFHDR 4096 x \<Longrightarrow> m x = bmem t x" for m
    unfolding file_elf_def
  proof (rule elf_at_cong)
    fix j :: nat assume "j < 52"
    then have j: "unat (0 :: u32) + j < 4096" by simp
    show "m (ELFHDR + of_nat j) = file_at_hdr img (ELFHDR + of_nat j)"
      using pg[OF j] hdr_page(2)[OF j] that by simp
  qed
  have in_hdr: "unat (e_phoff ?E) + (32 * i + j) < 4096" if "i < ?n" "j < 32" for i j
    using that off by linarith
  have sh: "?ph + 32 * of_nat i + of_nat j = ?ph + of_nat (32 * i + j)" for i j :: nat by simp
  have ph: "proghdr_at (bmem t) (?ph + 32 * of_nat i) = file_segment img i" if "i < ?n" for i
    unfolding file_segment_def by (rule proghdr_at_cong) (simp only: sh pg[OF in_hdr[OF that]])
  have hs: "\<forall>i < ?n. proghdr_at (bmem t) (?ph + 32 * of_nat i) = file_segment img i \<and> seg_ok (file_segment img i) \<and>
      (\<forall>k < ?n. \<forall>j < 32. \<not> seg_range (file_segment img i) (?ph + 32 * of_nat k + of_nat j)) \<and>
      (\<forall>k < i. \<forall>x. \<not> (seg_range (file_segment img i) x \<and> seg_range (file_segment img k) x))"
    using ph segs hdr_page(2)[OF in_hdr] by (simp only: sh) blast
  have "unat ?ph = 65536 + unat (e_phoff ?E)" using off by (simp add: unat_word_ariths)
  then have "unat ?ph + 32 * ?n < 2 ^ 32" using off by simp
  from boot_segments_run[OF t(2,3) hs refl this]
  obtain u where u: "boot_segments ?n ?ph (?ph + 32 * of_nat ?n) t = Returns () u" "\<forall>i < ?n. seg_loaded img (bmem u) (file_segment img i)"
    "\<forall>x. (\<forall>i < ?n. \<not> seg_range (file_segment img i) x) \<longrightarrow> bmem u x = bmem t x" by blast
  have e1: "elf_at (bmem t) ELFHDR = ?E" by (rule elf) simp
  have e2: "elf_at (bmem u) ELFHDR = ?E" by (rule elf) (use u(3) segs in blast)
  have n: "(of_nat ?n :: u32) = ucast (e_phnum ?E)" by simp
  have g1: "kget (\<lambda>s. elf_at (bmem s) ELFHDR) t = Returns ?E t" "kget (\<lambda>s. e_entry (elf_at (bmem s) ELFHDR)) u = Returns (e_entry ?E) u"
    using e1 e2 by simp_all
  have "bootmain s = Returns (e_entry ?E) u"
    unfolding bootmain_def by (simp only: kseq_Returns kbind_Returns t(1) g1 assms(3) Let_def u(1)[unfolded n] simp_thms if_False)
  with u(2) show ?thesis by blast
qed

lemma boot_machine_disk: "disk_ready boot_machine" "disk boot_machine = sample_disk"
  by (simp_all add: disk_ready_def boot_machine_def)

lemma sample_elf:
  "e_magic (file_elf sample_disk) = ELF_MAGIC" "e_phoff (file_elf sample_disk) = 52" "e_phnum (file_elf sample_disk) = 1"
  "e_entry (file_elf sample_disk) = 0x10000C"
  by (simp_all add: file_elf_def elf_at_def file_at_hdr_def read32_def read16_def sample_disk_def)

lemma sample_segment:
  "p_pa (file_segment sample_disk 0) = 0x100000" "p_memsz (file_segment sample_disk 0) = 4" "p_filesz (file_segment sample_disk 0) = 2"
  "p_offset (file_segment sample_disk 0) = 0x1000" "sample_disk 4609 = 0x31"
  by (simp_all add: file_segment_def sample_elf proghdr_at_def file_at_hdr_def read32_def sample_disk_def)

theorem bootmain_loads_kernel_witness:
  "\<exists>t. bootmain boot_machine = Returns 0x10000C t \<and> bmem t 0x100001 = 0x31 \<and> bmem t 0x100002 = 0"
proof -
  let ?h = "file_segment sample_disk 0"
  have r: "seg_range ?h x \<longleftrightarrow> 0x100000 \<le> unat x \<and> unat x < 0x100200" for x
    by (simp add: seg_range_def sample_segment)
  have hdr: "\<not> seg_range ?h x" if "in_range ELFHDR 4096 x" for x
  proof -
    have "unat (x - ELFHDR) < 4096" using that by (simp only: in_range_def)
    moreover have "unat (ELFHDR + of_nat (unat (x - ELFHDR))) = unat ELFHDR + unat (x - ELFHDR)"
      using calculation by (intro unat_diff_add) simp
    then have "unat x = 65536 + unat (x - ELFHDR)" by simp
    ultimately show ?thesis unfolding r by linarith
  qed
  have ok: "seg_ok ?h" by (simp add: seg_ok_def sample_segment)
  from bootmain_loads_kernel[OF boot_machine_disk sample_elf(1)] ok hdr sample_elf(2-4)
  obtain t where "bootmain boot_machine = Returns 0x10000C t" "seg_loaded sample_disk (bmem t) ?h" by auto
  moreover from this(2)[unfolded seg_loaded_def, rule_format, of 1] this(2)[unfolded seg_loaded_def, rule_format, of 2]
  have "bmem t (p_pa ?h + of_nat 1) = sample_disk (512 + unat (p_offset ?h) + 1)" "bmem t (p_pa ?h + of_nat 2) = 0"
    by (simp_all add: sample_segment)
  ultimately show ?thesis by (simp add: sample_segment)
qed

end
