(* ===== verification/User_Space.thy ===== *)
theory User_Space
  imports Envs
begin

text \<open>
  The user part of an address space, from \<^verbatim>\<open>kern/pmap.c\<close> and \<^verbatim>\<open>kern/env.c\<close>: the invariant \<open>user_space\<close> of the pages
  mapped below \<open>UTOP\<close>, the effect of \<open>region_alloc\<close> on it, stores through the page tables (\<open>vmemcpy\<close>, \<open>vmemset\<close>) seen as changes of
  the bytes user code reads, and the regions that \<open>boot_map_region\<close> maps. Both loops keep count of the free pages, so that no
  allocation in them fails.
\<close>

section \<open>The user part of an address space\<close>

text \<open>The pages mapped below \<open>UTOP\<close>.\<close>

definition data_pages :: "kstate \<Rightarrow> u32 \<Rightarrow> nat set" where
  "data_pages s pgdir = {pg. \<exists>va < UTOP. mapped_page s pgdir va = Some pg}"

text \<open>The directory of a space and the tables that map its user part; tables for addresses above may be shared by all spaces.\<close>

definition user_tables :: "kstate \<Rightarrow> u32 \<Rightarrow> nat set" where
  "user_tables s pgdir = insert (dir_page pgdir) (table_page s pgdir ` {d. d < unat (PDX UTOP) \<and> table_present s pgdir d})"

text \<open>The pages that change hands or contents while an environment is set up.\<close>

definition footprint :: "kstate \<Rightarrow> nat list \<Rightarrow> u32 \<Rightarrow> nat set" where
  "footprint s xs pgdir = user_tables s pgdir \<union> set xs \<union> data_pages s pgdir"

text \<open>The pages of the user part: those mapped below \<open>UTOP\<close> and the tables that map them.\<close>

definition user_pages :: "kstate \<Rightarrow> u32 \<Rightarrow> nat set" where
  "user_pages s pgdir = data_pages s pgdir \<union> table_page s pgdir ` {d. d < unat (PDX UTOP) \<and> table_present s pgdir d}"

text \<open>
  A user address space: the directory is well formed, every page mapped below \<open>UTOP\<close> is counted, is no page table of
  the space, and is mapped at one address only.
\<close>

definition user_space :: "kstate \<Rightarrow> nat list \<Rightarrow> u32 \<Rightarrow> bool" where
  "user_space s xs pgdir \<longleftrightarrow> page_inv s xs \<and> wf_pgdir s xs pgdir \<and> curenv_ok s \<and>
     (\<forall>pg \<in> data_pages s pgdir. good_page s pgdir pg) \<and>
     (\<forall>va va' pg. va < UTOP \<longrightarrow> va' < UTOP \<longrightarrow> mapped_page s pgdir va = Some pg \<longrightarrow>
        mapped_page s pgdir va' = Some pg \<longrightarrow> PGNUM va = PGNUM va')"

text \<open>No other address space shares the user pages, the tables that map them or the directory.\<close>

definition owned :: "kstate \<Rightarrow> u32 \<Rightarrow> bool" where
  "owned s pgdir \<longleftrightarrow> (\<forall>pg \<in> data_pages s pgdir. pp_ref (pages s ! pg) = 1) \<and>
     (\<forall>d < unat (PDX UTOP). table_present s pgdir d \<longrightarrow> pp_ref (pages s ! table_page s pgdir d) = 1) \<and>
     pp_ref (pages s ! dir_page pgdir) = 1"

text \<open>
  The space has taken pages from the allocator only, none of them got lost, and nothing outside of both has changed.
\<close>

definition grows :: "u32 \<Rightarrow> kstate \<Rightarrow> nat list \<Rightarrow> kstate \<Rightarrow> nat list \<Rightarrow> bool" where
  "grows pgdir s xs t ys \<longleftrightarrow> user_space t ys pgdir \<and> pages_only s t \<and>
     footprint t ys pgdir \<subseteq> footprint s xs pgdir \<and> mem_outside (footprint s xs pgdir) s t \<and>
     (owned s pgdir \<longrightarrow> owned t pgdir) \<and> set ys \<union> user_pages t pgdir = set xs \<union> user_pages s pgdir"

text \<open>The byte that user code reads at an address, if a page is mapped there.\<close>

definition user_byte :: "kstate \<Rightarrow> u32 \<Rightarrow> u32 \<Rightarrow> u8 option" where
  "user_byte s pgdir va = map_option (\<lambda>pte. pmem s (PTE_ADDR pte OR PGOFF va)) (mapped s pgdir va)"

text \<open>Addresses that a store reaches, and the numbers of the pages that \<open>n\<close> bytes at \<open>a\<close> lie in.\<close>

definition writable :: "kstate \<Rightarrow> u32 \<Rightarrow> u32 \<Rightarrow> bool" where
  "writable s pgdir va \<longleftrightarrow> (case mapped s pgdir va of
     None \<Rightarrow> False | Some pte \<Rightarrow> pte AND (PTE_W OR PTE_U) = PTE_W OR PTE_U)"

definition region_pages :: "nat \<Rightarrow> nat \<Rightarrow> nat list" where
  "region_pages a n = [a div 4096..<(a + n + 4095) div 4096]"

declare UTOP_def [simp del] KERNBASE_def [simp del]

section \<open>Mapping a region at boot\<close>

text \<open>The directory entries that a region of \<open>n\<close> pages needs and that have no table yet.\<close>

definition tables_missing :: "kstate \<Rightarrow> u32 \<Rightarrow> u32 \<Rightarrow> nat \<Rightarrow> nat set" where
  "tables_missing s pgdir va n = {d. (\<exists>i < n. d = unat (PDX (va + of_nat i * PGSIZE))) \<and> \<not> table_present s pgdir d}"

lemma user_PDX: "va < UTOP \<Longrightarrow> unat (PDX va) < 955"
proof -
  assume "va < UTOP"
  then have "unat va < unat UTOP" by (rule word_less_nat_alt[THEN iffD1])
  also have "unat UTOP = 955 * 4194304" by (simp add: UTOP_def KERNBASE_def)
  finally have "unat va div 4194304 < 955" by (simp only: less_mult_imp_div_less)
  then show ?thesis unfolding unat_PDX .
qed

lemma PDX_UTOP: "unat (PDX UTOP) = 955"
  by (simp add: unat_PDX UTOP_def KERNBASE_def)

lemma user_tables_sub: "user_tables s pgdir \<subseteq> as_pages s pgdir"
  by (auto simp: user_tables_def as_pages_def)

lemma walk_pages_user: "va < UTOP \<Longrightarrow> walk_pages s pgdir va \<subseteq> user_tables s pgdir"
  using user_PDX[of va] PDX_UTOP by (auto simp: walk_pages_def user_tables_def)

lemma UTOP_page: "va < UTOP \<longleftrightarrow> unat (PGNUM va) < 977920"
proof -
  have "unat UTOP = 977920 * 4096" by (simp add: UTOP_def KERNBASE_def)
  then show ?thesis by (simp only: word_less_nat_alt unat_PGNUM div_less_iff_less_mult[of 4096, simplified])
qed

lemma user_ordinary: "va < UTOP \<Longrightarrow> ordinary va"
  using user_PDX[of va] by (simp add: ordinary_def)

lemma user_spaceD:
  assumes "user_space s xs pgdir"
  shows "page_inv s xs" and "wf_pgdir s xs pgdir" and "curenv_ok s"
    and "va < UTOP \<Longrightarrow> mapped_page s pgdir va = Some pg \<Longrightarrow> good_page s pgdir pg"
    and "va < UTOP \<Longrightarrow> va' < UTOP \<Longrightarrow> mapped_page s pgdir va = Some pg \<Longrightarrow>
      mapped_page s pgdir va' = Some pg \<Longrightarrow> PGNUM va = PGNUM va'"
  using assms unfolding user_space_def data_pages_def by blast+

lemma user_page:
  assumes "user_space s xs pgdir" "va < UTOP" "mapped_page s pgdir va = Some pg"
  shows "pg < length (pages s)" and "pg \<notin> set xs" and "pg \<notin> as_pages s pgdir" and "pp_ref (pages s ! pg) \<noteq> 0"
proof -
  have "good_page s pgdir pg" using assms by (rule user_spaceD(4))
  then show "pg < length (pages s)" "pg \<notin> as_pages s pgdir" "pp_ref (pages s ! pg) \<noteq> 0"
    by (simp_all add: good_page_def)
  then show "pg \<notin> set xs" using page_inv_bounds(5)[OF user_spaceD(1)[OF assms(1)], of pg] by auto
qed

text \<open>An address space depends on memory and on the page allocator only.\<close>

lemma memory_cong:
  assumes "pmem t = pmem s" "pages t = pages s"
  shows "data_pages t pgdir = data_pages s pgdir" and "user_pages t pgdir = user_pages s pgdir" and "as_pages t pgdir = as_pages s pgdir"
    and "owned t pgdir = owned s pgdir"
proof -
  have m: "mapped_page t pgdir va = mapped_page s pgdir va" for va by (simp add: mapped_page_def mapped_cong[OF assms(1)])
  have p: "table_present t pgdir d = table_present s pgdir d" "table_page t pgdir d = table_page s pgdir d" for d
    by (simp_all add: table_present_def table_page_def pde_of_cong[OF assms(1)])
  show d: "data_pages t pgdir = data_pages s pgdir" by (simp add: data_pages_def m)
  show "user_pages t pgdir = user_pages s pgdir" by (simp add: user_pages_def d p)
  show "as_pages t pgdir = as_pages s pgdir" by (simp add: as_pages_def p)
  show "owned t pgdir = owned s pgdir" by (simp add: owned_def d p assms(2))
qed

lemma user_tables_cong: "pmem t = pmem s \<Longrightarrow> user_tables t pgdir = user_tables s pgdir"
  unfolding user_tables_def table_present_def table_page_def by (simp only: pde_of_cong[of t s])

lemma user_space_cong:
  assumes "user_space s xs pgdir" "pmem t = pmem s" "pages t = pages s" "page_free_list t = page_free_list s" "npages t = npages s" "curenv_ok t"
  shows "user_space t xs pgdir"
proof -
  have m: "mapped_page t pgdir va = mapped_page s pgdir va" for va by (simp add: mapped_page_def mapped_cong[OF assms(2)])
  have p: "table_present t pgdir d = table_present s pgdir d" "table_page t pgdir d = table_page s pgdir d" "pde_of t pgdir d = pde_of s pgdir d" for d
    by (simp_all add: table_present_def table_page_def pde_of_cong[OF assms(2)])
  have w: "wf_pgdir t xs pgdir = wf_pgdir s xs pgdir" unfolding wf_pgdir_def p assms(3) ..
  have g: "good_page t pgdir pg = good_page s pgdir pg" for pg unfolding good_page_def assms(3) memory_cong(3)[OF assms(2,3)] ..
  show ?thesis using assms(1,6) unfolding user_space_def page_inv_cong[OF assms(3-5)] w m g memory_cong(1)[OF assms(2,3)] by (elim conjE) (intro conjI)
qed

lemma grows_trans:
  assumes "grows pgdir s xs t ys" "grows pgdir t ys u zs"
  shows "grows pgdir s xs u zs"
proof -
  have "mem_outside (footprint s xs pgdir) t u"
    using assms by (auto simp: grows_def intro: mem_outside_mono)
  then show ?thesis using assms pages_only_trans[of s t u] mem_outside_trans[of "footprint s xs pgdir" s t u]
    unfolding grows_def by blast
qed

lemma grows_refl: "user_space s xs pgdir \<Longrightarrow> grows pgdir s xs s xs"
  by (simp add: grows_def)

lemma PGNUM_frame: "PGNUM (PTE_ADDR pte OR PGOFF va) = PGNUM pte"
proof -
  have "PGOFF va < 4096" using unat_PGOFF[of va] by (simp add: word_less_nat_alt)
  then have "PTE_ADDR (PTE_ADDR pte OR PGOFF va) = PTE_ADDR pte" by (intro PTE_ADDR_or(1)) simp_all
  then show ?thesis by (metis PGNUM_PTE_ADDR)
qed

lemma frame_inj:
  assumes "PTE_ADDR p OR PGOFF va = PTE_ADDR q OR PGOFF va'"
  shows "PGNUM p = PGNUM q" and "PGOFF va = PGOFF va'"
proof -
  have o: "PGOFF a < 4096" for a using unat_PGOFF[of a] by (simp add: word_less_nat_alt)
  show "PGNUM p = PGNUM q" using arg_cong[OF assms, of PGNUM] by (simp add: PGNUM_frame)
  have "PGOFF (PTE_ADDR p OR PGOFF va) = PGOFF va" "PGOFF (PTE_ADDR q OR PGOFF va') = PGOFF va'"
    using PTE_ADDR_or(2)[of "PTE_ADDR p" "PGOFF va"] PTE_ADDR_or(2)[of "PTE_ADDR q" "PGOFF va'"] o by simp_all
  then show "PGOFF va = PGOFF va'" using assms by simp
qed

lemma addr_parts: "PGNUM a = PGNUM b \<Longrightarrow> PGOFF a = PGOFF b \<Longrightarrow> a = b"
  by (metis mult_div_mod_eq unat_PGNUM unat_PGOFF word_unat_eq_iff)

lemma user_byte_outside:
  assumes "mem_outside P s t" "mapped t pgdir va = mapped s pgdir va"
    "\<And>pg. mapped_page s pgdir va = Some pg \<Longrightarrow> pg \<notin> P"
  shows "user_byte t pgdir va = user_byte s pgdir va"
  using assms by (cases "mapped s pgdir va") (auto simp: user_byte_def mapped_page_def mem_outside_def PGNUM_frame)

section \<open>Allocating a region\<close>

lemma after_alloc_space:
  assumes "user_space s (x # xs) pgdir"
  defines "s1 \<equiv> after_alloc s x 0"
  shows "page_inv s1 xs" and "wf_pgdir s1 xs pgdir" and "curenv_ok s1" and "pages_only s s1"
    and "pmem s1 = pmem s" and "as_pages s1 pgdir = as_pages s pgdir"
    and "pp_ref (pages s1 ! i) = pp_ref (pages s ! i)"
proof -
  note u = user_spaceD[OF assms(1)]
  have x: "x < length (pages s)" using page_inv_head[OF u(1)] by simp
  show i: "page_inv s1 xs" unfolding s1_def by (rule page_inv_after_alloc[OF u(1)])
  show po: "pages_only s s1" by (simp add: s1_def after_alloc_def pages_only_def unpaged_def)
  show m: "pmem s1 = pmem s" by (simp add: s1_def after_alloc_def)
  show "wf_pgdir s1 xs pgdir" using wf_pgdirD[OF u(2)] pages_only_fields(9)[OF po]
    by (intro wf_pgdir_cong[OF u(2)] pde_of_cong m) auto
  show "curenv_ok s1" using u(3) pages_only_current(3)[OF po] by simp
  show "as_pages s1 pgdir = as_pages s pgdir" by (rule present_cong(2)) (rule pde_of_cong[OF m])
  show "pp_ref (pages s1 ! i) = pp_ref (pages s ! i)" using x
    by (cases "i = x") (simp_all add: s1_def after_alloc_def)
qed

lemma region_flags:
  assumes "x < 65536"
  shows "PGNUM (page2pa x OR (PTE_W OR PTE_U) OR PTE_P) = of_nat x" "unat (PGNUM (page2pa x OR (PTE_W OR PTE_U) OR PTE_P)) = x"
    and "(page2pa x OR (PTE_W OR PTE_U) OR PTE_P) AND (PTE_W OR PTE_U) = PTE_W OR PTE_U"
proof -
  let ?p = "page2pa x OR (PTE_W OR PTE_U) OR PTE_P"
  have e: "?p = page2pa x OR 7" by (simp add: or.assoc)
  have f: "(7 :: u32) < 4096" by simp
  show "PGNUM ?p = of_nat x" unfolding e by (rule page_flags(2)[OF assms f])
  then show "unat (PGNUM ?p) = x" using assms by (simp add: unat_of_nat)
  have "PGOFF (page2pa x OR 7) AND 6 = 6" unfolding page_flags(3)[OF assms f] by simp
  moreover have "(0xFFF :: u32) AND 6 = 6" by simp
  ultimately have "(page2pa x OR 7) AND 6 = 6" unfolding PGOFF_def and.assoc by simp
  then show "?p AND (PTE_W OR PTE_U) = PTE_W OR PTE_U" unfolding e by simp
qed

lemma inserted_space:
  assumes us: "user_space s (x # xs) pgdir" and va: "va < UTOP" and um: "mapped s pgdir va = None"
    and t: "inserted (after_alloc s x 0) xs pgdir x va (PTE_W OR PTE_U) t ys"
  shows "user_space t ys pgdir"
    and "ordinary va' \<Longrightarrow> mapped t pgdir va' = (if PGNUM va' = PGNUM va
      then Some (page2pa x OR (PTE_W OR PTE_U) OR PTE_P) else mapped s pgdir va')"
    and "va' < UTOP \<Longrightarrow> mapped_page t pgdir va' = (if PGNUM va' = PGNUM va then Some x else mapped_page s pgdir va')"
    and "pages_only s t"
    and "i < length (pages s) \<Longrightarrow> i \<notin> set xs \<Longrightarrow> pp_ref (pages t ! i) = (if i = x then 1 else pp_ref (pages s ! i))"
    and "as_pages t pgdir \<subseteq> as_pages s pgdir \<union> set xs" and "mem_outside (user_tables s pgdir \<union> set xs) s t"
    and "set ys \<subseteq> set xs"
proof -
  define s1 where "s1 = after_alloc s x 0"
  note a = after_alloc_space[OF us, folded s1_def] and t' = t[folded s1_def]
  note h = page_inv_head[OF user_spaceD(1)[OF us]]
  show po: "pages_only s t" using t' a(4) pages_only_trans[of s s1 t] by (simp add: inserted_def)
  have len: "length (pages s1) = length (pages s)" "length (pages t) = length (pages s)"
    using a(4) po by (simp_all add: pages_only_def)
  show m: "mapped t pgdir va' = (if PGNUM va' = PGNUM va
      then Some (page2pa x OR (PTE_W OR PTE_U) OR PTE_P) else mapped s pgdir va')" if "ordinary va'" for va'
    using t' that by (simp only: inserted_def mapped_cong[OF a(5)])
  show mp: "mapped_page t pgdir va' = (if PGNUM va' = PGNUM va then Some x else mapped_page s pgdir va')"
    if "va' < UTOP" for va'
    using m[OF user_ordinary[OF that]] region_flags(2)[OF h(1)] by (simp only: mapped_page_def split: if_split) simp
  have um1: "mapped_page s1 pgdir va = None" using um by (simp add: mapped_page_def mapped_cong[OF a(5)])
  show ref: "pp_ref (pages t ! i) = (if i = x then 1 else pp_ref (pages s ! i))"
    if "i < length (pages s)" "i \<notin> set xs" for i
    using t' that h(4) by (simp add: inserted_def um1 len a(7))
  show as: "as_pages t pgdir \<subseteq> as_pages s pgdir \<union> set xs" using t' by (simp add: inserted_def a(6))
  have "walk_pages s1 pgdir va = walk_pages s pgdir va"
    by (simp add: walk_pages_def table_present_def table_page_def pde_of_cong[OF a(5)])
  then have "mem_outside (walk_pages s pgdir va \<union> set xs) s1 t" using t' by (simp add: inserted_def)
  then have "mem_outside (user_tables s pgdir \<union> set xs) s1 t"
    by (rule mem_outside_mono) (use walk_pages_user[OF va, of s pgdir] in blast)
  then show "mem_outside (user_tables s pgdir \<union> set xs) s t" by (simp add: mem_outside_def a(5))
  show "set ys \<subseteq> set xs" using t' by (simp add: inserted_def um1)
  have xa: "x \<notin> as_pages s pgdir" using wf_pgdirD(3,5)[OF user_spaceD(2)[OF us]] by (auto simp: as_pages_def)
  have good: "good_page t pgdir pg" if "va' < UTOP" "mapped_page t pgdir va' = Some pg" for va' pg
  proof (cases "PGNUM va' = PGNUM va")
    case True
    then have "pg = x" using mp that by simp
    then show ?thesis using h xa as len ref[of x] by (auto simp: good_page_def)
  next
    case False
    then have "mapped_page s pgdir va' = Some pg" using mp that by simp
    note p = user_page[OF us that(1) this]
    then show ?thesis using as len ref[of pg] h by (auto simp: good_page_def)
  qed
  have inj: "PGNUM va1 = PGNUM va2" if "va1 < UTOP" "va2 < UTOP" "mapped_page t pgdir va1 = Some pg"
    "mapped_page t pgdir va2 = Some pg" for va1 va2 pg
    using that mp[OF that(1)] mp[OF that(2)] user_spaceD(5)[OF us that(1,2)] user_page(2)[OF us that(1), of pg]
      user_page(2)[OF us that(2), of pg] by (auto split: if_splits)
  have "curenv_ok t" using user_spaceD(3)[OF us] pages_only_current(3)[OF po] by simp
  moreover have "page_inv t ys" "wf_pgdir t ys pgdir" using t' by (simp_all add: inserted_def)
  ultimately show "user_space t ys pgdir" unfolding user_space_def data_pages_def using good inj by blast
qed

lemma user_table:
  assumes "d < unat (PDX UTOP)"
  shows "d < 1024" and "d \<noteq> UVPTX"
  using assms by (simp_all add: unat_PDX UTOP_def KERNBASE_def)

lemma inserted_tables:
  assumes us: "user_space s (x # xs) pgdir" and va: "va < UTOP" and um: "mapped s pgdir va = None"
    and t: "inserted (after_alloc s x 0) xs pgdir x va (PTE_W OR PTE_U) t ys"
  shows "table_present s pgdir d \<Longrightarrow> table_page t pgdir d = table_page s pgdir d" and "table_present s pgdir d \<Longrightarrow> table_present t pgdir d"
    and "table_present t pgdir d \<Longrightarrow> \<not> table_present s pgdir d \<Longrightarrow> table_page t pgdir d \<in> set xs - set ys"
proof -
  note i = inserted_space[OF us va um t]
  have same: "table_page t pgdir d = table_page s pgdir d" "table_present t pgdir d" if "table_present s pgdir d" for d
  proof -
    note c = pde_of_cong[OF after_alloc_space(5)[OF us]]
    have "table_present (after_alloc s x 0) pgdir d" using that by (simp add: table_present_def c)
    moreover have "d < 1024" using that by (simp add: table_present_def)
    ultimately have "pde_of t pgdir d = pde_of (after_alloc s x 0) pgdir d" using t unfolding inserted_def by blast
    then have "pde_of t pgdir d = pde_of s pgdir d" by (simp only: c)
    then show "table_page t pgdir d = table_page s pgdir d" "table_present t pgdir d"
      using that by (simp_all add: table_page_def table_present_def)
  qed
  then show "table_present s pgdir d \<Longrightarrow> table_page t pgdir d = table_page s pgdir d" "table_present s pgdir d \<Longrightarrow> table_present t pgdir d"
    by blast+
  assume p: "table_present t pgdir d" and n: "\<not> table_present s pgdir d"
  note wt = user_spaceD(2)[OF i(1)]
  have "table_page t pgdir d \<noteq> table_page s pgdir d'" if d': "table_present s pgdir d'" for d'
    using wt p same[OF d'] n d' by (auto simp: wf_pgdir_def)
  then have "table_page t pgdir d \<notin> as_pages s pgdir"
    using wf_pgdirD(6)[OF wt p] by (auto simp: as_pages_def)
  moreover have "table_page t pgdir d \<in> as_pages t pgdir" using p by (auto simp: as_pages_def)
  ultimately show "table_page t pgdir d \<in> set xs - set ys" using i(6) wf_pgdirD(5)[OF wt p] by blast
qed

lemma inserted_conserves:
  assumes us: "user_space s (x # xs) pgdir" and va: "va < UTOP" and um: "mapped s pgdir va = None"
    and t: "inserted (after_alloc s x 0) xs pgdir x va (PTE_W OR PTE_U) t ys"
  shows "set ys \<union> user_pages t pgdir = set (x # xs) \<union> user_pages s pgdir"
proof -
  note i = inserted_space[OF us va um t] and tb = inserted_tables[OF us va um t]
  have "mapped_page t pgdir va = Some x" using i(3)[OF va] by simp
  moreover have "PGNUM a \<noteq> PGNUM va" if "mapped_page s pgdir a = Some p" for a p
    using that um mapped_same_page[of a va s pgdir] by (auto simp: mapped_page_def)
  ultimately have dp: "data_pages t pgdir = insert x (data_pages s pgdir)"
    using i(3) va by (auto simp: data_pages_def split: if_splits)
  have "table_present t pgdir (unat (PDX va))"
    using mapped_present(1)[OF user_ordinary[OF va]] i(2)[OF user_ordinary[OF va]] by simp
  moreover note PDX_UTOP
  moreover have "\<forall>i \<in> set xs - set ys. table_page t pgdir (unat (PDX va)) = i" using t by (simp add: inserted_def)
  ultimately have "set xs - set ys \<subseteq> table_page t pgdir ` {d. d < unat (PDX UTOP) \<and> table_present t pgdir d}"
    using user_PDX[OF va] by (auto simp: image_iff intro!: exI[of _ "unat (PDX va)"])
  moreover have "table_page t pgdir ` {d. d < unat (PDX UTOP) \<and> table_present t pgdir d}
      \<subseteq> (set xs - set ys) \<union> table_page s pgdir ` {d. d < unat (PDX UTOP) \<and> table_present s pgdir d}"
    using tb by (fastforce simp: image_iff)
  moreover have "table_page s pgdir ` {d. d < unat (PDX UTOP) \<and> table_present s pgdir d}
      \<subseteq> table_page t pgdir ` {d. d < unat (PDX UTOP) \<and> table_present t pgdir d}"
    using tb by (fastforce simp: image_iff)
  ultimately show ?thesis unfolding user_pages_def dp using i(8) by auto
qed

lemma inserted_owned:
  assumes us: "user_space s (x # xs) pgdir" and va: "va < UTOP" and um: "mapped s pgdir va = None"
    and t: "inserted (after_alloc s x 0) xs pgdir x va (PTE_W OR PTE_U) t ys" and ow: "owned s pgdir"
  shows "owned t pgdir"
proof -
  note i = inserted_space[OF us va um t]
  note h = page_inv_head[OF user_spaceD(1)[OF us]]
  have d: "dir_page pgdir < length (pages s)" "dir_page pgdir \<notin> set (x # xs)"
    using wf_pgdirD(2,3)[OF user_spaceD(2)[OF us]] by auto
  have dir: "pp_ref (pages t ! dir_page pgdir) = 1" using i(5)[of "dir_page pgdir"] d ow by (auto simp: owned_def)
  have data: "pp_ref (pages t ! pg) = 1" if pg: "pg \<in> data_pages t pgdir" for pg
  proof -
    obtain a where a: "a < UTOP" "mapped_page t pgdir a = Some pg" using pg by (auto simp: data_pages_def)
    show ?thesis
    proof (cases "PGNUM a = PGNUM va")
      case True
      then show ?thesis using i(3)[OF a(1)] a(2) i(5)[of x] h by simp
    next
      case False
      then have m: "mapped_page s pgdir a = Some pg" using i(3)[OF a(1)] a(2) by simp
      then have "pp_ref (pages s ! pg) = 1" using ow a(1) by (auto simp: owned_def data_pages_def)
      then show ?thesis using i(5)[of pg] user_page(1,2)[OF us a(1) m] by simp
    qed
  qed
  note tb = inserted_tables[OF us va um t]
  have tab: "pp_ref (pages t ! table_page t pgdir d) = 1" if "d < unat (PDX UTOP)" "table_present t pgdir d" for d
  proof (cases "table_present s pgdir d")
    case True
    then have p: "table_page t pgdir d = table_page s pgdir d" by (rule tb(1))
    have "pp_ref (pages s ! table_page s pgdir d) = 1" using ow that(1) True by (simp add: owned_def)
    moreover have "table_page s pgdir d < length (pages s)" "table_page s pgdir d \<notin> set (x # xs)"
      using wf_pgdirD(4,5)[OF user_spaceD(2)[OF us] True] by simp_all
    ultimately show ?thesis unfolding p using i(5)[of "table_page s pgdir d"] by simp
  next
    case False
    then have "table_page t pgdir d \<in> set xs - set ys" using that(2) by (intro tb(3))
    then show ?thesis using t by (simp add: inserted_def)
  qed
  show ?thesis unfolding owned_def using dir data tab by blast
qed

lemma region_step:
  assumes us: "user_space s (x # xs) pgdir" and va: "va < UTOP" and um: "mapped s pgdir va = None" and ne: "xs \<noteq> []"
  shows "\<exists>t ys. page_insert pgdir x va (PTE_W OR PTE_U) (after_alloc s x 0) = Returns 0 t \<and>
    grows pgdir s (x # xs) t ys \<and> length xs \<le> Suc (length ys) \<and>
    writable t pgdir va \<and>
    (\<forall>va'. ordinary va' \<longrightarrow> PGNUM va' \<noteq> PGNUM va \<longrightarrow> mapped t pgdir va' = mapped s pgdir va') \<and>
    (\<forall>va' < UTOP. PGNUM va' \<noteq> PGNUM va \<longrightarrow> user_byte t pgdir va' = user_byte s pgdir va')"
proof -
  note a = after_alloc_space[OF us] and o = user_ordinary[OF va]
  note h = page_inv_head[OF user_spaceD(1)[OF us]]
  have "pp_ref (pages (after_alloc s x 0) ! x) \<noteq> 0xFFFF" using h(4) by (simp add: a(7))
  moreover have "x < length (pages (after_alloc s x 0))" using h(2) a(4) by (simp add: pages_only_def)
  moreover have "\<forall>pg. mapped_page (after_alloc s x 0) pgdir va = Some pg \<longrightarrow> good_page (after_alloc s x 0) pgdir pg"
    using um by (simp add: mapped_page_def mapped_cong[OF a(5)])
  ultimately obtain t ys where t: "page_insert pgdir x va (PTE_W OR PTE_U) (after_alloc s x 0) = Returns 0 t"
    and i: "inserted (after_alloc s x 0) xs pgdir x va (PTE_W OR PTE_U) t ys"
    using insert_ok[OF a(2,1) o a(3), of x "PTE_W OR PTE_U"] h(3) ne by blast
  note sp = inserted_space[OF us va um i]
  have d: "data_pages t pgdir \<subseteq> insert x (data_pages s pgdir)"
    using sp(3) by (auto simp: data_pages_def split: if_splits)
  have "user_tables t pgdir \<subseteq> user_tables s pgdir \<union> set xs"
    using inserted_tables(1,3)[OF us va um i] by (fastforce simp: user_tables_def)
  then have "footprint t ys pgdir \<subseteq> footprint s (x # xs) pgdir"
    unfolding footprint_def using d sp(8) by auto
  moreover have "mem_outside (footprint s (x # xs) pgdir) s t"
    by (rule mem_outside_mono[OF sp(7)]) (auto simp: footprint_def)
  ultimately have "grows pgdir s (x # xs) t ys"
    using sp(1,4) inserted_owned[OF us va um i] inserted_conserves[OF us va um i] by (auto simp: grows_def)
  moreover have "length xs \<le> Suc (length ys)" using i by (simp add: inserted_def)
  moreover have "writable t pgdir va" using sp(2)[OF o] region_flags(3)[OF h(1)] by (simp only: writable_def option.case if_True refl)
  moreover have b: "user_byte t pgdir va' = user_byte s pgdir va'" if "va' < UTOP" "PGNUM va' \<noteq> PGNUM va" for va'
    using sp(2)[OF user_ordinary[OF that(1)]] that(2) user_page(2,3)[OF us that(1)] user_tables_sub[of s pgdir]
    by (intro user_byte_outside[OF sp(7)]) auto
  ultimately show ?thesis using t sp(2) by (intro exI[of _ t] exI[of _ ys] conjI) auto
qed

lemma writable_page: "PGNUM va' = PGNUM va \<Longrightarrow> writable s pgdir va' = writable s pgdir va"
  by (simp add: writable_def mapped_same_page[of va' va])

lemma region_loop:
  assumes "user_space s xs pgdir" "\<forall>b \<in> set bs. b < UTOP \<and> mapped s pgdir b = None" "distinct (map PGNUM bs)"
    "2 * length bs \<le> length xs"
  shows "\<exists>t ys. region_alloc_loop bs pgdir s = Returns () t \<and> grows pgdir s xs t ys \<and>
    length xs \<le> length ys + 2 * length bs \<and> (\<forall>b \<in> set bs. writable t pgdir b) \<and>
    (\<forall>va'. ordinary va' \<longrightarrow> PGNUM va' \<notin> PGNUM ` set bs \<longrightarrow> mapped t pgdir va' = mapped s pgdir va') \<and>
    (\<forall>va' < UTOP. PGNUM va' \<notin> PGNUM ` set bs \<longrightarrow> user_byte t pgdir va' = user_byte s pgdir va')"
  using assms
proof (induction bs arbitrary: s xs)
  case Nil
  then show ?case using grows_refl by auto
next
  case (Cons b bs)
  obtain x xs' where xs: "xs = x # xs'" and ne: "xs' \<noteq> []"
    using Cons.prems(4) by (cases xs; cases "tl xs") auto
  have b: "b < UTOP" "mapped s pgdir b = None" using Cons.prems(2) by auto
  note us = Cons.prems(1)[unfolded xs]
  obtain s1 ys where s1: "page_insert pgdir x b (PTE_W OR PTE_U) (after_alloc s x 0) = Returns 0 s1"
    and g1: "grows pgdir s (x # xs') s1 ys" and l1: "length xs' \<le> Suc (length ys)" and w1: "writable s1 pgdir b"
    and m1: "\<forall>va'. ordinary va' \<longrightarrow> PGNUM va' \<noteq> PGNUM b \<longrightarrow> mapped s1 pgdir va' = mapped s pgdir va'"
    and u1: "\<forall>va' < UTOP. PGNUM va' \<noteq> PGNUM b \<longrightarrow> user_byte s1 pgdir va' = user_byte s pgdir va'"
    using region_step[OF us b ne] by (elim exE conjE) (rule that)
  have d: "PGNUM b \<notin> PGNUM ` set bs" using Cons.prems(3) by simp
  have us1: "user_space s1 ys pgdir" using g1 by (simp add: grows_def)
  have um1: "\<forall>c \<in> set bs. c < UTOP \<and> mapped s1 pgdir c = None"
  proof
    fix c
    assume c: "c \<in> set bs"
    then have "PGNUM c \<noteq> PGNUM b" using d by (metis image_eqI)
    then show "c < UTOP \<and> mapped s1 pgdir c = None" using c Cons.prems(2) m1 user_ordinary[of c] by simp
  qed
  have db: "distinct (map PGNUM bs)" "2 * length bs \<le> length ys" using Cons.prems(3,4) l1 xs by simp_all
  obtain t zs where t: "region_alloc_loop bs pgdir s1 = Returns () t" "grows pgdir s1 ys t zs"
    "length ys \<le> length zs + 2 * length bs" "\<forall>b \<in> set bs. writable t pgdir b"
    "\<forall>va'. ordinary va' \<longrightarrow> PGNUM va' \<notin> PGNUM ` set bs \<longrightarrow> mapped t pgdir va' = mapped s1 pgdir va'"
    "\<forall>va' < UTOP. PGNUM va' \<notin> PGNUM ` set bs \<longrightarrow> user_byte t pgdir va' = user_byte s1 pgdir va'"
    using Cons.IH[OF us1 um1 db] by (elim exE conjE) (rule that)
  have al: "page_alloc 0 s = Returns (Some x) (after_alloc s x 0)"
    by (rule page_alloc_Some[OF user_spaceD(1)[OF us]])
  have "region_alloc_loop (b # bs) pgdir s = Returns () t"
    using s1 t(1) by (simp only: region_alloc_loop.simps kbind_Returns[of "page_alloc 0", OF al] option.case
      kbind_Returns[of "page_insert pgdir x b (PTE_W OR PTE_U)", OF s1])
  moreover have "grows pgdir s xs t zs" unfolding xs by (rule grows_trans[OF g1 t(2)])
  moreover have "length xs \<le> length zs + 2 * length (b # bs)" using l1 t(3) xs by simp
  moreover have "writable t pgdir b" using w1 t(5) d user_ordinary[OF b(1)] by (simp add: writable_def)
  then have "\<forall>c \<in> set (b # bs). writable t pgdir c" using t(4) by simp
  moreover have "\<forall>va'. ordinary va' \<longrightarrow> PGNUM va' \<notin> PGNUM ` set (b # bs) \<longrightarrow> mapped t pgdir va' = mapped s pgdir va'"
    using m1 t(5) by simp
  moreover have "\<forall>va' < UTOP. PGNUM va' \<notin> PGNUM ` set (b # bs) \<longrightarrow> user_byte t pgdir va' = user_byte s pgdir va'"
    using u1 t(6) by simp
  ultimately show ?case by blast
qed

text \<open>What \<open>region_alloc\<close> gives for a region of user memory with nothing mapped in it.\<close>

lemma region_ok:
  assumes us: "user_space s xs pgdir" and e: "e < length (envs s)" "env_pgdir (envs s ! e) = pgdir"
    and u: "unat va + unat len \<le> unat UTOP"
    and um: "\<forall>a. unat (PGNUM a) \<in> set (region_pages (unat va) (unat len)) \<longrightarrow> mapped s pgdir a = None"
    and l: "2 * length (region_pages (unat va) (unat len)) \<le> length xs"
  shows "\<exists>t ys. region_alloc e va len s = Returns () t \<and> grows pgdir s xs t ys \<and>
    length xs \<le> length ys + 2 * length (region_pages (unat va) (unat len)) \<and>
    (\<forall>a. unat (PGNUM a) \<in> set (region_pages (unat va) (unat len)) \<longrightarrow> writable t pgdir a) \<and>
    (\<forall>a. ordinary a \<longrightarrow> unat (PGNUM a) \<notin> set (region_pages (unat va) (unat len)) \<longrightarrow> mapped t pgdir a = mapped s pgdir a) \<and>
    (\<forall>a < UTOP. unat (PGNUM a) \<notin> set (region_pages (unat va) (unat len)) \<longrightarrow> user_byte t pgdir a = user_byte s pgdir a)"
proof -
  let ?bs = "pages_between (ROUNDDOWN va PGSIZE) (ROUNDUP (va + len) PGSIZE)"
  let ?R = "region_pages (unat va) (unat len)"
  have ut: "unat UTOP = 977920 * 4096" by (simp add: UTOP_def KERNBASE_def)
  then have b: "unat va + unat len \<le> 4294963200" using u by linarith
  note c = check_bounds[OF b]
  have R: "map (\<lambda>a. unat (PGNUM a)) ?bs = ?R"
    using pages_between_numbers[OF c(5,3,4)] c(1,2) by (simp only: region_pages_def)
  have iff: "unat (PGNUM a) \<in> set ?R \<longleftrightarrow> PGNUM a \<in> PGNUM ` set ?bs" for a
    unfolding R[symmetric] by (auto simp: word_unat_eq_iff[of "PGNUM a"])
  have len: "length ?R = length ?bs" by (simp only: R[symmetric] length_map)
  have "unat (PGNUM a) < 977920" if "unat (PGNUM a) \<in> set ?R" for a
  proof -
    have "unat (PGNUM a) < (unat va + unat len + 4095) div 4096" using that by (simp add: region_pages_def)
    also have "\<dots> \<le> (977920 * 4096 + 4095) div 4096" using u ut by (intro div_le_mono) simp
    finally show ?thesis by simp
  qed
  then have bs: "\<forall>b \<in> set ?bs. b < UTOP \<and> mapped s pgdir b = None"
    using um iff by (auto simp: UTOP_page)
  have di: "distinct (map PGNUM ?bs)"
  proof -
    have "distinct (map (\<lambda>a. unat (PGNUM a)) ?bs)" unfolding R by (simp add: region_pages_def)
    then have "distinct (map unat (map PGNUM ?bs))" by (simp add: comp_def)
    then show ?thesis by (rule distinct_map[THEN iffD1, THEN conjunct1])
  qed
  have ra: "region_alloc e va len s = region_alloc_loop ?bs pgdir s"
    using e by (simp add: region_alloc_def env_at_def)
  obtain t ys where t: "region_alloc_loop ?bs pgdir s = Returns () t" "grows pgdir s xs t ys"
    "length xs \<le> length ys + 2 * length ?bs" "\<forall>b \<in> set ?bs. writable t pgdir b"
    "\<forall>va'. ordinary va' \<longrightarrow> PGNUM va' \<notin> PGNUM ` set ?bs \<longrightarrow> mapped t pgdir va' = mapped s pgdir va'"
    "\<forall>va' < UTOP. PGNUM va' \<notin> PGNUM ` set ?bs \<longrightarrow> user_byte t pgdir va' = user_byte s pgdir va'"
    using region_loop[OF us bs di l[unfolded len]] by (elim exE conjE) (rule that)
  have "writable t pgdir a" if "unat (PGNUM a) \<in> set ?R" for a
  proof -
    have "PGNUM a \<in> PGNUM ` set ?bs" using that by (simp only: iff)
    then show ?thesis using t(4) writable_page[of a] by (elim imageE) metis
  qed
  then show ?thesis using t unfolding ra iff len by blast
qed

section \<open>Writing through the page tables\<close>

lemma data_store:
  assumes us: "user_space s xs pgdir" and P: "P \<subseteq> data_pages s pgdir" and m: "mem_outside P s (s\<lparr>pmem := m\<rparr>)"
  shows "grows pgdir s xs (s\<lparr>pmem := m\<rparr>) xs"
    and "ordinary a \<Longrightarrow> mapped (s\<lparr>pmem := m\<rparr>) pgdir a = mapped s pgdir a"
proof -
  let ?t = "s\<lparr>pmem := m\<rparr>"
  note u = user_spaceD[OF us]
  have po: "pages_only s ?t" by simp
  have dis: "as_pages s pgdir \<inter> P = {}" using P us by (auto simp: user_space_def good_page_def)
  have al: "PGOFF pgdir = 0" using u(2) by (simp add: wf_pgdir_def)
  note o = other_space[OF m al dis]
  show mp: "mapped ?t pgdir a = mapped s pgdir a" if "ordinary a" for a by (rule o(2)[OF that])
  have mg: "mapped_page ?t pgdir a = mapped_page s pgdir a" if "a < UTOP" for a
    using mp[OF user_ordinary[OF that]] by (simp add: mapped_page_def)
  have dp: "data_pages ?t pgdir = data_pages s pgdir" using mg by (auto simp: data_pages_def)
  have as: "as_pages ?t pgdir = as_pages s pgdir" by (rule present_cong(2)) (rule o(1))
  have tp: "table_present ?t pgdir d = table_present s pgdir d" for d by (rule present_cong(1)) (rule o(1))
  have tg: "table_page ?t pgdir d = table_page s pgdir d" if "table_present s pgdir d" for d
    using o(1)[of d] that by (simp add: table_page_def table_present_def)
  have inv: "page_inv ?t xs" using u(1) by (subst page_inv_cong[of ?t s]) simp_all
  have wf: "wf_pgdir ?t xs pgdir" using wf_pgdirD[OF u(2)] by (intro wf_pgdir_cong[OF u(2)] o(1)) auto
  have cu: "curenv_ok ?t" using u(3) pages_only_current(3)[OF po] by simp
  have gd: "\<forall>pg \<in> data_pages ?t pgdir. good_page ?t pgdir pg"
    unfolding dp good_page_def as using us by (simp add: user_space_def good_page_def)
  have "user_space ?t xs pgdir" unfolding user_space_def using inv wf cu gd mg u(5) by metis
  moreover have "user_tables ?t pgdir = user_tables s pgdir" unfolding user_tables_def tp by (auto simp: tg)
  then have "footprint ?t xs pgdir = footprint s xs pgdir" by (simp add: footprint_def dp)
  moreover have "mem_outside (footprint s xs pgdir) s ?t"
    by (rule mem_outside_mono[OF m]) (use P in \<open>auto simp: footprint_def\<close>)
  moreover have "owned s pgdir \<Longrightarrow> owned ?t pgdir" unfolding owned_def dp tp by (simp add: tg)
  moreover have "user_pages ?t pgdir = user_pages s pgdir" unfolding user_pages_def dp tp by (auto simp: tg)
  ultimately show "grows pgdir s xs ?t xs" using po unfolding grows_def by blast
qed

lemma vstore_ok:
  assumes us: "user_space s xs pgdir" and c: "cr3 s + KERNBASE = pgdir" and va: "va < UTOP" and w: "writable s pgdir va"
  shows "\<exists>t. vstore8 va v s = Returns () t \<and> grows pgdir s xs t xs \<and>
    (\<forall>a. ordinary a \<longrightarrow> mapped t pgdir a = mapped s pgdir a) \<and>
    (\<forall>a < UTOP. user_byte t pgdir a = (if a = va then Some v else user_byte s pgdir a))"
proof -
  obtain pte where pte: "mapped s pgdir va = Some pte" and f: "pte AND (PTE_W OR PTE_U) = PTE_W OR PTE_U"
    using w by (auto simp: writable_def split: option.splits)
  have "(pte AND (PTE_W OR PTE_U)) AND PTE_W = PTE_W" unfolding f by simp
  then have pw: "pte AND PTE_W \<noteq> 0" by (auto simp: and.assoc)
  let ?pa = "PTE_ADDR pte OR PGOFF va"
  let ?t = "s\<lparr>pmem := (pmem s)(?pa := v)\<rparr>"
  have pg: "unat (PGNUM ?pa) = unat (PGNUM pte)" by (simp add: PGNUM_frame)
  have mpg: "mapped_page s pgdir va = Some (unat (PGNUM pte))" using pte by (simp add: mapped_page_def)
  have "\<not> KERNBASE \<le> va" using va by (simp add: UTOP_def KERNBASE_def word_le_nat_alt word_less_nat_alt)
  then have "translate s va True = Some ?pa" using pte pw by (simp add: translate_def c)
  then have st: "vstore8 va v s = Returns () ?t" by (simp add: vstore8_def)
  have mo: "mem_outside {unat (PGNUM pte)} s ?t" using pg by (auto simp: mem_outside_def)
  have P: "{unat (PGNUM pte)} \<subseteq> data_pages s pgdir" using mpg va by (auto simp: data_pages_def)
  note d = data_store[OF us P mo]
  have b: "user_byte ?t pgdir a = (if a = va then Some v else user_byte s pgdir a)" if a: "a < UTOP" for a
  proof (cases "mapped s pgdir a")
    case None
    then show ?thesis using d(2)[OF user_ordinary[OF a]] pte by (auto simp: user_byte_def)
  next
    case (Some q)
    have "a = va" if e: "PTE_ADDR q OR PGOFF a = ?pa"
    proof -
      have "mapped_page s pgdir a = Some (unat (PGNUM pte))"
        using Some frame_inj(1)[OF e] by (simp add: mapped_page_def)
      then have "PGNUM a = PGNUM va" by (rule user_spaceD(5)[OF us a va _ mpg])
      then show ?thesis using frame_inj(2)[OF e] by (rule addr_parts)
    qed
    then show ?thesis using d(2)[OF user_ordinary[OF a]] Some pte by (auto simp: user_byte_def)
  qed
  show ?thesis using st d b by (intro exI[of _ ?t]) blast
qed

lemma vload_kernel: "KERNBASE \<le> va \<Longrightarrow> vload8 va s = Returns (pmem s (va - KERNBASE)) s"
  by (simp add: vload8_def translate_def)

lemma in_range_snoc: "k < 2 ^ 32 \<Longrightarrow> in_range d (Suc k) a \<longleftrightarrow> in_range d k a \<or> a = d + of_nat k"
proof -
  assume k: "k < 2 ^ 32"
  have "a = d + of_nat k \<longleftrightarrow> a - d = of_nat k" by (simp add: diff_eq_eq add.commute)
  also have "\<dots> \<longleftrightarrow> unat (a - d) = k" using k by (auto simp: word_unat_eq_iff unat_of_nat)
  finally show ?thesis by (auto simp: in_range_def)
qed

text \<open>A loop that stores \<open>f i\<close> in byte \<open>i\<close> of a writable range.\<close>

lemma store_loop:
  assumes us: "user_space s xs pgdir" and c: "cr3 s + KERNBASE = pgdir" and u: "unat dst + n \<le> unat UTOP"
    and w: "\<forall>i < n. writable s pgdir (dst + of_nat i)"
    and body: "\<And>i t. i < n \<Longrightarrow> mem_outside (footprint s xs pgdir) s t \<Longrightarrow> body i t = vstore8 (dst + of_nat i) (f i) t"
  shows "\<exists>t. kfor [0..<n] body s = Returns () t \<and> grows pgdir s xs t xs \<and>
    (\<forall>a. ordinary a \<longrightarrow> mapped t pgdir a = mapped s pgdir a) \<and>
    (\<forall>a < UTOP. user_byte t pgdir a = (if in_range dst n a then Some (f (unat (a - dst))) else user_byte s pgdir a))"
proof -
  let ?I = "\<lambda>(ks :: nat list) t. grows pgdir s xs t xs \<and> (\<forall>a. ordinary a \<longrightarrow> mapped t pgdir a = mapped s pgdir a) \<and>
    (\<forall>a < UTOP. user_byte t pgdir a = (if in_range dst (length ks) a then Some (f (unat (a - dst))) else user_byte s pgdir a))"
  have ut: "unat UTOP < 2 ^ 32" by (simp add: UTOP_def KERNBASE_def)
  have "\<exists>t. kfor [0..<n] body s = Returns () t \<and> ?I [0..<n] t"
  proof (rule kfor_rule)
    show "?I [] s" using grows_refl[OF us] by (simp add: in_range_def)
    fix ks i t
    assume ks: "ks @ [i] = take (Suc (length ks)) [0..<n]" and I: "?I ks t"
    have il: "length ks < n"
    proof (rule ccontr)
      assume "\<not> length ks < n"
      then have "length (take (Suc (length ks)) [0..<n]) \<le> length ks" by simp
      then show False using ks[symmetric] by simp
    qed
    have i: "i = length ks" using arg_cong[OF ks, of "\<lambda>l. l ! length ks"] il by (simp add: nth_append)
    have g: "grows pgdir s xs t xs" using I by simp
    have "unat dst + i < 2 ^ 32" using il i u ut by linarith
    then have "unat (dst + of_nat i) = unat dst + i" by (simp add: unat_word_ariths unat_of_nat)
    then have va: "dst + of_nat i < UTOP" using il i u by (simp add: word_less_nat_alt)
    have wt: "writable t pgdir (dst + of_nat i)"
      using w il i I user_ordinary[OF va] by (simp add: writable_def)
    have ust: "user_space t xs pgdir" and ct: "cr3 t + KERNBASE = pgdir"
      using g c pages_only_fields(7)[of s t] by (simp_all add: grows_def)
    have bi: "body i t = vstore8 (dst + of_nat i) (f i) t" using body[of i t] il i g by (simp add: grows_def)
    obtain t' where t': "vstore8 (dst + of_nat i) (f i) t = Returns () t'" "grows pgdir t xs t' xs"
      "\<forall>a. ordinary a \<longrightarrow> mapped t' pgdir a = mapped t pgdir a"
      "\<forall>a < UTOP. user_byte t' pgdir a = (if a = dst + of_nat i then Some (f i) else user_byte t pgdir a)"
      using vstore_ok[OF ust ct va wt, of "f i"] by blast
    have k: "i < 2 ^ 32" using il i u ut by linarith
    have "unat (dst + of_nat i - dst) = i" using k by (simp add: unat_of_nat)
    then have "\<forall>a < UTOP. user_byte t' pgdir a =
      (if in_range dst (length (ks @ [i])) a then Some (f (unat (a - dst))) else user_byte s pgdir a)"
      using t'(4) I in_range_snoc[OF k] i by auto
    then show "\<exists>u. body i t = Returns () u \<and> ?I (ks @ [i]) u"
      using bi t' grows_trans[OF g t'(2)] I by auto
  qed
  then show ?thesis by simp
qed

lemma vmemcpy_ok:
  assumes us: "user_space s xs pgdir" and c: "cr3 s + KERNBASE = pgdir" and u: "unat dst + unat n \<le> unat UTOP"
    and w: "\<forall>i < unat n. writable s pgdir (dst + of_nat i)"
    and src: "\<forall>i < unat n. KERNBASE \<le> src + of_nat i \<and> unat (PGNUM (src + of_nat i - KERNBASE)) \<notin> footprint s xs pgdir"
  shows "\<exists>t. vmemcpy dst src n s = Returns () t \<and> grows pgdir s xs t xs \<and>
    (\<forall>a. ordinary a \<longrightarrow> mapped t pgdir a = mapped s pgdir a) \<and>
    (\<forall>a < UTOP. user_byte t pgdir a = (if in_range dst (unat n) a then Some (pmem s (src + (a - dst) - KERNBASE)) else user_byte s pgdir a))"
proof -
  let ?body = "\<lambda>i. kbind (vload8 (src + of_nat i)) (\<lambda>v. vstore8 (dst + of_nat i) v)"
  have "?body i t = vstore8 (dst + of_nat i) (pmem s (src + of_nat i - KERNBASE)) t"
    if "i < unat n" "mem_outside (footprint s xs pgdir) s t" for i t
    using src that kbind_Returns[of "vload8 (src + of_nat i)", OF vload_kernel[of "src + of_nat i" t]]
    by (simp add: mem_outside_def)
  moreover have "of_nat (unat (a - dst)) = a - dst" for a by simp
  ultimately show ?thesis
    using store_loop[OF us c u w, of ?body "\<lambda>i. pmem s (src + of_nat i - KERNBASE)"] by (simp only: vmemcpy_def)
qed

lemma vmemset_ok:
  assumes us: "user_space s xs pgdir" and c: "cr3 s + KERNBASE = pgdir" and u: "unat dst + unat n \<le> unat UTOP"
    and w: "\<forall>i < unat n. writable s pgdir (dst + of_nat i)"
  shows "\<exists>t. vmemset dst v n s = Returns () t \<and> grows pgdir s xs t xs \<and>
    (\<forall>a. ordinary a \<longrightarrow> mapped t pgdir a = mapped s pgdir a) \<and>
    (\<forall>a < UTOP. user_byte t pgdir a = (if in_range dst (unat n) a then Some v else user_byte s pgdir a))"
  using store_loop[OF us c u w, of "\<lambda>i. vstore8 (dst + of_nat i) v" "\<lambda>_. v"] by (simp add: vmemset_def)

lemma region_page_inj:
  assumes "i < 2 ^ 20" "j < 2 ^ 20" "PGNUM (va + of_nat i * PGSIZE) = PGNUM (va + of_nat j * PGSIZE)"
  shows "i = j"
proof -
  have m: "unat (of_nat k * PGSIZE) = 4096 * k" if "k < 2 ^ 20" for k using page_frame[of k] that by simp
  have o: "PGOFF (va + of_nat k * PGSIZE) = PGOFF va" if "k < 2 ^ 20" for k
  proof -
    have "unat (va + of_nat k * PGSIZE) mod 4096 = unat va mod 4096"
    proof -
      have "unat (va + of_nat k * PGSIZE) = (unat va + 4096 * k) mod 2 ^ 32" using m[OF that] by (simp only: unat_word_ariths) simp
      then have "unat (va + of_nat k * PGSIZE) mod 4096 = (unat va + 4096 * k) mod 4096" by (simp only: mod_mod_cancel[of 4096 "2 ^ 32"]) (simp add: mod_mod_cancel)
      then show ?thesis by simp
    qed
    then show ?thesis by (simp add: word_unat_eq_iff unat_PGOFF)
  qed
  have "va + of_nat i * PGSIZE = va + of_nat j * PGSIZE"
    by (rule addr_parts[OF assms(3) trans[OF o[OF assms(1)] o[OF assms(2), symmetric]]])
  then have "of_nat i * PGSIZE = of_nat j * PGSIZE" by (simp only: add_left_cancel)
  then have "unat (of_nat i * PGSIZE) = unat (of_nat j * PGSIZE)" by (simp only:)
  then show ?thesis unfolding m[OF assms(1)] m[OF assms(2)] by simp
qed

lemma tables_missing_finite: "finite (tables_missing s pgdir va n)"
  by (rule finite_subset[of _ "{..<1024}"]) (auto simp: tables_missing_def)

lemma walked_free:
  assumes w: "walked s xs pgdir va s1 xs1" and wf: "wf_pgdir s xs pgdir" and inv: "page_inv s xs"
    and tp: "table_present s pgdir (unat (PDX va))"
  shows "length xs1 = length xs"
proof -
  let ?d = "unat (PDX va)"
  have p: "pde_of s1 pgdir ?d = pde_of s pgdir ?d" using w tp PDX_less[of va] unfolding walked_def by blast
  have "table_page s1 pgdir ?d \<notin> set xs" using wf_pgdirD(5)[OF wf tp] p by (simp add: table_page_def)
  moreover have "\<forall>i \<in> set xs - set xs1. table_page s1 pgdir ?d = i" and sub: "set xs1 \<subseteq> set xs" and i1: "page_inv s1 xs1"
    using w unfolding walked_def by blast+
  ultimately have "set xs - set xs1 = {}" by (metis DiffD1 all_not_in_conv)
  then have "set xs1 = set xs" using sub by auto
  then show ?thesis using distinct_card[OF page_inv_bounds(3)[OF inv]] distinct_card[OF page_inv_bounds(3)[OF i1]] by simp
qed

text \<open>A walk that makes a table takes one page.\<close>

lemma walked_takes:
  assumes w: "walked s xs pgdir va s1 xs1" and wf: "wf_pgdir s xs pgdir" and inv: "page_inv s xs"
    and d: "\<not> table_present s pgdir (unat (PDX va))"
  shows "length xs = Suc (length xs1)"
proof -
  have wf1: "wf_pgdir s1 xs1 pgdir" and i1: "page_inv s1 xs1" and tp: "table_present s1 pgdir (unat (PDX va))"
    and le: "length xs \<le> Suc (length xs1)" and sub: "set xs1 \<subseteq> set xs"
    and p: "table_page s1 pgdir (unat (PDX va)) \<in> walk_pages s pgdir va \<union> set xs"
    using w unfolding walked_def by blast+
  have "table_page s1 pgdir (unat (PDX va)) \<noteq> dir_page pgdir" "table_page s1 pgdir (unat (PDX va)) \<notin> set xs1"
    using wf1 tp by (auto simp: wf_pgdir_def)
  then have "set xs1 \<subset> set xs" using p d sub by (auto simp: walk_pages_def)
  then have "card (set xs1) < card (set xs)" by (intro psubset_card_mono) auto
  then show ?thesis
    using le distinct_card[OF page_inv_bounds(3)[OF inv]] distinct_card[OF page_inv_bounds(3)[OF i1]] by simp
qed

text \<open>One page of the region.\<close>

lemma boot_step:
  assumes wf: "wf_pgdir s xs pgdir" and inv: "page_inv s xs" and o: "ordinary va"
    and l: "card (tables_missing s pgdir va (Suc n)) \<le> length xs"
  shows "\<exists>s1 t xs1. pgdir_walk pgdir va True s = Returns (Some (pte_kva s1 pgdir va)) s1 \<and>
    store32 (pte_kva s1 pgdir va) (v OR perm OR PTE_P) s1 = Returns () t \<and> page_inv t xs1 \<and> wf_pgdir t xs1 pgdir \<and> pages_only s t \<and>
    card (tables_missing t pgdir (va + PGSIZE) n) \<le> length xs1 \<and>
    (\<forall>va'. ordinary va' \<longrightarrow> mapped t pgdir va' = (if PGNUM va' = PGNUM va then Some (v OR perm OR PTE_P) else mapped s pgdir va')) \<and>
    (\<forall>i < length (pages s). i \<notin> set xs \<longrightarrow> pp_ref (pages t ! i) = pp_ref (pages s ! i)) \<and> set xs1 \<subseteq> set xs \<and>
    length xs1 + card (tables_missing s pgdir va (Suc n)) = length xs + card (tables_missing t pgdir (va + PGSIZE) n) \<and>
    as_pages t pgdir \<subseteq> as_pages s pgdir \<union> (set xs - set xs1) \<and> (\<forall>d. table_present s pgdir d \<longrightarrow> pde_of t pgdir d = pde_of s pgdir d)"
proof -
  let ?d = "unat (PDX va)"
  have ne: "table_present s pgdir ?d \<or> xs \<noteq> []"
  proof (rule ccontr)
    assume "\<not> ?thesis"
    then have "?d \<in> tables_missing s pgdir va (Suc n)" and "xs = []"
      by (auto simp: tables_missing_def intro!: exI[of _ 0])
    then have "0 < card (tables_missing s pgdir va (Suc n))" using tables_missing_finite by (simp add: card_gt_0_iff) blast
    then show False using l \<open>xs = []\<close> by simp
  qed
  obtain s1 xs1 where w1: "pgdir_walk pgdir va True s = Returns (Some (pte_kva s1 pgdir va)) s1" and k: "walked s xs pgdir va s1 xs1"
    using walk_ready[OF wf inv o ne] by blast
  have wf1: "wf_pgdir s1 xs1 pgdir" and i1: "page_inv s1 xs1" and tp1: "table_present s1 pgdir ?d" and po1: "pages_only s s1"
    and m1: "\<forall>va'. ordinary va' \<longrightarrow> mapped s1 pgdir va' = mapped s pgdir va'" and len1: "length xs \<le> Suc (length xs1)"
    and sub: "set xs1 \<subseteq> set xs"
    and pd1: "\<forall>d < 1024. d \<noteq> ?d \<or> table_present s pgdir d \<longrightarrow> pde_of s1 pgdir d = pde_of s pgdir d"
    and as1: "as_pages s1 pgdir \<subseteq> as_pages s pgdir \<union> (set xs - set xs1)"
    and rf: "\<forall>i < length (pages s). pp_ref (pages s1 ! i) = (if i \<in> set xs - set xs1 then 1 else pp_ref (pages s ! i))"
    using k unfolding walked_def by blast+
  define t where "t = s1\<lparr>pmem := write32 (pmem s1) (PTE_ADDR (pde_of s1 pgdir ?d) + 4 * of_nat (unat (PTX va))) (v OR perm OR PTE_P)\<rparr>"
  have st: "store32 (pte_kva s1 pgdir va) (v OR perm OR PTE_P) s1 = Returns () t" by (simp only: store_pte t_def)
  note sm = store_mapped[OF wf1 o tp1 t_def]
  have it: "page_inv t xs1" using i1 by (subst page_inv_cong[of t s1]) (simp_all add: t_def)
  have pt: "pages_only s t" using pages_only_trans[OF po1, of t] by (simp add: t_def)
  have mt: "\<forall>va'. ordinary va' \<longrightarrow> mapped t pgdir va' = (if PGNUM va' = PGNUM va then Some (v OR perm OR PTE_P) else mapped s pgdir va')"
    using sm(3) m1 or_present[of v perm] by simp
  have tpt: "table_present t pgdir d = table_present s1 pgdir d" for d by (rule present_cong(1)) (rule sm(2))
  have tps: "table_present s1 pgdir d" if "table_present s pgdir d" for d
    using pd1 that by (auto simp: table_present_def)
  have miss: "tables_missing t pgdir (va + PGSIZE) n = tables_missing s pgdir va (Suc n) - {?d}"
  proof (intro equalityI subsetI)
    fix d
    assume "d \<in> tables_missing s pgdir va (Suc n) - {?d}"
    then obtain i where i: "i < Suc n" "d = unat (PDX (va + of_nat i * PGSIZE))" "\<not> table_present s pgdir d" "d \<noteq> ?d"
      unfolding tables_missing_def by blast
    then obtain j where j: "i = Suc j" by (cases i) auto
    have "d < 1024" unfolding i(2) by simp
    then have "\<not> table_present t pgdir d" using i(3,4) pd1 unfolding tpt by (simp add: table_present_def)
    moreover have "d = unat (PDX (va + PGSIZE + of_nat j * PGSIZE))" unfolding i(2) j by (simp add: algebra_simps)
    ultimately show "d \<in> tables_missing t pgdir (va + PGSIZE) n" using i(1) j unfolding tables_missing_def by auto
  next
    fix d
    assume "d \<in> tables_missing t pgdir (va + PGSIZE) n"
    then obtain i where i: "i < n" "d = unat (PDX (va + PGSIZE + of_nat i * PGSIZE))" "\<not> table_present s1 pgdir d"
      by (auto simp: tables_missing_def tpt)
    have e: "va + PGSIZE + of_nat i * PGSIZE = va + of_nat (Suc i) * PGSIZE" by (simp add: algebra_simps)
    have "d = unat (PDX (va + of_nat (Suc i) * PGSIZE))" unfolding i(2) e ..
    then show "d \<in> tables_missing s pgdir va (Suc n) - {?d}" using i tps tp1 unfolding tables_missing_def by blast
  qed
  have cnt: "length xs1 + card (tables_missing s pgdir va (Suc n)) = length xs + card (tables_missing t pgdir (va + PGSIZE) n)"
  proof (cases "table_present s pgdir ?d")
    case True
    then have "?d \<notin> tables_missing s pgdir va (Suc n)" by (simp add: tables_missing_def)
    then show ?thesis using walked_free[OF k wf inv True] miss by simp
  next
    case False
    then have "?d \<in> tables_missing s pgdir va (Suc n)" by (auto simp: tables_missing_def intro!: exI[of _ 0])
    then have "card (tables_missing s pgdir va (Suc n)) = Suc (card (tables_missing t pgdir (va + PGSIZE) n))"
      unfolding miss using tables_missing_finite by (metis card_Suc_Diff1)
    then show ?thesis using walked_takes[OF k wf inv False] by simp
  qed
  then have "card (tables_missing t pgdir (va + PGSIZE) n) \<le> length xs1" using l by linarith
  moreover have "\<forall>i < length (pages s). i \<notin> set xs \<longrightarrow> pp_ref (pages t ! i) = pp_ref (pages s ! i)"
    using rf by (simp add: t_def)
  moreover have "as_pages t pgdir = as_pages s1 pgdir" by (rule present_cong(2)) (rule sm(2))
  moreover have "pde_of t pgdir d = pde_of s pgdir d" if "table_present s pgdir d" for d
  proof -
    have "d < 1024" using that by (simp add: table_present_def)
    then show ?thesis using that pd1 sm(2)[of d] by metis
  qed
  ultimately show ?thesis using w1 st it sm(1) pt mt sub cnt as1 by auto
qed

lemma boot_map_loop_ok:
  assumes "wf_pgdir s xs pgdir" "page_inv s xs" "n \<le> 2 ^ 20" "\<forall>i < n. ordinary (va + of_nat i * PGSIZE)"
    "card (tables_missing s pgdir va n) \<le> length xs"
  shows "\<exists>t ys. boot_map_loop n pgdir va pa perm s = Returns () t \<and> page_inv t ys \<and> wf_pgdir t ys pgdir \<and> pages_only s t \<and>
    (\<forall>i < n. mapped t pgdir (va + of_nat i * PGSIZE) = Some ((pa + of_nat i * PGSIZE) OR perm OR PTE_P)) \<and>
    (\<forall>va'. ordinary va' \<longrightarrow> (\<forall>i < n. PGNUM va' \<noteq> PGNUM (va + of_nat i * PGSIZE)) \<longrightarrow> mapped t pgdir va' = mapped s pgdir va') \<and>
    (\<forall>i < length (pages s). i \<notin> set xs \<longrightarrow> pp_ref (pages t ! i) = pp_ref (pages s ! i)) \<and> set ys \<subseteq> set xs \<and>
    length ys + card (tables_missing s pgdir va n) = length xs \<and>
    as_pages t pgdir \<subseteq> as_pages s pgdir \<union> (set xs - set ys) \<and> (\<forall>d. table_present s pgdir d \<longrightarrow> pde_of t pgdir d = pde_of s pgdir d)"
  using assms
proof (induction n arbitrary: s xs va pa)
  case 0
  then show ?case by (auto simp: tables_missing_def)
next
  case (Suc n)
  have o: "ordinary va" using Suc.prems(4) by (auto dest: spec[of _ 0])
  obtain s1 t1 xs1 where w: "pgdir_walk pgdir va True s = Returns (Some (pte_kva s1 pgdir va)) s1"
    and st: "store32 (pte_kva s1 pgdir va) (pa OR perm OR PTE_P) s1 = Returns () t1"
    and i1: "page_inv t1 xs1" and wf1: "wf_pgdir t1 xs1 pgdir" and po1: "pages_only s t1"
    and c1: "card (tables_missing t1 pgdir (va + PGSIZE) n) \<le> length xs1"
    and m1: "\<forall>va'. ordinary va' \<longrightarrow> mapped t1 pgdir va' = (if PGNUM va' = PGNUM va then Some (pa OR perm OR PTE_P) else mapped s pgdir va')"
    and r1: "\<forall>i < length (pages s). i \<notin> set xs \<longrightarrow> pp_ref (pages t1 ! i) = pp_ref (pages s ! i)" and sub1: "set xs1 \<subseteq> set xs"
    and l1: "length xs1 + card (tables_missing s pgdir va (Suc n)) = length xs + card (tables_missing t1 pgdir (va + PGSIZE) n)"
    and as1: "as_pages t1 pgdir \<subseteq> as_pages s pgdir \<union> (set xs - set xs1)" and pd1: "\<forall>d. table_present s pgdir d \<longrightarrow> pde_of t1 pgdir d = pde_of s pgdir d"
    using boot_step[OF Suc.prems(1,2) o Suc.prems(5), of pa perm] by (elim exE conjE) (rule that)
  have sh: "va + PGSIZE + of_nat i * PGSIZE = va + of_nat (Suc i) * PGSIZE" "pa + PGSIZE + of_nat i * PGSIZE = pa + of_nat (Suc i) * PGSIZE" for i
    by (simp_all add: algebra_simps)
  have o1: "\<forall>i < n. ordinary (va + PGSIZE + of_nat i * PGSIZE)" using Suc.prems(4) unfolding sh by blast
  have n1: "n \<le> 2 ^ 20" using Suc.prems(3) by simp
  obtain t ys where t: "boot_map_loop n pgdir (va + PGSIZE) (pa + PGSIZE) perm t1 = Returns () t" "page_inv t ys" "wf_pgdir t ys pgdir" "pages_only t1 t"
    "\<forall>i < n. mapped t pgdir (va + PGSIZE + of_nat i * PGSIZE) = Some ((pa + PGSIZE + of_nat i * PGSIZE) OR perm OR PTE_P)"
    "\<forall>va'. ordinary va' \<longrightarrow> (\<forall>i < n. PGNUM va' \<noteq> PGNUM (va + PGSIZE + of_nat i * PGSIZE)) \<longrightarrow> mapped t pgdir va' = mapped t1 pgdir va'"
    "\<forall>i < length (pages t1). i \<notin> set xs1 \<longrightarrow> pp_ref (pages t ! i) = pp_ref (pages t1 ! i)" "set ys \<subseteq> set xs1"
    and l2: "length ys + card (tables_missing t1 pgdir (va + PGSIZE) n) = length xs1"
    and as2: "as_pages t pgdir \<subseteq> as_pages t1 pgdir \<union> (set xs1 - set ys)" and pd2: "\<forall>d. table_present t1 pgdir d \<longrightarrow> pde_of t pgdir d = pde_of t1 pgdir d"
    using Suc.IH[OF wf1 i1 n1 o1 c1, of "pa + PGSIZE"] by (elim exE conjE) (rule that)
  have run: "boot_map_loop (Suc n) pgdir va pa perm s = Returns () t"
    using t(1) by (simp only: boot_map_loop.simps kbind_Returns[of "pgdir_walk pgdir va True", OF w] option.case
      kseq_Returns[of "store32 _ _", OF st])
  have first: "mapped t pgdir va = Some (pa OR perm OR PTE_P)"
  proof -
    have "PGNUM va \<noteq> PGNUM (va + of_nat (Suc i) * PGSIZE)" if "i < n" for i
      using region_page_inj[of 0 "Suc i" va] that Suc.prems(3) by auto
    then have "mapped t pgdir va = mapped t1 pgdir va" using t(6) o unfolding sh by blast
    then show ?thesis using m1 o by simp
  qed
  have "mapped t pgdir (va + of_nat i * PGSIZE) = Some ((pa + of_nat i * PGSIZE) OR perm OR PTE_P)" if "i < Suc n" for i
  proof (cases i)
    case 0
    then show ?thesis using first by simp
  next
    case (Suc j)
    then show ?thesis using t(5) that unfolding sh by blast
  qed
  moreover have "mapped t pgdir va' = mapped s pgdir va'" if "ordinary va'" "\<forall>i < Suc n. PGNUM va' \<noteq> PGNUM (va + of_nat i * PGSIZE)" for va'
  proof -
    have "\<forall>i < n. PGNUM va' \<noteq> PGNUM (va + PGSIZE + of_nat i * PGSIZE)" using that(2) unfolding sh by blast
    moreover have "PGNUM va' \<noteq> PGNUM va" using that(2) by (auto dest: spec[of _ 0])
    ultimately show ?thesis using t(6) m1 that(1) by simp
  qed
  moreover have "length (pages t1) = length (pages s)" using po1 by (simp add: pages_only_def)
  then have "\<forall>i < length (pages s). i \<notin> set xs \<longrightarrow> pp_ref (pages t ! i) = pp_ref (pages s ! i)" using r1 t(7) sub1 by auto
  moreover have "length ys + card (tables_missing s pgdir va (Suc n)) = length xs" using l1 l2 by linarith
  moreover have "as_pages t pgdir \<subseteq> as_pages s pgdir \<union> (set xs - set ys)" using as1 as2 sub1 t(8) by blast
  moreover have "pde_of t pgdir d = pde_of s pgdir d" if "table_present s pgdir d" for d
    using that pd1 pd2 by (simp add: table_present_def)
  ultimately show ?case using run t(2,3,8) pages_only_trans[OF po1 t(4)] sub1 by (intro exI[of _ t] exI[of _ ys]) auto
qed

text \<open>The pages taken from the free list are the new tables.\<close>

lemma new_tables:
  assumes "wf_pgdir s xs pgdir" "page_inv s xs" "page_inv t ys" "wf_pgdir t ys pgdir" "set ys \<subseteq> set xs"
    "length ys + card (tables_missing s pgdir va n) = length xs" "as_pages t pgdir \<subseteq> as_pages s pgdir \<union> (set xs - set ys)"
    "\<forall>d. table_present s pgdir d \<longrightarrow> pde_of t pgdir d = pde_of s pgdir d" "\<forall>d \<in> tables_missing s pgdir va n. table_present t pgdir d"
  shows "set xs - set ys = table_page t pgdir ` tables_missing s pgdir va n"
proof -
  let ?M = "tables_missing s pgdir va n"
  have sub: "table_page t pgdir d \<in> set xs - set ys" if d: "d \<in> ?M" for d
  proof (rule ccontr)
    assume n: "table_page t pgdir d \<notin> set xs - set ys"
    have tp: "table_present t pgdir d" using assms(9) d by blast
    then have "table_page t pgdir d \<in> as_pages s pgdir" using assms(7) n by (auto simp: as_pages_def)
    moreover have "table_page t pgdir d \<noteq> dir_page pgdir" using assms(4) tp by (auto simp: wf_pgdir_def)
    ultimately obtain d' where d': "table_present s pgdir d'" "table_page t pgdir d = table_page s pgdir d'" by (auto simp: as_pages_def)
    then have "table_present t pgdir d'" "table_page t pgdir d' = table_page s pgdir d'"
      using assms(8) by (simp_all add: table_present_def table_page_def)
    then have "d = d'" using assms(4) tp d'(2) by (auto simp: wf_pgdir_def)
    then show False using d d'(1) by (simp add: tables_missing_def)
  qed
  have inj: "inj_on (table_page t pgdir) ?M"
    by (rule inj_onI) (use assms(4,9) in \<open>auto simp: wf_pgdir_def\<close>)
  have "card (set xs - set ys) = card (set xs) - card (set ys)" by (rule card_Diff_subset) (use assms(5) in auto)
  then have "card (set xs - set ys) = card (table_page t pgdir ` ?M)"
    using card_image[OF inj] assms(6) distinct_card[OF page_inv_bounds(3)[OF assms(2)]] distinct_card[OF page_inv_bounds(3)[OF assms(3)]] by simp
  moreover have "table_page t pgdir ` ?M \<subseteq> set xs - set ys" using sub by auto
  ultimately show ?thesis using card_subset_eq[of "set xs - set ys" "table_page t pgdir ` ?M"] by simp
qed

text \<open>
  C26. \<open>boot_map_region\<close> maps the region: with a free page for every page table that is missing, it does not
  panic; afterwards page \<open>i\<close> of the region is mapped to page \<open>i\<close> of physical memory from \<open>pa\<close> with the permissions and the present
  bit, all other addresses are mapped as before, the reference counts of pages in use are as before, the pages taken from the free list are exactly
  the new tables, one for each that was missing, and the invariants of the allocator and of the directory hold again.
\<close>

theorem boot_map_region_maps:
  assumes "wf_pgdir s xs pgdir" "page_inv s xs" "\<forall>i < unat (PGNUM sz). ordinary (va + of_nat i * PGSIZE)"
    "card (tables_missing s pgdir va (unat (PGNUM sz))) \<le> length xs"
  shows "\<exists>t ys. boot_map_region pgdir va sz pa perm s = Returns () t \<and> page_inv t ys \<and> wf_pgdir t ys pgdir \<and>
    (\<forall>i < unat (PGNUM sz). mapped t pgdir (va + of_nat i * PGSIZE) = Some ((pa + of_nat i * PGSIZE) OR perm OR PTE_P)) \<and>
    (\<forall>va'. ordinary va' \<longrightarrow> (\<forall>i < unat (PGNUM sz). PGNUM va' \<noteq> PGNUM (va + of_nat i * PGSIZE)) \<longrightarrow>
       mapped t pgdir va' = mapped s pgdir va') \<and>
    (\<forall>i < length (pages s). i \<notin> set xs \<longrightarrow> pp_ref (pages t ! i) = pp_ref (pages s ! i)) \<and> envs t = envs s \<and>
    set ys \<subseteq> set xs \<and> length ys + card (tables_missing s pgdir va (unat (PGNUM sz))) = length xs \<and>
    set xs - set ys = table_page t pgdir ` tables_missing s pgdir va (unat (PGNUM sz))"
proof -
  let ?n = "unat (PGNUM sz)"
  have "unat sz < 2 ^ 20 * 4096" using unat_u32_less[of sz] by simp
  then have n: "?n \<le> 2 ^ 20" unfolding unat_PGNUM by (intro less_imp_le less_mult_imp_div_less)
  obtain t ys where t: "boot_map_loop ?n pgdir va pa perm s = Returns () t" "page_inv t ys" "wf_pgdir t ys pgdir" "pages_only s t"
    "\<forall>i < ?n. mapped t pgdir (va + of_nat i * PGSIZE) = Some ((pa + of_nat i * PGSIZE) OR perm OR PTE_P)"
    "\<forall>va'. ordinary va' \<longrightarrow> (\<forall>i < ?n. PGNUM va' \<noteq> PGNUM (va + of_nat i * PGSIZE)) \<longrightarrow> mapped t pgdir va' = mapped s pgdir va'"
    "\<forall>i < length (pages s). i \<notin> set xs \<longrightarrow> pp_ref (pages t ! i) = pp_ref (pages s ! i)" "set ys \<subseteq> set xs"
    "length ys + card (tables_missing s pgdir va ?n) = length xs" "as_pages t pgdir \<subseteq> as_pages s pgdir \<union> (set xs - set ys)"
    "\<forall>d. table_present s pgdir d \<longrightarrow> pde_of t pgdir d = pde_of s pgdir d"
    using boot_map_loop_ok[OF assms(1,2) n assms(3,4), of pa perm] by (elim exE conjE) (rule that)
  have "table_present t pgdir d" if d: "d \<in> tables_missing s pgdir va ?n" for d
  proof -
    obtain i where i: "i < ?n" "d = unat (PDX (va + of_nat i * PGSIZE))" using d by (auto simp: tables_missing_def)
    then have "mapped t pgdir (va + of_nat i * PGSIZE) \<noteq> None" "ordinary (va + of_nat i * PGSIZE)" using t(5) assms(3) by simp_all
    then show ?thesis unfolding i(2) by (auto simp: mapped_def pte_of_def table_present_def ordinary_def Let_def split: if_splits)
  qed
  then have "set xs - set ys = table_page t pgdir ` tables_missing s pgdir va ?n"
    using new_tables[OF assms(1,2) t(2,3,8,9,10,11)] by blast
  then show ?thesis unfolding boot_map_region_def using pages_only_fields(1)[OF t(4)] t by blast
qed

theorem boot_map_region_maps_witness:
  "\<exists>t. boot_map_region 0xF0001000 0x800000 0x2000 0x3000 2 small_machine = Returns () t \<and>
     mapped t 0xF0001000 0x801000 = Some 0x4003"
proof -
  have n: "unat (PGNUM 0x2000) = 2" by (simp add: unat_PGNUM)
  have i2: "i < 2 \<Longrightarrow> i = 0 \<or> i = Suc 0" for i :: nat by auto
  have o: "\<forall>i < unat (PGNUM 0x2000). ordinary (0x800000 + of_nat i * PGSIZE)"
    unfolding n by (auto dest!: i2 simp: ordinary_def unat_PDX)
  have "tables_missing small_machine 0xF0001000 0x800000 2 \<subseteq> {2}"
    by (auto simp: tables_missing_def unat_PDX dest!: i2)
  then have "card (tables_missing small_machine 0xF0001000 0x800000 2) \<le> card {2 :: nat}" by (intro card_mono) simp_all
  then have c: "card (tables_missing small_machine 0xF0001000 0x800000 (unat (PGNUM 0x2000))) \<le> length [2, 3 :: nat]"
    unfolding n by simp
  obtain t where t: "boot_map_region 0xF0001000 0x800000 0x2000 0x3000 2 small_machine = Returns () t"
    "\<forall>i < unat (PGNUM 0x2000). mapped t 0xF0001000 (0x800000 + of_nat i * PGSIZE) = Some ((0x3000 + of_nat i * PGSIZE) OR 2 OR PTE_P)"
    using boot_map_region_maps[OF small_wf small_inv o c, of "0x3000" 2] by blast
  have "mapped t 0xF0001000 (0x800000 + of_nat 1 * PGSIZE) = Some ((0x3000 + of_nat 1 * PGSIZE) OR 2 OR PTE_P)"
    by (rule t(2)[unfolded n, rule_format]) simp
  then show ?thesis using t(1) by simp
qed

end
