(* ===== verification/Load_Program.thy ===== *)
theory Load_Program
  imports User_Space
begin

text \<open>
  What \<open>load_icode\<close> and \<open>env_create\<close> of \<^verbatim>\<open>kern/env.c\<close> leave in memory. \<open>seg_byte\<close> gives the contents that a program header asks for,
  \<open>program_ok\<close> the files that can be loaded (the assumptions the comment of \<open>load_icode\<close> makes), and the lemmas follow the loop over the
  program headers down to the new environment's memory.
\<close>

section \<open>Programs\<close>

text \<open>The pages of a segment, and the byte that a loaded segment has at an address, if it covers it.\<close>

definition seg_pages :: "Proghdr \<Rightarrow> nat list" where
  "seg_pages h = (if p_type h = ELF_PROG_LOAD then region_pages (unat (p_va h)) (unat (p_memsz h)) else [])"

definition seg_byte :: "mem \<Rightarrow> u32 \<Rightarrow> Proghdr \<Rightarrow> u32 \<Rightarrow> u8 option" where
  "seg_byte m binary h a =
     (if p_type h \<noteq> ELF_PROG_LOAD then None
      else if in_range (p_va h) (unat (p_filesz h)) a then Some (m (binary + p_offset h + (a - p_va h) - KERNBASE))
      else if in_range (p_va h) (unat (p_memsz h)) a then Some 0 else None)"

definition segment_ok :: "nat \<Rightarrow> Proghdr \<Rightarrow> bool" where
  "segment_ok sz h \<longleftrightarrow> (p_type h = ELF_PROG_LOAD \<longrightarrow> unat (p_filesz h) \<le> unat (p_memsz h) \<and>
     unat (p_offset h) + unat (p_filesz h) \<le> sz \<and> unat (p_va h) + unat (p_memsz h) \<le> unat UTOP)"

definition headers :: "mem \<Rightarrow> u32 \<Rightarrow> Proghdr list" where
  "headers m binary = (let elf = elf_at m (binary - KERNBASE) in
     map (\<lambda>i. proghdr_at m (binary + e_phoff elf + 32 * of_nat i - KERNBASE)) [0..<unat (e_phnum elf)])"

text \<open>The page of the initial stack.\<close>

definition stack_page :: nat where
  "stack_page = unat (PGNUM (USTACKTOP - PGSIZE))"

text \<open>
  A program of \<open>sz\<close> bytes that can be loaded: the headers and the contents of its segments are in the file, the
  segments are in user space, and no two of them and the stack touch the same page.
\<close>

definition program_ok :: "mem \<Rightarrow> u32 \<Rightarrow> nat \<Rightarrow> bool" where
  "program_ok m binary sz \<longleftrightarrow> (let elf = elf_at m (binary - KERNBASE) in
     KERNBASE \<le> binary \<and> unat binary + sz < 2 ^ 32 \<and> 52 \<le> sz \<and>
     unat (e_phoff elf) + 32 * unat (e_phnum elf) \<le> sz \<and>
     (\<forall>h \<in> set (headers m binary). segment_ok sz h) \<and>
     distinct (stack_page # concat (map seg_pages (headers m binary))))"

text \<open>No byte of the file lies in one of the pages \<open>P\<close>.\<close>

definition file_outside :: "nat set \<Rightarrow> u32 \<Rightarrow> nat \<Rightarrow> bool" where
  "file_outside P binary sz \<longleftrightarrow> (\<forall>a. in_range binary sz a \<longrightarrow> unat (PGNUM (a - KERNBASE)) \<notin> P)"

text \<open>The state after the first \<open>k\<close> program headers.\<close>

definition loaded :: "u32 \<Rightarrow> u32 \<Rightarrow> kstate \<Rightarrow> nat list \<Rightarrow> nat \<Rightarrow> kstate \<Rightarrow> nat list \<Rightarrow> bool" where
  "loaded pgdir binary s xs k t ys \<longleftrightarrow> (let hs = take k (headers (pmem s) binary) in
     grows pgdir s xs t ys \<and> length xs \<le> length ys + 2 * length (concat (map seg_pages hs)) \<and>
     (\<forall>a < UTOP. unat (PGNUM a) \<notin> set (concat (map seg_pages hs)) \<longrightarrow> mapped t pgdir a = mapped s pgdir a) \<and>
     (\<forall>h \<in> set hs. \<forall>a b. seg_byte (pmem s) binary h a = Some b \<longrightarrow> user_byte t pgdir a = Some b))"

text \<open>What \<open>load_icode\<close> leaves: the program in the memory of the environment, its entry point and its stack.\<close>

definition program_in :: "kstate \<Rightarrow> u32 \<Rightarrow> mem \<Rightarrow> u32 \<Rightarrow> bool" where
  "program_in t pgdir m binary \<longleftrightarrow>
     (\<forall>h \<in> set (headers m binary). \<forall>a b. seg_byte m binary h a = Some b \<longrightarrow> user_byte t pgdir a = Some b) \<and>
     (\<forall>a. unat (PGNUM a) = stack_page \<longrightarrow> user_access t pgdir (PTE_W OR PTE_U) a) \<and>
     (\<forall>a < UTOP. unat (PGNUM a) \<notin> set (stack_page # concat (map seg_pages (headers m binary))) \<longrightarrow> mapped t pgdir a = None)"

section \<open>A machine with a program\<close>

text \<open>
  Nine pages: page 1 is the kernel's directory, pages 2 to 7 are free, page 8 holds a program of one segment, four
  bytes of code and four of uninitialised data at \<open>0x800020\<close>.
\<close>

definition program_bytes :: mem where
  "program_bytes = (\<lambda>_. 0)(0x8000 := 0x7F, 0x8001 := 0x45, 0x8002 := 0x4C, 0x8003 := 0x46,
     0x8018 := 0x20, 0x801A := 0x80, 0x801C := 0x34, 0x802C := 1, 0x8034 := 1, 0x8038 := 0x60, 0x803C := 0x20, 0x803E := 0x80,
     0x8044 := 4, 0x8048 := 8, 0x8060 := 0xCC, 0x8061 := 0x90, 0x8062 := 0x90, 0x8063 := 0xC3)"

definition load_machine :: kstate where
  "load_machine = small_machine\<lparr>npages := 9, pmem := program_bytes, page_free_list := Some 2,
     pages := [\<lparr>pp_link = None, pp_ref = 1\<rparr>, \<lparr>pp_link = None, pp_ref = 1\<rparr>, \<lparr>pp_link = Some 3, pp_ref = 0\<rparr>,
       \<lparr>pp_link = Some 4, pp_ref = 0\<rparr>, \<lparr>pp_link = Some 5, pp_ref = 0\<rparr>, \<lparr>pp_link = Some 6, pp_ref = 0\<rparr>,
       \<lparr>pp_link = Some 7, pp_ref = 0\<rparr>, \<lparr>pp_link = None, pp_ref = 0\<rparr>, \<lparr>pp_link = None, pp_ref = 1\<rparr>]\<rparr>"

lemma file_kept:
  assumes "file_outside P binary sz" "mem_outside P s t" "k < sz" "sz < 2 ^ 32"
  shows "pmem t (binary + of_nat k - KERNBASE) = pmem s (binary + of_nat k - KERNBASE)"
proof -
  have "in_range binary sz (binary + of_nat k)" using assms(3,4) by (simp add: in_range_def unat_of_nat)
  then show ?thesis using assms(1,2) by (simp add: file_outside_def mem_outside_def)
qed

text \<open>Reads of the file are the same before and after.\<close>

lemma file_bytes:
  assumes "file_outside P binary sz" "mem_outside P s t" "k + n \<le> sz" "sz < 2 ^ 32"
  defines "b \<equiv> binary + of_nat k - KERNBASE"
  shows "unat w < n \<Longrightarrow> pmem t (b + w) = pmem s (b + w)"
proof -
  assume "unat w < n"
  then have k: "k + unat w < sz" using assms(3) by simp
  have e: "b + w = binary + of_nat (k + unat w) - KERNBASE" by (simp add: b_def algebra_simps)
  show ?thesis unfolding e by (rule file_kept[OF assms(1,2) k assms(4)])
qed

lemma proghdr_kept:
  assumes "file_outside P binary sz" "mem_outside P s t" "k + 32 \<le> sz" "sz < 2 ^ 32"
  shows "proghdr_at (pmem t) (binary + of_nat k - KERNBASE) = proghdr_at (pmem s) (binary + of_nat k - KERNBASE)"
  using file_bytes[OF assms] file_bytes[OF assms, of 0] by (simp add: proghdr_at_def read32_def add.assoc)

lemma elf_kept:
  assumes "file_outside P binary sz" "mem_outside P s t" "52 \<le> sz" "sz < 2 ^ 32"
  shows "elf_at (pmem t) (binary - KERNBASE) = elf_at (pmem s) (binary - KERNBASE)"
proof -
  have k: "pmem t (binary - KERNBASE + w) = pmem s (binary - KERNBASE + w)" if "unat w < 52" for w
    using file_bytes[OF assms(1,2) _ assms(4), of 0 52 w] assms(3) that by simp
  moreover have "map (\<lambda>i. pmem t (binary - KERNBASE + 4 + of_nat i)) [0..<12] =
      map (\<lambda>i. pmem s (binary - KERNBASE + 4 + of_nat i)) [0..<12]"
    by (rule map_cong[OF refl]) (simp add: add.assoc k unat_word_ariths unat_of_nat)
  ultimately show ?thesis using k[of 0] by (simp add: elf_at_def read32_def read16_def add.assoc)
qed

lemma range_page:
  assumes "in_range va n a" "unat va + n \<le> unat UTOP"
  shows "unat (PGNUM a) \<in> set (region_pages (unat va) n)" and "a < UTOP"
proof -
  have n: "0 < n" using assms(1) by (auto simp: in_range_def)
  have ut: "unat UTOP = 977920 * 4096" by (simp add: UTOP_def KERNBASE_def)
  then have b: "unat va + n \<le> 4294963200" using assms(2) by linarith
  show "unat (PGNUM a) \<in> set (region_pages (unat va) n)"
    using range_bounds[OF b n] assms(1) unfolding region_pages_def set_upt by blast
  have "unat a < unat va + n" using unat_diff_range[OF assms(1)] b by simp
  then show "a < UTOP" using assms(2) by (simp add: word_less_nat_alt)
qed

lemma range_tail:
  assumes "f \<le> n" "unat va + n \<le> unat UTOP"
  shows "in_range (va + of_nat f) (n - f) a \<longleftrightarrow> in_range va n a \<and> \<not> in_range va f a"
proof -
  have ut: "unat UTOP < 2 ^ 32" using unat_u32_less[of UTOP] by simp
  then have f: "unat (of_nat f :: u32) = f" using assms by (intro unat_of_nat_u32) linarith
  define w where "w = a - va"
  have e: "a - (va + of_nat f) = w - of_nat f" by (simp add: w_def algebra_simps)
  have n: "n < 4294967296" using assms(2) unat_u32_less[of UTOP] by linarith
  have "unat (w - of_nat f) = (if f \<le> unat w then unat w - f else unat w + 4294967296 - f)"
    using unat_sub_if'[of w "of_nat f"] by (simp add: f)
  then show ?thesis unfolding in_range_def e w_def[symmetric] using assms(1) n unat_u32_less[of w]
    by (cases "f \<le> unat w") auto
qed

lemma load_segment_ok:
  assumes us: "user_space s xs pgdir" and c: "cr3 s + KERNBASE = pgdir"
    and e: "e < length (envs s)" "env_pgdir (envs s ! e) = pgdir"
    and h: "proghdr_at (pmem s) (ph - KERNBASE) = h" and ok: "segment_ok sz h"
    and um: "\<forall>a. unat (PGNUM a) \<in> set (seg_pages h) \<longrightarrow> mapped s pgdir a = None"
    and l: "2 * length (seg_pages h) \<le> length xs"
    and f: "KERNBASE \<le> binary" "unat binary + sz < 2 ^ 32" "file_outside (footprint s xs pgdir) binary sz"
  shows "\<exists>t ys. load_segment e binary ph s = Returns () t \<and> grows pgdir s xs t ys \<and>
    length xs \<le> length ys + 2 * length (seg_pages h) \<and>
    (\<forall>a. ordinary a \<longrightarrow> unat (PGNUM a) \<notin> set (seg_pages h) \<longrightarrow> mapped t pgdir a = mapped s pgdir a) \<and>
    (\<forall>a < UTOP. unat (PGNUM a) \<notin> set (seg_pages h) \<longrightarrow> user_byte t pgdir a = user_byte s pgdir a) \<and>
    (\<forall>a b. seg_byte (pmem s) binary h a = Some b \<longrightarrow> user_byte t pgdir a = Some b)"
proof (cases "p_type h = ELF_PROG_LOAD")
  case False
  then have "load_segment e binary ph s = Returns () s" using h by (simp add: load_segment_def)
  then show ?thesis using grows_refl[OF us] False by (auto simp: seg_pages_def seg_byte_def)
next
  case True
  let ?va = "p_va h" and ?fs = "unat (p_filesz h)" and ?ms = "unat (p_memsz h)"
  let ?R = "region_pages (unat ?va) ?ms"
  have R: "seg_pages h = ?R" using True by (simp add: seg_pages_def)
  have fm: "?fs \<le> ?ms" and os: "unat (p_offset h) + ?fs \<le> sz" and u: "unat ?va + ?ms \<le> unat UTOP"
    using ok True by (simp_all add: segment_ok_def)
  obtain s1 ys where r1: "region_alloc e ?va (p_memsz h) s = Returns () s1" and g1: "grows pgdir s xs s1 ys"
    and l1: "length xs \<le> length ys + 2 * length ?R"
    and w1: "\<forall>a. unat (PGNUM a) \<in> set ?R \<longrightarrow> writable s1 pgdir a"
    and m1: "\<forall>a. ordinary a \<longrightarrow> unat (PGNUM a) \<notin> set ?R \<longrightarrow> mapped s1 pgdir a = mapped s pgdir a"
    and b1: "\<forall>a < UTOP. unat (PGNUM a) \<notin> set ?R \<longrightarrow> user_byte s1 pgdir a = user_byte s pgdir a"
    using region_ok[OF us e u um[unfolded R] l[unfolded R]] by (elim exE conjE) (rule that)
  have us1: "user_space s1 ys pgdir" and fp1: "footprint s1 ys pgdir \<subseteq> footprint s xs pgdir"
    and mo1: "mem_outside (footprint s xs pgdir) s s1" and c1: "cr3 s1 + KERNBASE = pgdir"
    using g1 c pages_only_fields(7)[of s s1] by (simp_all add: grows_def)
  have ut: "unat UTOP < 2 ^ 32" using unat_u32_less[of UTOP] by simp
  have ir: "in_range ?va ?ms (?va + of_nat i)" if "i < ?ms" for i
    using that by (simp add: in_range_def unat_of_nat)
  have wi: "writable s1 pgdir (?va + of_nat i)" if "i < ?ms" for i
    using w1 range_page(1)[OF ir[OF that] u] by blast
  have bi: "binary + p_offset h + of_nat i = binary + of_nat (unat (p_offset h) + i)" for i by (simp add: add.assoc)
  have src: "\<forall>i < ?fs. KERNBASE \<le> binary + p_offset h + of_nat i \<and>
      unat (PGNUM (binary + p_offset h + of_nat i - KERNBASE)) \<notin> footprint s1 ys pgdir"
  proof (intro allI impI)
    fix i
    assume i: "i < ?fs"
    let ?k = "unat (p_offset h) + i"
    have k: "?k < sz" "unat binary + ?k < 2 ^ 32" using i os f(2) by linarith+
    then have uk: "unat (of_nat ?k :: u32) = ?k" by (intro unat_of_nat_u32) linarith
    then have "unat (binary + of_nat ?k) = unat binary + ?k" using k(2) by (simp add: unat_word_ariths)
    then have "KERNBASE \<le> binary + of_nat ?k" using f(1) by (simp add: word_le_nat_alt)
    moreover have "in_range binary sz (binary + of_nat ?k)" using uk k(1) by (simp add: in_range_def)
    then have "unat (PGNUM (binary + of_nat ?k - KERNBASE)) \<notin> footprint s xs pgdir" using f(3) by (simp add: file_outside_def)
    ultimately show "KERNBASE \<le> binary + p_offset h + of_nat i \<and>
      unat (PGNUM (binary + p_offset h + of_nat i - KERNBASE)) \<notin> footprint s1 ys pgdir" unfolding bi using fp1 by blast
  qed
  have u2: "unat ?va + unat (p_filesz h) \<le> unat UTOP" using u fm by linarith
  have w2: "\<forall>i < unat (p_filesz h). writable s1 pgdir (?va + of_nat i)" using wi fm by simp
  obtain s2 where r2: "vmemcpy ?va (binary + p_offset h) (p_filesz h) s1 = Returns () s2" and g2: "grows pgdir s1 ys s2 ys"
    and m2: "\<forall>a. ordinary a \<longrightarrow> mapped s2 pgdir a = mapped s1 pgdir a"
    and b2: "\<forall>a < UTOP. user_byte s2 pgdir a = (if in_range ?va ?fs a
       then Some (pmem s1 (binary + p_offset h + (a - ?va) - KERNBASE)) else user_byte s1 pgdir a)"
    using vmemcpy_ok[OF us1 c1 u2 w2 src] by (elim exE conjE) (rule that)
  have us2: "user_space s2 ys pgdir" and c2: "cr3 s2 + KERNBASE = pgdir"
    using g2 c1 pages_only_fields(7)[of s1 s2] by (simp_all add: grows_def)
  have fs: "?va + p_filesz h = ?va + of_nat ?fs" by simp
  have "unat ?va + ?fs < 2 ^ 32" using u2 ut by linarith
  then have uf: "unat (?va + p_filesz h) = unat ?va + ?fs" by (simp add: unat_word_ariths)
  have un: "unat (p_memsz h - p_filesz h) = ?ms - ?fs" using fm by (simp add: unat_sub_if')
  have u3: "unat (?va + p_filesz h) + unat (p_memsz h - p_filesz h) \<le> unat UTOP" unfolding uf un using u fm by linarith
  have w3: "\<forall>i < unat (p_memsz h - p_filesz h). writable s2 pgdir (?va + p_filesz h + of_nat i)"
  proof (intro allI impI)
    fix i
    assume i: "i < unat (p_memsz h - p_filesz h)"
    have e: "?va + p_filesz h + of_nat i = ?va + of_nat (?fs + i)" by (simp add: add.assoc)
    have j: "?fs + i < ?ms" using i un by linarith
    have "mapped s2 pgdir (?va + of_nat (?fs + i)) = mapped s1 pgdir (?va + of_nat (?fs + i))"
      using m2 user_ordinary[OF range_page(2)[OF ir[OF j] u]] by blast
    then show "writable s2 pgdir (?va + p_filesz h + of_nat i)"
      using wi[OF j] unfolding e writable_def by (simp only:)
  qed
  obtain s3 where r3: "vmemset (?va + p_filesz h) 0 (p_memsz h - p_filesz h) s2 = Returns () s3"
    and g3: "grows pgdir s2 ys s3 ys"
    and m3: "\<forall>a. ordinary a \<longrightarrow> mapped s3 pgdir a = mapped s2 pgdir a"
    and b3: "\<forall>a < UTOP. user_byte s3 pgdir a = (if in_range (?va + p_filesz h) (?ms - ?fs) a then Some 0 else user_byte s2 pgdir a)"
    using vmemset_ok[OF us2 c2 u3 w3, of 0, unfolded un] by (elim exE conjE) (rule that)
  have "load_segment e binary ph s = Returns () s3"
    using h True r1 r2 r3 by (simp add: load_segment_def)
  moreover have "grows pgdir s xs s3 ys" by (rule grows_trans[OF g1 grows_trans[OF g2 g3]])
  moreover have nr: "\<not> in_range ?va ?ms a" "\<not> in_range ?va ?fs a" if "unat (PGNUM a) \<notin> set ?R" for a
  proof -
    show n: "\<not> in_range ?va ?ms a" using range_page(1)[OF _ u] that by blast
    then show "\<not> in_range ?va ?fs a" using fm by (simp add: in_range_def)
  qed
  moreover have tail: "in_range (?va + p_filesz h) (?ms - ?fs) a \<longleftrightarrow> in_range ?va ?ms a \<and> \<not> in_range ?va ?fs a" for a
    unfolding fs by (rule range_tail[OF fm u])
  moreover have "user_byte s3 pgdir a = Some b" if sb: "seg_byte (pmem s) binary h a = Some b" for a b
  proof -
    have ia: "in_range ?va ?ms a" using sb True fm by (auto simp: seg_byte_def in_range_def split: if_splits)
    have a: "a < UTOP" using range_page(2)[OF ia u] .
    have "pmem s1 (binary + p_offset h + (a - ?va) - KERNBASE) = pmem s (binary + p_offset h + (a - ?va) - KERNBASE)"
      if "in_range ?va ?fs a"
    proof -
      have i: "unat (a - ?va) < ?fs" using that by (simp add: in_range_def)
      have e: "binary + p_offset h + (a - ?va) = binary + of_nat (unat (p_offset h) + unat (a - ?va))" by (simp add: add.assoc)
      have "unat (p_offset h) + unat (a - ?va) < sz" "sz < 2 ^ 32" using i os f(2) by linarith+
      then show ?thesis unfolding e by (rule file_kept[OF f(3) mo1])
    qed
    then show ?thesis using sb True b2 b3 a ia tail[of a] by (auto simp: seg_byte_def split: if_splits)
  qed
  ultimately show ?thesis unfolding R using l1 m1 m2 m3 b1 b2 b3
    by (intro exI[of _ s3] exI[of _ ys] conjI allI impI) simp_all
qed

lemma seg_pages_user:
  assumes "segment_ok sz h" "unat (PGNUM a) \<in> set (seg_pages h)"
  shows "a < UTOP"
proof -
  have ld: "p_type h = ELF_PROG_LOAD" using assms(2) by (auto simp: seg_pages_def split: if_splits)
  have ut: "unat UTOP = 977920 * 4096" by (simp add: UTOP_def KERNBASE_def)
  have "unat (PGNUM a) < (unat (p_va h) + unat (p_memsz h) + 4095) div 4096"
    using assms(2) ld by (simp add: seg_pages_def region_pages_def)
  also have "\<dots> \<le> (977920 * 4096 + 4095) div 4096" using assms(1) ld ut by (intro div_le_mono) (simp add: segment_ok_def)
  finally show ?thesis by (simp add: UTOP_page)
qed

lemma seg_byte_page:
  assumes "segment_ok sz h" "seg_byte m binary h a = Some b"
  shows "unat (PGNUM a) \<in> set (seg_pages h)"
proof -
  have ld: "p_type h = ELF_PROG_LOAD" using assms(2) by (auto simp: seg_byte_def split: if_splits)
  have "in_range (p_va h) (unat (p_memsz h)) a"
    using assms ld by (auto simp: seg_byte_def segment_ok_def in_range_def split: if_splits)
  then show ?thesis using range_page(1) assms(1) ld by (simp add: seg_pages_def segment_ok_def)
qed

lemma seg_byte_kept:
  assumes "file_outside P binary sz" "mem_outside P s t" "segment_ok sz h" "sz < 2 ^ 32"
  shows "seg_byte (pmem t) binary h a = seg_byte (pmem s) binary h a"
proof -
  have "pmem t (binary + p_offset h + (a - p_va h) - KERNBASE) = pmem s (binary + p_offset h + (a - p_va h) - KERNBASE)"
    if "p_type h = ELF_PROG_LOAD" "in_range (p_va h) (unat (p_filesz h)) a"
  proof -
    have e: "binary + p_offset h + (a - p_va h) = binary + of_nat (unat (p_offset h) + unat (a - p_va h))" by (simp add: add.assoc)
    have "unat (p_offset h) + unat (a - p_va h) < sz" using that assms(3) by (simp add: segment_ok_def in_range_def)
    then show ?thesis unfolding e using assms(4) by (rule file_kept[OF assms(1,2)])
  qed
  then show ?thesis by (auto simp: seg_byte_def)
qed

lemma file_outside_mono: "file_outside P binary sz \<Longrightarrow> Q \<subseteq> P \<Longrightarrow> file_outside Q binary sz"
  by (auto simp: file_outside_def)

lemma program_okD:
  assumes "program_ok m binary sz"
  defines "elf \<equiv> elf_at m (binary - KERNBASE)"
  shows "KERNBASE \<le> binary" and "unat binary + sz < 2 ^ 32" and "sz < 2 ^ 32" and "52 \<le> sz"
    and "unat (e_phoff elf) + 32 * unat (e_phnum elf) \<le> sz"
    and "h \<in> set (headers m binary) \<Longrightarrow> segment_ok sz h"
    and "distinct (concat (map seg_pages (headers m binary)))"
    and "stack_page \<notin> set (concat (map seg_pages (headers m binary)))"
    and "length (headers m binary) = unat (e_phnum elf)"
proof -
  have p: "KERNBASE \<le> binary \<and> unat binary + sz < 2 ^ 32 \<and> 52 \<le> sz \<and>
     unat (e_phoff elf) + 32 * unat (e_phnum elf) \<le> sz \<and> (\<forall>h \<in> set (headers m binary). segment_ok sz h) \<and>
     distinct (stack_page # concat (map seg_pages (headers m binary)))"
    using assms(1) unfolding program_ok_def Let_def elf_def .
  then show "KERNBASE \<le> binary" "unat binary + sz < 2 ^ 32" "52 \<le> sz" "unat (e_phoff elf) + 32 * unat (e_phnum elf) \<le> sz"
    and "h \<in> set (headers m binary) \<Longrightarrow> segment_ok sz h" by blast+
  then show "sz < 2 ^ 32" by linarith
  show "distinct (concat (map seg_pages (headers m binary)))" "stack_page \<notin> set (concat (map seg_pages (headers m binary)))"
    using p unfolding distinct.simps by blast+
  show "length (headers m binary) = unat (e_phnum elf)"
    by (simp only: headers_def Let_def length_map length_upt elf_def diff_zero)
qed

lemma disjoint_take:
  assumes "distinct (concat (map f hs))" "k < length hs"
  shows "set (concat (map f (take k hs))) \<inter> set (f (hs ! k)) = {}"
    and "length (concat (map f (take k hs))) + length (f (hs ! k)) \<le> length (concat (map f hs))"
proof -
  have e: "concat (map f hs) = concat (map f (take k hs)) @ f (hs ! k) @ concat (map f (drop (Suc k) hs))"
    using arg_cong[OF id_take_nth_drop[OF assms(2)], of "\<lambda>l. concat (map f l)"]
    by (simp only: map_append list.map concat_append concat.simps)
  show "set (concat (map f (take k hs))) \<inter> set (f (hs ! k)) = {}"
    using assms(1) unfolding e distinct_append set_append by auto
  show "length (concat (map f (take k hs))) + length (f (hs ! k)) \<le> length (concat (map f hs))" unfolding e length_append by simp
qed

lemma loaded_step:
  assumes c: "cr3 s + KERNBASE = pgdir"
    and e: "e < length (envs s)" "env_pgdir (envs s ! e) = pgdir" and ok: "program_ok (pmem s) binary sz"
    and f: "file_outside (footprint s xs pgdir) binary sz" and um: "\<forall>a < UTOP. mapped s pgdir a = None"
    and l: "2 * length (concat (map seg_pages (headers (pmem s) binary))) \<le> length xs"
    and k: "k < length (headers (pmem s) binary)" and ld: "loaded pgdir binary s xs k t ys"
  defines "ph \<equiv> binary + e_phoff (elf_at (pmem s) (binary - KERNBASE)) + 32 * of_nat k"
  shows "\<exists>u zs. load_segment e binary ph t = Returns () u \<and> loaded pgdir binary s xs (Suc k) u zs"
proof -
  let ?hs = "headers (pmem s) binary" and ?elf = "elf_at (pmem s) (binary - KERNBASE)"
  let ?h = "?hs ! k" and ?T = "concat (map seg_pages (take k (headers (pmem s) binary)))"
  note p = program_okD[OF ok] and dj = disjoint_take[OF program_okD(7)[OF ok] k]
  have g: "grows pgdir s xs t ys" and lt: "length xs \<le> length ys + 2 * length ?T"
    and mt: "\<forall>a < UTOP. unat (PGNUM a) \<notin> set ?T \<longrightarrow> mapped t pgdir a = mapped s pgdir a"
    and bt: "\<forall>h \<in> set (take k ?hs). \<forall>a b. seg_byte (pmem s) binary h a = Some b \<longrightarrow> user_byte t pgdir a = Some b"
    using ld unfolding loaded_def Let_def by blast+
  have ust: "user_space t ys pgdir" and po: "pages_only s t" and fp: "footprint t ys pgdir \<subseteq> footprint s xs pgdir"
    and mo: "mem_outside (footprint s xs pgdir) s t" using g unfolding grows_def by blast+
  have sg: "segment_ok sz ?h" using p(6)[of ?h] k by simp
  have ct: "cr3 t + KERNBASE = pgdir" and et: "e < length (envs t)" "env_pgdir (envs t ! e) = pgdir"
    using c e pages_only_fields[OF po] by simp_all
  have hk: "proghdr_at (pmem t) (ph - KERNBASE) = ?h"
  proof -
    let ?o = "unat (e_phoff ?elf) + 32 * k"
    have kn: "k < unat (e_phnum ?elf)" using k p(9) by simp
    have ph: "ph = binary + of_nat ?o" by (simp add: ph_def add.assoc)
    have "?o + 32 \<le> sz" using p(5) kn by simp
    then have "proghdr_at (pmem t) (binary + of_nat ?o - KERNBASE) = proghdr_at (pmem s) (binary + of_nat ?o - KERNBASE)"
      using p(3) by (rule proghdr_kept[OF f mo])
    moreover have "?h = proghdr_at (pmem s) (ph - KERNBASE)"
      unfolding headers_def Let_def ph_def by (subst nth_map) (use kn in simp_all)
    ultimately show ?thesis unfolding ph by (simp only:)
  qed
  have ump: "\<forall>a. unat (PGNUM a) \<in> set (seg_pages ?h) \<longrightarrow> mapped t pgdir a = None"
  proof (intro allI impI)
    fix a
    assume a: "unat (PGNUM a) \<in> set (seg_pages ?h)"
    then have "unat (PGNUM a) \<notin> set ?T" using dj(1) by (metis disjoint_iff)
    then show "mapped t pgdir a = None" using mt um seg_pages_user[OF sg a] by simp
  qed
  have l2: "2 * length (seg_pages ?h) \<le> length ys" using lt l dj(2) by linarith
  obtain u zs where u: "load_segment e binary ph t = Returns () u" "grows pgdir t ys u zs"
    "length ys \<le> length zs + 2 * length (seg_pages ?h)"
    "\<forall>a. ordinary a \<longrightarrow> unat (PGNUM a) \<notin> set (seg_pages ?h) \<longrightarrow> mapped u pgdir a = mapped t pgdir a"
    "\<forall>a < UTOP. unat (PGNUM a) \<notin> set (seg_pages ?h) \<longrightarrow> user_byte u pgdir a = user_byte t pgdir a"
    "\<forall>a b. seg_byte (pmem t) binary ?h a = Some b \<longrightarrow> user_byte u pgdir a = Some b"
    using load_segment_ok[OF ust ct et hk sg ump l2 p(1,2) file_outside_mono[OF f fp]] by (elim exE conjE) (rule that)
  have tk: "take (Suc k) ?hs = take k ?hs @ [?h]" using k by (rule take_Suc_conv_app_nth)
  have "user_byte u pgdir a = Some b" if "h \<in> set (take (Suc k) ?hs)" "seg_byte (pmem s) binary h a = Some b" for h a b
  proof (cases "h \<in> set (take k ?hs)")
    case True
    then have hs: "segment_ok sz h" using p(6) in_set_takeD by fast
    have "unat (PGNUM a) \<in> set (seg_pages h)" by (rule seg_byte_page[OF hs that(2)])
    then have "unat (PGNUM a) \<notin> set (seg_pages ?h)" "a < UTOP"
      using dj(1) True seg_pages_user[OF hs] by auto
    then show ?thesis using u(5) bt True that(2) by simp
  next
    case False
    then have "h = ?h" using that(1) unfolding tk by simp
    then show ?thesis using that(2) u(6) seg_byte_kept[OF f mo sg p(3)] by simp
  qed
  moreover have "mapped u pgdir a = mapped s pgdir a"
    if "a < UTOP" "unat (PGNUM a) \<notin> set (concat (map seg_pages (take (Suc k) ?hs)))" for a
    using that u(4) mt user_ordinary[OF that(1)] unfolding tk by simp
  moreover have "length xs \<le> length zs + 2 * length (concat (map seg_pages (take (Suc k) ?hs)))"
    using lt u(3) unfolding tk by simp
  ultimately have "loaded pgdir binary s xs (Suc k) u zs"
    unfolding loaded_def Let_def using grows_trans[OF g u(2)] by blast
  then show ?thesis using u(1) by blast
qed

lemma load_segments_ok:
  assumes us: "user_space s xs pgdir" and c: "cr3 s + KERNBASE = pgdir"
    and e: "e < length (envs s)" "env_pgdir (envs s ! e) = pgdir" and ok: "program_ok (pmem s) binary sz"
    and f: "file_outside (footprint s xs pgdir) binary sz" and um: "\<forall>a < UTOP. mapped s pgdir a = None"
    and l: "2 * length (concat (map seg_pages (headers (pmem s) binary))) \<le> length xs"
  defines "n \<equiv> length (headers (pmem s) binary)"
  shows "\<exists>t ys. kfor [0..<n] (\<lambda>i. load_segment e binary (binary + e_phoff (elf_at (pmem s) (binary - KERNBASE)) + 32 * of_nat i)) s
      = Returns () t \<and> loaded pgdir binary s xs n t ys"
proof -
  let ?body = "\<lambda>i. load_segment e binary (binary + e_phoff (elf_at (pmem s) (binary - KERNBASE)) + 32 * of_nat i)"
  have "\<exists>t. kfor [0..<n] ?body s = Returns () t \<and> (\<exists>ys. loaded pgdir binary s xs (length [0..<n]) t ys)"
  proof (rule kfor_rule[where I = "\<lambda>ks t. \<exists>ys. loaded pgdir binary s xs (length ks) t ys"])
    show "\<exists>ys. loaded pgdir binary s xs (length []) s ys"
      using grows_refl[OF us] by (auto simp: loaded_def intro!: exI[of _ xs])
    fix ks i t
    assume ks: "ks @ [i] = take (Suc (length ks)) [0..<n]" and I: "\<exists>ys. loaded pgdir binary s xs (length ks) t ys"
    have i: "i = length ks" and il: "length ks < n"
      using arg_cong[OF ks, of length] arg_cong[OF ks, of "\<lambda>l. l ! length ks"] by (auto simp: nth_append)
    then show "\<exists>u. ?body i t = Returns () u \<and> (\<exists>ys. loaded pgdir binary s xs (length (ks @ [i])) u ys)"
      using loaded_step[OF c e ok f um l, of "length ks" t] I by (auto simp: n_def)
  qed
  then show ?thesis by auto
qed

lemma space_cong:
  assumes "pmem t = pmem s" "pages t = pages s" "page_free_list t = page_free_list s" "npages t = npages s"
    "curenv t = curenv s" "length (envs t) = length (envs s)"
  shows "user_space t xs pgdir = user_space s xs pgdir" and "footprint t xs pgdir = footprint s xs pgdir"
    and "owned t pgdir = owned s pgdir" and "user_byte t pgdir a = user_byte s pgdir a"
    and "mapped t pgdir a = mapped s pgdir a" and "writable t pgdir a = writable s pgdir a"
    and "user_pages t pgdir = user_pages s pgdir"
proof -
  show m: "mapped t pgdir a = mapped s pgdir a" for a by (rule mapped_cong[OF assms(1)])
  then show "user_byte t pgdir a = user_byte s pgdir a" "writable t pgdir a = writable s pgdir a"
    by (simp_all add: user_byte_def writable_def assms(1))
  note c = memory_cong[OF assms(1,2)]
  show "user_pages t pgdir = user_pages s pgdir" "owned t pgdir = owned s pgdir" by (rule c)+
  show "footprint t xs pgdir = footprint s xs pgdir" by (simp add: footprint_def c user_tables_cong[OF assms(1)])
  have "curenv_ok t = curenv_ok s" by (simp add: curenv_ok_def assms split: option.split)
  then show "user_space t xs pgdir = user_space s xs pgdir"
    using user_space_cong[of s xs pgdir t] user_space_cong[of t xs pgdir s] assms by (auto dest: user_spaceD(3))
qed

lemma unat_ucast_u16: "unat (ucast (w :: u16) :: u32) = unat w"
proof -
  have "unat w < 2 ^ 16" using unsigned_less[of w, where 'a = nat] by simp
  then have "unat w < 2 ^ 32" by simp
  then show ?thesis by (simp add: unsigned_ucast_eq take_bit_nat_eq_self)
qed

lemma mem_outside_cong: "pmem t = pmem s \<Longrightarrow> mem_outside P s u = mem_outside P t u" "pmem t = pmem s \<Longrightarrow> mem_outside P u s = mem_outside P u t"
  by (simp_all add: mem_outside_def)

lemma stack_region:
  "region_pages (unat (USTACKTOP - PGSIZE)) (unat PGSIZE) = [stack_page]"
  "unat (USTACKTOP - PGSIZE) + unat PGSIZE \<le> unat UTOP" "stack_page < 977920"
  by (simp_all add: region_pages_def stack_page_def UTOP_def KERNBASE_def unat_PGNUM)

lemma writable_access:
  assumes "writable s pgdir a" "a < UTOP"
  shows "user_access s pgdir (PTE_W OR PTE_U) a"
proof -
  obtain pte where pte: "mapped s pgdir a = Some pte" "pte AND (PTE_W OR PTE_U) = PTE_W OR PTE_U"
    using assms(1) by (auto simp: writable_def split: option.splits)
  then have p: "pte_of s pgdir a = Some pte" "pte AND PTE_P \<noteq> 0"
    by (auto simp: mapped_def split: option.splits if_splits)
  have "pte AND PTE_P = PTE_P"
  proof -
    have "bit (pte AND 1) n \<longleftrightarrow> n = 0 \<and> bit pte 0" for n by (auto simp: bit_simps)
    then have "bit pte 0" using p(2) by (auto simp: bit_eq_iff[of "pte AND 1" 0])
    then show ?thesis by (intro bit_word_eqI) (auto simp: bit_simps)
  qed
  then have "pte AND ((PTE_W OR PTE_U) OR PTE_P) = (PTE_W OR PTE_U) OR PTE_P"
    using pte(2) by (simp only: bit.conj_disj_distrib[of pte "PTE_W OR PTE_U" PTE_P])
  moreover have "a < ULIM" using assms(2) unfolding ULIM_page UTOP_page by simp
  ultimately show ?thesis using p(1) by (simp only: user_access_def option.case conj_absorb)
qed

lemma load_icode_ok:
  assumes us: "user_space s xs pgdir" and e: "e < length (envs s)" "env_pgdir (envs s ! e) = pgdir"
    and kp: "KERNBASE \<le> kern_pgdir s" and ok: "program_ok (pmem s) binary sz"
    and f: "file_outside (footprint s xs pgdir) binary sz" and um: "\<forall>a < UTOP. mapped s pgdir a = None"
    and l: "2 * Suc (length (concat (map seg_pages (headers (pmem s) binary)))) \<le> length xs"
  shows "\<exists>t ys. load_icode e binary s = Returns () t \<and> user_space t ys pgdir \<and> (owned s pgdir \<longrightarrow> owned t pgdir) \<and>
    mem_outside (footprint s xs pgdir) s t \<and> set ys \<union> user_pages t pgdir = set xs \<union> user_pages s pgdir \<and>
    length (pages t) = length (pages s) \<and>
    cr3 t = kern_pgdir s - KERNBASE \<and> kern_pgdir t = kern_pgdir s \<and> curenv t = curenv s \<and> env_free_list t = env_free_list s \<and>
    envs t = (envs s)[e := (envs s ! e)\<lparr>env_tf := (env_tf (envs s ! e))\<lparr>tf_eip := e_entry (elf_at (pmem s) (binary - KERNBASE))\<rparr>\<rparr>] \<and>
    program_in t pgdir (pmem s) binary"
proof -
  let ?elf = "elf_at (pmem s) (binary - KERNBASE)" and ?hs = "headers (pmem s) binary" and ?P = "footprint s xs pgdir"
  let ?S = "concat (map seg_pages (headers (pmem s) binary))"
  note p = program_okD[OF ok]
  have pd: "KERNBASE \<le> pgdir" using user_spaceD(2)[OF us] by (simp add: wf_pgdir_def)
  define s1 where "s1 = s\<lparr>cr3 := pgdir - KERNBASE\<rparr>"
  have m1: "pmem s1 = pmem s" "curenv s1 = curenv s" "envs s1 = envs s" "kern_pgdir s1 = kern_pgdir s"
    "env_free_list s1 = env_free_list s"
    by (simp_all add: s1_def curenv_def thiscpu_def)
  note c1 = space_cong[of s1 s, OF m1(1) _ _ _ m1(2)]
  have c1': "user_space s1 xs pgdir" "footprint s1 xs pgdir = ?P" "owned s1 pgdir = owned s pgdir"
    "mapped s1 pgdir a = mapped s pgdir a" "user_pages s1 pgdir = user_pages s pgdir" for a
    using c1 us by (simp_all add: s1_def)
  have n: "(if binary + e_phoff ?elf < binary + e_phoff ?elf + 32 * ucast (e_phnum ?elf) then [0..<unat (e_phnum ?elf)] else [])
      = [0..<length ?hs]"
  proof (cases "e_phnum ?elf = 0")
    case True
    then show ?thesis using p(9) by simp
  next
    case False
    let ?b = "unat binary + unat (e_phoff ?elf)" and ?k = "32 * unat (e_phnum ?elf)"
    have le: "?b + ?k < 2 ^ 32" using p(2,5) by linarith
    have "unat (ucast (e_phnum ?elf) :: u32) = unat (e_phnum ?elf)" by (rule unat_ucast_u16)
    then have k: "unat (32 * ucast (e_phnum ?elf) :: u32) = ?k" using le by (simp add: unat_word_ariths)
    have "unat (binary + e_phoff ?elf) = ?b" using le by (simp add: unat_word_ariths)
    moreover from this have "unat (binary + e_phoff ?elf + 32 * ucast (e_phnum ?elf)) = ?b + ?k"
      using le k by (simp add: unat_word_ariths(1)[of "binary + e_phoff ?elf"])
    moreover have "0 < unat (e_phnum ?elf)" using False by (simp add: unat_gt_0)
    ultimately have "binary + e_phoff ?elf < binary + e_phoff ?elf + 32 * ucast (e_phnum ?elf)"
      by (simp add: word_less_nat_alt)
    then show ?thesis using p(9) by simp
  qed
  obtain s2 ys where s2: "kfor [0..<length ?hs] (\<lambda>i. load_segment e binary (binary + e_phoff ?elf + 32 * of_nat i)) s1 = Returns () s2"
    and ld: "loaded pgdir binary s1 xs (length ?hs) s2 ys"
    using load_segments_ok[OF c1'(1), of e binary sz] e ok f um l m1 c1' by (auto simp: s1_def)
  have g2: "grows pgdir s1 xs s2 ys" and l2: "length xs \<le> length ys + 2 * length ?S"
    and um2: "\<forall>a < UTOP. unat (PGNUM a) \<notin> set ?S \<longrightarrow> mapped s2 pgdir a = None"
    and b2: "\<forall>h \<in> set ?hs. \<forall>a b. seg_byte (pmem s) binary h a = Some b \<longrightarrow> user_byte s2 pgdir a = Some b"
    using ld um c1'(4) unfolding loaded_def Let_def m1(1) by simp_all
  have us2: "user_space s2 ys pgdir" and po2: "pages_only s1 s2" and fp2: "footprint s2 ys pgdir \<subseteq> ?P"
    and mo2: "mem_outside ?P s s2" and ow2: "owned s pgdir \<longrightarrow> owned s2 pgdir"
    and co2: "set ys \<union> user_pages s2 pgdir = set xs \<union> user_pages s pgdir"
    using g2 by (simp_all add: grows_def c1' mem_outside_cong(1)[OF m1(1)])
  note f2 = pages_only_fields[OF po2] and cu2 = pages_only_current[OF po2]
  let ?E = "(envs s)[e := (envs s ! e)\<lparr>env_tf := (env_tf (envs s ! e))\<lparr>tf_eip := e_entry ?elf\<rparr>\<rparr>]"
  have el: "e_entry (elf_at (pmem s2) (binary - KERNBASE)) = e_entry ?elf" by (simp only: elf_kept[OF f mo2 p(4,3)])
  define s4 where "s4 = s2\<lparr>envs := ?E, cr3 := kern_pgdir s - KERNBASE\<rparr>"
  have st: "set_env e (\<lambda>x. x\<lparr>env_tf := (env_tf x)\<lparr>tf_eip := e_entry ?elf\<rparr>\<rparr>) s2 = Returns () (s2\<lparr>envs := ?E\<rparr>)"
    using e(1) f2(1) m1(3) by (simp add: set_env_def)
  have m4: "pmem s4 = pmem s2" "pages s4 = pages s2" "page_free_list s4 = page_free_list s2" "npages s4 = npages s2"
    "curenv s4 = curenv s2" "length (envs s4) = length (envs s2)"
    using f2(1) m1(3) by (simp_all add: s4_def curenv_def thiscpu_def)
  note c4 = space_cong[OF m4]
  have us4: "user_space s4 ys pgdir" using us2 c4(1) by simp
  have e4: "e < length (envs s4)" "env_pgdir (envs s4 ! e) = pgdir" using e by (simp_all add: s4_def)
  have um4: "\<forall>a. unat (PGNUM a) \<in> set (region_pages (unat (USTACKTOP - PGSIZE)) (unat PGSIZE)) \<longrightarrow> mapped s4 pgdir a = None"
    using um2 p(8) stack_region(3) unfolding stack_region(1) c4(5) by (simp add: UTOP_page)
  have l4: "2 * length (region_pages (unat (USTACKTOP - PGSIZE)) (unat PGSIZE)) \<le> length ys"
    unfolding stack_region(1) using l l2 by simp
  obtain t zs where t: "region_alloc e (USTACKTOP - PGSIZE) PGSIZE s4 = Returns () t" and gt: "grows pgdir s4 ys t zs"
    and wt: "\<forall>a. unat (PGNUM a) \<in> set [stack_page] \<longrightarrow> writable t pgdir a"
    and mt: "\<forall>a. ordinary a \<longrightarrow> unat (PGNUM a) \<notin> set [stack_page] \<longrightarrow> mapped t pgdir a = mapped s4 pgdir a"
    and bt: "\<forall>a < UTOP. unat (PGNUM a) \<notin> set [stack_page] \<longrightarrow> user_byte t pgdir a = user_byte s4 pgdir a"
    using region_ok[OF us4 e4 stack_region(2) um4 l4] unfolding stack_region(1) by (elim exE conjE) (rule that)
  have k2: "kern_pgdir s2 = kern_pgdir s" using f2(5) m1(4) by simp
  have "load_icode e binary s = Returns () t"
    unfolding load_icode_def Let_def
    using e pd kp s2 t st el k2 n
    by (simp add: env_at_def PADDR_def lcr3_def s1_def[symmetric] s4_def[symmetric] not_less[symmetric])
  moreover have "mem_outside ?P s t"
  proof -
    have "mem_outside (footprint s4 ys pgdir) s4 t" using gt by (simp add: grows_def)
    then have "mem_outside (footprint s2 ys pgdir) s2 t" by (simp only: mem_outside_def m4(1) c4(2))
    then have "mem_outside ?P s2 t" using fp2 by (rule mem_outside_mono)
    then show ?thesis by (rule mem_outside_trans[OF mo2])
  qed
  moreover have "set zs \<union> user_pages t pgdir = set xs \<union> user_pages s pgdir" using gt co2 c4(7) by (simp add: grows_def)
  moreover have "length (pages t) = length (pages s)" using gt pages_only_fields(9)[of s4 t] f2(9) by (simp add: grows_def s4_def s1_def)
  moreover have "user_space t zs pgdir" "owned s pgdir \<longrightarrow> owned t pgdir"
    using gt ow2 c4(3) by (auto simp: grows_def)
  moreover have "program_in t pgdir (pmem s) binary"
    unfolding program_in_def
  proof (intro conjI ballI allI impI)
    fix h a b
    assume h: "h \<in> set ?hs" "seg_byte (pmem s) binary h a = Some b"
    note sp = seg_byte_page[OF p(6)[OF h(1)] h(2)]
    have "unat (PGNUM a) \<noteq> stack_page" using sp h(1) p(8) by auto
    then show "user_byte t pgdir a = Some b" using bt b2 h c4(4) seg_pages_user[OF p(6)[OF h(1)] sp] by simp
  next
    fix a
    assume "unat (PGNUM a) = stack_page"
    then show "user_access t pgdir (PTE_W OR PTE_U) a" using wt stack_region(3) by (intro writable_access) (simp_all add: UTOP_page)
  next
    fix a
    assume "a < UTOP" "unat (PGNUM a) \<notin> set (stack_page # ?S)"
    then show "mapped t pgdir a = None" using mt um2 c4(5) user_ordinary by simp
  qed
  moreover have "cr3 t = kern_pgdir s - KERNBASE" "kern_pgdir t = kern_pgdir s" "curenv t = curenv s"
    "env_free_list t = env_free_list s" "envs t = ?E"
    using gt pages_only_fields[of s4 t] pages_only_current(2)[of s4 t] f2 cu2 m1 by (simp_all add: grows_def s4_def curenv_def thiscpu_def)
  ultimately show ?thesis by blast
qed

section \<open>Creating an environment\<close>

lemma headers_kept:
  assumes f: "file_outside P binary sz" and mo: "mem_outside P s t" and ok: "program_ok (pmem s) binary sz"
  shows "headers (pmem t) binary = headers (pmem s) binary" and "program_ok (pmem t) binary sz"
proof -
  note p = program_okD[OF ok]
  let ?elf = "elf_at (pmem s) (binary - KERNBASE)"
  have e: "elf_at (pmem t) (binary - KERNBASE) = ?elf" by (rule elf_kept[OF f mo p(4,3)])
  have "proghdr_at (pmem t) (binary + e_phoff ?elf + 32 * of_nat i - KERNBASE) =
      proghdr_at (pmem s) (binary + e_phoff ?elf + 32 * of_nat i - KERNBASE)" if "i < unat (e_phnum ?elf)" for i
  proof -
    have b: "binary + e_phoff ?elf + 32 * of_nat i = binary + of_nat (unat (e_phoff ?elf) + 32 * i)" by (simp add: add.assoc)
    have "unat (e_phoff ?elf) + 32 * i + 32 \<le> sz" using p(5) that by simp
    then show ?thesis unfolding b using p(3) by (rule proghdr_kept[OF f mo])
  qed
  then show h: "headers (pmem t) binary = headers (pmem s) binary"
    unfolding headers_def e Let_def by (intro map_cong) auto
  show "program_ok (pmem t) binary sz" using ok unfolding program_ok_def e h Let_def .
qed

lemma program_in_kept:
  assumes f: "file_outside P binary sz" and mo: "mem_outside P s t" and ok: "program_ok (pmem s) binary sz"
  shows "program_in u pgdir (pmem t) binary = program_in u pgdir (pmem s) binary"
proof -
  note p = program_okD[OF ok]
  have "seg_byte (pmem t) binary h a = seg_byte (pmem s) binary h a" if "h \<in> set (headers (pmem s) binary)" for h a
    by (rule seg_byte_kept[OF f mo p(6)[OF that] p(3)])
  then show ?thesis unfolding program_in_def headers_kept(1)[OF assms] by simp
qed

text \<open>The address space of a new environment: the kernel's part, and nothing below \<open>UTOP\<close>.\<close>

lemma new_space:
  assumes inv: "page_inv s (x # xs)" and wf: "wf_pgdir s (x # xs) (kern_pgdir s)"
    and nt: "\<forall>d < unat (PDX UTOP). \<not> table_present s (kern_pgdir s) d"
    and t: "pmem t = pmem (vm_state s x e)" "pages t = pages (vm_state s x e)"
      "page_free_list t = page_free_list (vm_state s x e)" "npages t = npages s" and cu: "curenv_ok t"
  defines "pd \<equiv> page2pa x + KERNBASE"
  shows "user_space t xs pd" and "owned t pd" and "\<forall>a < UTOP. mapped t pd a = None"
    and "footprint t xs pd \<subseteq> set (x # xs)" and "user_pages t pd = {}"
proof -
  let ?v = "vm_state s x e"
  note h = page_inv_head[OF inv]
  have tp: "table_present t pd d = table_present s (kern_pgdir s) d" for d
    using vm_present(1)[OF inv wf, of e d] unfolding pd_def table_present_def pde_of_cong[OF t(1)] .
  have tg: "table_page t pd d = table_page s (kern_pgdir s) d" if "table_present s (kern_pgdir s) d" for d
    using vm_present(2)[OF inv wf that, of e] unfolding pd_def table_page_def pde_of_cong[OF t(1)] .
  note pu = PDX_UTOP
  show um: "\<forall>a < UTOP. mapped t pd a = None"
  proof (intro allI impI)
    fix a
    assume a: "a < UTOP"
    then have "\<not> table_present t pd (unat (PDX a))" using nt user_PDX[OF a] pu by (simp add: tp)
    then have "pde_of t pd (unat (PDX a)) AND PTE_P = 0" using present_ordinary[OF user_ordinary[OF a]] by blast
    then show "mapped t pd a = None" by (simp add: mapped_def pte_of_def)
  qed
  have dp: "data_pages t pd = {}" using um by (auto simp: data_pages_def mapped_page_def)
  then show "user_pages t pd = {}" using nt by (simp add: user_pages_def tp)
  have dx: "dir_page pd = x" unfolding pd_def by (rule page_kva(4)[OF h(1)])
  have "user_tables t pd = {x}" using nt dx by (auto simp: user_tables_def tp)
  then show "footprint t xs pd \<subseteq> set (x # xs)" by (auto simp: footprint_def dp)
  have pi: "page_inv t xs"
    using vm_page_inv[OF inv] t(4) by (subst page_inv_cong[OF t(2,3)]) (simp_all add: vm_state_def)
  have wfv: "wf_pgdir ?v xs pd" unfolding pd_def by (rule vm_wf[OF inv wf])
  have wt: "wf_pgdir t xs pd"
    by (rule wf_pgdir_cong[OF wfv]) (simp_all only: pde_of_cong[OF t(1)] t(2) wf_pgdirD[OF wfv] not_False_eq_True)
  show "user_space t xs pd" unfolding user_space_def using pi wt cu um by (auto simp: dp mapped_page_def)
  have "pp_ref (pages t ! x) = 1" using h(2) by (simp add: t(2) vm_state_def)
  then show "owned t pd" using nt by (simp add: owned_def dp tp dx)
qed

lemma env_create_ok:
  assumes inv: "page_inv s (x # xs)" and wf: "wf_pgdir s (x # xs) (kern_pgdir s)" and env: "env_inv s (e # es)"
    and cur: "curenv_ok s" and nt: "\<forall>d < unat (PDX UTOP). \<not> table_present s (kern_pgdir s) d"
    and ok: "program_ok (pmem s) binary sz" and f: "file_outside (set (x # xs)) binary sz"
    and l: "2 * Suc (length (concat (map seg_pages (headers (pmem s) binary)))) \<le> length xs"
  shows "\<exists>t ys. env_create binary ty s = Returns () t \<and> env_inv t es \<and>
    env_status (envs t ! e) = ENV_RUNNABLE \<and> env_type (envs t ! e) = ty \<and> env_parent_id (envs t ! e) = 0 \<and>
    env_tf (envs t ! e) = Trapframe_zero\<lparr>tf_ds := GD_UD OR 3, tf_es := GD_UD OR 3, tf_ss := GD_UD OR 3,
       tf_esp := USTACKTOP, tf_cs := GD_UT OR 3, tf_eip := e_entry (elf_at (pmem s) (binary - KERNBASE))\<rparr> \<and>
    cr3 t = kern_pgdir s - KERNBASE \<and> curenv t = curenv s \<and> kern_pgdir t = kern_pgdir s \<and> length (envs t) = NENV \<and>
    (\<forall>i < NENV. i \<noteq> e \<longrightarrow> envs t ! i = envs s ! i) \<and>
    user_space t ys (env_pgdir (envs t ! e)) \<and> owned t (env_pgdir (envs t ! e)) \<and>
    set ys \<union> user_pages t (env_pgdir (envs t ! e)) \<union> {dir_page (env_pgdir (envs t ! e))} = set (x # xs) \<and>
    program_in t (env_pgdir (envs t ! e)) (pmem s) binary \<and> mem_outside (set (x # xs)) s t \<and> length (pages t) = length (pages s)"
proof -
  let ?pd = "page2pa x + KERNBASE" and ?v = "vm_state s x e" and ?Q = "set (x # xs)"
  obtain s1 where s1: "env_alloc 0 s = Returns (0, Some e) s1" "envs s1 = (envs s)[e := alloc_env s x e 0]"
    "env_free_list s1 = env_link (envs s ! e)" "pmem s1 = pmem ?v" "pages s1 = pages ?v"
    "page_free_list s1 = page_free_list ?v" "npages s1 = npages s" "kern_pgdir s1 = kern_pgdir s" "cpus s1 = cpus s" "cpunum s1 = cpunum s"
    using env_alloc_ok[OF inv wf env cur, of 0] by blast
  have e: "e < NENV" and len: "length (envs s) = NENV" using env_invD(1,3)[OF env] by auto
  let ?E = "alloc_env s x e 0"
  define s2 where "s2 = s1\<lparr>envs := (envs s)[e := ?E\<lparr>env_type := ty\<rparr>]\<rparr>"
  have st: "set_env e (\<lambda>x. x\<lparr>env_type := ty\<rparr>) s1 = Returns () s2" using e len by (simp add: set_env_def s1(2) s2_def)
  have cu: "curenv s2 = curenv s" by (simp add: s2_def curenv_def thiscpu_def s1(9,10))
  then have cu2: "curenv_ok s2" using cur e len by (simp add: curenv_ok_def s2_def split: option.splits)
  have f2: "pmem s2 = pmem ?v" "pages s2 = pages ?v" "page_free_list s2 = page_free_list ?v" "npages s2 = npages s"
    "kern_pgdir s2 = kern_pgdir s"
    by (simp_all add: s2_def s1(4-8))
  note sp = new_space[OF inv wf nt f2(1-4) cu2]
  have mo: "mem_outside ?Q s s2"
    using vm_outside[OF page_inv_head(1)[OF inv], of s e] unfolding mem_outside_def f2(1) by auto
  note k = headers_kept[OF f mo ok]
  have e2: "e < length (envs s2)" "env_pgdir (envs s2 ! e) = ?pd" using e len
    by (simp_all add: s2_def alloc_env_def env_fresh_def)
  have kp: "KERNBASE \<le> kern_pgdir s2" using wf by (simp add: wf_pgdir_def f2(5))
  let ?el = "e_entry (elf_at (pmem s) (binary - KERNBASE))"
  have el: "elf_at (pmem s2) (binary - KERNBASE) = elf_at (pmem s) (binary - KERNBASE)"
    using program_okD(3,4)[OF ok] by (intro elf_kept[OF f mo])
  obtain t ys where t: "load_icode e binary s2 = Returns () t" "user_space t ys ?pd" "owned s2 ?pd \<longrightarrow> owned t ?pd"
    "cr3 t = kern_pgdir s2 - KERNBASE" "kern_pgdir t = kern_pgdir s2" "curenv t = curenv s2" "env_free_list t = env_free_list s2"
    "envs t = (envs s2)[e := (envs s2 ! e)\<lparr>env_tf := (env_tf (envs s2 ! e))\<lparr>tf_eip := ?el\<rparr>\<rparr>]"
    "program_in t ?pd (pmem s2) binary" "set ys \<union> user_pages t ?pd = set xs \<union> user_pages s2 ?pd"
    "mem_outside (footprint s2 xs ?pd) s2 t" "length (pages t) = length (pages s2)"
    using load_icode_ok[OF sp(1) e2 kp k(2) file_outside_mono[OF f sp(4)] sp(3) l[folded k(1)]]
    unfolding el by (elim exE conjE) (rule that)
  have cr: "env_create binary ty s = Returns () t" using s1(1) st t(1) by (simp add: env_create_def)
  have es: "envs t = (envs s)[e := ?E\<lparr>env_type := ty, env_tf := (env_tf ?E)\<lparr>tf_eip := ?el\<rparr>\<rparr>]"
    unfolding t(8) using e len by (simp add: s2_def)
  have n: "envs t ! e = ?E\<lparr>env_type := ty, env_tf := (env_tf ?E)\<lparr>tf_eip := ?el\<rparr>\<rparr>" unfolding es using e len by simp
  have "env_inv t es"
  proof -
    have i1: "env_inv s1 es" by (rule alloc_env_inv[OF env s1(2,3)])
    have fl: "env_free_list t = env_free_list s1" using t(7) by (simp add: s2_def)
    have same: "env_link (envs t ! i) = env_link (envs s1 ! i)" "env_status (envs t ! i) = env_status (envs s1 ! i)"
      "env_id (envs t ! i) = env_id (envs s1 ! i)" for i
      unfolding es s1(2) using e len by (cases "i = e"; simp)+
    have "length (envs t) = length (envs s1)" unfolding es s1(2) by simp
    then show ?thesis using i1 by (simp add: env_inv_def env_links_def[abs_def] same fl)
  qed
  moreover have "env_status (envs t ! e) = ENV_RUNNABLE" "env_type (envs t ! e) = ty" "env_parent_id (envs t ! e) = 0"
    "env_tf (envs t ! e) = Trapframe_zero\<lparr>tf_ds := GD_UD OR 3, tf_es := GD_UD OR 3, tf_ss := GD_UD OR 3,
       tf_esp := USTACKTOP, tf_cs := GD_UT OR 3, tf_eip := ?el\<rparr>" "env_pgdir (envs t ! e) = ?pd"
    unfolding n by (simp_all add: alloc_env_def env_fresh_def)
  moreover have "\<forall>i < NENV. i \<noteq> e \<longrightarrow> envs t ! i = envs s ! i" "length (envs t) = NENV" unfolding es using len by simp_all
  moreover have "program_in t ?pd (pmem s) binary" using t(9) program_in_kept[OF f mo ok] by simp
  moreover have "owned t ?pd" using t(3) sp(2) by blast
  moreover have "mem_outside ?Q s t" by (rule mem_outside_trans[OF mo mem_outside_mono[OF t(11) sp(4)]])
  moreover have "length (pages t) = length (pages s)" using t(12) f2(2) by (simp add: vm_state_def)
  moreover have "set ys \<union> user_pages t ?pd \<union> {dir_page ?pd} = set (x # xs)"
    using t(10) sp(5) page_kva(4)[OF page_inv_head(1)[OF inv]] by auto
  ultimately show ?thesis
    using cr t(2,4,5,6) f2(5) cu
    by (intro exI[of _ t] exI[of _ ys]) (simp only: simp_thms)
qed

lemma program_zero: "unat (PGNUM a) \<noteq> 8 \<Longrightarrow> program_bytes a = 0"
  by (auto simp: program_bytes_def unat_PGNUM)

lemma load_pde_zero: "d < 1024 \<Longrightarrow> entry program_bytes 0x1000 d = 0"
proof -
  assume d: "d < 1024"
  have o: "PGOFF 0x1000 = 0" by (simp add: PGOFF_def)
  note a = entry_addr(2,3)[OF o d]
  have "PGNUM (0x1000 + 4 * of_nat d + k) = PGNUM 0x1000" if "k < 4" for k using PGNUM_add_small[OF a(1) that] a(2) by simp
  then have "program_bytes (0x1000 + 4 * of_nat d + k) = 0" if "k < 4" for k
    using that by (intro program_zero) (simp add: unat_PGNUM[of "0x1000"])
  from this[of 0] this[of 1] this[of 2] this[of 3] show ?thesis by (simp add: entry_def read32_def)
qed

lemma load_program:
  "e_entry (elf_at program_bytes 0x8000) = 0x800020" "e_phoff (elf_at program_bytes 0x8000) = 52"
  "e_phnum (elf_at program_bytes 0x8000) = 1"
  by (simp_all add: elf_at_def read32_def read16_def program_bytes_def)

lemma load_headers:
  "headers program_bytes 0xF0008000 = [\<lparr>p_type = 1, p_offset = 96, p_va = 0x800020, p_pa = 0, p_filesz = 4, p_memsz = 8,
     p_flags = 0, p_align = 0\<rparr>]"
  by (simp add: headers_def KERNBASE_def load_program Let_def proghdr_at_def read32_def) (simp add: program_bytes_def)

lemma load_program_ok: "program_ok program_bytes 0xF0008000 100"
  by (simp add: program_ok_def Let_def load_headers KERNBASE_def load_program segment_ok_def UTOP_def seg_pages_def region_pages_def
      stack_page_def unat_PGNUM)

lemma load_inv: "page_inv load_machine [2, 3, 4, 5, 6, 7]"
proof -
  have "pp_link (pages load_machine ! i) = None" if "i < 9" "i \<notin> {2, 3, 4, 5, 6, 7}" for i
    using that by (auto simp: load_machine_def less_Suc_eq numeral_eq_Suc)
  then show ?thesis by (auto simp: page_inv_def pages_ok_def page_links_def load_machine_def)
qed

lemma load_wf: "wf_pgdir load_machine [2, 3, 4, 5, 6, 7] 0xF0001000" "\<not> table_present load_machine 0xF0001000 d"
proof -
  have p: "pde_of load_machine 0xF0001000 d = 0" if "d < 1024" for d
    using load_pde_zero[OF that] by (simp add: pde_of_def load_machine_def KERNBASE_def)
  then show n: "\<not> table_present load_machine 0xF0001000 d" for d by (simp add: table_present_def)
  show "wf_pgdir load_machine [2, 3, 4, 5, 6, 7] 0xF0001000"
    using n p[of UVPTX] by (simp add: wf_pgdir_def small_dir_page) (simp add: load_machine_def PGOFF_def KERNBASE_def)
qed

lemma load_ready:
  "\<exists>s. env_init load_machine = Returns () s \<and> page_inv s [2, 3, 4, 5, 6, 7] \<and> wf_pgdir s [2, 3, 4, 5, 6, 7] (kern_pgdir s) \<and>
    env_inv s (0 # [Suc 0..<NENV]) \<and> curenv_ok s \<and> (\<forall>d < unat (PDX UTOP). \<not> table_present s (kern_pgdir s) d) \<and>
    program_ok (pmem s) 0xF0008000 100 \<and> file_outside (set [2, 3, 4, 5, 6, 7]) 0xF0008000 100 \<and>
    pmem s = program_bytes \<and> kern_pgdir s = 0xF0001000"
proof -
  have len: "length (envs load_machine) = NENV" and fl: "env_free_list load_machine = None"
    by (simp_all add: load_machine_def small_machine_def)
  obtain s es fl ho where s: "env_init load_machine = Returns () s" "env_inv s [0..<NENV]"
    and e: "s = load_machine\<lparr>envs := es, env_free_list := fl, hwops := ho\<rparr>"
    using env_init_ok[OF len fl] by blast
  have pm: "pmem s = pmem load_machine" "pmem s = program_bytes" "kern_pgdir s = 0xF0001000" "curenv s = None"
    by (simp_all add: e load_machine_def small_machine_def curenv_def thiscpu_def)
  have u: "[0..<NENV] = 0 # [Suc 0..<NENV]" by (rule upt_conv_Cons) simp
  have pi: "page_inv s [2, 3, 4, 5, 6, 7]" using load_inv by (subst page_inv_cong[of s load_machine]) (simp_all add: e)
  have wf: "wf_pgdir s [2, 3, 4, 5, 6, 7] 0xF0001000"
    by (rule wf_pgdir_cong[OF load_wf(1)]) (simp_all only: pde_of_cong[OF pm(1)] wf_pgdirD[OF load_wf(1)] not_False_eq_True, simp add: e)
  have nt: "\<not> table_present s 0xF0001000 d" for d using load_wf(2)[of d] by (simp add: table_present_def pde_of_cong[OF pm(1)])
  have "file_outside (set [2, 3, 4, 5, 6, 7]) 0xF0008000 100"
    unfolding file_outside_def
  proof (intro allI impI)
    fix a
    assume "in_range 0xF0008000 100 a"
    then obtain w where w: "unat w < 100" "a - 0xF0008000 = w" by (auto simp: in_range_def)
    have e: "a - KERNBASE = 0x8000 + w" by (simp add: KERNBASE_def w(2)[symmetric])
    have "unat (0x8000 + w) = 0x8000 + unat w" using w(1) by (simp add: unat_plus_if')
    then have "unat (a - KERNBASE) div 4096 = 8" unfolding e using w(1) by simp
    then show "unat (PGNUM (a - KERNBASE)) \<notin> set [2, 3, 4, 5, 6, 7]" by (simp add: unat_PGNUM)
  qed
  moreover have "curenv_ok s" by (simp add: curenv_ok_def pm(4))
  ultimately show ?thesis using s(1) s(2)[unfolded u] pi wf nt load_program_ok pm(2,3) by (intro exI[of _ s]) simp
qed

text \<open>
  C6. \<open>env_create\<close> makes an environment out of a program: with enough free pages it does not panic, the first free
  environment is runnable, of the type asked for, starts at the entry point of the file on an empty stack in user mode, and the
  kernel's page directory is in force again. In its address space every byte that a loadable segment has in the file reads as in the
  file, the rest of each segment is zero, the stack page is user writable, and nothing else is
  mapped below \<open>UTOP\<close>. No other environment is changed, and of the memory only pages that were free.
\<close>

theorem env_create_loads:
  assumes "page_inv s (x # xs)" "wf_pgdir s (x # xs) (kern_pgdir s)" "env_inv s (e # es)" "curenv_ok s"
    "\<forall>d < unat (PDX UTOP). \<not> table_present s (kern_pgdir s) d"
    "program_ok (pmem s) binary sz" "file_outside (set (x # xs)) binary sz"
    "2 * Suc (length (concat (map seg_pages (headers (pmem s) binary)))) \<le> length xs"
  shows "\<exists>t. env_create binary ty s = Returns () t \<and> env_inv t es \<and> (\<forall>i < NENV. i \<noteq> e \<longrightarrow> envs t ! i = envs s ! i) \<and>
    mem_outside (set (x # xs)) s t \<and> env_status (envs t ! e) = ENV_RUNNABLE \<and> env_type (envs t ! e) = ty \<and> env_parent_id (envs t ! e) = 0 \<and>
    tf_eip (env_tf (envs t ! e)) = e_entry (elf_at (pmem s) (binary - KERNBASE)) \<and>
    tf_esp (env_tf (envs t ! e)) = USTACKTOP \<and> tf_cs (env_tf (envs t ! e)) = GD_UT OR 3 \<and> cr3 t = kern_pgdir s - KERNBASE \<and>
    (\<forall>h \<in> set (headers (pmem s) binary). \<forall>a b. seg_byte (pmem s) binary h a = Some b \<longrightarrow>
       user_byte t (env_pgdir (envs t ! e)) a = Some b) \<and>
    (\<forall>a. unat (PGNUM a) = stack_page \<longrightarrow> user_access t (env_pgdir (envs t ! e)) (PTE_W OR PTE_U) a) \<and>
    (\<forall>a < UTOP. unat (PGNUM a) \<notin> set (stack_page # concat (map seg_pages (headers (pmem s) binary))) \<longrightarrow>
       mapped t (env_pgdir (envs t ! e)) a = None)"
proof -
  obtain t ys where t: "env_create binary ty s = Returns () t" "env_inv t es"
    "env_status (envs t ! e) = ENV_RUNNABLE" "env_type (envs t ! e) = ty" "env_parent_id (envs t ! e) = 0"
    and f: "env_tf (envs t ! e) = Trapframe_zero\<lparr>tf_ds := GD_UD OR 3, tf_es := GD_UD OR 3, tf_ss := GD_UD OR 3,
       tf_esp := USTACKTOP, tf_cs := GD_UT OR 3, tf_eip := e_entry (elf_at (pmem s) (binary - KERNBASE))\<rparr>"
    and c: "cr3 t = kern_pgdir s - KERNBASE" "\<forall>i < NENV. i \<noteq> e \<longrightarrow> envs t ! i = envs s ! i"
    and p: "program_in t (env_pgdir (envs t ! e)) (pmem s) binary" and mo: "mem_outside (set (x # xs)) s t"
    using env_create_ok[OF assms, of ty] by blast
  have "tf_eip (env_tf (envs t ! e)) = e_entry (elf_at (pmem s) (binary - KERNBASE))"
    "tf_esp (env_tf (envs t ! e)) = USTACKTOP" "tf_cs (env_tf (envs t ! e)) = GD_UT OR 3" unfolding f by simp_all
  then show ?thesis using t c p mo unfolding program_in_def by blast
qed

theorem env_create_loads_witness:
  "\<exists>s t. env_init load_machine = Returns () s \<and> env_create 0xF0008000 ENV_TYPE_USER s = Returns () t \<and>
     user_byte t (env_pgdir (envs t ! 0)) 0x800020 = Some 0xCC \<and> user_byte t (env_pgdir (envs t ! 0)) 0x800025 = Some 0"
proof -
  obtain s where s: "env_init load_machine = Returns () s" "page_inv s [2, 3, 4, 5, 6, 7]" "wf_pgdir s [2, 3, 4, 5, 6, 7] (kern_pgdir s)"
    "env_inv s (0 # [Suc 0..<NENV])" "curenv_ok s" "\<forall>d < unat (PDX UTOP). \<not> table_present s (kern_pgdir s) d"
    "program_ok (pmem s) 0xF0008000 100" "file_outside (set [2, 3, 4, 5, 6, 7]) 0xF0008000 100"
    and m: "pmem s = program_bytes"
    using load_ready by blast
  have l: "2 * Suc (length (concat (map seg_pages (headers (pmem s) 0xF0008000)))) \<le> length [3, 4, 5, 6, 7 :: nat]"
    unfolding m load_headers by (simp add: seg_pages_def region_pages_def)
  let ?h = "\<lparr>p_type = 1, p_offset = 96, p_va = 0x800020, p_pa = 0, p_filesz = 4, p_memsz = 8, p_flags = 0, p_align = 0\<rparr>"
  obtain t where t: "env_create 0xF0008000 ENV_TYPE_USER s = Returns () t"
    "\<forall>h \<in> set (headers (pmem s) 0xF0008000). \<forall>a b. seg_byte (pmem s) 0xF0008000 h a = Some b \<longrightarrow>
       user_byte t (env_pgdir (envs t ! 0)) a = Some b"
    using env_create_loads[OF s(2-8) l, of ENV_TYPE_USER] by blast
  have "seg_byte program_bytes 0xF0008000 ?h 0x800020 = Some 0xCC" "seg_byte program_bytes 0xF0008000 ?h 0x800025 = Some 0"
    by (simp_all add: seg_byte_def in_range_def KERNBASE_def program_bytes_def)
  moreover have "?h \<in> set (headers (pmem s) 0xF0008000)" unfolding m load_headers by simp
  ultimately show ?thesis using s(1) t unfolding m by blast
qed

end
