(* ===== verification/Env_Teardown.thy ===== *)
theory Env_Teardown
  imports Load_Program
begin

text \<open>
  Freeing an environment, \<open>env_free\<close> of \<^verbatim>\<open>kern/env.c\<close>: the loops over page tables and directory move pages from the address
  space to the free list (\<open>shrinks\<close>) until the user part is empty. Together with the theorems on loading, an environment that is
  created and freed gives back exactly the pages it took.
\<close>

section \<open>Taking an address space apart\<close>

text \<open>Pages have moved from the user part of the space to the free list, and none was lost.\<close>

definition shrinks :: "u32 \<Rightarrow> kstate \<Rightarrow> nat list \<Rightarrow> kstate \<Rightarrow> nat list \<Rightarrow> bool" where
  "shrinks pgdir s xs t ys \<longleftrightarrow> user_space t ys pgdir \<and> owned t pgdir \<and> pages_only s t \<and>
     set ys \<union> user_pages t pgdir = set xs \<union> user_pages s pgdir \<and>
     mem_outside (user_tables s pgdir) s t \<and> user_tables t pgdir \<subseteq> user_tables s pgdir"

lemma shrinks_refl: "user_space s xs pgdir \<Longrightarrow> owned s pgdir \<Longrightarrow> shrinks pgdir s xs s xs"
  by (simp add: shrinks_def)

lemma shrinks_trans:
  assumes "shrinks pgdir s xs t ys" "shrinks pgdir t ys u zs"
  shows "shrinks pgdir s xs u zs"
proof -
  have "mem_outside (user_tables s pgdir) t u" using assms by (auto simp: shrinks_def intro: mem_outside_mono)
  then show ?thesis using assms pages_only_trans[of s t u] mem_outside_trans[of "user_tables s pgdir" s t u]
    unfolding shrinks_def by blast
qed

text \<open>Spaces with the same directory entries have the same tables.\<close>

lemma same_tables:
  assumes "\<forall>d < 1024. pde_of t pgdir d = pde_of s pgdir d"
  shows "table_present t pgdir = table_present s pgdir" and "as_pages t pgdir = as_pages s pgdir"
    and "table_present s pgdir d \<Longrightarrow> table_page t pgdir d = table_page s pgdir d"
    and "table_page t pgdir ` {d. d < unat (PDX UTOP) \<and> table_present t pgdir d} =
      table_page s pgdir ` {d. d < unat (PDX UTOP) \<and> table_present s pgdir d}"
proof -
  show p: "table_present t pgdir = table_present s pgdir" by (rule ext) (rule present_cong(1), use assms in blast)
  show "as_pages t pgdir = as_pages s pgdir" by (rule present_cong(2)) (use assms in blast)
  show g: "table_page t pgdir d = table_page s pgdir d" if "table_present s pgdir d" for d
    using assms that by (simp add: table_page_def table_present_def)
  show "table_page t pgdir ` {d. d < unat (PDX UTOP) \<and> table_present t pgdir d} =
      table_page s pgdir ` {d. d < unat (PDX UTOP) \<and> table_present s pgdir d}"
    unfolding p by (rule image_cong) (simp_all add: g)
qed

lemma unmap_step:
  assumes us: "user_space s xs pgdir" and ow: "owned s pgdir" and va: "va < UTOP" and m: "mapped s pgdir va = Some pte"
  shows "\<exists>t ys. page_remove pgdir va s = Returns () t \<and> shrinks pgdir s xs t ys \<and>
    (\<forall>d < 1024. pde_of t pgdir d = pde_of s pgdir d) \<and>
    (\<forall>a. ordinary a \<longrightarrow> mapped t pgdir a = (if PGNUM a = PGNUM va then None else mapped s pgdir a))"
proof -
  define pg where "pg = unat (PGNUM pte)"
  note u = user_spaceD[OF us] and o = user_ordinary[OF va]
  have mp: "mapped_page s pgdir va = Some pg" using m by (simp add: mapped_page_def pg_def)
  note g = user_page[OF us va mp]
  have r: "pp_ref (pages s ! pg) = 1" using ow va mp by (auto simp: owned_def data_pages_def)
  obtain t where t: "page_remove pgdir va s = Returns () t" "removed s pgdir va pg t" "page_inv t (pg # xs)" "wf_pgdir t (pg # xs) pgdir"
    using remove_Some[OF u(2,1) o m pg_def g(1,4,3) u(3)] r by auto
  have po: "pages_only s t" and mt: "\<forall>a. ordinary a \<longrightarrow> mapped t pgdir a = (if PGNUM a = PGNUM va then None else mapped s pgdir a)"
    and pde: "\<forall>d < 1024. pde_of t pgdir d = pde_of s pgdir d"
    and rf: "\<forall>i < length (pages s). pp_ref (pages t ! i) = (if i = pg then pp_ref (pages s ! pg) - 1 else pp_ref (pages s ! i))"
    and mo: "mem_outside {table_page s pgdir (unat (PDX va))} s t"
    using t(2) unfolding removed_def by blast+
  note st = same_tables[OF pde]
  have mpt: "mapped_page t pgdir a = (if PGNUM a = PGNUM va then None else mapped_page s pgdir a)" if "a < UTOP" for a
    using mt user_ordinary[OF that] by (simp add: mapped_page_def)
  have dp: "data_pages t pgdir = data_pages s pgdir - {pg}"
  proof (intro set_eqI iffI)
    fix p
    assume "p \<in> data_pages t pgdir"
    then obtain a where "a < UTOP" "mapped_page t pgdir a = Some p" by (auto simp: data_pages_def)
    then show "p \<in> data_pages s pgdir - {pg}" using mpt u(5)[OF _ va _ mp, of a] by (auto simp: data_pages_def split: if_splits)
  next
    fix p
    assume "p \<in> data_pages s pgdir - {pg}"
    then obtain a where a: "a < UTOP" "mapped_page s pgdir a = Some p" "p \<noteq> pg" by (auto simp: data_pages_def)
    have "PGNUM a \<noteq> PGNUM va"
      using a mp by (auto simp: mapped_page_def mapped_same_page[of a va])
    then show "p \<in> data_pages t pgdir" using a mpt[OF a(1)] by (auto simp: data_pages_def)
  qed
  have len: "length (pages t) = length (pages s)" using po by (simp add: pages_only_def)
  have dl: "p < length (pages s)" "good_page s pgdir p" if "p \<in> data_pages s pgdir" for p
    using us that by (simp_all add: user_space_def good_page_def)
  have ust: "user_space t (pg # xs) pgdir"
    unfolding user_space_def
  proof (intro conjI ballI allI impI)
    show "curenv_ok t" using u(3) pages_only_current(3)[OF po] by simp
    show "good_page t pgdir p" if "p \<in> data_pages t pgdir" for p
      using that dl[of p] rf len unfolding dp by (simp add: good_page_def st(2))
    show "PGNUM a = PGNUM b" if "a < UTOP" "b < UTOP" "mapped_page t pgdir a = Some p" "mapped_page t pgdir b = Some p" for a b p
      using that mpt[OF that(1)] mpt[OF that(2)] u(5)[OF that(1,2), of p] by (auto split: if_splits)
  qed (rule t)+
  have tab: "table_page s pgdir d < length (pages s)" "table_page s pgdir d \<noteq> pg" if "table_present s pgdir d" for d
    using wf_pgdirD(4)[OF u(2) that] g(3) that by (auto simp: as_pages_def)
  have "dir_page pgdir < length (pages s)" "dir_page pgdir \<noteq> pg" using wf_pgdirD(2)[OF u(2)] g(3) by (auto simp: as_pages_def)
  then have owt: "owned t pgdir" unfolding owned_def
    using ow rf dl tab st(1,3) unfolding dp by (auto simp: owned_def)
  have "set (pg # xs) \<union> user_pages t pgdir = set xs \<union> user_pages s pgdir"
    using mp va unfolding user_pages_def dp st(4) by (auto simp: data_pages_def)
  moreover have "table_page s pgdir (unat (PDX va)) \<in> user_tables s pgdir"
    using mapped_present(1)[OF o m] user_PDX[OF va] PDX_UTOP by (auto simp: user_tables_def)
  then have "mem_outside (user_tables s pgdir) s t" by (intro mem_outside_mono[OF mo]) simp
  ultimately have "shrinks pgdir s xs t (pg # xs)" using ust owt po st(4) by (simp add: shrinks_def user_tables_def)
  then show ?thesis using t(1) pde mt by blast
qed

lemma PGADDR_user:
  assumes "d < unat (PDX UTOP)" "k < 1024"
  defines "va \<equiv> PGADDR (of_nat d) (of_nat k) 0"
  shows "unat (PDX va) = d" and "unat (PTX va) = k" and "va < UTOP"
proof -
  note pu = PDX_UTOP
  then have "of_nat d < (1024 :: u32)" "of_nat k < (1024 :: u32)" "unat (of_nat d :: u32) = d" "unat (of_nat k :: u32) = k"
    using assms(1,2) by (simp_all add: word_less_nat_alt unat_of_nat)
  then show f: "unat (PDX va) = d" "unat (PTX va) = k" using PGADDR_fields[of "of_nat d" "of_nat k" 0] by (simp_all add: va_def)
  have "unat (PGNUM va) div 1024 = d" using f(1) by (simp add: unat_PDX unat_PGNUM div_mult2_eq[symmetric])
  then have "unat (PGNUM va) < 955 * 1024" using assms(1) pu by (simp add: div_less_iff_less_mult[symmetric])
  then show "va < UTOP" by (simp add: UTOP_page)
qed

lemma free_pte_ok:
  assumes us: "user_space s xs pgdir" and ow: "owned s pgdir" and d: "d < unat (PDX UTOP)" and tp: "table_present s pgdir d"
    and k: "k < 1024"
  shows "\<exists>t ys. env_free_pte pgdir (PTE_ADDR (pde_of s pgdir d) + KERNBASE) d k s = Returns () t \<and> shrinks pgdir s xs t ys \<and>
    (\<forall>d < 1024. pde_of t pgdir d = pde_of s pgdir d) \<and>
    (\<forall>a < UTOP. mapped t pgdir a = (if unat (PDX a) = d \<and> unat (PTX a) = k then None else mapped s pgdir a))"
proof -
  let ?va = "PGADDR (of_nat d) (of_nat k) 0" and ?e = "entry (pmem s) (PTE_ADDR (pde_of s pgdir d)) k"
  note v = PGADDR_user[OF d k]
  have ld: "load32 (PTE_ADDR (pde_of s pgdir d) + KERNBASE + 4 * of_nat k) s = Returns ?e s"
    by (simp add: load32_def entry_def entry_kva)
  have m: "mapped s pgdir ?va = (if ?e AND PTE_P = 0 then None else Some ?e)"
    using tp v by (simp add: mapped_def pte_of_def table_present_def Let_def)
  have eq: "PGNUM a = PGNUM ?va \<longleftrightarrow> unat (PDX a) = d \<and> unat (PTX a) = k" for a by (simp add: PGNUM_fields v)
  show ?thesis
  proof (cases "?e AND PTE_P = 0")
    case True
    then have "env_free_pte pgdir (PTE_ADDR (pde_of s pgdir d) + KERNBASE) d k s = Returns () s"
      using ld by (simp add: env_free_pte_def)
    moreover have "mapped s pgdir a = None" if "unat (PDX a) = d" "unat (PTX a) = k" for a
      using that m True eq mapped_same_page[of a ?va] by simp
    ultimately show ?thesis using shrinks_refl[OF us ow] by (intro exI[of _ s] exI[of _ xs]) auto
  next
    case False
    then have "mapped s pgdir ?va = Some ?e" using m by simp
    from unmap_step[OF us ow v(3) this] obtain t ys where t: "page_remove pgdir ?va s = Returns () t" "shrinks pgdir s xs t ys"
      "\<forall>d < 1024. pde_of t pgdir d = pde_of s pgdir d"
      "\<forall>a. ordinary a \<longrightarrow> mapped t pgdir a = (if PGNUM a = PGNUM ?va then None else mapped s pgdir a)" by blast
    have "env_free_pte pgdir (PTE_ADDR (pde_of s pgdir d) + KERNBASE) d k s = Returns () t"
      using ld t(1) False by (simp add: env_free_pte_def)
    then show ?thesis using t(2,3) t(4)[unfolded eq] user_ordinary by blast
  qed
qed

lemma free_ptes_ok:
  assumes us: "user_space s xs pgdir" and ow: "owned s pgdir" and d: "d < unat (PDX UTOP)" and tp: "table_present s pgdir d"
    and n: "n \<le> 1024"
  shows "\<exists>t ys. kfor [0..<n] (env_free_pte pgdir (PTE_ADDR (pde_of s pgdir d) + KERNBASE) d) s = Returns () t \<and> shrinks pgdir s xs t ys \<and>
    (\<forall>d < 1024. pde_of t pgdir d = pde_of s pgdir d) \<and>
    (\<forall>a < UTOP. mapped t pgdir a = (if unat (PDX a) = d \<and> unat (PTX a) < n then None else mapped s pgdir a))"
  using n
proof (induction n)
  case 0
  then show ?case using shrinks_refl[OF us ow] by auto
next
  case (Suc n)
  then obtain t ys where t: "kfor [0..<n] (env_free_pte pgdir (PTE_ADDR (pde_of s pgdir d) + KERNBASE) d) s = Returns () t"
    "shrinks pgdir s xs t ys" "\<forall>d < 1024. pde_of t pgdir d = pde_of s pgdir d"
    "\<forall>a < UTOP. mapped t pgdir a = (if unat (PDX a) = d \<and> unat (PTX a) < n then None else mapped s pgdir a)" by auto
  have d1: "d < 1024" using user_table(1)[OF d] .
  have ust: "user_space t ys pgdir" "owned t pgdir" and tpt: "table_present t pgdir d"
    using t(2) tp same_tables(1)[OF t(3)] by (simp_all add: shrinks_def)
  have "n < 1024" using Suc.prems by simp
  from free_pte_ok[OF ust d tpt this] t(3) d1 obtain u zs where u: "env_free_pte pgdir (PTE_ADDR (pde_of s pgdir d) + KERNBASE) d n t = Returns () u"
    "shrinks pgdir t ys u zs" "\<forall>d < 1024. pde_of u pgdir d = pde_of t pgdir d"
    "\<forall>a < UTOP. mapped u pgdir a = (if unat (PDX a) = d \<and> unat (PTX a) = n then None else mapped t pgdir a)" by auto
  have "kfor [0..<Suc n] (env_free_pte pgdir (PTE_ADDR (pde_of s pgdir d) + KERNBASE) d) s = Returns () u"
    using t(1) u(1) by (simp add: kfor_append)
  moreover have "\<forall>a < UTOP. mapped u pgdir a = (if unat (PDX a) = d \<and> unat (PTX a) < Suc n then None else mapped s pgdir a)"
    using t(4) u(4) by (auto simp: less_Suc_eq)
  ultimately show ?case using shrinks_trans[OF t(2) u(2)] t(3) u(3) by auto
qed

text \<open>Clearing the directory entry of a table that maps nothing, and freeing the table.\<close>

lemma drop_table:
  assumes us: "user_space s xs pgdir" and ow: "owned s pgdir" and d: "d < unat (PDX UTOP)" and tp: "table_present s pgdir d"
    and um: "\<forall>a < UTOP. unat (PDX a) = d \<longrightarrow> mapped s pgdir a = None"
  defines "s1 \<equiv> s\<lparr>pmem := write32 (pmem s) (pgdir - KERNBASE + 4 * of_nat d) 0\<rparr>"
  shows "\<exists>t ys. page_decref (table_page s pgdir d) s1 = Returns () t \<and> shrinks pgdir s xs t ys \<and>
    (\<forall>d' < 1024. pde_of t pgdir d' = (if d' = d then 0 else pde_of s pgdir d'))"
proof -
  let ?p = "table_page s pgdir d"
  note u = user_spaceD[OF us] and w = wf_pgdirD[OF user_spaceD(2)[OF us]]
  have d1: "d < 1024" "d \<noteq> UVPTX" using user_table[OF d] by auto
  have pl: "?p < length (pages s)" "?p \<notin> set xs" "?p \<noteq> dir_page pgdir" using w(4-6) tp by blast+
  have r: "pp_ref (pages s ! ?p) = 1" using ow d tp by (simp add: owned_def)
  have pde1: "pde_of s1 pgdir d' = (if d' = d then 0 else pde_of s pgdir d')" if "d' < 1024" for d'
    unfolding pde_of_def s1_def using entry_write[OF w(1) w(1) d1(1) that, of "pmem s" 0] by simp
  have i1: "page_inv s1 xs" using u(1) by (subst page_inv_cong[of s1 s]) (simp_all add: s1_def)
  have ps1: "pages s1 = pages s" by (simp add: s1_def)
  obtain t where t: "page_decref ?p s1 = Returns () t" "pages_only s1 t" "pmem t = pmem s1" "page_inv t (?p # xs)"
    "\<forall>i < length (pages s). pp_ref (pages t ! i) = (if i = ?p then 0 else pp_ref (pages s ! i))"
    using decref_ok[OF i1, of ?p] pl r ps1 by auto
  have po: "pages_only s t" using pages_only_trans[OF _ t(2), of s] by (simp add: s1_def)
  have len: "length (pages t) = length (pages s)" using po by (simp add: pages_only_def)
  have pde: "\<forall>d' < 1024. pde_of t pgdir d' = (if d' = d then 0 else pde_of s pgdir d')"
    using pde1 by (simp add: pde_of_cong[OF t(3)])
  have tpt: "table_present t pgdir d' \<longleftrightarrow> table_present s pgdir d' \<and> d' \<noteq> d" for d'
    using pde by (cases "d' = d") (auto simp: table_present_def)
  have tgt: "table_page t pgdir d' = table_page s pgdir d'" if "d' < 1024" "d' \<noteq> d" for d'
    using pde that by (simp add: table_page_def)
  have tgt': "table_page t pgdir d' = table_page s pgdir d'" if "table_present t pgdir d'" for d'
    using that tpt[of d'] by (intro tgt) (auto simp: table_present_def)
  have inj: "d' = d''" if "table_present s pgdir d'" "table_present s pgdir d''" "table_page s pgdir d' = table_page s pgdir d''" for d' d''
    using u(2) that by (simp add: wf_pgdir_def)
  have wt: "wf_pgdir t (?p # xs) pgdir"
    unfolding wf_pgdir_def
  proof (intro conjI allI impI)
    show "PGOFF pgdir = 0" "KERNBASE \<le> pgdir" using u(2) by (simp_all add: wf_pgdir_def)
    show "dir_page pgdir < length (pages t)" "dir_page pgdir \<notin> set (?p # xs)" using w(2,3) len pl(3) by auto
    show "table_page t pgdir UVPTX = dir_page pgdir" if "pde_of t pgdir UVPTX AND PTE_P \<noteq> 0"
    proof -
      have uv: "UVPTX < 1024" "UVPTX \<noteq> d" using d1(2) by simp_all
      then have "pde_of s pgdir UVPTX AND PTE_P \<noteq> 0" using pde that by simp
      then show ?thesis using tgt[OF uv] u(2) by (simp add: wf_pgdir_def)
    qed
    fix d'
    assume p: "table_present t pgdir d'"
    then have p': "table_present s pgdir d'" "d' \<noteq> d" by (simp_all add: tpt)
    show "table_page t pgdir d' < length (pages t)" "table_page t pgdir d' \<notin> set (?p # xs)" "table_page t pgdir d' \<noteq> dir_page pgdir"
      using w(4-6)[of d'] p' len inj[OF p'(1) tp] unfolding tgt'[OF p] by auto
    fix d''
    assume q: "table_present t pgdir d''" "table_page t pgdir d' = table_page t pgdir d''"
    then show "d' = d''" using inj[OF p'(1), of d''] tgt'[OF p] tgt'[OF q(1)] by (simp add: tpt)
  qed
  have mp: "mapped t pgdir a = mapped s pgdir a" if a: "a < UTOP" for a
  proof (cases "unat (PDX a) = d")
    case True
    then have "mapped t pgdir a = None" using pde d1(1) by (simp add: mapped_def pte_of_def)
    then show ?thesis using um a True by simp
  next
    case False
    let ?d = "unat (PDX a)"
    have e: "pde_of t pgdir ?d = pde_of s pgdir ?d" using pde False by simp
    show ?thesis
    proof (cases "table_present s pgdir ?d")
      case True
      have "PTE_ADDR (pde_of s pgdir ?d) \<noteq> pgdir - KERNBASE" by (rule table_base_neq_dir[OF u(2) True])
      then have "entry (pmem t) (PTE_ADDR (pde_of s pgdir ?d)) (unat (PTX a)) = entry (pmem s) (PTE_ADDR (pde_of s pgdir ?d)) (unat (PTX a))"
        unfolding t(3) s1_def using entry_write[OF w(1) _ d1(1), of "PTE_ADDR (pde_of s pgdir ?d)" "unat (PTX a)" "pmem s" 0] by simp
      then show ?thesis by (simp add: mapped_def pte_of_def e Let_def)
    next
      case False
      then have "pde_of s pgdir ?d AND PTE_P = 0" using present_ordinary[OF user_ordinary[OF a]] by blast
      then show ?thesis by (simp add: mapped_def pte_of_def e)
    qed
  qed
  have mpp: "mapped_page t pgdir a = mapped_page s pgdir a" if "a < UTOP" for a using mp[OF that] by (simp add: mapped_page_def)
  have dp: "data_pages t pgdir = data_pages s pgdir" using mpp by (auto simp: data_pages_def)
  have ast: "as_pages t pgdir \<subseteq> as_pages s pgdir" using tgt' tpt by (auto simp: as_pages_def)
  have gd: "good_page s pgdir q \<and> q \<noteq> ?p" if "q \<in> data_pages s pgdir" for q
    using us that tp by (auto simp: user_space_def good_page_def as_pages_def)
  have "curenv_ok t" using u(3) pages_only_current(3)[OF po] by simp
  moreover have "\<forall>q \<in> data_pages t pgdir. good_page t pgdir q"
    using gd ast t(5) len unfolding dp by (auto simp: good_page_def)
  ultimately have ust: "user_space t (?p # xs) pgdir" unfolding user_space_def using t(4) wt mpp u(5) by metis
  have owt: "owned t pgdir" unfolding owned_def dp
  proof (intro conjI ballI allI impI)
    fix q
    assume q: "q \<in> data_pages s pgdir"
    then show "pp_ref (pages t ! q) = 1" using ow gd[OF q] t(5) by (simp add: owned_def good_page_def)
  next
    fix d'
    assume d': "d' < unat (PDX UTOP)" "table_present t pgdir d'"
    then have p': "table_present s pgdir d'" "d' \<noteq> d" by (simp_all add: tpt)
    then have "table_page s pgdir d' \<noteq> ?p" "table_page s pgdir d' < length (pages s)" using inj[OF p'(1) tp] w(4) by auto
    then show "pp_ref (pages t ! table_page t pgdir d') = 1" using ow p'(1) d' t(5) tgt'[OF d'(2)] by (simp add: owned_def)
  next
    show "pp_ref (pages t ! dir_page pgdir) = 1" using ow t(5) pl(3) w(2) by (simp add: owned_def)
  qed
  have "insert ?p (table_page t pgdir ` {d'. d' < unat (PDX UTOP) \<and> table_present t pgdir d'}) =
      table_page s pgdir ` {d'. d' < unat (PDX UTOP) \<and> table_present s pgdir d'}"
    using tp d by (auto simp: tpt tgt' image_iff)
  then have "set (?p # xs) \<union> user_pages t pgdir = set xs \<union> user_pages s pgdir"
    unfolding user_pages_def dp by auto
  moreover have "mem_outside (user_tables s pgdir) s t"
  proof -
    have "write32 (pmem s) (pgdir - KERNBASE + 4 * of_nat d) 0 b = pmem s b" if "unat (PGNUM b) \<noteq> dir_page pgdir" for b
      using entry_addr(2,3)[OF w(1) d1(1)] that by (intro write32_outside) (auto simp: dir_page_def)
    then show ?thesis unfolding mem_outside_def t(3) s1_def by (auto simp: user_tables_def)
  qed
  moreover have "user_tables t pgdir \<subseteq> user_tables s pgdir" using tgt' tpt by (auto simp: user_tables_def)
  ultimately have "shrinks pgdir s xs t (?p # xs)" using ust owt po by (simp add: shrinks_def)
  then show ?thesis using t(1) pde by blast
qed

lemma free_pde_ok:
  assumes us: "user_space s xs pgdir" and ow: "owned s pgdir" and d: "d < unat (PDX UTOP)"
    and e: "e < length (envs s)" "env_pgdir (envs s ! e) = pgdir"
  shows "\<exists>t ys. env_free_pde e d s = Returns () t \<and> shrinks pgdir s xs t ys \<and>
    (\<forall>d' < 1024. pde_of t pgdir d' = (if d' = d \<and> table_present s pgdir d then 0 else pde_of s pgdir d'))"
proof -
  have d1: "d < 1024" "d \<noteq> UVPTX" using user_table[OF d] by auto
  have ld: "load32 (pgdir + 4 * of_nat d) s = Returns (pde_of s pgdir d) s"
    by (simp add: load32_def pde_of_def entry_def algebra_simps)
  have at: "env_at e s = Returns (envs s ! e) s" using e(1) by (simp add: env_at_def)
  have mx: "Suc (unat (PTX (- 1))) = 1024" by (simp add: unat_PTX unsigned_minus_1_eq_mask mask_eq_exp_minus_1)
  show ?thesis
  proof (cases "table_present s pgdir d")
    case False
    then have "pde_of s pgdir d AND PTE_P = 0" using d1 by (simp add: table_present_def)
    then have "env_free_pde e d s = Returns () s" using at ld e(2) by (simp add: env_free_pde_def)
    then show ?thesis using shrinks_refl[OF us ow] False by auto
  next
    case True
    let ?pde = "pde_of s pgdir d"
    have pr: "?pde AND PTE_P \<noteq> 0" using True by (simp add: table_present_def)
    note inv = user_spaceD(1)[OF us]
    have pl: "table_page s pgdir d < length (pages s)" using wf_pgdirD(4)[OF user_spaceD(2)[OF us] True] .
    then have np: "PGNUM ?pde < npages s"
      using page_inv_bounds(1)[OF inv] by (simp add: table_page_def word_less_nat_alt)
    have ka: "KADDR (PTE_ADDR ?pde) s = Returns (PTE_ADDR ?pde + KERNBASE) s"
      using np by (simp add: KADDR_def not_le[symmetric])
    obtain t ys where t: "kfor [0..<1024] (env_free_pte pgdir (PTE_ADDR ?pde + KERNBASE) d) s = Returns () t"
      "shrinks pgdir s xs t ys" "\<forall>d < 1024. pde_of t pgdir d = pde_of s pgdir d"
      "\<forall>a < UTOP. mapped t pgdir a = (if unat (PDX a) = d \<and> unat (PTX a) < 1024 then None else mapped s pgdir a)"
      using free_ptes_ok[OF us ow d True order_refl] by blast
    have ust: "user_space t ys pgdir" "owned t pgdir" and tpt: "table_present t pgdir d" and po: "pages_only s t"
      using t(2) True same_tables(1)[OF t(3)] by (simp_all add: shrinks_def)
    have um: "\<forall>a < UTOP. unat (PDX a) = d \<longrightarrow> mapped t pgdir a = None" using t(4) by simp
    have tg: "table_page t pgdir d = table_page s pgdir d" using t(3) d1(1) by (simp add: table_page_def)
    let ?t1 = "t\<lparr>pmem := write32 (pmem t) (pgdir - KERNBASE + 4 * of_nat d) 0\<rparr>"
    obtain u zs where u: "page_decref (table_page s pgdir d) ?t1 = Returns () u" "shrinks pgdir t ys u zs"
      "\<forall>d' < 1024. pde_of u pgdir d' = (if d' = d then 0 else pde_of t pgdir d')"
      using drop_table[OF ust d tpt um] unfolding tg by blast
    have sto: "store32 (pgdir + 4 * of_nat d) 0 t = Returns () ?t1"
      by (simp add: store32_def algebra_simps)
    have p2: "pa2page (PTE_ADDR ?pde) ?t1 = Returns (table_page s pgdir d) ?t1"
      using np pages_only_fields(4)[OF po] by (simp add: pa2page_def table_page_def not_le[symmetric])
    have "env_free_pde e d s = Returns () u"
      unfolding env_free_pde_def mx
      using at ld e(2) pr ka t(1) sto p2 u(1) by simp
    then show ?thesis using shrinks_trans[OF t(2) u(2)] u(3) t(3) True by auto
  qed
qed

lemma free_pdes_ok:
  assumes us: "user_space s xs pgdir" and ow: "owned s pgdir" and n: "n \<le> unat (PDX UTOP)"
    and e: "e < length (envs s)" "env_pgdir (envs s ! e) = pgdir"
  shows "\<exists>t ys. kfor [0..<n] (env_free_pde e) s = Returns () t \<and> shrinks pgdir s xs t ys \<and>
    (\<forall>d < n. \<not> table_present t pgdir d) \<and> (\<forall>d < 1024. n \<le> d \<longrightarrow> pde_of t pgdir d = pde_of s pgdir d)"
  using n
proof (induction n)
  case 0
  then show ?case using shrinks_refl[OF us ow] by auto
next
  case (Suc n)
  then obtain t ys where t: "kfor [0..<n] (env_free_pde e) s = Returns () t" "shrinks pgdir s xs t ys"
    "\<forall>d < n. \<not> table_present t pgdir d" "\<forall>d < 1024. n \<le> d \<longrightarrow> pde_of t pgdir d = pde_of s pgdir d" by auto
  have ust: "user_space t ys pgdir" "owned t pgdir" and po: "pages_only s t" using t(2) by (simp_all add: shrinks_def)
  have n: "n < unat (PDX UTOP)" using Suc.prems by simp
  have et: "e < length (envs t)" "env_pgdir (envs t ! e) = pgdir" using e pages_only_fields(1)[OF po] by simp_all
  obtain u zs where u: "env_free_pde e n t = Returns () u" "shrinks pgdir t ys u zs"
    "\<forall>d' < 1024. pde_of u pgdir d' = (if d' = n \<and> table_present t pgdir n then 0 else pde_of t pgdir d')"
    using free_pde_ok[OF ust n et] by blast
  have "kfor [0..<Suc n] (env_free_pde e) s = Returns () u" using t(1) u(1) by (simp add: kfor_append)
  moreover have "\<not> table_present u pgdir d" if "d < Suc n" for d
  proof -
    have d: "d < 1024" using that user_table(1)[OF n] by simp
    show ?thesis
    proof (cases "d = n \<and> table_present t pgdir n")
      case True
      then have "pde_of u pgdir d = 0" using u(3) d by simp
      then show ?thesis by (simp add: table_present_def)
    next
      case False
      then have "pde_of u pgdir d = pde_of t pgdir d" using u(3) d by auto
      then have "table_present u pgdir d = table_present t pgdir d" by (simp add: table_present_def)
      then show ?thesis using False t(3) that by (auto simp: less_Suc_eq)
    qed
  qed
  moreover have "\<forall>d < 1024. Suc n \<le> d \<longrightarrow> pde_of u pgdir d = pde_of s pgdir d" using t(4) u(3) by simp
  ultimately show ?case using shrinks_trans[OF t(2) u(2)] by blast
qed

lemma no_user_pages:
  assumes "\<forall>d < unat (PDX UTOP). \<not> table_present t pgdir d"
  shows "user_pages t pgdir = {}"
proof -
  note pu = PDX_UTOP
  have "mapped_page t pgdir a = None" if "a < UTOP" for a
  proof -
    have "\<not> table_present t pgdir (unat (PDX a))" using assms user_PDX[OF that] pu by simp
    then have "pde_of t pgdir (unat (PDX a)) AND PTE_P = 0" using present_ordinary[OF user_ordinary[OF that]] by blast
    then show ?thesis by (simp add: mapped_page_def mapped_def pte_of_def)
  qed
  then show ?thesis using assms by (auto simp: user_pages_def data_pages_def)
qed

lemma env_free_ok:
  assumes us: "user_space s xs pgdir" and ow: "owned s pgdir" and kp: "KERNBASE \<le> kern_pgdir s"
    and env: "env_inv s es" and e: "e < NENV" "env_pgdir (envs s ! e) = pgdir" "env_status (envs s ! e) \<noteq> ENV_FREE"
  shows "\<exists>t ys. env_free e s = Returns () t \<and> page_inv t ys \<and>
    set ys = set xs \<union> user_pages s pgdir \<union> {dir_page pgdir} \<and>
    env_inv t (e # es) \<and> mem_outside (user_tables s pgdir) s t \<and> length (pages t) = length (pages s) \<and>
    (\<forall>i < NENV. i \<noteq> e \<longrightarrow> envs t ! i = envs s ! i) \<and> env_id (envs t ! e) = env_id (envs s ! e) \<and>
    cr3 t = (if curenv s = Some e then kern_pgdir s - KERNBASE else cr3 s) \<and> cpus t = cpus s \<and> cpunum t = cpunum s \<and>
    kern_pgdir t = kern_pgdir s \<and> length (envs t) = NENV"
proof -
  have len: "length (envs s) = NENV" by (rule env_invD(1)[OF env])
  define s1 where "s1 = (if curenv s = Some e then s\<lparr>cr3 := kern_pgdir s - KERNBASE\<rparr> else s)"
  have st1: "kwhen (curenv s = Some e) (kbind (kget kern_pgdir) (\<lambda>pd. kbind (PADDR pd) lcr3)) s = Returns () s1"
    using kp by (simp add: s1_def PADDR_def lcr3_def not_less[symmetric])
  have f1: "curenv s1 = curenv s" "envs s1 = envs s" by (simp_all add: s1_def curenv_def thiscpu_def)
  obtain c where c: "cur_id s1 = Returns c s1"
  proof -
    have "\<exists>c. cur_id s1 = Returns c s1" using user_spaceD(3)[OF us] f1
      by (auto simp: cur_id_def curenv_ok_def env_at_def kbind_apply split: option.splits)
    then show ?thesis using that by blast
  qed
  define s2 where "s2 = s1\<lparr>klog := klog s1 @ [(''[%08x] free env %08x\<newline>'', [PInt c, PInt (env_id (envs s ! e))])]\<rparr>"
  have m2: "pmem s2 = pmem s" "pages s2 = pages s" "page_free_list s2 = page_free_list s" "npages s2 = npages s"
    "curenv s2 = curenv s" "envs s2 = envs s" "env_free_list s2 = env_free_list s" "kern_pgdir s2 = kern_pgdir s"
    "cpus s2 = cpus s" "cpunum s2 = cpunum s" "cr3 s2 = (if curenv s = Some e then kern_pgdir s - KERNBASE else cr3 s)"
    by (simp_all add: s2_def s1_def curenv_def thiscpu_def)
  have m2': "length (envs s2) = length (envs s)" by (simp add: m2(6))
  note c2 = space_cong[OF m2(1-5) m2']
  have us2: "user_space s2 xs pgdir" "owned s2 pgdir" using us ow by (simp_all add: c2(1,3))
  have e2: "e < length (envs s2)" "env_pgdir (envs s2 ! e) = pgdir" using e len by (simp_all add: m2(6))
  obtain s3 ys where s3: "kfor [0..<unat (PDX UTOP)] (env_free_pde e) s2 = Returns () s3" and sh: "shrinks pgdir s2 xs s3 ys"
    and nt: "\<forall>d < unat (PDX UTOP). \<not> table_present s3 pgdir d"
    using free_pdes_ok[OF us2 order_refl e2] by blast
  have us3: "user_space s3 ys pgdir" "owned s3 pgdir" and po: "pages_only s2 s3" and mo: "mem_outside (user_tables s2 pgdir) s2 s3"
    and sy: "set ys = set xs \<union> user_pages s2 pgdir"
    using sh no_user_pages[OF nt] by (simp_all add: shrinks_def)
  note f3 = pages_only_fields[OF po] and w3 = wf_pgdirD[OF user_spaceD(2)[OF us3(1)]]
  have as2: "user_tables s2 pgdir = user_tables s pgdir" "user_pages s2 pgdir = user_pages s pgdir"
    using pde_of_cong[OF m2(1)] mapped_cong[OF m2(1)]
    by (simp_all add: user_tables_def user_pages_def data_pages_def table_present_def table_page_def mapped_page_def)
  have kb: "KERNBASE \<le> pgdir" using user_spaceD(2)[OF us] by (simp add: wf_pgdir_def)
  define s4 where "s4 = s3\<lparr>envs := (envs s)[e := (envs s ! e)\<lparr>env_pgdir := 0\<rparr>]\<rparr>"
  have st4: "set_env e (\<lambda>y. y\<lparr>env_pgdir := 0\<rparr>) s3 = Returns () s4" using e len f3(1) m2(6) by (simp add: set_env_def s4_def)
  have i4: "page_inv s4 ys" using user_spaceD(1)[OF us3(1)] by (subst page_inv_cong[of s4 s3]) (simp_all add: s4_def)
  have dl: "dir_page pgdir < length (pages s4)" and dr: "pp_ref (pages s4 ! dir_page pgdir) = 1"
    using w3(2) us3(2) by (simp_all add: s4_def owned_def)
  have p2: "pa2page (pgdir - KERNBASE) s4 = Returns (dir_page pgdir) s4"
  proof -
    have "PGNUM (pgdir - KERNBASE) < npages s4"
      using dl page_inv_bounds(1)[OF i4] by (simp add: dir_page_def word_less_nat_alt)
    then show ?thesis by (simp add: pa2page_def dir_page_def not_le[symmetric])
  qed
  obtain s5 where s5: "page_decref (dir_page pgdir) s4 = Returns () s5" "pages_only s4 s5" "pmem s5 = pmem s4"
    "page_inv s5 (dir_page pgdir # ys)"
    using decref_ok[OF i4 dl] dr by auto
  note f5 = pages_only_fields[OF s5(2)]
  let ?E = "(envs s)[e := (envs s ! e)\<lparr>env_pgdir := 0, env_status := ENV_FREE, env_link := env_free_list s\<rparr>]"
  define t where "t = s5\<lparr>envs := ?E, env_free_list := Some e\<rparr>"
  have fl: "env_free_list s5 = env_free_list s" using f5(6) f3(6) m2(7) by (simp add: s4_def)
  have es5: "envs s5 = (envs s)[e := (envs s ! e)\<lparr>env_pgdir := 0\<rparr>]" using f5(1) by (simp add: s4_def)
  have st5: "set_env e (\<lambda>y. y\<lparr>env_status := ENV_FREE, env_link := env_free_list s\<rparr>) s5 = Returns () (s5\<lparr>envs := ?E\<rparr>)"
    using e len by (simp add: set_env_def es5)
  have at: "env_at e s1 = Returns (envs s ! e) s1" "env_at e s3 = Returns (envs s ! e) s3"
    using e len f1 f3(1) m2(6) by (simp_all add: env_at_def)
  have pr: "cprintf ''[%08x] free env %08x\<newline>'' [PInt c, PInt (env_id (envs s ! e))] s1 = Returns () s2"
    by (simp add: cprintf_def s2_def)
  have "env_free e s = Returns () t"
    unfolding env_free_def
    using st1 c at pr s3 kb e(2) st4 p2 s5(1) st5 fl
    by (simp add: PADDR_def not_less[symmetric] t_def)
  moreover have "page_inv t (dir_page pgdir # ys)" using s5(4) by (subst page_inv_cong[of t s5]) (simp_all add: t_def)
  moreover have "set (dir_page pgdir # ys) = set xs \<union> user_pages s pgdir \<union> {dir_page pgdir}" using sy as2(2) by auto
  moreover have "env_inv t (e # es)"
  proof -
    have ne: "e \<notin> set es" using env_invD(4)[OF env e(1)] e(3) by simp
    have n: "envs t = ?E" "env_free_list t = Some e" by (simp_all add: t_def)
    have same: "env_links t i = env_links s i" if "i \<in> set es" for i
      using that ne by (cases "i = e") (auto simp: env_links_def n)
    have "linked (env_links t) (env_free_list s) es = linked (env_links s) (env_free_list s) es"
      using same by (rule linked_cong)
    moreover have "env_links t e = env_free_list s" using e(1) len by (simp add: env_links_def n)
    ultimately have "linked (env_links t) (env_free_list t) (e # es)" using env by (simp add: env_inv_def n)
    moreover have "i \<in> set (e # es) \<longleftrightarrow> env_status (envs t ! i) = ENV_FREE" if "i < NENV" for i
      using env_invD(4)[OF env that] e(1) len by (cases "i = e") (simp_all add: n)
    moreover have "env_id (envs t ! i) = env_id (envs s ! i)" for i using e(1) len by (cases "i = e") (simp_all add: n)
    ultimately show ?thesis using env e(1) ne by (simp add: env_inv_def n)
  qed
  moreover have "mem_outside (user_tables s pgdir) s t"
    using mo unfolding mem_outside_def as2(1) m2(1) by (simp add: t_def s5(3) s4_def)
  moreover have "length (pages t) = length (pages s)" using f5(9) f3(9) m2(2) by (simp add: t_def s4_def)
  moreover have "\<forall>i < NENV. i \<noteq> e \<longrightarrow> envs t ! i = envs s ! i" "env_id (envs t ! e) = env_id (envs s ! e)" "length (envs t) = NENV"
    using len e(1) by (simp_all add: t_def)
  moreover have "cr3 t = (if curenv s = Some e then kern_pgdir s - KERNBASE else cr3 s)" "cpus t = cpus s" "cpunum t = cpunum s"
    "kern_pgdir t = kern_pgdir s"
    using f5(2,3,5,7) f3(2,3,5,7) m2(8-11) by (simp_all add: t_def s4_def)
  ultimately show ?thesis by blast
qed

text \<open>
  C7. \<open>env_free\<close> gives back everything: for an environment whose user pages no one else uses, it returns, the free pages are
  those free before together with every page the environment had mapped, the tables that mapped them and its page directory, each
  once and with no reference; the environment becomes the first of the free environments and keeps its identifier;
  no other environment and no memory outside its directory and the tables that map its user part is changed, and a processor that used its
  directory is switched to the kernel's.
\<close>

theorem env_free_returns_pages:
  assumes "user_space s xs (env_pgdir (envs s ! e))" "owned s (env_pgdir (envs s ! e))" "KERNBASE \<le> kern_pgdir s"
    "env_inv s es" "e < NENV" "env_status (envs s ! e) \<noteq> ENV_FREE"
  shows "\<exists>t ys. env_free e s = Returns () t \<and> page_inv t ys \<and>
    set ys = set xs \<union> user_pages s (env_pgdir (envs s ! e)) \<union> {dir_page (env_pgdir (envs s ! e))} \<and>
    env_inv t (e # es) \<and> env_id (envs t ! e) = env_id (envs s ! e) \<and>
    (\<forall>i < NENV. i \<noteq> e \<longrightarrow> envs t ! i = envs s ! i) \<and> mem_outside (user_tables s (env_pgdir (envs s ! e))) s t \<and>
    (curenv s = Some e \<longrightarrow> cr3 t = kern_pgdir s - KERNBASE)"
  using env_free_ok[OF assms(1-5) refl assms(6)] by auto

theorem env_free_returns_pages_witness:
  "\<exists>s t u ys. env_init load_machine = Returns () s \<and> env_create 0xF0008000 ENV_TYPE_USER s = Returns () t \<and>
     env_free 0 t = Returns () u \<and> page_inv u ys \<and> dir_page (env_pgdir (envs t ! 0)) \<in> set ys"
proof -
  obtain s where s: "env_init load_machine = Returns () s" "page_inv s [2, 3, 4, 5, 6, 7]" "wf_pgdir s [2, 3, 4, 5, 6, 7] (kern_pgdir s)"
    "env_inv s (0 # [Suc 0..<NENV])" "curenv_ok s" "\<forall>d < unat (PDX UTOP). \<not> table_present s (kern_pgdir s) d"
    "program_ok (pmem s) 0xF0008000 100" "file_outside (set [2, 3, 4, 5, 6, 7]) 0xF0008000 100"
    and m: "pmem s = program_bytes" "kern_pgdir s = 0xF0001000"
    using load_ready by blast
  have l: "2 * Suc (length (concat (map seg_pages (headers (pmem s) 0xF0008000)))) \<le> length [3, 4, 5, 6, 7 :: nat]"
    unfolding m load_headers by (simp add: seg_pages_def region_pages_def)
  obtain t ys where t: "env_create 0xF0008000 ENV_TYPE_USER s = Returns () t" "env_inv t [Suc 0..<NENV]"
    "env_status (envs t ! 0) = ENV_RUNNABLE" "kern_pgdir t = kern_pgdir s"
    "user_space t ys (env_pgdir (envs t ! 0))" "owned t (env_pgdir (envs t ! 0))"
    using env_create_ok[OF s(2-8) l, of ENV_TYPE_USER] by blast
  have "KERNBASE \<le> kern_pgdir t" unfolding t(4) m by (simp add: KERNBASE_def)
  then show ?thesis using env_free_returns_pages[OF t(5,6) _ t(2), simplified t(3)] s(1) t(1) by fastforce
qed

text \<open>
  C15. Creating an environment and freeing it leaks nothing: the pages that are free afterwards are the pages that were free
  before, and the free environments are in the same order.
\<close>

theorem env_create_free_restores:
  assumes "page_inv s (x # xs)" "wf_pgdir s (x # xs) (kern_pgdir s)" "env_inv s (e # es)" "curenv_ok s"
    "\<forall>d < unat (PDX UTOP). \<not> table_present s (kern_pgdir s) d"
    "program_ok (pmem s) binary sz" "file_outside (set (x # xs)) binary sz"
    "2 * Suc (length (concat (map seg_pages (headers (pmem s) binary)))) \<le> length xs"
  shows "\<exists>t u ys. env_create binary ty s = Returns () t \<and> env_free e t = Returns () u \<and> page_inv u ys \<and>
    set ys = set (x # xs) \<and> env_inv u (e # es)"
proof -
  obtain t ys where t: "env_create binary ty s = Returns () t" "env_inv t es" "env_status (envs t ! e) = ENV_RUNNABLE"
    "kern_pgdir t = kern_pgdir s" "user_space t ys (env_pgdir (envs t ! e))" "owned t (env_pgdir (envs t ! e))"
    "set ys \<union> user_pages t (env_pgdir (envs t ! e)) \<union> {dir_page (env_pgdir (envs t ! e))} = set (x # xs)"
    using env_create_ok[OF assms, of ty] by blast
  have kp: "KERNBASE \<le> kern_pgdir t" using assms(2) by (simp add: t(4) wf_pgdir_def)
  have e: "e < NENV" using env_invD(3)[OF assms(3)] by simp
  have st: "env_status (envs t ! e) \<noteq> ENV_FREE" by (simp add: t(3))
  show ?thesis using env_free_ok[OF t(5,6) kp t(2) e refl st] t(1,7) by auto
qed

theorem env_create_free_restores_witness:
  "\<exists>s t u ys. env_init load_machine = Returns () s \<and> env_create 0xF0008000 ENV_TYPE_USER s = Returns () t \<and>
     env_free 0 t = Returns () u \<and> page_inv u ys \<and> set ys = {2, 3, 4, 5, 6, 7}"
proof -
  obtain s where s: "env_init load_machine = Returns () s" "page_inv s [2, 3, 4, 5, 6, 7]" "wf_pgdir s [2, 3, 4, 5, 6, 7] (kern_pgdir s)"
    "env_inv s (0 # [Suc 0..<NENV])" "curenv_ok s" "\<forall>d < unat (PDX UTOP). \<not> table_present s (kern_pgdir s) d"
    "program_ok (pmem s) 0xF0008000 100" "file_outside (set [2, 3, 4, 5, 6, 7]) 0xF0008000 100"
    and m: "pmem s = program_bytes"
    using load_ready by blast
  have l: "2 * Suc (length (concat (map seg_pages (headers (pmem s) 0xF0008000)))) \<le> length [3, 4, 5, 6, 7 :: nat]"
    unfolding m load_headers by (simp add: seg_pages_def region_pages_def)
  have e: "set [2, 3, 4, 5, 6, 7] = {2, 3, 4, 5, 6, 7 :: nat}" by simp
  from env_create_free_restores[OF s(2-8) l, of ENV_TYPE_USER, unfolded e] show ?thesis using s(1) by blast
qed

lemma envid2env_stale:
  assumes "length (envs s) = NENV" "envid \<noteq> 0" "env_status (envs s ! ENVX envid) = ENV_FREE \<or> env_id (envs s ! ENVX envid) \<noteq> envid"
  shows "envid2env envid checkperm s = Returns (- E_BAD_ENV, None) s"
  using assms ENVX_less[of envid] by (auto simp: envid2env_def env_at_def kbind_apply)

text \<open>Only pages that were free are written when an environment is created, so other spaces keep their tables.\<close>

lemma created_apart:
  assumes "wf_pgdir s (x # xs) other" "mem_outside (set (x # xs)) s t" "length (pages t) = length (pages s)"
    "set ys \<union> user_pages t pd \<union> {dir_page pd} = set (x # xs)"
  shows "wf_pgdir t ys other" and "as_pages t other \<inter> (user_tables t pd \<union> user_pages t pd) = {}"
    and "ordinary va \<Longrightarrow> mapped t other va = mapped s other va"
proof -
  have d: "as_pages s other \<inter> set (x # xs) = {}" using wf_pgdirD(3,5)[OF assms(1)] by (auto simp: as_pages_def)
  have po: "PGOFF other = 0" using assms(1) by (simp add: wf_pgdir_def)
  show "wf_pgdir t ys other" by (rule wf_other_space[OF assms(1,2) d assms(3)]) (use d assms(4) in blast)
  have "as_pages t other = as_pages s other" by (rule present_cong(2)) (rule other_space(1)[OF assms(2) po d])
  moreover have "user_tables t pd \<subseteq> insert (dir_page pd) (user_pages t pd)" by (auto simp: user_tables_def user_pages_def)
  ultimately show "as_pages t other \<inter> (user_tables t pd \<union> user_pages t pd) = {}" using d assms(4) by blast
  show "ordinary va \<Longrightarrow> mapped t other va = mapped s other va" by (rule other_space(2)[OF assms(2) po d])
qed

text \<open>
  C8. Freeing an environment leaves every other address space alone, although all spaces share the tables of the kernel's part: if the
  directory and the tables of another space, the kernel's or an environment's, are none of the pages that the environment owns, that space is well formed afterwards,
  every address of it is mapped as before, and the contents of every page mapped in it that is not one of the freed tables are the same.
\<close>

theorem env_free_isolated:
  assumes "user_space s xs (env_pgdir (envs s ! e))" "owned s (env_pgdir (envs s ! e))" "KERNBASE \<le> kern_pgdir s"
    "env_inv s es" "e < NENV" "env_status (envs s ! e) \<noteq> ENV_FREE" "wf_pgdir s xs other"
    "as_pages s other \<inter> (user_tables s (env_pgdir (envs s ! e)) \<union> user_pages s (env_pgdir (envs s ! e))) = {}"
  shows "\<exists>t ys. env_free e s = Returns () t \<and> page_inv t ys \<and> wf_pgdir t ys other \<and>
    (\<forall>va. ordinary va \<longrightarrow> mapped t other va = mapped s other va) \<and>
    (\<forall>va. ordinary va \<longrightarrow> (\<forall>pg. mapped_page s other va = Some pg \<longrightarrow> pg \<notin> user_tables s (env_pgdir (envs s ! e))) \<longrightarrow>
       user_byte t other va = user_byte s other va)"
proof -
  let ?pd = "env_pgdir (envs s ! e)"
  obtain t ys where t: "env_free e s = Returns () t" "page_inv t ys" "set ys = set xs \<union> user_pages s ?pd \<union> {dir_page ?pd}"
    and mo: "mem_outside (user_tables s ?pd) s t" and len: "length (pages t) = length (pages s)"
    using env_free_ok[OF assms(1-5) refl assms(6)] by blast
  have d: "as_pages s other \<inter> user_tables s ?pd = {}" using assms(8) by auto
  have po: "PGOFF other = 0" using assms(7) by (simp add: wf_pgdir_def)
  have m: "mapped t other va = mapped s other va" if "ordinary va" for va by (rule other_space(2)[OF mo po d that])
  have "as_pages s other \<inter> set xs = {}" using wf_pgdirD(3,5)[OF assms(7)] by (auto simp: as_pages_def)
  then have "as_pages s other \<inter> set ys = {}" using assms(8) by (auto simp: t(3) user_tables_def)
  then have "wf_pgdir t ys other" by (rule wf_other_space[OF assms(7) mo d len])
  moreover have "user_byte t other va = user_byte s other va"
    if "ordinary va" "\<forall>pg. mapped_page s other va = Some pg \<longrightarrow> pg \<notin> user_tables s ?pd" for va
    using that by (intro user_byte_outside[OF mo m]) auto
  ultimately show ?thesis using t(1,2) m by blast
qed

theorem env_free_isolated_witness:
  "\<exists>s t u. env_init load_machine = Returns () s \<and> env_create 0xF0008000 ENV_TYPE_USER s = Returns () t \<and> env_free 0 t = Returns () u \<and>
     (\<forall>va. ordinary va \<longrightarrow> mapped u 0xF0001000 va = mapped t 0xF0001000 va)"
proof -
  obtain s where s: "env_init load_machine = Returns () s" "page_inv s [2, 3, 4, 5, 6, 7]" "wf_pgdir s [2, 3, 4, 5, 6, 7] (kern_pgdir s)"
    "env_inv s (0 # [Suc 0..<NENV])" "curenv_ok s" "\<forall>d < unat (PDX UTOP). \<not> table_present s (kern_pgdir s) d"
    "program_ok (pmem s) 0xF0008000 100" "file_outside (set [2, 3, 4, 5, 6, 7]) 0xF0008000 100"
    and m: "pmem s = program_bytes" "kern_pgdir s = 0xF0001000"
    using load_ready by blast
  have l: "2 * Suc (length (concat (map seg_pages (headers (pmem s) 0xF0008000)))) \<le> length [3, 4, 5, 6, 7 :: nat]"
    unfolding m load_headers by (simp add: seg_pages_def region_pages_def)
  obtain t ys where t: "env_create 0xF0008000 ENV_TYPE_USER s = Returns () t" "env_inv t [Suc 0..<NENV]"
    "env_status (envs t ! 0) = ENV_RUNNABLE" "kern_pgdir t = kern_pgdir s"
    "user_space t ys (env_pgdir (envs t ! 0))" "owned t (env_pgdir (envs t ! 0))"
    "set ys \<union> user_pages t (env_pgdir (envs t ! 0)) \<union> {dir_page (env_pgdir (envs t ! 0))} = set [2, 3, 4, 5, 6, 7]"
    "mem_outside (set [2, 3, 4, 5, 6, 7]) s t" "length (pages t) = length (pages s)"
    using env_create_ok[OF s(2-8) l, of ENV_TYPE_USER] by blast
  note c = created_apart[OF s(3) t(8,9,7)]
  have "KERNBASE \<le> kern_pgdir t" unfolding t(4) m by (simp add: KERNBASE_def)
  moreover have "env_status (envs t ! 0) \<noteq> ENV_FREE" "0 < NENV" by (simp_all add: t(3))
  ultimately obtain u where "env_free 0 t = Returns () u" "\<forall>va. ordinary va \<longrightarrow> mapped u (kern_pgdir s) va = mapped t (kern_pgdir s) va"
    using env_free_isolated[OF t(5,6) _ t(2) _ _ c(1,2)] by blast
  then show ?thesis using s(1) t(1) m(2) by auto
qed

text \<open>
  A freed identifier: from the moment an environment is freed, and also when its slot has been given to the next environment, its old identifier is refused.
\<close>

theorem freed_id_rejected:
  assumes "user_space s xs (env_pgdir (envs s ! e))" "owned s (env_pgdir (envs s ! e))" "wf_pgdir s xs (kern_pgdir s)"
    "env_inv s es" "e < NENV" "env_status (envs s ! e) \<noteq> ENV_FREE"
    "as_pages s (kern_pgdir s) \<inter> (user_tables s (env_pgdir (envs s ! e)) \<union> user_pages s (env_pgdir (envs s ! e))) = {}"
    "env_id (envs s ! e) \<noteq> 0"
  shows "\<exists>t u. env_free e s = Returns () t \<and> envid2env (env_id (envs s ! e)) checkperm t = Returns (- E_BAD_ENV, None) t \<and>
    env_alloc parent t = Returns (0, Some e) u \<and> envid2env (env_id (envs s ! e)) checkperm u = Returns (- E_BAD_ENV, None) u"
proof -
  let ?pd = "env_pgdir (envs s ! e)" and ?id = "env_id (envs s ! e)"
  have kp: "KERNBASE \<le> kern_pgdir s" using assms(3) by (simp add: wf_pgdir_def)
  obtain t ys where t: "env_free e s = Returns () t" "page_inv t ys" "set ys = set xs \<union> user_pages s ?pd \<union> {dir_page ?pd}"
    "env_inv t (e # es)" "env_id (envs t ! e) = ?id" "cpus t = cpus s" "cpunum t = cpunum s" "kern_pgdir t = kern_pgdir s" "length (envs t) = NENV"
    and mo: "mem_outside (user_tables s ?pd) s t" and len: "length (pages t) = length (pages s)"
    using env_free_ok[OF assms(1,2) kp assms(4,5) refl assms(6)] by blast
  have x: "ENVX ?id = e" using env_invD(5)[OF assms(4,5)] assms(8) by simp
  have "env_status (envs t ! e) = ENV_FREE" using env_invD(4)[OF t(4) assms(5)] by simp
  then have 1: "envid2env ?id checkperm t = Returns (- E_BAD_ENV, None) t" using t(9) assms(8) x by (intro envid2env_stale) simp_all
  have "as_pages s (kern_pgdir s) \<inter> set xs = {}" using wf_pgdirD(3,5)[OF assms(3)] by (auto simp: as_pages_def)
  then have "as_pages s (kern_pgdir s) \<inter> set ys = {}" "as_pages s (kern_pgdir s) \<inter> user_tables s ?pd = {}"
    using assms(7) by (auto simp: t(3) user_tables_def)
  then have wf: "wf_pgdir t ys (kern_pgdir t)" unfolding t(8) by (intro wf_other_space[OF assms(3) mo _ len])
  have "curenv_ok t" using user_spaceD(3)[OF assms(1)] env_invD(1)[OF assms(4)] t(6,7,9)
    by (simp add: curenv_ok_def curenv_def thiscpu_def split: option.splits)
  moreover obtain y zs where ys: "ys = y # zs" using t(3) by (cases ys) auto
  ultimately obtain u where u: "env_alloc parent t = Returns (0, Some e) u" "envs u = (envs t)[e := alloc_env t y e parent]"
    using env_alloc_ok[of t y zs e es parent] t(2,4) wf by blast
  have "env_id (envs u ! e) = next_generation ?id OR of_nat e" using assms(5) t(5,9) by (simp add: u(2) alloc_env_def env_fresh_def)
  then have "env_id (envs u ! e) \<noteq> ?id" using fresh_id_differs[OF assms(5) x] by simp
  then have "envid2env ?id checkperm u = Returns (- E_BAD_ENV, None) u" using t(9) assms(8) x by (intro envid2env_stale) (simp_all add: u(2))
  then show ?thesis using t(1) 1 u(1) by blast
qed

end
