(* ===== verification/User_Faults.thy ===== *)
theory User_Faults
  imports Env_Teardown Trap
begin

text \<open>
  What the kernel does with a program that faults: the path from \<open>trap\<close> of \<^verbatim>\<open>kern/trap.c\<close> through \<open>page_fault_handler\<close> or the default case of
  \<open>trap_dispatch\<close> to \<open>env_destroy\<close>, \<open>env_free\<close> and \<open>sched_yield\<close>, on an environment whose memory satisfies the invariants of \<open>User_Space\<close>.
\<close>

text \<open>Changes to an environment that the table's invariant does not depend on.\<close>

lemma env_inv_update:
  assumes "c < NENV" "env_inv s es" "envs t = (envs s)[c := x]" "env_free_list t = env_free_list s"
    "env_id x = env_id (envs s ! c)" "env_link x = env_link (envs s ! c)" "env_status x = ENV_FREE \<longleftrightarrow> env_status (envs s ! c) = ENV_FREE"
  shows "env_inv t es"
proof -
  have len: "length (envs s) = NENV" by (rule env_invD(1)[OF assms(2)])
  have e: "env_status (envs t ! j) = ENV_FREE \<longleftrightarrow> env_status (envs s ! j) = ENV_FREE" "env_id (envs t ! j) = env_id (envs s ! j)"
    "env_link (envs t ! j) = env_link (envs s ! j)" for j
    using assms len by (cases "j = c"; simp)+
  then have "env_links t = env_links s" by (simp add: env_links_def fun_eq_iff)
  then show ?thesis using assms(2-4) len unfolding env_inv_def e by simp
qed

text \<open>Destroying the environment that runs on this processor, when it is the only one alive.\<close>

lemma env_destroy_last:
  assumes "user_space s xs (env_pgdir (envs s ! c))" "owned s (env_pgdir (envs s ! c))" "KERNBASE \<le> kern_pgdir s" "env_inv s es" "c < NENV"
    "env_status (envs s ! c) \<noteq> ENV_FREE" "curenv s = Some c" "cpunum s < length (cpus s)"
    "\<forall>i < NENV. i \<noteq> c \<longrightarrow> \<not> env_alive (envs s ! i)"
  shows "\<exists>t ys. env_destroy c s = Leaves Monitors t \<and> page_inv t ys \<and>
    set ys = set xs \<union> user_pages s (env_pgdir (envs s ! c)) \<union> {dir_page (env_pgdir (envs s ! c))} \<and>
    env_inv t (c # es) \<and> curenv t = None \<and> cr3 t = kern_pgdir s - KERNBASE \<and> mem_outside (user_tables s (env_pgdir (envs s ! c))) s t \<and>
    (\<forall>i < NENV. i \<noteq> c \<longrightarrow> envs t ! i = envs s ! i)"
proof -
  have e: "env_at c s = Returns (envs s ! c) s" using env_invD(1)[OF assms(4)] assms(5) by (simp add: env_at_def)
  obtain u ys where u: "env_free c s = Returns () u" "page_inv u ys"
    "set ys = set xs \<union> user_pages s (env_pgdir (envs s ! c)) \<union> {dir_page (env_pgdir (envs s ! c))}"
    "env_inv u (c # es)" "mem_outside (user_tables s (env_pgdir (envs s ! c))) s u" "\<forall>i < NENV. i \<noteq> c \<longrightarrow> envs u ! i = envs s ! i"
    "cr3 u = kern_pgdir s - KERNBASE" "cpus u = cpus s" "cpunum u = cpunum s"
    using env_free_ok[OF assms(1-5) refl assms(6)] assms(7) by auto
  have cu: "curenv u = Some c" using assms(7) u(8,9) by (simp add: curenv_def thiscpu_def)
  define v where "v = u\<lparr>cpus := (cpus u)[cpunum u := (thiscpu u)\<lparr>cpu_env := None\<rparr>]\<rparr>"
  have sv: "set_curenv None u = Returns () v" by (simp add: set_curenv_def v_def)
  have lv: "length (envs v) = NENV" using env_invD(1)[OF u(4)] by (simp add: v_def)
  have "\<not> env_alive (envs v ! i)" if "i < NENV" for i
  proof (cases "i = c")
    case True
    then show ?thesis using env_invD(4)[OF u(4) that] by (simp add: v_def env_alive_def)
  next
    case False
    then show ?thesis using assms(9) u(6) that by (simp add: v_def)
  qed
  then have "\<forall>e \<in> set (envs v). \<not> env_alive e" using lv by (metis in_set_conv_nth)
  from sched_halt_monitors[OF lv this] have h: "sched_yield v = Leaves Monitors (v\<lparr>klog := klog v @ [(''No runnable environments in the system!\<newline>'', [])]\<rparr>)"
    unfolding sched_yield_def .
  let ?t = "v\<lparr>klog := klog v @ [(''No runnable environments in the system!\<newline>'', [])]\<rparr>"
  have "env_destroy c s = Leaves Monitors ?t" unfolding env_destroy_def using e u(1) cu sv h assms(7) by simp
  moreover have "page_inv ?t ys" using u(2) by (subst page_inv_cong[of _ u]) (simp_all add: v_def)
  moreover have "env_inv ?t (c # es)" using u(4) by (simp add: env_inv_def env_links_def[abs_def] v_def)
  moreover have "curenv ?t = None" using u(8,9) assms(8) by (simp add: curenv_def thiscpu_def v_def)
  moreover have "cr3 ?t = kern_pgdir s - KERNBASE" "mem_outside (user_tables s (env_pgdir (envs s ! c))) s ?t"
    using u(5,7) by (simp_all add: v_def mem_outside_def)
  moreover have "\<forall>i < NENV. i \<noteq> c \<longrightarrow> envs ?t ! i = envs s ! i" using u(6) by (simp add: v_def)
  ultimately show ?thesis using u(3) by blast
qed

lemma trap_kills:
  assumes "user_trap_ready s c tf" "tf_trapno tf \<notin> {T_SYSCALL, T_BRKPT, IRQ_OFFSET + IRQ_SPURIOUS}"
  shows "\<exists>l. trap im tfp tf s = kseq (env_destroy c) (kbind (kget curenv) (\<lambda>cur. case cur of
         None \<Rightarrow> sched_yield
       | Some c \<Rightarrow> kbind (env_at c) (\<lambda>e.
           if env_status e = ENV_RUNNING then env_run c else sched_yield)))
    (s\<lparr>envs := (envs s)[c := (envs s ! c)\<lparr>env_tf := tf\<rparr>], last_tf := envs_kva s + 124 * of_nat c, klog := l\<rparr>)"
proof -
  let ?t = "s\<lparr>envs := (envs s)[c := (envs s ! c)\<lparr>env_tf := tf\<rparr>], last_tf := envs_kva s + 124 * of_nat c\<rparr>"
  note r = assms(1)[unfolded user_trap_ready_def]
  have f: "tf_read (Env_tf c) (?t\<lparr>klog := l\<rparr>) = Returns tf (?t\<lparr>klog := l\<rparr>)"
    "tf_addr (Env_tf c) (?t\<lparr>klog := l\<rparr>) = Returns (envs_kva s + 124 * of_nat c) (?t\<lparr>klog := l\<rparr>)"
    "the_curenv (?t\<lparr>klog := l\<rparr>) = Returns c (?t\<lparr>klog := l\<rparr>)"
    "env_at c (?t\<lparr>klog := l\<rparr>) = Returns ((envs s ! c)\<lparr>env_tf := tf\<rparr>) (?t\<lparr>klog := l\<rparr>)" for l
    using r by (simp_all add: tf_read_def tf_addr_def env_at_def the_curenv_def curenv_def thiscpu_def)
  note f0 = f[of "klog ?t", simplified]
  have cs: "tf_cs tf AND 3 \<noteq> 0" "tf_cs tf \<noteq> GD_KT" using r by auto
  have p: "\<exists>l. print_trapframe a tf (?t\<lparr>klog := k\<rparr>) = Returns () (?t\<lparr>klog := l\<rparr>)" for a k
    using print_trapframe_ok[of a tf "?t\<lparr>klog := k\<rparr>"] by simp
  have "\<exists>l. trap_dispatch im (Env_tf c) ?t = env_destroy c (?t\<lparr>klog := l\<rparr>)"
  proof (cases "tf_trapno tf = T_PGFLT")
    case True
    obtain l where l: "print_trapframe (envs_kva s + 124 * of_nat c) tf (?t\<lparr>klog := klog s @ [(''[%08x] user fault va %08x ip %08x\<newline>'',
        [PInt (env_id (envs s ! c)), PInt (cr2 s), PInt (tf_eip tf)])]\<rparr>) = Returns () (?t\<lparr>klog := l\<rparr>)" using p by blast
    show ?thesis using True f0 cs l by (intro exI[of _ l]) (simp add: trap_dispatch_def page_fault_handler_def cprintf_def)
  next
    case False
    obtain l where "print_trapframe (envs_kva s + 124 * of_nat c) tf ?t = Returns () (?t\<lparr>klog := l\<rparr>)"
      using print_trapframe_ok[of "envs_kva s + 124 * of_nat c" tf ?t] by blast
    then show ?thesis using False f0 f(3)[of l] cs assms(2) by (intro exI[of _ l]) (simp add: trap_dispatch_def)
  qed
  then show ?thesis unfolding trap_to_dispatch[OF assms(1)] by (auto simp: kseq_apply)
qed

text \<open>
  C9. A program that does something forbidden loses its environment: on any exception of user code, such as a page fault, other than a breakpoint, a system
  call or a spurious interrupt, and with no other environment alive (otherwise \<open>sched_halt\<close> goes on to release the kernel lock), the kernel frees the environment; the free pages are
  those free before and every page of its address space, no memory outside its directory and the tables of its user part has changed, the records
  of all other environments are as before, the processor runs no environment any more, and the kernel stays in the monitor with its own page directory in force.
\<close>

theorem exception_reclaims:
  assumes "user_trap_ready s c tf" "tf_trapno tf \<notin> {T_SYSCALL, T_BRKPT, IRQ_OFFSET + IRQ_SPURIOUS}"
    "user_space s xs (env_pgdir (envs s ! c))" "owned s (env_pgdir (envs s ! c))" "KERNBASE \<le> kern_pgdir s" "env_inv s es"
    "\<forall>i < NENV. i \<noteq> c \<longrightarrow> \<not> env_alive (envs s ! i)"
  shows "\<exists>t ys. trap im tfp tf s = Leaves Monitors t \<and> page_inv t ys \<and>
    set ys = set xs \<union> user_pages s (env_pgdir (envs s ! c)) \<union> {dir_page (env_pgdir (envs s ! c))} \<and>
    env_inv t (c # es) \<and> curenv t = None \<and> cr3 t = kern_pgdir s - KERNBASE \<and> mem_outside (user_tables s (env_pgdir (envs s ! c))) s t \<and>
    (\<forall>i < NENV. i \<noteq> c \<longrightarrow> envs t ! i = envs s ! i)"
proof -
  note r = assms(1)[unfolded user_trap_ready_def]
  obtain l where k: "trap im tfp tf s = kseq (env_destroy c) (kbind (kget curenv) (\<lambda>cur. case cur of
         None \<Rightarrow> sched_yield
       | Some c \<Rightarrow> kbind (env_at c) (\<lambda>e.
           if env_status e = ENV_RUNNING then env_run c else sched_yield)))
    (s\<lparr>envs := (envs s)[c := (envs s ! c)\<lparr>env_tf := tf\<rparr>], last_tf := envs_kva s + 124 * of_nat c, klog := l\<rparr>)" (is "_ = kseq _ _ ?u")
    using trap_kills[OF assms(1,2), of im tfp] by blast
  have c: "c < NENV" "length (envs s) = NENV" using r by simp_all
  have g: "env_pgdir (envs ?u ! c) = env_pgdir (envs s ! c)" "pmem ?u = pmem s" "pages ?u = pages s" "kern_pgdir ?u = kern_pgdir s" using c by simp_all
  have "user_space ?u xs (env_pgdir (envs s ! c))"
    by (rule user_space_cong[OF assms(3)]) (use r in \<open>simp_all add: curenv_ok_def curenv_def thiscpu_def\<close>)
  moreover have "env_inv ?u es" by (rule env_inv_update[OF c(1) assms(6), where x = "(envs s ! c)\<lparr>env_tf := tf\<rparr>"]) simp_all
  moreover have "\<forall>i < NENV. i \<noteq> c \<longrightarrow> \<not> env_alive (envs ?u ! i)" using assms(7) c by simp
  moreover have "curenv ?u = Some c" "cpunum ?u < length (cpus ?u)" "env_status (envs ?u ! c) \<noteq> ENV_FREE"
    using r by (simp_all add: curenv_def thiscpu_def)
  ultimately obtain t ys where "env_destroy c ?u = Leaves Monitors t" "page_inv t ys"
    "set ys = set xs \<union> user_pages ?u (env_pgdir (envs s ! c)) \<union> {dir_page (env_pgdir (envs s ! c))}" "env_inv t (c # es)"
    "curenv t = None" "cr3 t = kern_pgdir s - KERNBASE" "mem_outside (user_tables ?u (env_pgdir (envs s ! c))) ?u t"
    "\<forall>i < NENV. i \<noteq> c \<longrightarrow> envs t ! i = envs ?u ! i"
    using env_destroy_last[of ?u xs c es] assms(4,5) c(1) unfolding g memory_cong(4)[OF g(2,3)] by blast
  then show ?thesis unfolding k memory_cong(2)[OF g(2,3)] user_tables_cong[OF g(2)] by (auto simp: kseq_apply mem_outside_def)
qed

theorem exception_reclaims_witness:
  "\<exists>s t ys. trap sample_image 0xEFFFFFBC (user_frame 14) s = Leaves Monitors t \<and> page_inv t ys \<and> set ys = {2, 3, 4, 5, 6, 7}"
proof -
  obtain s where s: "env_init load_machine = Returns () s" "page_inv s [2, 3, 4, 5, 6, 7]" "wf_pgdir s [2, 3, 4, 5, 6, 7] (kern_pgdir s)"
    "env_inv s (0 # [Suc 0..<NENV])" "curenv_ok s" "\<forall>d < unat (PDX UTOP). \<not> table_present s (kern_pgdir s) d"
    "program_ok (pmem s) 0xF0008000 100" "file_outside (set [2, 3, 4, 5, 6, 7]) 0xF0008000 100"
    and m: "pmem s = program_bytes" "kern_pgdir s = 0xF0001000"
    using load_ready by blast
  have l: "2 * Suc (length (concat (map seg_pages (headers (pmem s) 0xF0008000)))) \<le> length [3, 4, 5, 6, 7 :: nat]"
    unfolding m load_headers by (simp add: seg_pages_def region_pages_def)
  obtain t ys where t: "env_inv t [Suc 0..<NENV]" "kern_pgdir t = kern_pgdir s"
    "user_space t ys (env_pgdir (envs t ! 0))" "owned t (env_pgdir (envs t ! 0))"
    "set ys \<union> user_pages t (env_pgdir (envs t ! 0)) \<union> {dir_page (env_pgdir (envs t ! 0))} = set [2, 3, 4, 5, 6, 7]"
    using env_create_ok[OF s(2-8) l, of ENV_TYPE_USER] by blast
  have len: "length (envs t) = NENV" by (rule env_invD(1)[OF t(1)])
  define u where "u = t\<lparr>envs := (envs t)[0 := (envs t ! 0)\<lparr>env_status := ENV_RUNNING\<rparr>], panicstr := None, eflags := 0, cpunum := 0,
    cpus := replicate 8 \<lparr>cpu_id = 0, cpu_status = CPU_STARTED, cpu_env = Some 0, cpu_ts = Taskstate_zero\<rparr>\<rparr>"
  have g: "env_pgdir (envs u ! 0) = env_pgdir (envs t ! 0)" "pmem u = pmem t" "pages u = pages t" "kern_pgdir u = kern_pgdir t" "length (envs u) = NENV"
    using len by (simp_all add: u_def)
  have "KERNBASE \<le> env_pgdir (envs t ! 0)" using t(3) by (simp add: user_space_def wf_pgdir_def)
  then have r: "user_trap_ready u 0 (user_frame 14)" using len by (simp add: user_trap_ready_def u_def user_frame_def curenv_def thiscpu_def)
  have us: "user_space u ys (env_pgdir (envs u ! 0))" unfolding g(1)
    by (rule user_space_cong[OF t(3)]) (use len in \<open>simp_all add: u_def curenv_ok_def curenv_def thiscpu_def\<close>)
  have "env_status (envs t ! 0) \<noteq> ENV_FREE" using env_invD(4)[OF t(1), of 0] by simp
  then have ei: "env_inv u [Suc 0..<NENV]" by (intro env_inv_update[OF _ t(1), of 0 _ "(envs t ! 0)\<lparr>env_status := ENV_RUNNING\<rparr>"]) (simp_all add: u_def)
  have "env_status (envs u ! i) = ENV_FREE" if "i < NENV" "i \<noteq> 0" for i using env_invD(4)[OF t(1) that(1)] that by (simp add: u_def)
  then have dead: "\<forall>i < NENV. i \<noteq> 0 \<longrightarrow> \<not> env_alive (envs u ! i)" by (simp add: env_alive_def)
  have ow: "owned u (env_pgdir (envs u ! 0))" unfolding g(1) memory_cong(4)[OF g(2,3)] by (rule t(4))
  have kp: "KERNBASE \<le> kern_pgdir u" unfolding g(4) t(2) m by (simp add: KERNBASE_def)
  have n: "tf_trapno (user_frame 14) \<notin> {T_SYSCALL, T_BRKPT, IRQ_OFFSET + IRQ_SPURIOUS}" by (simp add: user_frame_def)
  have e: "set ys \<union> user_pages u (env_pgdir (envs u ! 0)) \<union> {dir_page (env_pgdir (envs u ! 0))} = {2, 3, 4, 5, 6, 7}"
    unfolding g(1) memory_cong(2)[OF g(2,3)] t(5) by simp
  show ?thesis using exception_reclaims[OF r n us ow kp ei dead, of sample_image "0xEFFFFFBC", unfolded e] by blast
qed

end
