(* ===== verification/Kernel_Types.thy ===== *)
theory Kernel_Types
  imports Trap
begin

text \<open>
  The shapes of the kernel's variables as an invariant of every operation. \<open>typed\<close> is a small logic for invariants of kernel
  computations, with one rule per combinator of \<open>Jos_Prelude\<close>; \<open>kstate_ok\<close> states what the declarations in
  \<open>kern/pmap.c\<close>, \<open>kern/env.c\<close>, \<open>kern/cpu.h\<close>, \<open>kern/spinlock.h\<close> and \<open>kern/console.c\<close> promise of the variables; the collection
  \<open>typed_ops\<close> holds a lemma for every operation between the page allocator and \<open>trap\<close>; and \<open>runs\<close> composes traps on all
  processors with arbitrary changes by user code and devices between them.
\<close>

named_theorems typed_ops "the types of the kernel's operations"

section \<open>A logic for invariants\<close>

text \<open>
  \<open>typed I R m\<close>: from a state with the invariant \<open>I\<close>, the computation \<open>m\<close> panics, or ends in a state with the invariant; and the
  result it returns, if it returns one, satisfies \<open>R\<close>.
\<close>

definition typed :: "('s \<Rightarrow> bool) \<Rightarrow> ('a \<Rightarrow> bool) \<Rightarrow> ('s, 'a) kernel \<Rightarrow> bool" where
  "typed I R m \<longleftrightarrow> (\<forall>s. I s \<longrightarrow> (case m s of Returns x t \<Rightarrow> I t \<and> R x | Leaves x t \<Rightarrow> I t | Panics e \<Rightarrow> True))"

abbreviation some_value :: "'a \<Rightarrow> bool" where
  "some_value \<equiv> \<lambda>_. True"

section \<open>Pointers\<close>

text \<open>A pointer into an array of \<open>n\<close> elements, or null.\<close>

definition ptr_ok :: "nat \<Rightarrow> nat option \<Rightarrow> bool" where
  "ptr_ok n p \<longleftrightarrow> (case p of None \<Rightarrow> True | Some i \<Rightarrow> i < n)"

definition env_ok :: "Env \<Rightarrow> bool" where
  "env_ok e \<longleftrightarrow> ptr_ok NENV (env_link e) \<and> env_cpunum e < NCPU"

definition page_ok :: "nat \<Rightarrow> PageInfo \<Rightarrow> bool" where
  "page_ok n p \<longleftrightarrow> ptr_ok n (pp_link p)"

text \<open>
  The kernel's variables have the shapes their declarations give them: the arrays have their lengths, every pointer into one of
  them is null or refers to an element, the positions in the console's ring buffer are in range, and the cursor is on the screen.
\<close>

definition kstate_ok :: "nat \<Rightarrow> kstate \<Rightarrow> bool" where
  "kstate_ok n s \<longleftrightarrow> (length (pages s) = n \<and> (\<forall>p \<in> set (pages s). page_ok n p) \<and> ptr_ok n (page_free_list s)) \<and>
     (length (envs s) = NENV \<and> (\<forall>e \<in> set (envs s). env_ok e) \<and> ptr_ok NENV (env_free_list s)) \<and>
     (length (cpus s) = NCPU \<and> cpunum s < NCPU \<and> (\<forall>c \<in> set (cpus s). ptr_ok NENV (cpu_env c))) \<and>
     ptr_ok NCPU (lk_cpu (kernel_lock s)) \<and> cons_ok s \<and> screen_ok s"

section \<open>Sequences of traps\<close>

text \<open>
  What may happen between two traps: the next trap may be taken by another processor, user code and devices may change memory,
  registers and the input that waits.
\<close>

definition outside_world :: "kstate \<Rightarrow> kstate \<Rightarrow> bool" where
  "outside_world s t \<longleftrightarrow> (\<exists>m r2 r3 fl bp rx kb c. c < NCPU \<and>
     t = s\<lparr>pmem := m, cr2 := r2, cr3 := r3, eflags := fl, ebp := bp, com_rx := rx, kbd_in := kb, cpunum := c\<rparr>)"

text \<open>The states after any number of traps with any frames, each of which ended by leaving the kernel.\<close>

inductive runs :: "image \<Rightarrow> kstate \<Rightarrow> kstate \<Rightarrow> bool" for im where
  start: "runs im s s"
| step: "runs im s t \<Longrightarrow> outside_world t t' \<Longrightarrow> trap im tfp tf t' = Leaves x u \<Longrightarrow> runs im s u"

lemma kbind_kret: "kbind m kret = m"
  by (rule ext) (simp add: kbind_apply split: outcome.split)

lemma typed_kret: "R x \<Longrightarrow> typed I R (kret x)"
  by (simp add: typed_def)

lemma typed_kpanic: "typed I R (kpanic e)"
  by (simp add: typed_def)

lemma typed_kleave: "typed I R (kleave e)"
  by (simp add: typed_def)

lemma typed_kbind: "typed I R m \<Longrightarrow> (\<And>x. R x \<Longrightarrow> typed I Q (f x)) \<Longrightarrow> typed I Q (kbind m f)"
  unfolding typed_def
proof (intro allI impI)
  fix s
  assume m: "\<forall>s. I s \<longrightarrow> (case m s of Returns x t \<Rightarrow> I t \<and> R x | Leaves x t \<Rightarrow> I t | Panics e \<Rightarrow> True)"
    and f: "\<And>x. R x \<Longrightarrow> \<forall>s. I s \<longrightarrow> (case f x s of Returns x t \<Rightarrow> I t \<and> Q x | Leaves x t \<Rightarrow> I t | Panics e \<Rightarrow> True)" and s: "I s"
  show "case kbind m f s of Returns x t \<Rightarrow> I t \<and> Q x | Leaves x t \<Rightarrow> I t | Panics e \<Rightarrow> True"
    using m[rule_format, OF s] f by (cases "m s") (simp_all add: kbind_apply)
qed

lemma typed_kseq: "typed I some_value m \<Longrightarrow> typed I Q n \<Longrightarrow> typed I Q (kseq m n)"
  unfolding kseq_def by (rule typed_kbind)

lemma typed_kmodify: "(\<And>s. I s \<Longrightarrow> I (f s)) \<Longrightarrow> R () \<Longrightarrow> typed I R (kmodify f)"
  by (simp add: typed_def)

lemma typed_kget: "(\<And>s. I s \<Longrightarrow> R (f s)) \<Longrightarrow> typed I R (kget f)"
  by (simp add: typed_def)

lemma typed_kget_any: "typed I some_value (kget f)"
  by (simp add: typed_def)

lemma typed_kwhen: "(b \<Longrightarrow> typed I some_value m) \<Longrightarrow> typed I some_value (kwhen b m)"
  by (simp add: typed_def)

lemma typed_kassert: "typed I some_value (kassert e b)"
  by (simp add: typed_def)

lemma typed_if: "(b \<Longrightarrow> typed I R m) \<Longrightarrow> (\<not> b \<Longrightarrow> typed I R n) \<Longrightarrow> typed I R (if b then m else n)"
  by simp

lemma typed_option:
  "(p = None \<Longrightarrow> typed I R m) \<Longrightarrow> (\<And>x. p = Some x \<Longrightarrow> typed I R (f x)) \<Longrightarrow>
    typed I R (case p of None \<Rightarrow> m | Some x \<Rightarrow> f x)"
  by (cases p) simp_all

lemma typed_prod: "(\<And>x y. p = (x, y) \<Longrightarrow> typed I R (f x y)) \<Longrightarrow> typed I R (case p of (x, y) \<Rightarrow> f x y)"
  by (cases p) simp

lemma typed_let: "typed I R (f x) \<Longrightarrow> typed I R (let y = x in f y)"
  by simp

lemma typed_kfor: "(\<And>i. i \<in> set xs \<Longrightarrow> typed I some_value (body i)) \<Longrightarrow> typed I some_value (kfor xs body)"
  by (induction xs) (auto intro: typed_kret typed_kseq)

lemma typed_mono:
  assumes "typed I R m" "\<And>x. R x \<Longrightarrow> Q x"
  shows "typed I Q m"
  using typed_kbind[OF assms(1), of Q kret] assms(2) by (simp add: typed_kret kbind_kret)

lemma typed_any: "typed I R m \<Longrightarrow> typed I some_value m"
  by (erule typed_mono) simp

lemma typed_at: "(\<And>s. typed I R (f s)) \<Longrightarrow> typed I R (\<lambda>s. f s s)"
  unfolding typed_def by blast

lemmas typed_rules = typed_kpanic typed_kleave typed_kret typed_kassert typed_let typed_if typed_kwhen typed_option typed_prod
  typed_kseq typed_kbind typed_kfor

section \<open>Accesses to the arrays\<close>

lemma ptr_ok_None [simp]: "ptr_ok n None"
  by (simp add: ptr_ok_def)

lemma ptr_ok_Some [simp]: "ptr_ok n (Some i) \<longleftrightarrow> i < n"
  by (simp add: ptr_ok_def)

lemma page_at_typed [typed_ops]: "typed (kstate_ok n) (page_ok n) (page_at i)"
  by (auto simp: typed_def page_at_def kstate_ok_def)

lemma set_page_typed:
  assumes "\<And>p. page_ok n p \<Longrightarrow> page_ok n (f p)"
  shows "typed (kstate_ok n) some_value (set_page i f)"
  using assms by (auto simp: typed_def set_page_def kstate_ok_def cons_ok_def screen_ok_def dest!: set_update_subset_insert[THEN subsetD])

lemma env_at_typed [typed_ops]: "typed (kstate_ok n) env_ok (env_at i)"
  by (auto simp: typed_def env_at_def kstate_ok_def)

lemma set_env_typed:
  assumes "\<And>e. env_ok e \<Longrightarrow> env_ok (f e)"
  shows "typed (kstate_ok n) some_value (set_env i f)"
  using assms by (auto simp: typed_def set_env_def kstate_ok_def cons_ok_def screen_ok_def dest!: set_update_subset_insert[THEN subsetD])

lemma kstate_ok_frame [simp]:
  "kstate_ok n (s\<lparr>klog := x1\<rparr>) = kstate_ok n s" "kstate_ok n (s\<lparr>outs := x2\<rparr>) = kstate_ok n s"
  "kstate_ok n (s\<lparr>irq_mask_8259A := x3\<rparr>) = kstate_ok n s" "kstate_ok n (s\<lparr>didinit := x4\<rparr>) = kstate_ok n s"
  "kstate_ok n (s\<lparr>com_rx := x5\<rparr>) = kstate_ok n s" "kstate_ok n (s\<lparr>serial_exists := x6\<rparr>) = kstate_ok n s"
  "kstate_ok n (s\<lparr>kbd_in := x7\<rparr>) = kstate_ok n s" "kstate_ok n (s\<lparr>kbd_shift := x8\<rparr>) = kstate_ok n s"
  "kstate_ok n (s\<lparr>crtc_cursor := x9\<rparr>) = kstate_ok n s" "kstate_ok n (s\<lparr>addr_6845 := x10\<rparr>) = kstate_ok n s"
  "kstate_ok n (s\<lparr>crt_buf := x11\<rparr>) = kstate_ok n s" "kstate_ok n (s\<lparr>pmem := x12\<rparr>) = kstate_ok n s"
  "kstate_ok n (s\<lparr>cr0 := x13\<rparr>) = kstate_ok n s" "kstate_ok n (s\<lparr>cr2 := x14\<rparr>) = kstate_ok n s"
  "kstate_ok n (s\<lparr>cr3 := x15\<rparr>) = kstate_ok n s" "kstate_ok n (s\<lparr>eflags := x16\<rparr>) = kstate_ok n s"
  "kstate_ok n (s\<lparr>ebp := x17\<rparr>) = kstate_ok n s" "kstate_ok n (s\<lparr>hwops := x18\<rparr>) = kstate_ok n s"
  "kstate_ok n (s\<lparr>invlpgs := x19\<rparr>) = kstate_ok n s" "kstate_ok n (s\<lparr>user_mem_check_addr := x20\<rparr>) = kstate_ok n s"
  "kstate_ok n (s\<lparr>last_tf := x21\<rparr>) = kstate_ok n s" "kstate_ok n (s\<lparr>panicstr := x22\<rparr>) = kstate_ok n s"
  by (simp_all add: kstate_ok_def cons_ok_def screen_ok_def)

lemma kstate_ok_fields:
  assumes "kstate_ok n s"
  shows "ptr_ok n (page_free_list s)" and "ptr_ok NENV (env_free_list s)" and "ptr_ok NENV (curenv s)" and "cpunum s < NCPU"
    and "cons_ok s" and "screen_ok s"
  using assms by (simp_all add: kstate_ok_def curenv_def thiscpu_def)

lemma kget_fields [typed_ops]:
  "typed (kstate_ok n) (ptr_ok n) (kget page_free_list)" "typed (kstate_ok n) (ptr_ok NENV) (kget env_free_list)"
  "typed (kstate_ok n) (ptr_ok NENV) (kget curenv)" "typed (kstate_ok n) (\<lambda>c. c < NCPU) (kget cpunum)"
  by (rule typed_kget, rule kstate_ok_fields, assumption)+

lemma modify_lists [typed_ops]:
  "ptr_ok n p \<Longrightarrow> typed (kstate_ok n) some_value (kmodify (\<lambda>s. s\<lparr>page_free_list := p\<rparr>))"
  "ptr_ok NENV q \<Longrightarrow> typed (kstate_ok n) some_value (kmodify (\<lambda>s. s\<lparr>env_free_list := q\<rparr>))"
  by (rule typed_kmodify; simp add: kstate_ok_def cons_ok_def screen_ok_def)+

lemma set_curenv_typed [typed_ops]: "ptr_ok NENV e \<Longrightarrow> typed (kstate_ok n) some_value (set_curenv e)"
  unfolding set_curenv_def
  by (rule typed_kmodify) (auto simp: kstate_ok_def cons_ok_def screen_ok_def dest!: set_update_subset_insert[THEN subsetD])

lemma set_cpu_status_typed [typed_ops]: "typed (kstate_ok n) some_value (set_cpu_status st)"
  unfolding set_cpu_status_def
  by (rule typed_kmodify) (auto simp: kstate_ok_def cons_ok_def screen_ok_def thiscpu_def dest!: set_update_subset_insert[THEN subsetD])

lemma machine_typed [typed_ops]:
  "typed (kstate_ok n) some_value (cprintf f args)" "typed (kstate_ok n) some_value (outb p v)"
  "typed (kstate_ok n) some_value (lcr3 a)" "typed (kstate_ok n) some_value (hwop r a)" "typed (kstate_ok n) some_value (invlpg a)"
  "typed (kstate_ok n) some_value (store32 a b)" "typed (kstate_ok n) some_value (memset_k a b c)" "typed (kstate_ok n) some_value (memcpy_k a b c)"
  "typed (kstate_ok n) some_value (load32 a)" "typed (kstate_ok n) some_value (PADDR a)" "typed (kstate_ok n) some_value (KADDR a)"
  "typed (kstate_ok n) some_value (vload8 a)" "typed (kstate_ok n) some_value (vstore8 a c8)"
  by (auto simp: typed_def cprintf_def outb_def lcr3_def hwop_def invlpg_def store32_def memset_k_def memcpy_k_def load32_def
      PADDR_def KADDR_def vload8_def vstore8_def split: option.split)

lemma outbs_typed [typed_ops]: "typed (kstate_ok n) some_value (outbs pvs)"
  unfolding outbs_def by (rule typed_rules typed_ops | simp)+

lemma lock_typed [typed_ops]: "typed (kstate_ok n) some_value lock_kernel" "typed (kstate_ok n) some_value unlock_kernel"
  by (auto simp: typed_def lock_kernel_def unlock_kernel_def kstate_ok_def cons_ok_def screen_ok_def split: option.split)

lemma sched_typed [typed_ops]: "typed (kstate_ok n) some_value sched_halt" "typed (kstate_ok n) some_value sched_yield"
  unfolding sched_yield_def sched_halt_def by (rule typed_ops typed_rules typed_kget_any | simp)+

section \<open>Memory management\<close>

lemma pa2page_typed [typed_ops]: "typed (kstate_ok n) some_value (pa2page a)"
  by (auto simp: typed_def pa2page_def)

lemma page2kva_typed [typed_ops]: "typed (kstate_ok n) some_value (page2kva p)"
  unfolding page2kva_def by (rule typed_ops)

lemma set_pp_ref_typed [typed_ops]: "typed (kstate_ok n) some_value (set_page i (\<lambda>p. p\<lparr>pp_ref := f p\<rparr>))"
  by (rule set_page_typed) (simp add: page_ok_def)

lemma set_pp_link_typed [typed_ops]: "ptr_ok n l \<Longrightarrow> typed (kstate_ok n) some_value (set_page i (\<lambda>p. p\<lparr>pp_link := l\<rparr>))"
  by (rule set_page_typed) (simp add: page_ok_def)

text \<open>A page that was read or written is an element of the array.\<close>

lemma page_at_bound: "typed (kstate_ok n) (\<lambda>p. page_ok n p \<and> i < n) (page_at i)"
  by (auto simp: typed_def page_at_def kstate_ok_def)

lemma page_alloc_typed [typed_ops]: "typed (kstate_ok n) (ptr_ok n) (page_alloc flags)"
  unfolding page_alloc_def by (rule typed_ops typed_rules typed_kget_any | simp add: page_ok_def)+

lemma page_free_typed [typed_ops]: "typed (kstate_ok n) some_value (page_free pp)"
  unfolding page_free_def
  by (rule page_at_bound typed_kbind[OF page_at_bound] typed_ops typed_rules typed_kget_any | simp)+

lemma page_decref_typed [typed_ops]: "typed (kstate_ok n) some_value (page_decref pp)"
  unfolding page_decref_def by (rule typed_ops typed_rules typed_kget_any | simp)+

lemma pgdir_walk_typed [typed_ops]: "typed (kstate_ok n) some_value (pgdir_walk pgdir va create)"
  unfolding pgdir_walk_def pgdir_walk_end_def by (rule typed_ops typed_rules typed_kget_any | simp)+

lemma page_lookup_typed [typed_ops]: "typed (kstate_ok n) some_value (page_lookup pgdir va)"
  unfolding page_lookup_def by (rule typed_ops typed_rules typed_kget_any | simp)+

lemma tlb_invalidate_typed [typed_ops]: "typed (kstate_ok n) some_value (tlb_invalidate pgdir va)"
  unfolding tlb_invalidate_def by (rule typed_ops typed_rules typed_kget_any | simp)+

lemma page_remove_typed [typed_ops]: "typed (kstate_ok n) some_value (page_remove pgdir va)"
  unfolding page_remove_def by (rule typed_ops typed_rules typed_kget_any | simp)+

lemma page_insert_typed [typed_ops]: "typed (kstate_ok n) some_value (page_insert pgdir pp va perm)"
  unfolding page_insert_def by (rule typed_ops typed_rules typed_kget_any | simp)+

lemma user_mem_check_loop_typed [typed_ops]: "typed (kstate_ok n) some_value (user_mem_check_loop bs pgdir perm va)"
  by (induction bs) (rule typed_ops typed_kbind[where R = some_value] typed_rules typed_kmodify | assumption | simp only: user_mem_check_loop.simps | simp)+

lemma user_mem_check_typed [typed_ops]: "typed (kstate_ok n) some_value (user_mem_check e va len perm)"
  unfolding user_mem_check_def by (rule typed_ops[THEN typed_any] typed_rules typed_kget_any | simp)+

section \<open>Environments\<close>

text \<open>Changes to an environment that leave its pointer alone.\<close>

lemma set_env_fields_typed [typed_ops]:
  "typed (kstate_ok n) some_value (set_env i (\<lambda>e. e\<lparr>env_tf := f e\<rparr>))" "typed (kstate_ok n) some_value (set_env i (\<lambda>e. e\<lparr>env_status := st\<rparr>))"
  "typed (kstate_ok n) some_value (set_env i (\<lambda>e. e\<lparr>env_pgdir := pd\<rparr>))" "typed (kstate_ok n) some_value (set_env i (\<lambda>e. e\<lparr>env_type := ty\<rparr>))"
  "typed (kstate_ok n) some_value (set_env i (\<lambda>e. e\<lparr>env_status := st, env_runs := g e\<rparr>))"
  "typed (kstate_ok n) some_value (set_env i (env_fresh parent j))"
  "c < NCPU \<Longrightarrow> typed (kstate_ok n) some_value (set_env i (\<lambda>e. e\<lparr>env_cpunum := c\<rparr>))"
  "ptr_ok NENV l \<Longrightarrow> typed (kstate_ok n) some_value (set_env i (\<lambda>e. e\<lparr>env_status := st, env_link := l\<rparr>))"
  by (rule set_env_typed, simp add: env_ok_def env_fresh_def)+

text \<open>The environment that is found is an element of the array.\<close>

lemma env_at_bound: "typed (kstate_ok n) (\<lambda>e. env_ok e \<and> i < NENV) (env_at i)"
  by (auto simp: typed_def env_at_def kstate_ok_def)

lemma cur_id_typed [typed_ops]: "typed (kstate_ok n) some_value cur_id"
  unfolding cur_id_def by (rule typed_ops typed_rules typed_kget_any | simp)+

lemma envid2env_typed [typed_ops]: "typed (kstate_ok n) (\<lambda>(r, e). ptr_ok NENV e) (envid2env envid perm)"
  unfolding envid2env_def
  by (rule typed_ops typed_rules typed_kget_any | simp add: ENVX_less[simplified] del: NENV_def | simp add: ENVX_less[simplified])+

lemma env_setup_vm_typed [typed_ops]: "typed (kstate_ok n) some_value (env_setup_vm e)"
  unfolding env_setup_vm_def by (rule typed_ops typed_rules typed_kget_any | simp)+

lemma env_alloc_typed [typed_ops]: "typed (kstate_ok n) (\<lambda>(r, e). ptr_ok NENV e) (env_alloc parent)"
  unfolding env_alloc_def by (rule typed_ops typed_rules typed_kget_any | simp add: env_ok_def)+

lemma region_alloc_loop_typed [typed_ops]: "typed (kstate_ok n) some_value (region_alloc_loop bs pgdir)"
  by (induction bs) (rule typed_ops typed_rules typed_kget_any | assumption | simp only: region_alloc_loop.simps | simp)+

lemma region_alloc_typed [typed_ops]: "typed (kstate_ok n) some_value (region_alloc e va len)"
  unfolding region_alloc_def by (rule typed_ops typed_rules typed_kget_any | simp)+

lemma vmem_typed [typed_ops]: "typed (kstate_ok n) some_value (vmemcpy a b c)" "typed (kstate_ok n) some_value (vmemset a v c)"
  unfolding vmemcpy_def vmemset_def by (rule typed_ops typed_rules typed_kget_any | simp)+

lemma load_segment_typed [typed_ops]: "typed (kstate_ok n) some_value (load_segment e binary ph)"
  unfolding load_segment_def by (rule typed_ops typed_rules typed_kget_any | simp)+

lemma load_icode_typed [typed_ops]: "typed (kstate_ok n) some_value (load_icode e binary)"
  unfolding load_icode_def by (rule typed_ops typed_rules typed_kget_any | simp)+

lemma env_create_typed [typed_ops]: "typed (kstate_ok n) some_value (env_create binary ty)"
  unfolding env_create_def by (rule typed_ops typed_rules typed_kget_any | simp)+

lemma env_free_pde_typed [typed_ops]: "typed (kstate_ok n) some_value (env_free_pde e d)"
  unfolding env_free_pde_def env_free_pte_def by (rule typed_ops typed_rules typed_kget_any | simp)+

lemma env_free_typed [typed_ops]: "typed (kstate_ok n) some_value (env_free e)"
  unfolding env_free_def
  by (rule typed_kbind[OF env_at_bound] typed_ops typed_rules typed_kget_any | simp)+

lemma env_destroy_typed [typed_ops]: "typed (kstate_ok n) some_value (env_destroy e)"
  unfolding env_destroy_def by (rule typed_ops typed_rules typed_kget_any | simp)+

lemma env_pop_tf_typed [typed_ops]: "typed (kstate_ok n) some_value env_pop_tf"
  unfolding env_pop_tf_def by (rule typed_ops typed_rules typed_kget_any | simp)+

lemma env_run_typed [typed_ops]: "e < NENV \<Longrightarrow> typed (kstate_ok n) some_value (env_run e)"
  unfolding env_run_def by (rule typed_ops typed_rules typed_kget_any | simp)+

lemma user_mem_assert_typed [typed_ops]: "typed (kstate_ok n) some_value (user_mem_assert e va len perm)"
  unfolding user_mem_assert_def by (rule typed_ops typed_rules typed_kget_any | simp)+

section \<open>The console and the monitor\<close>

lemma cons_store_ok: "kstate_ok n s \<Longrightarrow> kstate_ok n (cons_store c s)"
  by (auto simp: kstate_ok_def cons_ok_def screen_ok_def cons_store_def Let_def)

lemma proc_data_typed [typed_ops]:
  "typed (kstate_ok n) some_value serial_proc_data" "typed (kstate_ok n) some_value kbd_proc_data"
proof -
  show "typed (kstate_ok n) some_value serial_proc_data" by (auto simp: typed_def serial_proc_data_def split: list.split)
  show "typed (kstate_ok n) some_value kbd_proc_data"
    by (auto simp: typed_def kbd_proc_data_def Let_def cprintf_def outb_def split: list.split prod.split)
qed

lemma cons_intr_loop_typed: "typed (kstate_ok n) some_value proc \<Longrightarrow> typed (kstate_ok n) some_value (cons_intr_loop k proc)"
  by (induction k) (rule typed_kmodify cons_store_ok typed_kbind[where R = some_value] typed_rules | assumption | simp only: cons_intr_loop.simps | simp)+

lemma cons_intr_typed: "typed (kstate_ok n) some_value proc \<Longrightarrow> typed (kstate_ok n) some_value (cons_intr proc)"
  unfolding cons_intr_def by (rule typed_at) (rule cons_intr_loop_typed)

lemma intr_typed [typed_ops]: "typed (kstate_ok n) some_value serial_intr" "typed (kstate_ok n) some_value kbd_intr"
  unfolding serial_intr_def kbd_intr_def by (rule typed_ops cons_intr_typed typed_kbind[where R = some_value] typed_rules typed_kget_any | simp)+

lemma cons_take_typed: "typed (kstate_ok n) some_value (\<lambda>s. case cons_take s of (Some c, t) \<Rightarrow> Returns (uint c) t | (None, t) \<Rightarrow> Returns 0 t)"
  by (auto simp: typed_def cons_take_def Let_def kstate_ok_def cons_ok_def screen_ok_def)

lemma cons_getc_typed [typed_ops]: "typed (kstate_ok n) some_value cons_getc"
  unfolding cons_getc_def by (rule cons_take_typed typed_ops typed_rules | simp)+

text \<open>On the screen the console's output changes the screen, its cursor and the log of the ports only.\<close>

lemma kstate_ok_undrawn: "kstate_ok n s \<longleftrightarrow> kstate_ok n (undrawn s) \<and> screen_ok s"
  by (auto simp: kstate_ok_def undrawn_def screen_ok_def cons_ok_def)

lemma keeps_screen_typed:
  assumes "keeps_screen m" "draws m"
  shows "typed (kstate_ok n) some_value m"
  unfolding typed_def
proof (intro allI impI)
  fix s assume s: "kstate_ok n s"
  obtain t where t: "m s = Returns () t" "screen_ok t" using assms(1) kstate_ok_fields(6)[OF s] unfolding keeps_screen_def by blast
  then have "kstate_ok n t" using s assms(2)[unfolded draws_def, rule_format, of s]
    by (auto simp: kstate_ok_undrawn[of n t] kstate_ok_undrawn[of n s])
  then show "case m s of Returns x t \<Rightarrow> kstate_ok n t \<and> True | Leaves x t \<Rightarrow> kstate_ok n t | Panics e \<Rightarrow> True" using t(1) by simp
qed

lemma cons_putc_typed [typed_ops]: "typed (kstate_ok n) some_value (cons_putc c)"
  by (rule keeps_screen_typed[OF keeps_cons_putc draws_cons_putc])

lemma getchar_typed [typed_ops]: "typed (kstate_ok n) some_value getchar"
proof -
  have "typed (kstate_ok n) some_value (getchar_loop k)" for k
    by (induction k) (rule typed_ops typed_kbind[where R = some_value] typed_rules | assumption | simp only: getchar_loop.simps | simp)+
  then show ?thesis unfolding getchar_def by (rule typed_at)
qed

lemma readline_typed [typed_ops]: "typed (kstate_ok n) some_value (readline p)"
proof -
  have "typed (kstate_ok n) some_value (readline_loop k buf)" for k buf
    unfolding cputchar_def
    by (induction k arbitrary: buf) (rule typed_ops typed_kbind[where R = some_value] typed_rules | assumption
      | simp only: readline_loop.simps cputchar_def | simp)+
  then have "typed (kstate_ok n) some_value (\<lambda>s. readline_loop (Suc (waiting s)) [] s)" by (rule typed_at)
  moreover have "typed (kstate_ok n) some_value (case p of None \<Rightarrow> kret () | Some p \<Rightarrow> cprintf ''%s'' [PStr p])"
    by (rule typed_ops typed_rules | simp)+
  ultimately show ?thesis unfolding readline_def by (rule typed_kseq[rotated])
qed

lemma vload_typed [typed_ops]:
  "typed (kstate_ok n) some_value (vload32 a)" "typed (kstate_ok n) some_value (vload_stab a)"
  unfolding vload_stab_def vload32_def by (rule typed_ops typed_rules | simp)+

lemma vload_lists_typed [typed_ops]:
  "typed (kstate_ok n) some_value (vload_stabs k a)" "typed (kstate_ok n) some_value (vload_string k a)"
proof -
  show "typed (kstate_ok n) some_value (vload_stabs k a)"
    by (induction k arbitrary: a) (rule typed_ops typed_kbind[where R = some_value] typed_rules | assumption | simp only: vload_stabs.simps | simp)+
  show "typed (kstate_ok n) some_value (vload_string k a)"
    by (induction k arbitrary: a) (rule typed_ops typed_kbind[where R = some_value] typed_rules | assumption | simp only: vload_string.simps | simp)+
qed

lemma debuginfo_eip_typed [typed_ops]: "typed (kstate_ok n) some_value (debuginfo_eip im addr)"
  unfolding debuginfo_eip_def
  by (rule typed_kbind[OF kget_fields(3)] typed_ops typed_kbind[where R = some_value] typed_rules typed_kget_any | simp)+

lemma backtrace_typed [typed_ops]: "typed (kstate_ok n) some_value (backtrace im seen p)"
proof (induction im seen p rule: backtrace.induct)
  case (1 im seen p)
  show ?case
    by (subst backtrace.simps) (rule 1 typed_ops typed_kbind[where R = some_value] typed_rules typed_kget_any | assumption | simp)+
qed

lemma runcmd_typed [typed_ops]: "typed (kstate_ok n) some_value (runcmd im buf)"
proof -
  have "typed (kstate_ok n) some_value mon_help" "typed (kstate_ok n) some_value (mon_kerninfo im)" "typed (kstate_ok n) some_value (mon_backtrace im)"
    unfolding mon_help_def mon_kerninfo_def mon_backtrace_def
    by (rule typed_ops typed_kbind[where R = some_value] typed_rules typed_kget_any | simp)+
  moreover have "typed (kstate_ok n) some_value (kseq (cprintf f a) (kret r))" for f a and r :: int
    by (rule typed_ops typed_rules | simp)+
  ultimately show ?thesis unfolding runcmd_def by (auto intro: typed_kret split: option.split list.split)
qed

lemma prints_typed: "prints m \<Longrightarrow> typed (kstate_ok n) some_value m"
  unfolding prints_def typed_def by (metis kstate_ok_frame(1) outcome.simps(10))

lemma print_trapframe_typed [typed_ops]: "typed (kstate_ok n) some_value (print_trapframe a tf)"
  by (rule prints_typed[OF prints_print_trapframe])

lemma monitor_typed [typed_ops]: "typed (kstate_ok n) some_value (monitor im tf)"
proof -
  have "typed (kstate_ok n) some_value (monitor_loop k im)" for k
    by (induction k) (rule typed_ops typed_kbind[where R = some_value] typed_rules | assumption | simp only: monitor_loop.simps | simp)+
  then have "typed (kstate_ok n) some_value (\<lambda>s. monitor_loop (Suc (waiting s)) im s)" by (rule typed_at)
  then show ?thesis unfolding monitor_def by (intro typed_kseq) (rule typed_ops typed_rules | simp)+
qed

section \<open>System calls and traps\<close>

lemma the_curenv_typed [typed_ops]: "typed (kstate_ok n) (\<lambda>e. e < NENV) the_curenv"
  unfolding the_curenv_def by (rule typed_ops typed_rules | simp)+

lemma syscall_typed [typed_ops]: "typed (kstate_ok n) some_value (syscall no a1 a2 a3 a4 a5)"
  unfolding syscall_def by (simp add: typed_def)

lemma tf_typed [typed_ops]:
  "typed (kstate_ok n) some_value (tf_read p)" "typed (kstate_ok n) some_value (tf_addr p)" "typed (kstate_ok n) some_value (tf_set_eax p v)"
proof -
  show "typed (kstate_ok n) some_value (tf_read p)" unfolding tf_read_def
    by (cases p) (simp_all, (rule typed_ops typed_rules | simp)+)
  show "typed (kstate_ok n) some_value (tf_addr p)" unfolding tf_addr_def
    by (cases p) (simp_all add: typed_kret typed_kget_any)
  show "typed (kstate_ok n) some_value (tf_set_eax p v)" unfolding tf_set_eax_def
    by (cases p) (simp_all add: typed_kret set_env_fields_typed)
qed

lemma page_fault_handler_typed [typed_ops]: "typed (kstate_ok n) some_value (page_fault_handler p)"
  unfolding page_fault_handler_def by (rule typed_ops typed_rules typed_kget_any | simp)+

lemma trap_dispatch_typed [typed_ops]: "typed (kstate_ok n) some_value (trap_dispatch im p)"
  unfolding trap_dispatch_def by (rule typed_ops typed_rules typed_kget_any | simp)+

lemma trap_typed: "typed (kstate_ok n) some_value (trap im tfp tf)"
  unfolding trap_def by (rule typed_ops typed_rules typed_kmodify typed_kget_any | simp)+

lemma vload_upto_typed [typed_ops]: "typed (kstate_ok n) some_value (vload_upto k a)"
  by (induction k arbitrary: a) (rule typed_ops typed_kbind[where R = some_value] typed_rules | assumption | simp only: vload_upto.simps | simp)+

lemma sys_env_destroy_typed [typed_ops]: "typed (kstate_ok n) some_value (sys_env_destroy envid)"
  unfolding sys_env_destroy_def by (rule typed_ops typed_rules typed_kget_any | simp)+

lemma syscall_switch_typed: "typed (kstate_ok n) some_value (syscall_switch no a1 a2)"
  unfolding syscall_switch_def sys_cputs_def sys_cgetc_def sys_getenvid_def
  by (rule typed_ops typed_rules typed_kget_any | simp)+

lemma outside_ok: "kstate_ok n s \<Longrightarrow> outside_world s t \<Longrightarrow> kstate_ok n t"
  by (auto simp: outside_world_def kstate_ok_def cons_ok_def screen_ok_def)

lemma typed_leaves: "typed I R m \<Longrightarrow> I s \<Longrightarrow> m s = Leaves x t \<Longrightarrow> I t"
  unfolding typed_def by (metis outcome.simps(12))

lemma user_machine_ok: "kstate_ok 8 user_machine"
  by (simp add: kstate_ok_def cons_ok_def screen_ok_def user_machine_def small_machine_def page_ok_def env_ok_def Env_zero_def set_update_distinct)
    (auto simp: dest!: set_update_subset_insert[THEN subsetD])

text \<open>
  C10. The kernel never corrupts its pointers: whatever traps the processors take, with whatever frames, input and user memory, as
  long as no trap panics the arrays of pages, environments and processors keep their lengths, every free list pointer,
  every link in a list, the current environment of every processor and the holder of the lock are null or point into
  their array, the positions of the console's ring buffer are in range and the cursor stays on the screen. (An access outside an array is a panic of the model, so that the
  invariant says that the indices that are kept are good ones.)
\<close>

theorem traps_keep_types:
  assumes "runs im s t" "kstate_ok n s"
  shows "kstate_ok n t"
  using assms
proof induction
  case (start s)
  then show ?case .
next
  case (step s t t' tfp tf x u)
  have "kstate_ok n t'" using outside_ok step by blast
  then show ?case by (rule typed_leaves[OF trap_typed]) (rule step)
qed

theorem traps_keep_types_witness:
  "\<exists>t. runs sample_image user_machine t \<and> kstate_ok 8 t \<and> env_runs (envs t ! 0) = 1"
proof -
  obtain t where t: "trap sample_image 0xEFFFFFBC (user_frame 39) user_machine = Leaves (Resumes 0) t" "env_runs (envs t ! 0) = 1"
    using trap_spurious_ok[OF user_machine_ready, of 39 sample_image "0xEFFFFFBC"]
    by (auto simp: user_frame_def user_machine_def Env_zero_def small_machine_def)
  have "outside_world user_machine user_machine"
    unfolding outside_world_def by (intro exI[of _ "pmem user_machine"] exI[of _ "cr2 user_machine"] exI[of _ "cr3 user_machine"]
      exI[of _ "eflags user_machine"] exI[of _ "ebp user_machine"] exI[of _ "com_rx user_machine"] exI[of _ "kbd_in user_machine"] exI[of _ "0"])
      (simp add: user_machine_def small_machine_def)
  then have "runs sample_image user_machine t" using runs.step[OF runs.start _ t(1)] by blast
  then show ?thesis using traps_keep_types[OF _ user_machine_ok] t(2) by blast
qed

end
