(* ===== verification/User_Lib.thy ===== *)
theory User_Lib
  imports Init
begin

text \<open>
  The library of user programs: the system call stubs of \<^verbatim>\<open>lib/syscall.c\<close>, \<^verbatim>\<open>lib/printf.c\<close>, \<^verbatim>\<open>lib/panic.c\<close>,
  \<^verbatim>\<open>lib/console.c\<close>, \<^verbatim>\<open>lib/exit.c\<close>, \<^verbatim>\<open>lib/libmain.c\<close>, \<^verbatim>\<open>lib/ipc.c\<close>, \<^verbatim>\<open>lib/fork.c\<close> and \<^verbatim>\<open>lib/pgfault.c\<close>. User code is a computation
  on the state of its program. It meets the kernel in requests: the trap instruction of a system call with its registers, other software
  interrupts, exceptions, page faults, and reads of the kernel's table of environments, which may change at any time. The state holds the
  kernel's answers to the requests to come (the value of \<^verbatim>\<open>EAX\<close>, the memory and the access rights with which the program is resumed), so that a
  statement about all lists of answers is one about every behaviour of the kernel; with no answer left the program waits. A
  function of the library with the name of a kernel function has the suffix \<open>_u\<close>.
\<close>

section \<open>A user program and the kernel\<close>

text \<open>What a program asks of the kernel or observes of it.\<close>

datatype request = Int48 u32 "u32 list" "u8 list" | Soft_int u8 | Raises u8 | Faults u32 bool | Reads nat

datatype answer = Ret u32 mem "u32 \<Rightarrow> u32" | Sees Env

text \<open>The state of a user program.\<close>

record ustate =
  answers :: "answer list"
  requests :: "request list"
  umem :: mem
  access :: "u32 \<Rightarrow> u32"
  binaryname :: string
  thisenv :: nat
  pgfault_handler :: u32
  stack_at :: u32

definition utrap :: "request \<Rightarrow> (ustate, u32) kernel" where
  "utrap r = (\<lambda>s. let t = s\<lparr>requests := requests s @ [r]\<rparr> in case answers s of
       Ret v m p # as \<Rightarrow> Returns v (t\<lparr>answers := as, umem := m, access := p\<rparr>)
     | _ \<Rightarrow> Leaves Waits t)"

definition see_env :: "nat \<Rightarrow> (ustate, Env) kernel" where
  "see_env i = (\<lambda>s. let t = s\<lparr>requests := requests s @ [Reads i]\<rparr> in case answers s of
       Sees e # as \<Rightarrow> Returns e (t\<lparr>answers := as\<rparr>)
     | _ \<Rightarrow> Leaves Waits t)"

text \<open>
  A loop whose iterations make requests: the body goes on with new values of the loop's variables, or ends the loop with a result. An
  iteration that makes no request and goes on is one of an endless loop.
\<close>

function uiter :: "('c \<Rightarrow> (ustate, 'c + 'a) kernel) \<Rightarrow> 'c \<Rightarrow> ustate \<Rightarrow> (ustate, 'a) outcome" where
  "uiter body c s = (case body c s of
       Panics e \<Rightarrow> Panics e
     | Leaves x t \<Rightarrow> Leaves x t
     | Returns r t \<Rightarrow> (case r of
           Inr x \<Rightarrow> Returns x t
         | Inl d \<Rightarrow> if length (answers t) < length (answers s) then uiter body d t else Leaves Spins t))"
  by pat_completeness auto
termination
  by (relation "measure (\<lambda>(body, c, s). length (answers s))") auto

declare uiter.simps [simp del]

definition uloop :: "(ustate, unit + 'a) kernel \<Rightarrow> (ustate, 'a) kernel" where
  "uloop body = uiter (\<lambda>_. body) ()"

section \<open>Memory accesses\<close>

text \<open>
  An access of the \<open>n\<close> bytes from an address: as long as the processor may not reach one of them it raises a page fault, and the instruction is executed
  again when the kernel resumes the program.
\<close>

definition addresses :: "u32 \<Rightarrow> nat \<Rightarrow> u32 list" where
  "addresses a n = map (\<lambda>i. a + of_nat i) [0..<n]"

definition blocked :: "u32 \<Rightarrow> u32 \<Rightarrow> nat \<Rightarrow> ustate \<Rightarrow> u32 option" where
  "blocked perm va n s = find (\<lambda>a. access s a AND perm \<noteq> perm) (addresses va n)"

definition uload32 :: "u32 \<Rightarrow> (ustate, u32) kernel" where
  "uload32 va = uloop (kbind (kget (blocked (PTE_P OR PTE_U) va 4)) (\<lambda>b. case b of
       None \<Rightarrow> kbind (kget umem) (\<lambda>m. kret (Inr (read32 m va)))
     | Some a \<Rightarrow> kseq (utrap (Faults a False)) (kret (Inl ()))))"

definition ustore32 :: "u32 \<Rightarrow> u32 \<Rightarrow> (ustate, unit) kernel" where
  "ustore32 va v = uloop (kbind (kget (blocked (PTE_P OR PTE_W OR PTE_U) va 4)) (\<lambda>b. case b of
       None \<Rightarrow> kseq (kmodify (\<lambda>s. s\<lparr>umem := write32 (umem s) va v\<rparr>)) (kret (Inr ()))
     | Some a \<Rightarrow> kseq (utrap (Faults a True)) (kret (Inl ()))))"

text \<open>\<^verbatim>\<open>memmove\<close> on the memory of the program; the faults are taken before the first byte is moved.\<close>

definition umemmove :: "u32 \<Rightarrow> u32 \<Rightarrow> u32 \<Rightarrow> (ustate, unit) kernel" where
  "umemmove dst src n = uloop (kbind (kget (blocked (PTE_P OR PTE_U) src (unat n))) (\<lambda>r.
     kbind (kget (blocked (PTE_P OR PTE_W OR PTE_U) dst (unat n))) (\<lambda>w.
     case r of
       Some a \<Rightarrow> kseq (utrap (Faults a False)) (kret (Inl ()))
     | None \<Rightarrow> (case w of
         Some a \<Rightarrow> kseq (utrap (Faults a True)) (kret (Inl ()))
       | None \<Rightarrow> kseq (kmodify (\<lambda>s. s\<lparr>umem := memmove (umem s) dst src n\<rparr>)) (kret (Inr ()))))))"

section \<open>System call stubs, lib/syscall.c\<close>

definition SYS_page_alloc :: u32 where [simp, layout_defs]: "SYS_page_alloc = 4"
definition SYS_page_map :: u32 where [simp, layout_defs]: "SYS_page_map = 5"
definition SYS_page_unmap :: u32 where [simp, layout_defs]: "SYS_page_unmap = 6"
definition SYS_exofork :: u32 where [simp, layout_defs]: "SYS_exofork = 7"
definition SYS_env_set_status :: u32 where [simp, layout_defs]: "SYS_env_set_status = 8"
definition SYS_env_set_pgfault_upcall :: u32 where [simp, layout_defs]: "SYS_env_set_pgfault_upcall = 9"
definition SYS_yield :: u32 where [simp, layout_defs]: "SYS_yield = 10"
definition SYS_ipc_try_send :: u32 where [simp, layout_defs]: "SYS_ipc_try_send = 11"
definition SYS_ipc_recv :: u32 where [simp, layout_defs]: "SYS_ipc_recv = 12"

text \<open>
  The bytes of the program's memory that a system call hands over: the string of \<open>SYS_cputs\<close>, and the page that \<open>SYS_page_unmap\<close>
  takes away, which may stay mapped elsewhere.
\<close>

definition bytes_at :: "mem \<Rightarrow> u32 \<Rightarrow> nat \<Rightarrow> u8 list" where
  "bytes_at m a n = map m (addresses a n)"

definition call_bytes :: "u32 \<Rightarrow> u32 \<Rightarrow> u32 \<Rightarrow> mem \<Rightarrow> u8 list" where
  "call_bytes num a1 a2 m = (if num = SYS_cputs then bytes_at m a1 (unat a2)
     else if num = SYS_page_unmap then bytes_at m (ROUNDDOWN a2 PGSIZE) (unat PGSIZE) else [])"

text \<open>
  The trap instruction of \<^verbatim>\<open>syscall\<close>, with the number in \<^verbatim>\<open>AX\<close> and the arguments in \<^verbatim>\<open>DX\<close>, \<^verbatim>\<open>CX\<close>, \<^verbatim>\<open>BX\<close>, \<^verbatim>\<open>DI\<close> and \<^verbatim>\<open>SI\<close>. A call of
  \<^verbatim>\<open>syscall\<close> with \<^verbatim>\<open>check\<close> 0 does nothing else.
\<close>

definition int48 :: "u32 \<Rightarrow> u32 \<Rightarrow> u32 \<Rightarrow> u32 \<Rightarrow> u32 \<Rightarrow> u32 \<Rightarrow> (ustate, int) kernel" where
  "int48 num a1 a2 a3 a4 a5 =
     kbind (kget umem) (\<lambda>m. kbind (utrap (Int48 num [a1, a2, a3, a4, a5] (call_bytes num a1 a2 m))) (\<lambda>ret. kret (sint ret)))"

definition sys_cputs_u :: "u32 \<Rightarrow> u32 \<Rightarrow> (ustate, unit) kernel" where
  "sys_cputs_u s len = kseq (int48 SYS_cputs s len 0 0 0) (kret ())"

definition sys_cgetc_u :: "(ustate, int) kernel" where
  "sys_cgetc_u = int48 SYS_cgetc 0 0 0 0 0"

definition sys_getenvid_u :: "(ustate, u32) kernel" where
  "sys_getenvid_u = kbind (int48 SYS_getenvid 0 0 0 0 0) (\<lambda>r. kret (word_of_int r))"

definition sys_yield_u :: "(ustate, unit) kernel" where
  "sys_yield_u = kseq (int48 SYS_yield 0 0 0 0 0) (kret ())"

section \<open>Output and panics, lib/printf.c and lib/panic.c\<close>

text \<open>
  A buffer of \<^verbatim>\<open>vcprintf\<close> is printed; \<open>stack_at\<close> is its address on the stack. The code fills the buffer while it formats, and keeps its index and count beside it; the model
  writes the bytes when they are handed over. No request is made in between, so that the kernel sees the same memory at the call, up to the two counters and
  stale bytes behind the string; \<open>stack_at\<close> is taken to be writable.
\<close>

definition flush_buffer :: "u8 list \<Rightarrow> (ustate, unit) kernel" where
  "flush_buffer bs = kbind (kget stack_at) (\<lambda>a.
     kseq (kmodify (\<lambda>s. s\<lparr>umem := put_bytes (umem s) a bs\<rparr>)) (sys_cputs_u a (of_nat (length bs))))"

definition vcprintf_u :: "string \<Rightarrow> parg list \<Rightarrow> (ustate, int) kernel" where
  "vcprintf_u fmt ap = (case vcprintf_user fmt ap of
       None \<Rightarrow> kpanic ''undefined argument''
     | Some (cnt, calls) \<Rightarrow> kseq (kfor calls flush_buffer) (kret cnt))"

definition cprintf_u :: "string \<Rightarrow> parg list \<Rightarrow> (ustate, unit) kernel" where
  "cprintf_u fmt ap = kseq (vcprintf_u fmt ap) (kret ())"

definition panic_u :: "string \<Rightarrow> nat \<Rightarrow> string \<Rightarrow> parg list \<Rightarrow> (ustate, 'a) kernel" where
  "panic_u file line fmt ap =
     kbind sys_getenvid_u (\<lambda>i. kbind (kget binaryname) (\<lambda>name.
     kseq (cprintf_u ''[%08x] user panic in %s at %s:%d: '' [PInt i, PStr name, PStr file, PInt (of_nat line)])
     (kseq (vcprintf_u fmt ap)
     (kseq (cprintf_u ''\<newline>'' [])
     (uloop (kseq (utrap (Soft_int 3)) (kret (Inl ()))))))))"

section \<open>Checked system calls\<close>

definition syscall_u :: "u32 \<Rightarrow> bool \<Rightarrow> u32 \<Rightarrow> u32 \<Rightarrow> u32 \<Rightarrow> u32 \<Rightarrow> u32 \<Rightarrow> (ustate, int) kernel" where
  "syscall_u num check a1 a2 a3 a4 a5 =
     kbind (int48 num a1 a2 a3 a4 a5) (\<lambda>ret.
     if check \<and> ret > 0 then panic_u ''lib/syscall.c'' 35 ''syscall %d returned %d (> 0)'' [PInt num, PInt (word_of_int ret)]
     else kret ret)"

definition sys_env_destroy_u :: "u32 \<Rightarrow> (ustate, int) kernel" where
  "sys_env_destroy_u envid = syscall_u SYS_env_destroy True envid 0 0 0 0"

definition sys_page_alloc_u :: "u32 \<Rightarrow> u32 \<Rightarrow> u32 \<Rightarrow> (ustate, int) kernel" where
  "sys_page_alloc_u envid va perm = syscall_u SYS_page_alloc True envid va perm 0 0"

definition sys_page_map_u :: "u32 \<Rightarrow> u32 \<Rightarrow> u32 \<Rightarrow> u32 \<Rightarrow> u32 \<Rightarrow> (ustate, int) kernel" where
  "sys_page_map_u srcenv srcva dstenv dstva perm = syscall_u SYS_page_map True srcenv srcva dstenv dstva perm"

definition sys_page_unmap_u :: "u32 \<Rightarrow> u32 \<Rightarrow> (ustate, int) kernel" where
  "sys_page_unmap_u envid va = syscall_u SYS_page_unmap True envid va 0 0 0"

definition sys_env_set_status_u :: "u32 \<Rightarrow> u32 \<Rightarrow> (ustate, int) kernel" where
  "sys_env_set_status_u envid status = syscall_u SYS_env_set_status True envid status 0 0 0"

definition sys_env_set_pgfault_upcall_u :: "u32 \<Rightarrow> u32 \<Rightarrow> (ustate, int) kernel" where
  "sys_env_set_pgfault_upcall_u envid upcall = syscall_u SYS_env_set_pgfault_upcall True envid upcall 0 0 0"

definition sys_ipc_try_send_u :: "u32 \<Rightarrow> u32 \<Rightarrow> u32 \<Rightarrow> u32 \<Rightarrow> (ustate, int) kernel" where
  "sys_ipc_try_send_u envid val srcva perm = syscall_u SYS_ipc_try_send False envid val srcva perm 0"

definition sys_ipc_recv_u :: "u32 \<Rightarrow> (ustate, int) kernel" where
  "sys_ipc_recv_u dstva = syscall_u SYS_ipc_recv True dstva 0 0 0 0"

text \<open>\<^verbatim>\<open>sys_exofork\<close> is inlined in \<^verbatim>\<open>inc/lib.h\<close> and loads no argument registers.\<close>

definition sys_exofork_u :: "(ustate, u32) kernel" where
  "sys_exofork_u = utrap (Int48 SYS_exofork [] [])"

section \<open>The rest of the library\<close>

definition exit_u :: "(ustate, unit) kernel" where
  "exit_u = kseq (sys_env_destroy_u 0) (kret ())"

definition set_thisenv :: "u32 \<Rightarrow> (ustate, unit) kernel" where
  "set_thisenv i = kmodify (\<lambda>s. s\<lparr>thisenv := ENVX i\<rparr>)"

definition libmain :: "(ustate, unit) kernel \<Rightarrow> string list \<Rightarrow> (ustate, unit) kernel" where
  "libmain umain argv = kseqs [
     kbind sys_getenvid_u set_thisenv,
     (case argv of [] \<Rightarrow> kret () | a # _ \<Rightarrow> kmodify (\<lambda>s. s\<lparr>binaryname := a\<rparr>)),
     umain,
     exit_u]"

text \<open>\<^verbatim>\<open>cputchar\<close> prints a buffer of one character.\<close>

definition cputchar_u :: "u32 \<Rightarrow> (ustate, unit) kernel" where
  "cputchar_u ch = flush_buffer [ucast ch]"

definition getchar_u :: "(ustate, int) kernel" where
  "getchar_u = uloop (kbind sys_cgetc_u (\<lambda>r. if r = 0 then kseq sys_yield_u (kret (Inl ())) else kret (Inr r)))"

primrec find_env_loop :: "nat list \<Rightarrow> EnvType \<Rightarrow> (ustate, u32) kernel" where
  "find_env_loop [] type = kret 0"
| "find_env_loop (i # is) type = kbind (see_env i) (\<lambda>e.
     if env_type e = type then kbind (see_env i) (\<lambda>e. kret (env_id e)) else find_env_loop is type)"

definition ipc_find_env :: "EnvType \<Rightarrow> (ustate, u32) kernel" where
  "ipc_find_env type = find_env_loop [0..<NENV] type"

text \<open>The functions of the fourth lab are still to be written.\<close>

definition pgfault_u :: "(ustate, unit) kernel" where
  "pgfault_u = panic_u ''lib/fork.c'' 37 ''pgfault not implemented'' []"

definition duppage_u :: "u32 \<Rightarrow> u32 \<Rightarrow> (ustate, int) kernel" where
  "duppage_u envid pn = kseq (panic_u ''lib/fork.c'' 57 ''duppage not implemented'' [] :: (ustate, unit) kernel) (kret 0)"

definition fork_u :: "(ustate, u32) kernel" where
  "fork_u = panic_u ''lib/fork.c'' 81 ''fork not implemented'' []"

definition sfork_u :: "(ustate, int) kernel" where
  "sfork_u = kseq (panic_u ''lib/fork.c'' 88 ''sfork not implemented'' [] :: (ustate, unit) kernel) (kret (- E_INVAL))"

definition ipc_recv_u :: "u32 \<Rightarrow> u32 \<Rightarrow> u32 \<Rightarrow> (ustate, u32) kernel" where
  "ipc_recv_u from_env_store pg perm_store =
     kseq (panic_u ''lib/ipc.c'' 26 ''ipc_recv not implemented'' [] :: (ustate, unit) kernel) (kret 0)"

definition ipc_send_u :: "u32 \<Rightarrow> u32 \<Rightarrow> u32 \<Rightarrow> u32 \<Rightarrow> (ustate, unit) kernel" where
  "ipc_send_u to_env val pg perm = panic_u ''lib/ipc.c'' 42 ''ipc_send not implemented'' []"

definition set_pgfault_handler :: "u32 \<Rightarrow> (ustate, unit) kernel" where
  "set_pgfault_handler handler =
     kbind (kget pgfault_handler) (\<lambda>h.
     kseq (kwhen (h = 0) (panic_u ''lib/pgfault.c'' 32 ''set_pgfault_handler not implemented'' []))
     (kmodify (\<lambda>s. s\<lparr>pgfault_handler := handler\<rparr>)))"

section \<open>Output\<close>

text \<open>What the kernel is asked to print by a list of requests.\<close>

definition printed :: "request list \<Rightarrow> u8 list" where
  "printed rs = concat (map (\<lambda>r. case r of Int48 num _ bs \<Rightarrow> if num = SYS_cputs then bs else [] | _ \<Rightarrow> []) rs)"

text \<open>Every request prints a string of at most \<open>n\<close> bytes, whose length is an argument of the call.\<close>

definition cputs_calls :: "nat \<Rightarrow> request list \<Rightarrow> bool" where
  "cputs_calls n rs \<longleftrightarrow> (\<forall>r \<in> set rs. \<exists>a bs. r = Int48 SYS_cputs [a, of_nat (length bs), 0, 0, 0] bs \<and> length bs \<le> n)"

definition served :: "answer list \<Rightarrow> bool" where
  "served as \<longleftrightarrow> (\<forall>a \<in> set as. case a of Ret _ _ _ \<Rightarrow> True | Sees _ \<Rightarrow> False)"

text \<open>Only the answers, the requests and the memory change while a program prints.\<close>

definition same_vars :: "ustate \<Rightarrow> ustate \<Rightarrow> bool" where
  "same_vars s t \<longleftrightarrow> binaryname t = binaryname s \<and> thisenv t = thisenv s \<and> pgfault_handler t = pgfault_handler s \<and> stack_at t = stack_at s"

definition user_start :: "answer list \<Rightarrow> ustate" where
  "user_start as = \<lparr>answers = as, requests = [], umem = (\<lambda>_. 0), access = (\<lambda>_. 0), binaryname = ''<unknown>'', thisenv = 0,
     pgfault_handler = 0, stack_at = 0xEEBFDE00\<rparr>"

section \<open>Input\<close>

text \<open>A poll of the console that finds nothing, and the call that yields after it.\<close>

definition poll :: "request list" where
  "poll = [Int48 SYS_cgetc [0, 0, 0, 0, 0] [], Int48 SYS_yield [0, 0, 0, 0, 0] []]"

definition idle_poll :: "answer list \<Rightarrow> bool" where
  "idle_poll as \<longleftrightarrow> (\<exists>m p v m' p'. as = [Ret 0 m p, Ret v m' p'])"

text \<open>
  The value of the kernel's \<open>sys_getenvid\<close>, and the states in which the kernel knows the environment it runs. At this commit \<open>syscall\<close> panics before it reaches
  that function, so that a program waits forever for its first answer.
\<close>

definition own_id :: "kstate \<Rightarrow> u32 option" where
  "own_id k = (case sys_getenvid k of Returns r _ \<Rightarrow> Some (word_of_int r) | _ \<Rightarrow> None)"

definition kernel_ready :: "kstate \<Rightarrow> bool" where
  "kernel_ready k \<longleftrightarrow> length (envs k) = NENV \<and> (case curenv k of None \<Rightarrow> False
     | Some e \<Rightarrow> e < NENV \<and> ENVX (env_id (envs k ! e)) = e)"

section \<open>Traps and loops\<close>

lemma utrap_Ret [simp]:
  "answers s = Ret v m p # as \<Longrightarrow>
   utrap r s = Returns v (s\<lparr>requests := requests s @ [r], answers := as, umem := m, access := p\<rparr>)"
  by (simp add: utrap_def)

lemma utrap_Nil [simp]: "answers s = [] \<Longrightarrow> utrap r s = Leaves Waits (s\<lparr>requests := requests s @ [r]\<rparr>)"
  by (simp add: utrap_def)

lemma int48_Ret [simp]:
  "answers s = Ret v m p # as \<Longrightarrow>
   int48 num a1 a2 a3 a4 a5 s = Returns (sint v) (s\<lparr>requests := requests s @ [Int48 num [a1, a2, a3, a4, a5] (call_bytes num a1 a2 (umem s))],
     answers := as, umem := m, access := p\<rparr>)"
  by (simp add: int48_def)

text \<open>An iteration of a loop that has used an answer.\<close>

lemma uloop_again: "body s = Returns (Inl u) t \<Longrightarrow> length (answers t) < length (answers s) \<Longrightarrow> uloop body s = uloop body t"
  by (simp add: uloop_def uiter.simps[of _ _ s])

lemma uloop_ends: "body s = Returns (Inr x) t \<Longrightarrow> uloop body s = Returns x t"
  by (simp add: uloop_def uiter.simps[of _ _ s])

lemma uloop_Leaves: "body s = Leaves x t \<Longrightarrow> uloop body s = Leaves x t"
  by (simp add: uloop_def uiter.simps[of _ _ s])

text \<open>Programs that never return, whatever the kernel answers.\<close>

lemma noreturn_uiter:
  assumes "\<And>c s t x. body c s \<noteq> Returns (Inr x) t"
  shows "noreturn (uiter body c)"
proof -
  have "(\<forall>c s t x. body c s \<noteq> Returns (Inr x) t) \<Longrightarrow> uiter body c s \<noteq> Returns y t" for s y t
  proof (induction body c s rule: uiter.induct)
    case (1 body c s)
    then show ?case by (subst uiter.simps) (auto split: outcome.split sum.split)
  qed
  then show ?thesis using assms unfolding noreturn_def by blast
qed

lemma noreturn_uloop: "(\<And>s t x. body s \<noteq> Returns (Inr x) t) \<Longrightarrow> noreturn (uloop body)"
  unfolding uloop_def by (rule noreturn_uiter)

lemma noreturn_panic_u: "noreturn (panic_u file line fmt ap)"
  unfolding panic_u_def
  by (intro noreturn_kbind noreturn_kseq disjI2 noreturn_uloop) (auto simp: kseq_apply split: outcome.splits)

lemma printed_append [simp]: "printed (rs @ rs') = printed rs @ printed rs'"
  by (simp add: printed_def)

lemma printed_Nil [simp]: "printed [] = []"
  by (simp add: printed_def)

lemma served_simps [simp]: "served []" "served (a # as) \<longleftrightarrow> (\<exists>v m p. a = Ret v m p) \<and> served as" "served (as @ bs) \<longleftrightarrow> served as \<and> served bs"
  by (auto simp: served_def split: answer.splits)

lemma same_vars_refl [simp]: "same_vars s s"
  by (simp add: same_vars_def)

lemma same_vars_trans: "same_vars s t \<Longrightarrow> same_vars t u \<Longrightarrow> same_vars s u"
  by (simp add: same_vars_def)

lemma put_bytes_read: "length bs < 2 ^ 32 \<Longrightarrow> bytes_at (put_bytes m a bs) a (length bs) = bs"
  by (rule nth_equalityI) (simp_all add: bytes_at_def addresses_def put_bytes_def in_range_def unat_of_nat_u32)

lemma flush_buffer_prints:
  assumes "answers s = Ret v m p # as" "length bs < 2 ^ 32"
  shows "\<exists>t rs. flush_buffer bs s = Returns () t \<and> requests t = requests s @ rs \<and> printed rs = bs \<and> length rs = 1 \<and>
    answers t = as \<and> same_vars s t \<and> umem t = m \<and> access t = p \<and> cputs_calls (length bs) rs"
  using assms put_bytes_read[OF assms(2)]
  by (simp add: flush_buffer_def sys_cputs_u_def printed_def call_bytes_def unat_of_nat_u32 same_vars_def cputs_calls_def)

lemma cputs_calls_simps [simp]: "cputs_calls n []" "cputs_calls n (rs @ rs') \<longleftrightarrow> cputs_calls n rs \<and> cputs_calls n rs'"
  by (auto simp: cputs_calls_def)

lemma cputs_calls_mono: "cputs_calls n rs \<Longrightarrow> n \<le> k \<Longrightarrow> cputs_calls k rs"
  unfolding cputs_calls_def by (meson le_trans)

lemma flush_buffers_print:
  assumes "served as" "length as = length calls" "answers s = as @ rest" "\<forall>c \<in> set calls. length c \<le> 255"
  shows "\<exists>t rs. kfor calls flush_buffer s = Returns () t \<and> requests t = requests s @ rs \<and> printed rs = concat calls \<and>
    length rs = length calls \<and> answers t = rest \<and> same_vars s t \<and> cputs_calls 255 rs"
  using assms
proof (induction calls arbitrary: as s)
  case Nil
  then show ?case by simp
next
  case (Cons c calls)
  then obtain v m p bs where as: "as = Ret v m p # bs" "served bs" "length bs = length calls" by (cases as) auto
  then obtain t rs where t: "flush_buffer c s = Returns () t" "requests t = requests s @ rs" "printed rs = c" "length rs = 1"
    "answers t = bs @ rest" "same_vars s t" "cputs_calls 255 rs"
    using flush_buffer_prints[of s v m p "bs @ rest" c] Cons.prems by (auto dest: cputs_calls_mono[where k = 255])
  obtain u rs' where "kfor calls flush_buffer t = Returns () u" "requests u = requests t @ rs'" "printed rs' = concat calls"
    "length rs' = length calls" "answers u = rest" "same_vars t u" "cputs_calls 255 rs'"
    using Cons.IH[OF as(2,3) t(5)] Cons.prems(4) by auto
  then show ?case using t same_vars_trans[OF t(6)] by auto
qed

lemma vcprintf_u_ok:
  assumes "vprintfmt fmt ap = Some os" "answers s = as @ rest" "served as" "length as = length os div 255 + 1"
  shows "\<exists>t rs. vcprintf_u fmt ap s = Returns (int (length os)) t \<and> requests t = requests s @ rs \<and> printed rs = map ucast os \<and>
    length rs = length as \<and> answers t = rest \<and> same_vars s t \<and> cputs_calls 255 rs"
proof -
  obtain calls where c: "vcprintf_user fmt ap = Some (int (length os), calls)" "concat calls = map ucast os"
    "\<forall>c \<in> set calls. length c \<le> 255" "length calls = length os div 255 + 1"
    using vcprintf_user_flushes[OF assms(1)] by blast
  obtain t rs where "kfor calls flush_buffer s = Returns () t" "requests t = requests s @ rs" "printed rs = concat calls"
    "length rs = length calls" "answers t = rest" "same_vars s t" "cputs_calls 255 rs"
    using flush_buffers_print[OF assms(3) _ assms(2) c(3)] assms(4) c(4) by auto
  then show ?thesis using c assms(4) by (auto simp: vcprintf_u_def)
qed

text \<open>Output short enough for one system call.\<close>

lemma cprintf_u_short:
  assumes "vprintfmt fmt ap = Some os" "length os < 255" "answers s = Ret v m p # as"
  shows "\<exists>t rs. cprintf_u fmt ap s = Returns () t \<and> requests t = requests s @ rs \<and> printed rs = map ucast os \<and>
    length rs = 1 \<and> answers t = as \<and> same_vars s t \<and> umem t = m \<and> access t = p"
proof -
  have "length os div 255 = 0" using assms(2) by simp
  then obtain c where c: "vcprintf_user fmt ap = Some (int (length os), [c])" "c = map ucast os"
    using vcprintf_user_flushes[OF assms(1)] by (auto simp: length_Suc_conv)
  have "length c < 2 ^ 32" using c(2) assms(2) by simp
  then obtain t rs where t: "flush_buffer c s = Returns () t" "requests t = requests s @ rs" "printed rs = c" "length rs = 1"
    "answers t = as" "same_vars s t" "umem t = m" "access t = p" using flush_buffer_prints[OF assms(3)] by blast
  then have "cprintf_u fmt ap s = Returns () t" using c(1) by (simp add: cprintf_u_def vcprintf_u_def)
  then show ?thesis using t(2-) c(2) by blast
qed

text \<open>
  C33. Formatted output of user programs reaches the kernel completely and in order: if the kernel serves the calls, \<open>cprintf\<close> returns the number
  of characters, has made one system call for every 255 characters and one for the rest, each for at most 255 characters, and the strings the kernel found in the program's memory at
  these calls, joined, are the formatted output, whatever the kernel does to the memory of the program in between.
\<close>

theorem cprintf_reaches_kernel:
  assumes "vprintfmt fmt ap = Some os" "answers s = as @ rest" "served as" "length as = length os div 255 + 1"
  shows "\<exists>t rs. vcprintf_u fmt ap s = Returns (int (length os)) t \<and> requests t = requests s @ rs \<and> printed rs = map ucast os \<and>
    length rs = length as \<and> cputs_calls 255 rs \<and> answers t = rest"
  using vcprintf_u_ok[OF assms] by blast

theorem cprintf_reaches_kernel_witness:
  "\<exists>t. vcprintf_u ''%d:%04x'' [PInt (- 7), PInt 255] (user_start [Ret 0 (\<lambda>_. 1) (\<lambda>_. 0)]) = Returns 7 t \<and>
     printed (requests t) = map (ucast \<circ> ascii) ''-7:00ff'' \<and> length (requests t) = 1"
  using cprintf_reaches_kernel[OF sample_format, of "user_start [Ret 0 (\<lambda>_. 1) (\<lambda>_. 0)]" "[Ret 0 (\<lambda>_. 1) (\<lambda>_. 0)]" "[]"]
  by (auto simp: user_start_def)

lemma getchar_u_poll:
  assumes "answers s = Ret 0 m p # Ret v m' p' # as"
  shows "getchar_u s = getchar_u (s\<lparr>requests := requests s @ poll, answers := as, umem := m', access := p'\<rparr>)"
  unfolding getchar_u_def using assms
  by (subst uloop_again) (simp_all add: sys_cgetc_u_def sys_yield_u_def call_bytes_def poll_def)

lemma sint_0_iff: "sint (v :: u32) = 0 \<longleftrightarrow> v = 0"
  using signed_word_eqI[of v 0, where 'a = int] by auto

lemma getchar_u_found:
  assumes "answers s = Ret c m p # as" "c \<noteq> 0"
  shows "getchar_u s = Returns (sint c) (s\<lparr>requests := requests s @ [Int48 SYS_cgetc [0, 0, 0, 0, 0] []], answers := as, umem := m, access := p\<rparr>)"
  unfolding getchar_u_def using assms
  by (subst uloop_ends) (simp_all add: sys_cgetc_u_def call_bytes_def sint_0_iff)

text \<open>
  C34. \<open>getchar\<close> of user programs waits for a character: however often the console has none, it asks again after yielding once,
  and it returns the first character there is, without asking for a second one.
\<close>

theorem getchar_waits:
  assumes "answers s = concat polls @ Ret c m p # rest" "\<forall>as \<in> set polls. idle_poll as" "c \<noteq> 0"
  shows "\<exists>t. getchar_u s = Returns (sint c) t \<and> answers t = rest \<and>
    requests t = requests s @ concat (replicate (length polls) poll) @ [Int48 SYS_cgetc [0, 0, 0, 0, 0] []]"
  using assms
proof (induction polls arbitrary: s)
  case Nil
  then show ?case using getchar_u_found[of s c m p rest] by simp
next
  case (Cons as polls)
  then obtain m1 p1 v m2 p2 where "as = [Ret 0 m1 p1, Ret v m2 p2]" by (auto simp: idle_poll_def)
  then have e: "getchar_u s = getchar_u (s\<lparr>requests := requests s @ poll, answers := concat polls @ Ret c m p # rest, umem := m2, access := p2\<rparr>)"
    using Cons.prems(1) by (intro getchar_u_poll[of s m1 p1 v]) simp
  show ?case unfolding e
    using Cons.IH[of "s\<lparr>requests := requests s @ poll, answers := concat polls @ Ret c m p # rest, umem := m2, access := p2\<rparr>"] Cons.prems(2,3) by simp
qed

theorem getchar_waits_witness:
  "\<exists>t. getchar_u (user_start [Ret 0 (\<lambda>_. 0) (\<lambda>_. 0), Ret 0 (\<lambda>_. 0) (\<lambda>_. 0), Ret 65 (\<lambda>_. 0) (\<lambda>_. 0)]) = Returns 65 t \<and> length (requests t) = 3"
  using getchar_waits[of "user_start [Ret 0 (\<lambda>_. 0) (\<lambda>_. 0), Ret 0 (\<lambda>_. 0) (\<lambda>_. 0), Ret 65 (\<lambda>_. 0) (\<lambda>_. 0)]" "[[Ret 0 (\<lambda>_. 0) (\<lambda>_. 0), Ret 0 (\<lambda>_. 0) (\<lambda>_. 0)]]"
      65 "\<lambda>_. 0" "\<lambda>_. 0" "[]"]
  by (auto simp: user_start_def idle_poll_def poll_def)

section \<open>Errors of system calls\<close>

lemma syscall_u_ok:
  assumes "answers s = Ret v m p # as" "check \<longrightarrow> sint v \<le> 0"
  shows "syscall_u num check a1 a2 a3 a4 a5 s = Returns (sint v)
    (s\<lparr>requests := requests s @ [Int48 num [a1, a2, a3, a4, a5] (call_bytes num a1 a2 (umem s))], answers := as, umem := m, access := p\<rparr>)"
  using assms by (auto simp: syscall_u_def)

text \<open>
  A checked system call returns errors to its caller and never returns a positive value, which it takes for a
  fault of the kernel.
\<close>

lemma syscall_u_checked: "syscall_u num True a1 a2 a3 a4 a5 s = Returns r t \<Longrightarrow> r \<le> 0"
proof -
  have n: "panic_u f l fmt ap u \<noteq> Returns x t" for f l fmt ap u and x :: int
    using noreturn_panic_u[of f l fmt ap, where 'a = int] unfolding noreturn_def by blast
  show "syscall_u num True a1 a2 a3 a4 a5 s = Returns r t \<Longrightarrow> r \<le> 0"
    unfolding syscall_u_def by (auto simp: kbind_apply n not_less split: outcome.splits if_splits)
qed

text \<open>The calls the library does not implement yet stop the program.\<close>

lemma noreturn_unimplemented:
  "noreturn pgfault_u" "noreturn (duppage_u envid pn)" "noreturn fork_u" "noreturn sfork_u"
  "noreturn (ipc_recv_u from pg perm)" "noreturn (ipc_send_u to val pg perm)"
  unfolding pgfault_u_def duppage_u_def fork_u_def sfork_u_def ipc_recv_u_def ipc_send_u_def
  by (intro noreturn_kseq disjI1 noreturn_panic_u)+

section \<open>The environment of a program\<close>

text \<open>
  What the library relies on: the kernel knows which environment it runs, and the identifier it gives for it leads to the element of that environment in the table.
\<close>

locale env_service =
  fixes ok :: "'k \<Rightarrow> bool"
    and ident :: "'k \<Rightarrow> u32 option"
    and own :: "'k \<Rightarrow> nat"
  assumes getenvid: "ok k \<Longrightarrow> \<exists>v. ident k = Some v \<and> ENVX v = own k"
begin

lemma finds_itself:
  assumes "ok k" "ident k = Some v" "answers s = Ret v m p # as"
  shows "kbind sys_getenvid_u set_thisenv s = Returns () (s\<lparr>requests := requests s @ [Int48 SYS_getenvid [0, 0, 0, 0, 0] []],
    answers := as, umem := m, access := p, thisenv := own k\<rparr>)"
  using assms getenvid[OF assms(1)] by (auto simp: sys_getenvid_u_def set_thisenv_def call_bytes_def)

lemma main_and_exit:
  assumes "ok k" "ident k = Some v" "answers s = Ret v m p # as"
  shows "libmain umain argv s = kseq umain exit_u (s\<lparr>requests := requests s @ [Int48 SYS_getenvid [0, 0, 0, 0, 0] []], answers := as, umem := m,
    access := p, thisenv := own k, binaryname := (case argv of [] \<Rightarrow> binaryname s | a # _ \<Rightarrow> a)\<rparr>)"
  using finds_itself[OF assms] by (cases argv) (simp_all add: libmain_def kseq_apply split: outcome.split)

end

text \<open>The kernel's \<open>sys_getenvid\<close> keeps the contract.\<close>

lemma kernel_own_id: "kernel_ready k \<Longrightarrow> \<exists>e. curenv k = Some e \<and> own_id k = Some (env_id (envs k ! e)) \<and> ENVX (env_id (envs k ! e)) = e"
  by (auto simp: kernel_ready_def own_id_def sys_getenvid_def the_curenv_def env_at_def split: option.splits)

interpretation ks: env_service kernel_ready own_id "\<lambda>k. the (curenv k)"
  by unfold_locales (use kernel_own_id in fastforce)

lemma kernel_ready_env_inv:
  "env_inv k es \<Longrightarrow> curenv k = Some e \<Longrightarrow> e < NENV \<Longrightarrow> env_id (envs k ! e) \<noteq> 0 \<Longrightarrow> kernel_ready k"
  using env_invD(1,5)[of k es] by (simp add: kernel_ready_def)

text \<open>Leaving a program: one request, after which it waits, or returns if the kernel comes back with no positive value.\<close>

lemma exit_u_waits:
  "(\<And>w m p as. answers u \<noteq> Ret w m p # as) \<Longrightarrow>
   exit_u u = Leaves Waits (u\<lparr>requests := requests u @ [Int48 SYS_env_destroy [0, 0, 0, 0, 0] []]\<rparr>)"
proof -
  assume "\<And>w m p as. answers u \<noteq> Ret w m p # as"
  then have "utrap r u = Leaves Waits (u\<lparr>requests := requests u @ [r]\<rparr>)" for r
    unfolding utrap_def Let_def by (auto split: list.split answer.split)
  then show ?thesis by (simp add: exit_u_def sys_env_destroy_u_def syscall_u_def int48_def call_bytes_def kseq_apply kbind_apply)
qed

lemma exit_u_returns:
  "answers u = Ret w m p # as \<Longrightarrow> \<not> 0 < sint w \<Longrightarrow>
   exit_u u = Returns () (u\<lparr>requests := requests u @ [Int48 SYS_env_destroy [0, 0, 0, 0, 0] []], answers := as, umem := m, access := p\<rparr>)"
  by (simp add: exit_u_def sys_env_destroy_u_def syscall_u_ok call_bytes_def)

lemma exit_u_positive:
  assumes "answers u = Ret w m p # as" "0 < sint w"
  shows "exit_u u \<noteq> Returns () t"
proof -
  have "panic_u f l fmt ap u' \<noteq> Returns x t'" for f l fmt ap u' t' and x :: int
    using noreturn_panic_u[of f l fmt ap, where 'a = int] unfolding noreturn_def by blast
  then show ?thesis using assms
    by (auto simp: exit_u_def sys_env_destroy_u_def syscall_u_def kseq_apply kbind_apply split: outcome.split)
qed

text \<open>What the kernel does about it, behind the panic of \<open>syscall\<close>.\<close>

lemma sys_env_destroy_self:
  assumes "curenv k = Some e" "e < NENV" "length (envs k) = NENV"
  shows "sys_env_destroy 0 k =
    kseq (cprintf ''[%08x] exiting gracefully\<newline>'' [PInt (env_id (envs k ! e))]) (kseq (env_destroy e) (kret 0)) k"
  using assms by (simp add: sys_env_destroy_def envid2env_def the_curenv_def env_at_def)



end
