(* ===== verification/User_Programs.thy ===== *)
theory User_Programs
  imports User_Lib "HOL-Library.Signed_Division"
begin

text \<open>
  The programs under \<^verbatim>\<open>user/\<close>, over the library of \<open>User_Lib\<close>. A program is its \<^verbatim>\<open>umain\<close>, which \<open>libmain\<close> takes as a parameter; addresses that
  the linker or the compiler chooses (of arrays, handlers and variables whose address is taken) are parameters. The programs that
  print strings from pages which may fault meanwhile are in \<open>Fault_Programs\<close>.
\<close>

section \<open>Programs that print and yield\<close>

definition my_env_id :: "(ustate, u32) kernel" where
  "my_env_id = kbind (kget thisenv) (\<lambda>i. kbind (see_env i) (\<lambda>e. kret (env_id e)))"

definition hello_main :: "(ustate, unit) kernel" where
  "hello_main = kseqs [
     cprintf_u ''hello, world\<newline>'' [],
     kbind my_env_id (\<lambda>i. cprintf_u ''i am environment %08x\<newline>'' [PInt i])]"

definition yield_main :: "(ustate, unit) kernel" where
  "yield_main = kseqs [
     kbind my_env_id (\<lambda>i. cprintf_u ''Hello, I am environment %08x.\<newline>'' [PInt i]),
     kfor [0..<5] (\<lambda>n. kseqs [
       sys_yield_u,
       kbind my_env_id (\<lambda>i. cprintf_u ''Back in environment %08x, iteration %d.\<newline>'' [PInt i, PInt (of_nat n)])]),
     kbind my_env_id (\<lambda>i. cprintf_u ''All done in environment %08x.\<newline>'' [PInt i])]"

definition idle_main :: "(ustate, unit) kernel" where
  "idle_main = kseq (kmodify (\<lambda>s. s\<lparr>binaryname := ''idle''\<rparr>)) (uloop (kseq sys_yield_u (kret (Inl ()))))"

section \<open>Programs that break a rule\<close>

text \<open>An instruction that raises an exception, and raises it again when it is executed again.\<close>

definition raises :: "u8 \<Rightarrow> (ustate, 'a) kernel" where
  "raises n = uloop (kseq (utrap (Raises n)) (kret (Inl ())))"

definition badsegment_main :: "(ustate, unit) kernel" where
  "badsegment_main = raises 13"

definition breakpoint_main :: "(ustate, unit) kernel" where
  "breakpoint_main = kseq (utrap (Soft_int 3)) (kret ())"

definition softint_main :: "(ustate, unit) kernel" where
  "softint_main = kseq (utrap (Soft_int 14)) (kret ())"

definition buggyhello_main :: "(ustate, unit) kernel" where
  "buggyhello_main = sys_cputs_u 1 1"

definition buggyhello2_main :: "u32 \<Rightarrow> (ustate, unit) kernel" where
  "buggyhello2_main hello = sys_cputs_u hello (1024 * 1024)"

definition evilhello_main :: "(ustate, unit) kernel" where
  "evilhello_main = sys_cputs_u 0xf010000c 100"

definition udivide :: "int \<Rightarrow> int \<Rightarrow> (ustate, int) kernel" where
  "udivide a b = (if b = 0 then raises 0 else kret (a sdiv b))"

definition divzero_main :: "(ustate, unit) kernel" where
  "divzero_main = (let zero = 0 in kbind (udivide 1 zero) (\<lambda>q. cprintf_u ''1/0 is %08x!\<newline>'' [PInt (word_of_int q)]))"

definition faultread_main :: "(ustate, unit) kernel" where
  "faultread_main = kbind (uload32 0) (\<lambda>v. cprintf_u ''I read %08x from location 0!\<newline>'' [PInt v])"

definition faultreadkernel_main :: "(ustate, unit) kernel" where
  "faultreadkernel_main = kbind (uload32 0xf0100000) (\<lambda>v. cprintf_u ''I read %08x from location 0xf0100000!\<newline>'' [PInt v])"

definition faultwrite_main :: "(ustate, unit) kernel" where
  "faultwrite_main = ustore32 0 0"

definition faultwritekernel_main :: "(ustate, unit) kernel" where
  "faultwritekernel_main = ustore32 0xf0100000 0"

definition faultbadhandler_main :: "(ustate, unit) kernel" where
  "faultbadhandler_main =
     kseq (sys_page_alloc_u 0 (UXSTACKTOP - PGSIZE) (PTE_P OR PTE_U OR PTE_W))
     (kseq (sys_env_set_pgfault_upcall_u 0 0xDeadBeef) (ustore32 0 0))"

definition faultevilhandler_main :: "(ustate, unit) kernel" where
  "faultevilhandler_main =
     kseq (sys_page_alloc_u 0 (UXSTACKTOP - PGSIZE) (PTE_P OR PTE_U OR PTE_W))
     (kseq (sys_env_set_pgfault_upcall_u 0 0xF0100020) (ustore32 0 0))"

definition faultnostack_main :: "u32 \<Rightarrow> (ustate, unit) kernel" where
  "faultnostack_main pgfault_upcall = kseq (sys_env_set_pgfault_upcall_u 0 pgfault_upcall) (ustore32 0 0)"

section \<open>Page fault handlers\<close>

record UTrapframe =
  utf_fault_va :: u32
  utf_err :: u32
  utf_regs :: PushRegs
  utf_eip :: u32
  utf_eflags :: u32
  utf_esp :: u32

definition faultdie_handler :: "UTrapframe \<Rightarrow> (ustate, unit) kernel" where
  "faultdie_handler utf =
     kseq (cprintf_u ''i faulted at va %x, err %x\<newline>'' [PInt (utf_fault_va utf), PInt (utf_err utf AND 7)])
     (kbind sys_getenvid_u (\<lambda>i. kseq (sys_env_destroy_u i) (kret ())))"

definition faultdie_main :: "u32 \<Rightarrow> (ustate, unit) kernel" where
  "faultdie_main handler = kseq (set_pgfault_handler handler) (ustore32 0xDeadBeef 0)"

definition faultallocbad_main :: "u32 \<Rightarrow> (ustate, unit) kernel" where
  "faultallocbad_main handler = kseq (set_pgfault_handler handler) (sys_cputs_u 0xDEADBEEF 4)"

text \<open>The registers that \<^verbatim>\<open>user/faultregs.c\<close> compares.\<close>

record regs =
  r_regs :: PushRegs
  r_eip :: u32
  r_eflags :: u32
  r_esp :: u32

definition reg_table :: "(string \<times> (regs \<Rightarrow> u32)) list" where
  "reg_table = [(''edi'', reg_edi \<circ> r_regs), (''esi'', reg_esi \<circ> r_regs), (''ebp'', reg_ebp \<circ> r_regs), (''ebx'', reg_ebx \<circ> r_regs),
     (''edx'', reg_edx \<circ> r_regs), (''ecx'', reg_ecx \<circ> r_regs), (''eax'', reg_eax \<circ> r_regs), (''eip'', r_eip), (''eflags'', r_eflags), (''esp'', r_esp)]"

text \<open>The macro \<^verbatim>\<open>CHECK\<close> for each register in turn; the result tells whether there was a mismatch.\<close>

primrec check_each :: "(string \<times> (regs \<Rightarrow> u32)) list \<Rightarrow> regs \<Rightarrow> regs \<Rightarrow> bool \<Rightarrow> (ustate, bool) kernel" where
  "check_each [] a b mismatch = kret mismatch"
| "check_each (r # rs) a b mismatch = (case r of (name, field) \<Rightarrow>
     kseq (cprintf_u ''%-6s %08x %08x '' [PStr name, PInt (field a), PInt (field b)])
     (if field a = field b then kseq (cprintf_u ''OK\<newline>'' []) (check_each rs a b mismatch)
      else kseq (cprintf_u ''MISMATCH\<newline>'' []) (check_each rs a b True)))"

definition check_regs :: "regs \<Rightarrow> string \<Rightarrow> regs \<Rightarrow> string \<Rightarrow> string \<Rightarrow> (ustate, unit) kernel" where
  "check_regs a an b bn testname =
     kseq (cprintf_u ''%-6s %-8s %-8s\<newline>'' [PStr [], PStr an, PStr bn])
     (kbind (check_each reg_table a b False) (\<lambda>mismatch.
      kseq (cprintf_u ''Registers %s '' [PStr testname])
      (if \<not> mismatch then cprintf_u ''OK\<newline>'' [] else cprintf_u ''MISMATCH\<newline>'' [])))"

definition FL_RF :: u32 where [simp, layout_defs]: "FL_RF = 0x00010000"

text \<open>The handler of \<^verbatim>\<open>user/faultregs.c\<close> compares with the registers \<open>before\<close> the fault and returns those it found.\<close>

definition faultregs_pgfault :: "regs \<Rightarrow> UTrapframe \<Rightarrow> (ustate, regs) kernel" where
  "faultregs_pgfault before utf =
     (if utf_fault_va utf \<noteq> UTEMP
      then panic_u ''user/faultregs.c'' 80 ''pgfault expected at UTEMP, got 0x%08x (eip %08x)'' [PInt (utf_fault_va utf), PInt (utf_eip utf)]
      else let during = \<lparr>r_regs = utf_regs utf, r_eip = utf_eip utf, r_eflags = utf_eflags utf AND NOT FL_RF, r_esp = utf_esp utf\<rparr> in
        kseq (check_regs before ''before'' during ''during'' ''in UTrapframe'')
        (kbind (sys_page_alloc_u 0 UTEMP (PTE_U OR PTE_P OR PTE_W)) (\<lambda>r.
         if r < 0 then panic_u ''user/faultregs.c'' 92 ''sys_page_alloc: %e'' [PInt (word_of_int r)] else kret during)))"

section \<open>A large array, user/testbss.c\<close>

definition ARRAYSIZE :: nat where
  "ARRAYSIZE = 1024 * 1024"

text \<open>The linker gives the array its address.\<close>

definition elem :: "u32 \<Rightarrow> nat \<Rightarrow> u32" where
  "elem bigarray i = bigarray + 4 * of_nat i"

definition testbss_main :: "u32 \<Rightarrow> (ustate, unit) kernel" where
  "testbss_main bigarray = kseqs [
     cprintf_u ''Making sure bss works right...\<newline>'' [],
     kfor [0..<ARRAYSIZE] (\<lambda>i. kbind (uload32 (elem bigarray i)) (\<lambda>v.
       kwhen (v \<noteq> 0) (panic_u ''user/testbss.c'' 17 ''bigarray[%d] isn't cleared!\<newline>'' [PInt (of_nat i)]))),
     kfor [0..<ARRAYSIZE] (\<lambda>i. ustore32 (elem bigarray i) (of_nat i)),
     kfor [0..<ARRAYSIZE] (\<lambda>i. kbind (uload32 (elem bigarray i)) (\<lambda>v.
       kwhen (v \<noteq> of_nat i) (panic_u ''user/testbss.c'' 22 ''bigarray[%d] didn't hold its value!\<newline>'' [PInt (of_nat i)]))),
     cprintf_u ''Yes, good.  Now doing a wild write off the end...\<newline>'' [],
     ustore32 (elem bigarray (ARRAYSIZE + 1024)) 0,
     panic_u ''user/testbss.c'' 26 ''SHOULD HAVE TRAPPED!!!'' []]"

section \<open>A crude fork, user/dumbfork.c\<close>

definition dumb_duppage :: "u32 \<Rightarrow> u32 \<Rightarrow> (ustate, unit) kernel" where
  "dumb_duppage dstenv addr =
     kbind (sys_page_alloc_u dstenv addr (PTE_P OR PTE_U OR PTE_W)) (\<lambda>r.
     kseq (kwhen (r < 0) (panic_u ''user/dumbfork.c'' 32 ''sys_page_alloc: %e'' [PInt (word_of_int r)]))
     (kbind (sys_page_map_u dstenv addr 0 UTEMP (PTE_P OR PTE_U OR PTE_W)) (\<lambda>r.
      kseq (kwhen (r < 0) (panic_u ''user/dumbfork.c'' 34 ''sys_page_map: %e'' [PInt (word_of_int r)]))
      (kseq (umemmove UTEMP addr PGSIZE)
      (kbind (sys_page_unmap_u 0 UTEMP) (\<lambda>r.
       kwhen (r < 0) (panic_u ''user/dumbfork.c'' 37 ''sys_page_unmap: %e'' [PInt (word_of_int r)])))))))"

text \<open>The pages of the program, from \<open>UTEXT\<close> up to the address \<open>end_addr\<close> that the linker defines.\<close>

definition program_pages :: "u32 \<Rightarrow> u32 list" where
  "program_pages end_addr = map (\<lambda>i. UTEXT + of_nat i * PGSIZE) [0..<(unat end_addr - unat UTEXT + 4095) div 4096]"

text \<open>\<open>local\<close> is the address of the variable \<^verbatim>\<open>addr\<close> on the stack.\<close>

definition dumbfork :: "u32 \<Rightarrow> u32 \<Rightarrow> (ustate, u32) kernel" where
  "dumbfork end_addr local =
     kbind sys_exofork_u (\<lambda>envid.
     kseq (kwhen (sint envid < 0) (panic_u ''user/dumbfork.c'' 55 ''sys_exofork: %e'' [PInt envid]))
     (if envid = 0 then kseq (kbind sys_getenvid_u set_thisenv) (kret 0)
      else kseq (kfor (program_pages end_addr) (dumb_duppage envid))
        (kseq (dumb_duppage envid (ROUNDDOWN local PGSIZE))
        (kbind (sys_env_set_status_u envid 2) (\<lambda>r.
         kseq (kwhen (r < 0) (panic_u ''user/dumbfork.c'' 76 ''sys_env_set_status: %e'' [PInt (word_of_int r)]))
         (kret envid))))))"

definition dumbfork_main :: "u32 \<Rightarrow> u32 \<Rightarrow> (ustate, unit) kernel" where
  "dumbfork_main end_addr local =
     kbind (dumbfork end_addr local) (\<lambda>who.
     kfor [0..<(if who \<noteq> 0 then 10 else 20)] (\<lambda>i. kseqs [
       cprintf_u ''%d: I am the %s!\<newline>'' [PInt (of_nat i), PStr (if who \<noteq> 0 then ''parent'' else ''child'')],
       sys_yield_u]))"

section \<open>Programs that fork\<close>

definition spin_main :: "(ustate, unit) kernel" where
  "spin_main = kseqs [
     cprintf_u ''I am the parent.  Forking the child...\<newline>'' [],
     kbind fork_u (\<lambda>env.
       kseqs [
         kwhen (env = 0) (kseq (cprintf_u ''I am the child.  Spinning...\<newline>'' []) (kleave Spins)),
         cprintf_u ''I am the parent.  Running the child...\<newline>'' [],
         kfor [0..<8] (\<lambda>_. sys_yield_u),
         cprintf_u ''I am the parent.  Killing the child...\<newline>'' [],
         kseq (sys_env_destroy_u env) (kret ())])]"

definition DEPTH :: nat where [simp]: "DEPTH = 3"

text \<open>\<^verbatim>\<open>snprintf\<close> keeps the first \<open>DEPTH\<close> characters of the name of a child.\<close>

function forktree :: "string \<Rightarrow> (ustate, unit) kernel" and forkchild :: "string \<Rightarrow> char \<Rightarrow> (ustate, unit) kernel" where
  "forktree cur = kseqs [
     kbind sys_getenvid_u (\<lambda>i. cprintf_u ''%04x: I am '%s'\<newline>'' [PInt i, PStr cur]),
     forkchild cur CHR ''0'',
     forkchild cur CHR ''1'']"
| "forkchild cur branch = (if length cur \<ge> DEPTH then kret ()
     else kbind fork_u (\<lambda>r. if r = 0 then kseq (forktree (take DEPTH (cur @ [branch]))) exit_u else kret ()))"
  by pat_completeness auto
termination
  by (relation "measure (case_sum (\<lambda>c. 2 * (3 - length c) + 1) (\<lambda>(c, b). 2 * (3 - length c)))") auto

declare forktree.simps [simp del] forkchild.simps [simp del]

definition forktree_main :: "(ustate, unit) kernel" where
  "forktree_main = forktree []"

text \<open>Loops that exchange messages; \<open>who_at\<close> is the address of the variable \<^verbatim>\<open>who\<close>.\<close>

definition pingpong_main :: "u32 \<Rightarrow> (ustate, unit) kernel" where
  "pingpong_main who_at =
     kbind fork_u (\<lambda>who.
     kseq (ustore32 who_at who)
     (kseq (kwhen (who \<noteq> 0)
        (kbind sys_getenvid_u (\<lambda>i. kseq (cprintf_u ''send 0 from %x to %x\<newline>'' [PInt i, PInt who]) (ipc_send_u who 0 0 0))))
     (uloop (kbind (ipc_recv_u who_at 0 0) (\<lambda>i. kbind (uload32 who_at) (\<lambda>who. kbind sys_getenvid_u (\<lambda>me.
        kseq (cprintf_u ''%x got %d from %x\<newline>'' [PInt me, PInt i, PInt who])
        (if i = 10 then kret (Inr ())
         else kseq (ipc_send_u who (i + 1) 0 0) (kret (if i + 1 = 10 then Inr () else Inl ()))))))))))"

definition pingpongs_turn :: "u32 \<Rightarrow> u32 \<Rightarrow> u32 \<Rightarrow> (ustate, unit + unit) kernel" where
  "pingpongs_turn val who_at envs_at = kseq (ipc_recv_u who_at 0 0)
     (kbind sys_getenvid_u (\<lambda>me. kbind (uload32 val) (\<lambda>v. kbind (uload32 who_at) (\<lambda>who.
      kbind (kget thisenv) (\<lambda>e. kbind my_env_id (\<lambda>i.
      kseq (cprintf_u ''%x got %d from %x (thisenv is %p %x)\<newline>'' [PInt me, PInt v, PInt who, PInt (envs_at + 124 * of_nat e), PInt i])
      (kbind (uload32 val) (\<lambda>v.
       if v = 10 then kret (Inr ())
       else kbind (uload32 val) (\<lambda>v. kseq (ustore32 val (v + 1)) (kbind (uload32 who_at) (\<lambda>who. kseq (ipc_send_u who 0 0 0)
         (kbind (uload32 val) (\<lambda>v. kret (if v = 10 then Inr () else Inl ()))))))))))))))"

definition pingpongs_main :: "u32 \<Rightarrow> u32 \<Rightarrow> u32 \<Rightarrow> (ustate, unit) kernel" where
  "pingpongs_main val who_at envs_at =
     kbind sfork_u (\<lambda>who. kseqs [
       ustore32 who_at (word_of_int who),
       kwhen (who \<noteq> 0) (kseqs [
         kbind sys_getenvid_u (\<lambda>i. kbind (kget thisenv) (\<lambda>e.
           cprintf_u ''i am %08x; thisenv is %p\<newline>'' [PInt i, PInt (envs_at + 124 * of_nat e)])),
         kbind sys_getenvid_u (\<lambda>i. cprintf_u ''send 0 from %x to %x\<newline>'' [PInt i, PInt (word_of_int who)]),
         ipc_send_u (word_of_int who) 0 0 0]),
       uloop (pingpongs_turn val who_at envs_at)])"

definition fairness_main :: "u32 \<Rightarrow> (ustate, unit) kernel" where
  "fairness_main who_at =
     kbind sys_getenvid_u (\<lambda>i. kbind (kget thisenv) (\<lambda>e.
     if e = 1 then uloop (kseq (ipc_recv_u who_at 0 0) (kbind (uload32 who_at) (\<lambda>who.
       kseq (cprintf_u ''%x recv from %x\<newline>'' [PInt i, PInt who]) (kret (Inl ())))))
     else kseq (kbind (see_env 1) (\<lambda>e1. cprintf_u ''%x loop sending to %x\<newline>'' [PInt i, PInt (env_id e1)]))
       (uloop (kbind (see_env 1) (\<lambda>e1. kseq (ipc_send_u (env_id e1) 0 0 0) (kret (Inl ())))))))"

text \<open>
  The sieve. \<^verbatim>\<open>primeproc\<close> goes back to its start in the child, so that it is a loop; another loop filters the numbers of the parent.
\<close>

definition primes_filter :: "u32 \<Rightarrow> int \<Rightarrow> int \<Rightarrow> (ustate, 'a) kernel" where
  "primes_filter envid_at i_d p = uloop (kbind (ipc_recv_u envid_at 0 0) (\<lambda>i.
     kseq (if p = 0 then raises 0 else if sint i smod p \<noteq> 0 then ipc_send_u (word_of_int i_d) i 0 0 else kret ()) (kret (Inl ()))))"

definition primeproc :: "u32 \<Rightarrow> (ustate, 'a) kernel" where
  "primeproc envid_at = uloop (kbind (ipc_recv_u envid_at 0 0) (\<lambda>p. kbind (kget thisenv) (\<lambda>t. kbind (see_env t) (\<lambda>e.
     kseq (cprintf_u ''CPU %d: %d '' [PInt (of_nat (env_cpunum e)), PInt p])
     (kbind fork_u (\<lambda>i.
      kseq (kwhen (sint i < 0) (panic_u ''user/primes.c'' 26 ''fork: %e'' [PInt i]))
      (if i = 0 then kret (Inl ()) else kbind (primes_filter envid_at (sint i) (sint p)) (\<lambda>x. kret (Inr x)))))))))"

definition primes_main :: "u32 \<Rightarrow> (ustate, unit) kernel" where
  "primes_main envid_at =
     kbind fork_u (\<lambda>i. kseqs [
       kwhen (sint i < 0) (panic_u ''user/primes.c'' 45 ''fork: %e'' [PInt i]),
       kwhen (i = 0) (primeproc envid_at),
       uiter (\<lambda>n. kseq (ipc_send_u i n 0 0) (kret (Inl (n + 1)))) 2])"

section \<open>Environments on several processors, user/stresssched.c\<close>

text \<open>The number of the first fork that returns 0, or 20.\<close>

primrec fork_loop :: "nat list \<Rightarrow> (ustate, nat) kernel" where
  "fork_loop [] = kret 20"
| "fork_loop (i # is) = kbind fork_u (\<lambda>r. if r = 0 then kret i else fork_loop is)"

definition stresssched_main :: "u32 \<Rightarrow> (ustate, unit) kernel" where
  "stresssched_main counter =
     kbind sys_getenvid_u (\<lambda>parent. kbind (fork_loop [0..<20]) (\<lambda>i.
     if i = 20 then sys_yield_u
     else kseqs [
       uloop (kbind (see_env (ENVX parent)) (\<lambda>e. kret (if env_status e \<noteq> ENV_FREE then Inl () else Inr ()))),
       kfor [0..<10] (\<lambda>_. kseq sys_yield_u
         (kfor [0..<10000] (\<lambda>_. kbind (uload32 counter) (\<lambda>v. ustore32 counter (v + 1))))),
       kbind (uload32 counter) (\<lambda>v. kwhen (v \<noteq> 10 * 10000) (kbind (uload32 counter) (\<lambda>v.
         panic_u ''user/stresssched.c'' 33 ''ran on two CPUs at once (counter is %d)'' [PInt v]))),
       kbind (kget thisenv) (\<lambda>t. kbind (see_env t) (\<lambda>e1. kbind (see_env t) (\<lambda>e2.
         cprintf_u ''[%08x] stresssched on CPU %d\<newline>'' [PInt (env_id e1), PInt (of_nat (env_cpunum e2))])))]))"

text \<open>The four bytes of every element may be written.\<close>

definition array_writable :: "u32 \<Rightarrow> (u32 \<Rightarrow> u32) \<Rightarrow> bool" where
  "array_writable b p \<longleftrightarrow> (\<forall>i < ARRAYSIZE. \<forall>k < 4. p (elem b i + of_nat k) AND 7 = 7)"

section \<open>Copies made by dumbfork\<close>

text \<open>
  The kernel serves a call as the comments of \<^verbatim>\<open>kern/syscall.c\<close> describe: it returns 0 and leaves the memory of the program alone, except for the page at
  \<open>UTEMP\<close>; the pages \<open>P\<close> are readable, and \<open>UTEMP\<close> is writable when it is mapped (\<open>temp\<close>), which it is from \<open>sys_page_map\<close> to \<open>sys_page_unmap\<close>. The calls of
  \<open>duppage\<close> come in threes, the second of which maps.
\<close>

definition page_answer :: "mem \<Rightarrow> u32 set \<Rightarrow> bool \<Rightarrow> answer \<Rightarrow> bool" where
  "page_answer m0 P temp a \<longleftrightarrow> (\<exists>m p. a = Ret 0 m p \<and> (\<forall>x. PGNUM x \<noteq> PGNUM UTEMP \<longrightarrow> m x = m0 x) \<and>
     (temp \<longrightarrow> (\<forall>x. PGNUM x = PGNUM UTEMP \<longrightarrow> p x AND 7 = 7)) \<and> (\<forall>x. PGNUM x \<in> P \<longrightarrow> p x AND 5 = 5))"

definition page_answers :: "mem \<Rightarrow> u32 set \<Rightarrow> answer list \<Rightarrow> bool" where
  "page_answers m0 P as \<longleftrightarrow> (\<forall>i < length as. page_answer m0 P (i mod 3 = 1) (as ! i))"

text \<open>For examples: an answer that leaves nothing mapped at \<open>UTEMP\<close>.\<close>

definition unmapped :: "u32 \<Rightarrow> answer" where
  "unmapped r = Ret r (\<lambda>_. 1) (\<lambda>x. if PGNUM x = PGNUM UTEMP then 0 else 7)"

text \<open>The calls that copy one page to a child: its contents are at \<open>UTEMP\<close> when that page is given up.\<close>

definition dup_requests :: "u32 \<Rightarrow> mem \<Rightarrow> u32 \<Rightarrow> request list" where
  "dup_requests envid m addr = [
     Int48 SYS_page_alloc [envid, addr, PTE_P OR PTE_U OR PTE_W, 0, 0] [],
     Int48 SYS_page_map [envid, addr, 0, UTEMP, PTE_P OR PTE_U OR PTE_W] [],
     Int48 SYS_page_unmap [0, UTEMP, 0, 0, 0] (bytes_at m addr (unat PGSIZE))]"

text \<open>A page of the program that can be copied.\<close>

definition copyable_page :: "u32 \<Rightarrow> bool" where
  "copyable_page addr \<longleftrightarrow> PGOFF addr = 0 \<and> addr < UTOP \<and> PGNUM addr \<noteq> PGNUM UTEMP"

section \<open>Programs that do not end\<close>

lemma noreturn_kseq1: "noreturn m \<Longrightarrow> noreturn (kseq m n)"
  by (simp add: noreturn_kseq)

lemma noreturn_kbind1: "noreturn m \<Longrightarrow> noreturn (kbind m f)"
  by (auto simp: noreturn_def kbind_apply split: outcome.splits)

lemma noreturn_forkchild: "length cur < DEPTH \<Longrightarrow> noreturn (forkchild cur c)"
  by (simp add: forkchild.simps noreturn_kbind1 noreturn_unimplemented)

text \<open>
  No program that forks or sends messages gets beyond its first such call, whatever the kernel does: \<open>fork\<close>, \<open>sfork\<close>, \<open>ipc_recv\<close> and
  \<open>ipc_send\<close> of the library panic.
\<close>

theorem forking_programs_stop:
  "noreturn spin_main \<and> noreturn forktree_main \<and> noreturn (pingpong_main who_at) \<and> noreturn (pingpongs_main val who_at envs_at) \<and>
   noreturn (primes_main envid_at) \<and> noreturn (stresssched_main counter) \<and> noreturn (fairness_main who_at)"
proof (intro conjI)
  note f = noreturn_unimplemented noreturn_kbind1 noreturn_kseq1
  show "noreturn spin_main" unfolding spin_main_def
    unfolding kseqs.simps by (intro noreturn_kseq disjI2 noreturn_kseq1 f)
  show "noreturn forktree_main" unfolding forktree_main_def forktree.simps
    by (rule noreturn_kseqs[rotated], rule noreturn_forkchild[of "[]" "CHR ''0''"]) simp_all
  show "noreturn (pingpong_main who_at)" "noreturn (pingpongs_main val who_at envs_at)" "noreturn (primes_main envid_at)"
    unfolding pingpong_main_def pingpongs_main_def primes_main_def by (intro f)+
  have "noreturn (fork_loop [0..<20])" by (simp add: upt_rec f)
  then show "noreturn (stresssched_main counter)" unfolding stresssched_main_def by (intro noreturn_kbind noreturn_kbind1)
  have "noreturn (uloop (kseq (ipc_recv_u who_at 0 0) m))" for m :: "(ustate, unit + unit) kernel"
    using f(5)[of who_at 0 0] by (intro noreturn_uloop) (auto simp: noreturn_def kseq_apply split: outcome.splits)
  moreover have "noreturn (uloop (kbind (see_env 1) (\<lambda>e. kseq (ipc_send_u (env_id e) 0 0 0) m)))" for m :: "(ustate, unit + unit) kernel"
    using f(6) by (intro noreturn_uloop) (auto simp: noreturn_def kseq_apply kbind_apply split: outcome.splits)
  ultimately show "noreturn (fairness_main who_at)" unfolding fairness_main_def
    by (intro noreturn_kbind) (simp add: noreturn_kseq)
qed

text \<open>
  The idle program yields again whenever it is resumed, and does nothing else.
\<close>

theorem idle_yields:
  assumes "served (answers s)"
  shows "\<exists>t. idle_main s = Leaves Waits t \<and> requests t = requests s @ replicate (Suc (length (answers s))) (Int48 SYS_yield [0, 0, 0, 0, 0] [])"
proof -
  define body :: "(ustate, unit + unit) kernel" where "body = kseq sys_yield_u (kret (Inl ()))"
  have "served (answers s) \<Longrightarrow> \<exists>t. uloop body s = Leaves Waits t \<and>
    requests t = requests s @ replicate (Suc (length (answers s))) (Int48 SYS_yield [0, 0, 0, 0, 0] [])" for s
  proof (induction "answers s" arbitrary: s)
    case Nil
    then have "body s = Leaves Waits (s\<lparr>requests := requests s @ [Int48 SYS_yield [0, 0, 0, 0, 0] []]\<rparr>)"
      by (simp add: body_def sys_yield_u_def int48_def call_bytes_def)
    from uloop_Leaves[of body, OF this] show ?case using Nil by simp
  next
    case (Cons a as)
    then obtain v m p where a: "a = Ret v m p" "served as" "answers s = Ret v m p # as" by (metis served_simps(2))
    let ?t = "s\<lparr>requests := requests s @ [Int48 SYS_yield [0, 0, 0, 0, 0] []], answers := as, umem := m, access := p\<rparr>"
    have "body s = Returns (Inl ()) ?t" using a(3) by (simp add: body_def sys_yield_u_def call_bytes_def)
    from uloop_again[of body, OF this] show ?case using Cons(1)[of ?t] a by simp
  qed
  from this[of "s\<lparr>binaryname := ''idle''\<rparr>"] show ?thesis using assms unfolding idle_main_def body_def[symmetric] by simp
qed

section \<open>The array of testbss\<close>

lemma blocked_None: "(\<And>i. i < n \<Longrightarrow> access s (va + of_nat i) AND perm = perm) \<Longrightarrow> blocked perm va n s = None"
  by (auto simp: blocked_def addresses_def find_None_iff)

lemma uload32_ok: "blocked (PTE_P OR PTE_U) va 4 s = None \<Longrightarrow> uload32 va s = Returns (read32 (umem s) va) s"
  unfolding uload32_def by (rule uloop_ends) simp

lemma ustore32_ok:
  "blocked (PTE_P OR PTE_W OR PTE_U) va 4 s = None \<Longrightarrow> ustore32 va v s = Returns () (s\<lparr>umem := write32 (umem s) va v\<rparr>)"
  unfolding ustore32_def by (rule uloop_ends) simp

lemma ustore32_fault:
  assumes "blocked (PTE_P OR PTE_W OR PTE_U) va 4 s = Some a" "answers s = []"
  shows "ustore32 va v s = Leaves Waits (s\<lparr>requests := requests s @ [Faults a True]\<rparr>)"
  unfolding ustore32_def by (rule uloop_Leaves) (use assms in simp)

text \<open>Who may write may read.\<close>

lemma read_rights: "w AND 7 = 7 \<Longrightarrow> w AND 5 = 5" for w :: u32
proof -
  assume "w AND 7 = 7"
  from arg_cong[OF this, of "\<lambda>w. w AND 5"] show ?thesis by (simp add: and.assoc)
qed

lemma array_not_blocked:
  assumes "array_writable b (access s)" "i < ARRAYSIZE"
  shows "blocked (PTE_P OR PTE_U) (elem b i) 4 s = None" "blocked (PTE_P OR PTE_W OR PTE_U) (elem b i) 4 s = None"
proof -
  have a: "access s (elem b i + of_nat k) AND 7 = 7" if "k < 4" for k using assms that by (simp add: array_writable_def)
  show "blocked (PTE_P OR PTE_U) (elem b i) 4 s = None" by (rule blocked_None) (use a read_rights in simp)
  show "blocked (PTE_P OR PTE_W OR PTE_U) (elem b i) 4 s = None" by (rule blocked_None) (use a in simp)
qed

lemma elem_facts:
  assumes "aligned4 b" "i < ARRAYSIZE" "j < ARRAYSIZE"
  shows "aligned4 (elem b i)" "elem b i = elem b j \<longleftrightarrow> i = j"
proof -
  have "(unat b + 4 * i) mod 4 = 0" using assms(1) by (simp add: aligned4_unat)
  then have "unat (b + 4 * of_nat i) mod 4 = 0" by (simp add: unat_word_ariths unat_of_nat mod_mod_cancel mod_simps)
  then have "aligned4 (b + 4 * of_nat i)" by (simp add: aligned4_unat)
  then show "aligned4 (elem b i)" by (simp add: elem_def)
  have "unat (4 * of_nat i :: u32) = 4 * i" "unat (4 * of_nat j :: u32) = 4 * j"
    using assms by (simp_all add: ARRAYSIZE_def unat_word_ariths unat_of_nat)
  then show "elem b i = elem b j \<longleftrightarrow> i = j" unfolding elem_def by (metis add_left_cancel mult_left_cancel zero_neq_numeral)
qed

lemma checks_pass:
  assumes "array_writable b (access s)" "\<forall>i < ARRAYSIZE. read32 (umem s) (elem b i) = f i"
  shows "kfor [0..<ARRAYSIZE] (\<lambda>i. kbind (uload32 (elem b i)) (\<lambda>v. kwhen (v \<noteq> f i) (m i))) s = Returns () s"
proof -
  have "kfor xs (\<lambda>i. kbind (uload32 (elem b i)) (\<lambda>v. kwhen (v \<noteq> f i) (m i))) s = Returns () s" if "set xs \<subseteq> {..<ARRAYSIZE}" for xs
    using that by (induction xs) (use assms uload32_ok[OF array_not_blocked(1)[OF assms(1)]] in simp_all)
  then show ?thesis by (simp add: atLeast0LessThan)
qed

lemma writes_done:
  assumes "array_writable b (access s)" "aligned4 b"
  shows "\<exists>m. kfor [0..<ARRAYSIZE] (\<lambda>i. ustore32 (elem b i) (of_nat i)) s = Returns () (s\<lparr>umem := m\<rparr>) \<and>
    (\<forall>i < ARRAYSIZE. read32 m (elem b i) = of_nat i)"
proof -
  have "n \<le> ARRAYSIZE \<Longrightarrow> \<exists>m. kfor [0..<n] (\<lambda>i. ustore32 (elem b i) (of_nat i)) s = Returns () (s\<lparr>umem := m\<rparr>) \<and>
    (\<forall>i < n. read32 m (elem b i) = of_nat i)" for n
  proof (induction n)
    case 0
    show ?case by (intro exI[of _ "umem s"]) simp
  next
    case (Suc n)
    then obtain m where m: "kfor [0..<n] (\<lambda>i. ustore32 (elem b i) (of_nat i)) s = Returns () (s\<lparr>umem := m\<rparr>)"
      "\<forall>i < n. read32 m (elem b i) = of_nat i" by auto
    have n: "n < ARRAYSIZE" using Suc.prems by simp
    have "ustore32 (elem b n) (of_nat n) (s\<lparr>umem := m\<rparr>) = Returns () (s\<lparr>umem := write32 m (elem b n) (of_nat n)\<rparr>)"
      using ustore32_ok[OF array_not_blocked(2)[of b "s\<lparr>umem := m\<rparr>" n]] assms(1) n by simp
    moreover have "read32 (write32 m (elem b n) (of_nat n)) (elem b i) = of_nat i" if "i < Suc n" for i
    proof (cases "i = n")
      case False
      then show ?thesis using m(2) that n elem_facts[OF assms(2), of n i] elem_facts(1)[OF assms(2), of i i]
        by (subst read32_write32_other) auto
    qed simp
    ultimately show ?case using m(1) by (auto simp: kfor_append)
  qed
  then show ?thesis by blast
qed

lemma testbss_texts:
  "vprintfmt ''Making sure bss works right...\<newline>'' [] = Some (map ascii ''Making sure bss works right...\<newline>'')"
  "vprintfmt ''Yes, good.  Now doing a wild write off the end...\<newline>'' [] =
    Some (map ascii ''Yes, good.  Now doing a wild write off the end...\<newline>'')"
  by code_simp+

text \<open>
  C35. \<open>testbss\<close> finds a loader at fault or ends with a page fault: in an address space in which its array is mapped, writable and zero and the
  address 4 KB behind the array is not writable, it passes all its checks, prints both messages, and the write off the end of the array faults
  at exactly the address written.
\<close>

theorem testbss_traps:
  assumes "aligned4 b" "answers s = [Ret v m p, Ret v' m' p']" "array_writable b p" "\<forall>i < ARRAYSIZE. read32 m (elem b i) = 0"
    "p' (elem b (ARRAYSIZE + 1024)) AND 7 \<noteq> 7"
  shows "\<exists>t rs. testbss_main b s = Leaves Waits t \<and> requests t = requests s @ rs @ [Faults (elem b (ARRAYSIZE + 1024)) True] \<and>
    printed rs = map (ucast \<circ> ascii)
      (''Making sure bss works right...\<newline>'' @ ''Yes, good.  Now doing a wild write off the end...\<newline>'')"
proof -
  let ?m1 = "''Making sure bss works right...\<newline>''" and ?m2 = "''Yes, good.  Now doing a wild write off the end...\<newline>''"
  obtain t1 r1 where t1: "cprintf_u ?m1 [] s = Returns () t1" "requests t1 = requests s @ r1" "printed r1 = map ucast (map ascii ?m1)"
    "answers t1 = [Ret v' m' p']" "umem t1 = m" "access t1 = p"
    using cprintf_u_short[OF testbss_texts(1) _ assms(2)] by auto
  have c: "kfor [0..<ARRAYSIZE] (\<lambda>i. kbind (uload32 (elem b i)) (\<lambda>v. kwhen (v \<noteq> 0) (q i))) t1 = Returns () t1" for q
    by (rule checks_pass) (use assms t1 in simp_all)
  obtain m2 where w: "kfor [0..<ARRAYSIZE] (\<lambda>i. ustore32 (elem b i) (of_nat i)) t1 = Returns () (t1\<lparr>umem := m2\<rparr>)"
    "\<forall>i < ARRAYSIZE. read32 m2 (elem b i) = of_nat i"
    using writes_done[of b t1] assms t1 by auto
  have d: "kfor [0..<ARRAYSIZE] (\<lambda>i. kbind (uload32 (elem b i)) (\<lambda>v. kwhen (v \<noteq> of_nat i) (q i))) (t1\<lparr>umem := m2\<rparr>) = Returns () (t1\<lparr>umem := m2\<rparr>)" for q
    by (rule checks_pass) (use assms t1 w in simp_all)
  obtain t2 r2 where t2: "cprintf_u ?m2 [] (t1\<lparr>umem := m2\<rparr>) = Returns () t2" "requests t2 = requests t1 @ r2" "printed r2 = map ucast (map ascii ?m2)"
    "answers t2 = []" "umem t2 = m'" "access t2 = p'"
    using cprintf_u_short[OF testbss_texts(2), of "t1\<lparr>umem := m2\<rparr>" v' m' p' "[]"] t1(4) by auto
  have "blocked (PTE_P OR PTE_W OR PTE_U) (elem b (ARRAYSIZE + 1024)) 4 t2 = Some (elem b (ARRAYSIZE + 1024))"
    using assms(5) t2 by (simp add: blocked_def addresses_def upt_rec)
  from ustore32_fault[OF this t2(4)] have f: "ustore32 (elem b (ARRAYSIZE + 1024)) 0 t2 =
    Leaves Waits (t2\<lparr>requests := requests t2 @ [Faults (elem b (ARRAYSIZE + 1024)) True]\<rparr>)" .
  have "testbss_main b s = Leaves Waits (t2\<lparr>requests := requests t2 @ [Faults (elem b (ARRAYSIZE + 1024)) True]\<rparr>)"
    unfolding testbss_main_def kseqs.simps by (simp only: kseq_apply t1(1) c w(1) d t2(1) f outcome.case)
  moreover have "requests (t2\<lparr>requests := requests t2 @ [Faults (elem b (ARRAYSIZE + 1024)) True]\<rparr>) =
    requests s @ (r1 @ r2) @ [Faults (elem b (ARRAYSIZE + 1024)) True]" using t1 t2 by simp
  moreover have "printed (r1 @ r2) = map (ucast \<circ> ascii) (?m1 @ ?m2)" using t1 t2 by simp
  ultimately show ?thesis by blast
qed

theorem testbss_traps_witness:
  "\<exists>t rs. testbss_main 0x802000 (user_start [Ret 0 (\<lambda>_. 0) (\<lambda>_. 7), Ret 0 (\<lambda>_. 0) (\<lambda>a. if a < 0xC03000 then 7 else 0)]) = Leaves Waits t \<and>
     requests t = rs @ [Faults 0xC03000 True]"
proof -
  have "read32 (\<lambda>_. 0) a = 0" for a by (simp add: read32_def)
  moreover have "elem 0x802000 (ARRAYSIZE + 1024) = 0xC03000" by (simp add: elem_def ARRAYSIZE_def)
  ultimately show ?thesis
    using testbss_traps[of "0x802000" "user_start [Ret 0 (\<lambda>_. 0) (\<lambda>_. 7), Ret 0 (\<lambda>_. 0) (\<lambda>a. if a < 0xC03000 then 7 else 0)]"
      0 "\<lambda>_. 0" "\<lambda>_. 7" 0 "\<lambda>_. 0" "\<lambda>a. if a < 0xC03000 then 7 else 0"]
    by (auto simp: user_start_def array_writable_def aligned4_def)
qed

lemma in_page:
  assumes "PGOFF addr = 0" "i < 4096"
  shows "PGNUM (addr + of_nat i) = PGNUM addr"
proof -
  have "in_range addr 4096 (addr + of_nat i)" using assms(2) by (simp add: in_range_def unat_of_nat_u32)
  then show ?thesis by (simp add: in_range_page[OF assms(1)])
qed

lemma bytes_at_copied:
  assumes "copyable_page addr" "\<forall>x. PGNUM x \<noteq> PGNUM UTEMP \<longrightarrow> m x = m0 x"
  shows "bytes_at (memmove m UTEMP addr PGSIZE) UTEMP 4096 = bytes_at m0 addr 4096"
proof (rule nth_equalityI)
  have u: "PGOFF addr = 0" "PGNUM addr \<noteq> PGNUM UTEMP" "unat addr < 0xEEC00000" using assms(1)
    by (auto simp: copyable_page_def word_less_nat_alt)
  fix i
  assume i: "i < length (bytes_at (memmove m UTEMP addr PGSIZE) UTEMP 4096)"
  then have l: "i < 4096" by (simp add: bytes_at_def addresses_def)
  have "memmove m UTEMP addr PGSIZE = copy m UTEMP addr 4096" using memmove_copy[of UTEMP PGSIZE addr m] u(3) by simp
  moreover have "in_range UTEMP 4096 (UTEMP + of_nat i)" using l by (simp add: in_range_def unat_of_nat_u32)
  ultimately have "memmove m UTEMP addr PGSIZE (UTEMP + of_nat i) = m (addr + of_nat i)" by (simp add: copy_def)
  also have "\<dots> = m0 (addr + of_nat i)" using assms(2) in_page[OF u(1) l] u(2) by simp
  finally show "bytes_at (memmove m UTEMP addr PGSIZE) UTEMP 4096 ! i = bytes_at m0 addr 4096 ! i"
    using l by (simp add: bytes_at_def addresses_def)
qed (simp add: bytes_at_def addresses_def)

lemma umemmove_ok:
  assumes "blocked (PTE_P OR PTE_U) src (unat n) s = None" "blocked (PTE_P OR PTE_W OR PTE_U) dst (unat n) s = None"
  shows "umemmove dst src n s = Returns () (s\<lparr>umem := memmove (umem s) dst src n\<rparr>)"
  unfolding umemmove_def by (rule uloop_ends) (use assms in simp)

lemma page_not_blocked:
  assumes "\<forall>x. PGNUM x = PGNUM a \<longrightarrow> access s x AND perm = perm" "PGOFF a = 0"
  shows "blocked perm a 4096 s = None"
  by (rule blocked_None) (use assms in_page[OF assms(2)] in simp)

lemma syscall_u_zero:
  "answers s = Ret 0 m p # as \<Longrightarrow> syscall_u num check a1 a2 a3 a4 a5 s = Returns 0
    (s\<lparr>requests := requests s @ [Int48 num [a1, a2, a3, a4, a5] (call_bytes num a1 a2 (umem s))], answers := as, umem := m, access := p\<rparr>)"
  using syscall_u_ok[of s 0 m p as] by simp

lemma page_answers_Cons3:
  "page_answers m0 P (a1 # a2 # a3 # as) \<longleftrightarrow>
     page_answer m0 P False a1 \<and> page_answer m0 P True a2 \<and> page_answer m0 P False a3 \<and> page_answers m0 P as"
proof -
  have "(\<forall>i < Suc (Suc (Suc n)). Q i) \<longleftrightarrow> Q 0 \<and> Q 1 \<and> Q 2 \<and> (\<forall>i < n. Q (i + 3))" for Q and n :: nat
    by (auto simp: All_less_Suc2 numeral_eq_Suc)
  then show ?thesis by (simp add: page_answers_def numeral_3_eq_3[symmetric])
qed

lemma dumb_duppage_ok:
  assumes "answers s = a1 # a2 # a3 # rest" "page_answer m0 P False a1" "page_answer m0 P True a2" "page_answer m0 P False a3" "copyable_page addr" "PGNUM addr \<in> P"
  shows "\<exists>t. dumb_duppage envid addr s = Returns () t \<and> requests t = requests s @ dup_requests envid m0 addr \<and> answers t = rest"
proof -
  obtain m1 p1 m2 p2 m3 p3 where a: "a1 = Ret 0 m1 p1" "a2 = Ret 0 m2 p2" "a3 = Ret 0 m3 p3"
    and m: "\<forall>x. PGNUM x \<noteq> PGNUM UTEMP \<longrightarrow> m2 x = m0 x" and p: "\<forall>x. PGNUM x = PGNUM UTEMP \<longrightarrow> p2 x AND 7 = 7" "\<forall>x. PGNUM x \<in> P \<longrightarrow> p2 x AND 5 = 5"
    using assms(2-4) unfolding page_answer_def by auto
  define s1 where "s1 = s\<lparr>requests := requests s @ [Int48 SYS_page_alloc [envid, addr, PTE_P OR PTE_U OR PTE_W, 0, 0] []], answers := a2 # a3 # rest, umem := m1, access := p1\<rparr>"
  define s2 where "s2 = s1\<lparr>requests := requests s1 @ [Int48 SYS_page_map [envid, addr, 0, UTEMP, PTE_P OR PTE_U OR PTE_W] []], answers := a3 # rest, umem := m2, access := p2\<rparr>"
  define s3 where "s3 = s2\<lparr>umem := memmove m2 UTEMP addr PGSIZE\<rparr>"
  define s4 where "s4 = s3\<lparr>requests := requests s3 @ [Int48 SYS_page_unmap [0, UTEMP, 0, 0, 0] (bytes_at (umem s3) UTEMP (unat PGSIZE))], answers := rest, umem := m3, access := p3\<rparr>"
  have r1: "sys_page_alloc_u envid addr (PTE_P OR PTE_U OR PTE_W) s = Returns 0 s1" unfolding sys_page_alloc_u_def s1_def
    by (subst syscall_u_zero) (use assms(1) a in \<open>simp_all add: call_bytes_def\<close>)
  have r2: "sys_page_map_u envid addr 0 UTEMP (PTE_P OR PTE_U OR PTE_W) s1 = Returns 0 s2" unfolding sys_page_map_u_def s2_def
    by (subst syscall_u_zero) (use a in \<open>simp_all add: call_bytes_def s1_def\<close>)
  have "blocked (PTE_P OR PTE_U) addr 4096 s2 = None" "blocked (PTE_P OR PTE_W OR PTE_U) UTEMP 4096 s2 = None"
    using p assms(5,6) by (auto intro!: page_not_blocked simp: s2_def copyable_page_def PGOFF_def)
  then have r3: "umemmove UTEMP addr PGSIZE s2 = Returns () s3" using umemmove_ok[of addr PGSIZE s2 UTEMP] by (simp add: s3_def s2_def)
  have r4: "sys_page_unmap_u 0 UTEMP s3 = Returns 0 s4" unfolding sys_page_unmap_u_def s4_def
    by (subst syscall_u_zero) (use a in \<open>simp_all add: call_bytes_def s3_def s2_def ROUNDDOWN_def\<close>)
  have "dumb_duppage envid addr s = Returns () s4" unfolding dumb_duppage_def
    by (simp only: kbind_apply kseq_apply kwhen_apply r1 r2 r3 r4 outcome.case less_irrefl if_False)
  moreover have "bytes_at (umem s3) UTEMP (unat PGSIZE) = bytes_at m0 addr (unat PGSIZE)"
    using bytes_at_copied[OF assms(5) m] by (simp add: s3_def)
  then have "requests s4 = requests s @ dup_requests envid m0 addr" by (simp add: s4_def s3_def s2_def s1_def dup_requests_def)
  ultimately show ?thesis by (auto simp: s4_def)
qed

lemma dumb_duppages_ok:
  assumes "answers s = as @ rest" "length as = 3 * length pgs" "page_answers m0 P as" "\<forall>pg \<in> set pgs. copyable_page pg \<and> PGNUM pg \<in> P"
  shows "\<exists>t. kfor pgs (dumb_duppage envid) s = Returns () t \<and> requests t = requests s @ concat (map (dup_requests envid m0) pgs) \<and> answers t = rest"
  using assms
proof (induction pgs arbitrary: as s)
  case Nil
  then show ?case by simp
next
  case (Cons pg pgs)
  then obtain a1 a2 a3 bs where as: "as = a1 # a2 # a3 # bs" "length bs = 3 * length pgs"
    by (cases as; cases "tl as"; cases "tl (tl as)") auto
  obtain t where t: "dumb_duppage envid pg s = Returns () t" "requests t = requests s @ dup_requests envid m0 pg" "answers t = bs @ rest"
    using dumb_duppage_ok[of s a1 a2 a3 "bs @ rest" m0 P pg envid] Cons.prems as by (auto simp: page_answers_Cons3)
  then show ?case using Cons.IH[of t bs] Cons.prems as by (auto simp: page_answers_Cons3)
qed



end
