(* ===== verification/Fault_Programs.thy ===== *)
theory Fault_Programs
  imports User_Programs
begin

text \<open>
  The user programs that read and write strings in pages which may fault meanwhile: \<^verbatim>\<open>user/faultalloc.c\<close>, the handler of
  \<^verbatim>\<open>user/faultallocbad.c\<close>, \<^verbatim>\<open>user/sendpage.c\<close> and the main function of \<^verbatim>\<open>user/faultregs.c\<close>. A fault is a request; the answer to it is the memory
  and the access rights with which the program goes on after its handler has run.
\<close>

section \<open>Bytes and strings in memory that may fault\<close>

definition uload8 :: "u32 \<Rightarrow> (ustate, u8) kernel" where
  "uload8 va = uloop (kbind (kget (blocked (PTE_P OR PTE_U) va 1)) (\<lambda>b. case b of
       None \<Rightarrow> kbind (kget umem) (\<lambda>m. kret (Inr (m va)))
     | Some a \<Rightarrow> kseq (utrap (Faults a False)) (kret (Inl ()))))"

definition ustore8 :: "u32 \<Rightarrow> u8 \<Rightarrow> (ustate, unit) kernel" where
  "ustore8 va v = uloop (kbind (kget (blocked (PTE_P OR PTE_W OR PTE_U) va 1)) (\<lambda>b. case b of
       None \<Rightarrow> kseq (kmodify (\<lambda>s. s\<lparr>umem := (umem s)(va := v)\<rparr>)) (kret (Inr ()))
     | Some a \<Rightarrow> kseq (utrap (Faults a True)) (kret (Inl ()))))"

text \<open>Characters go through the buffer of \<^verbatim>\<open>putch\<close>, which is printed whenever it holds 255 of them.\<close>

primrec put_chars :: "u8 list \<Rightarrow> u8 list \<Rightarrow> (ustate, u8 list) kernel" where
  "put_chars [] buf = kret buf"
| "put_chars (c # cs) buf = (if length (buf @ [c]) = 256 - 1 then kseq (flush_buffer (buf @ [c])) (put_chars cs [])
     else put_chars cs (buf @ [c]))"

text \<open>The characters of a string up to its end, but \<open>n\<close> at most; the flag tells whether the end was reached.\<close>

primrec read_string :: "nat \<Rightarrow> u32 \<Rightarrow> (ustate, u8 list \<times> bool) kernel" where
  "read_string 0 a = kret ([], False)"
| "read_string (Suc n) a = kbind (uload8 a) (\<lambda>c. if c = 0 then kret ([], True)
     else kbind (read_string n (a + 1)) (\<lambda>(cs, e). kret (c # cs, e)))"

text \<open>The loop of \<^verbatim>\<open>%s\<close> in \<^verbatim>\<open>vprintfmt\<close>, with neither width nor precision: each round fills the buffer or ends the string.\<close>

definition put_string :: "u32 \<Rightarrow> u8 list \<Rightarrow> (ustate, u8 list) kernel" where
  "put_string a buf = uiter (\<lambda>(a, buf). kbind (read_string (256 - 1 - length buf) a) (\<lambda>(cs, e).
     if e then kret (Inr (buf @ cs))
     else kseq (flush_buffer (buf @ cs)) (kret (Inl (a + of_nat (length cs), []))))) (a, buf)"

text \<open>\<^verbatim>\<open>cprintf\<close> with a format that consists of \<open>pre\<close>, \<^verbatim>\<open>%s\<close> for the string at \<open>a\<close>, and the characters \<open>post\<close>. The address is not null.\<close>

definition cprintf_at :: "string \<Rightarrow> parg list \<Rightarrow> u32 \<Rightarrow> string \<Rightarrow> (ustate, unit) kernel" where
  "cprintf_at pre ap a post = (case vprintfmt pre ap of
       None \<Rightarrow> kpanic ''undefined argument''
     | Some os \<Rightarrow> kbind (put_chars (map ucast os) []) (\<lambda>b. kbind (put_string a b) (\<lambda>b.
         kbind (put_chars (map (ucast \<circ> ascii) post) b) flush_buffer)))"

text \<open>\<^verbatim>\<open>snprintf\<close> stores character by character while there is room before the last byte, and then the null character.\<close>

definition snprintf_u :: "u32 \<Rightarrow> int \<Rightarrow> string \<Rightarrow> parg list \<Rightarrow> (ustate, int) kernel" where
  "snprintf_u buf n fmt ap = (if buf = 0 \<or> n < 1 then kret (- E_INVAL)
     else case vprintfmt fmt ap of
       None \<Rightarrow> kpanic ''undefined argument''
     | Some os \<Rightarrow> let ebuf = buf + word_of_int n - 1; room = (if buf < ebuf then unat (ebuf - buf) else 0) in
         kseq (kfor (enumerate 0 (map ucast (take room os) @ [0])) (\<lambda>(i, c). ustore8 (buf + of_nat i) c))
         (kret (int (length os))))"

section \<open>Pages allocated on a fault\<close>

definition faultalloc_handler :: "UTrapframe \<Rightarrow> (ustate, unit) kernel" where
  "faultalloc_handler utf = (let addr = utf_fault_va utf in
     kseq (cprintf_u ''fault %x\<newline>'' [PInt addr])
     (kbind (sys_page_alloc_u 0 (ROUNDDOWN addr PGSIZE) (PTE_P OR PTE_U OR PTE_W)) (\<lambda>r.
      if r < 0 then panic_u ''user/faultalloc.c'' 14 ''allocating at %x in page fault handler: %e'' [PInt addr, PInt (word_of_int r)]
      else kseq (snprintf_u addr 100 ''this string was faulted in at %x'' [PInt addr]) (kret ()))))"

definition faultalloc_main :: "u32 \<Rightarrow> (ustate, unit) kernel" where
  "faultalloc_main handler = kseqs [
     set_pgfault_handler handler,
     cprintf_at [] [] 0xDeadBeef ''\<newline>'',
     cprintf_at [] [] 0xCafeBffe ''\<newline>'']"

definition faultallocbad_handler :: "UTrapframe \<Rightarrow> (ustate, unit) kernel" where
  "faultallocbad_handler utf = (let addr = utf_fault_va utf in
     kseq (cprintf_u ''fault %x\<newline>'' [PInt addr])
     (kbind (sys_page_alloc_u 0 (ROUNDDOWN addr PGSIZE) (PTE_P OR PTE_U OR PTE_W)) (\<lambda>r.
      if r < 0 then panic_u ''user/faultallocbad.c'' 15 ''allocating at %x in page fault handler: %e'' [PInt addr, PInt (word_of_int r)]
      else kseq (snprintf_u addr 100 ''this string was faulted in at %x'' [PInt addr]) (kret ()))))"

section \<open>Registers, user/faultregs.c\<close>

text \<open>
  The assembly of \<^verbatim>\<open>umain\<close> saves the registers, stores 42 at \<open>UTEMP\<close>, which is the fault, and saves the registers again. What the
  processor holds at these two points are the parameters \<open>before\<close> and \<open>after\<close>.
\<close>

definition faultregs_main :: "u32 \<Rightarrow> regs \<Rightarrow> regs \<Rightarrow> (ustate, unit) kernel" where
  "faultregs_main pgfault before after = kseqs [
     set_pgfault_handler pgfault,
     ustore32 UTEMP 42,
     kbind (uload32 UTEMP) (\<lambda>v. kwhen (v \<noteq> 42) (cprintf_u ''EIP after page-fault MISMATCH\<newline>'' [])),
     check_regs before ''before'' (after\<lparr>r_eip := r_eip before\<rparr>) ''after'' ''after page-fault'']"

section \<open>A page sent as a message, user/sendpage.c\<close>

definition str1 :: string where
  "str1 = ''hello child environment! how are you?''"

definition str2 :: string where
  "str2 = ''hello parent environment! I'm good.''"

definition TEMP_ADDR :: u32 where "TEMP_ADDR = 0xa00000"
definition TEMP_ADDR_CHILD :: u32 where "TEMP_ADDR_CHILD = 0xb00000"

text \<open>\<^verbatim>\<open>strncmp\<close> of memory with the first \<^verbatim>\<open>strlen(q)\<close> characters of a string, and \<^verbatim>\<open>memcpy\<close> of a string and its null character.\<close>

primrec ustrncmp :: "u32 \<Rightarrow> u8 list \<Rightarrow> (ustate, int) kernel" where
  "ustrncmp p [] = kret 0"
| "ustrncmp p (c # q) = kbind (uload8 p) (\<lambda>v. if v \<noteq> 0 \<and> v = c then ustrncmp (p + 1) q else kret (int (unat v) - int (unat c)))"

definition umemcpy_str :: "u32 \<Rightarrow> string \<Rightarrow> (ustate, unit) kernel" where
  "umemcpy_str dst str = kfor (enumerate 0 (map of_char str @ [0])) (\<lambda>(i, c). ustore8 (dst + of_nat i) c)"

text \<open>\<open>who_at\<close> is the address of the variable \<^verbatim>\<open>who\<close>.\<close>

definition sendpage_main :: "u32 \<Rightarrow> (ustate, unit) kernel" where
  "sendpage_main who_at = kbind fork_u (\<lambda>who. kseq (ustore32 who_at who)
     (if who = 0 then kseqs [
        kseq (ipc_recv_u who_at TEMP_ADDR_CHILD 0) (kret ()),
        kbind (uload32 who_at) (\<lambda>who. cprintf_at ''%x got message: '' [PInt who] TEMP_ADDR_CHILD ''\<newline>''),
        kbind (ustrncmp TEMP_ADDR_CHILD (map of_char str1)) (\<lambda>r. kwhen (r = 0) (cprintf_u ''child received correct message\<newline>'' [])),
        umemcpy_str TEMP_ADDR_CHILD str2,
        kbind (uload32 who_at) (\<lambda>who. ipc_send_u who 0 TEMP_ADDR_CHILD (PTE_P OR PTE_W OR PTE_U))]
      else kseqs [
        kbind my_env_id (\<lambda>i. kseq (sys_page_alloc_u i TEMP_ADDR (PTE_P OR PTE_W OR PTE_U)) (kret ())),
        umemcpy_str TEMP_ADDR str1,
        kbind (uload32 who_at) (\<lambda>who. ipc_send_u who 0 TEMP_ADDR (PTE_P OR PTE_W OR PTE_U)),
        kseq (ipc_recv_u who_at TEMP_ADDR 0) (kret ()),
        kbind (uload32 who_at) (\<lambda>who. cprintf_at ''%x got message: '' [PInt who] TEMP_ADDR ''\<newline>''),
        kbind (ustrncmp TEMP_ADDR (map of_char str2)) (\<lambda>r. kwhen (r = 0) (cprintf_u ''parent received correct message\<newline>'' []))]))"

section \<open>Strings without faults\<close>

text \<open>A string and its null character lie in memory that the program may read.\<close>

definition ustring :: "ustate \<Rightarrow> u32 \<Rightarrow> u8 list \<Rightarrow> bool" where
  "ustring s a cs \<longleftrightarrow> 0 \<notin> set cs \<and> bytes_at (umem s) a (Suc (length cs)) = cs @ [0] \<and>
     (\<forall>i \<le> length cs. access s (a + of_nat i) AND (PTE_P OR PTE_U) = PTE_P OR PTE_U)"

text \<open>What the handler of \<^verbatim>\<open>faultalloc\<close> prints into the page, and registers that \<open>check_regs\<close> takes for equal.\<close>

definition fault_text :: "u32 \<Rightarrow> u32 list" where
  "fault_text a = map ascii ''this string was faulted in at '' @ printnum (unat a) 16 (- 1) CHR '' ''"

definition same_regs :: "regs \<Rightarrow> regs \<Rightarrow> bool" where
  "same_regs a b \<longleftrightarrow> (r_regs a)\<lparr>reg_oesp := 0\<rparr> = (r_regs b)\<lparr>reg_oesp := 0\<rparr> \<and> r_eip a = r_eip b \<and> r_eflags a = r_eflags b \<and> r_esp a = r_esp b"

lemma blocked_1: "blocked perm va 1 s = (if access s va AND perm = perm then None else Some va)"
  by (simp add: blocked_def addresses_def)

lemma uload8_ok: "access s va AND (PTE_P OR PTE_U) = PTE_P OR PTE_U \<Longrightarrow> uload8 va s = Returns (umem s va) s"
  unfolding uload8_def by (rule uloop_ends) (simp add: blocked_1[simplified])

lemma uload8_fault:
  assumes "access s va AND (PTE_P OR PTE_U) \<noteq> PTE_P OR PTE_U" "answers s = Ret v m p # as"
  shows "uload8 va s = uload8 va (s\<lparr>requests := requests s @ [Faults va False], answers := as, umem := m, access := p\<rparr>)"
  unfolding uload8_def using assms by (subst uloop_again) (simp_all add: blocked_1[simplified])

lemma ustore8_ok: "access s va AND (PTE_P OR PTE_W OR PTE_U) = PTE_P OR PTE_W OR PTE_U \<Longrightarrow>
  ustore8 va v s = Returns () (s\<lparr>umem := (umem s)(va := v)\<rparr>)"
  unfolding ustore8_def by (rule uloop_ends) (simp add: blocked_1[simplified])

lemma bytes_at_Suc: "bytes_at m a (Suc n) = m a # bytes_at m (a + 1) n"
  by (simp add: bytes_at_def addresses_def upt_conv_Cons map_Suc_upt[symmetric] ac_simps del: upt_Suc map_map)
    (simp add: ac_simps)

lemma ustring_Cons:
  "ustring s a (c # cs) \<longleftrightarrow> c \<noteq> 0 \<and> umem s a = c \<and> access s a AND (PTE_P OR PTE_U) = PTE_P OR PTE_U \<and> ustring s (a + 1) cs"
proof -
  have "(\<forall>i \<le> Suc n. P i) \<longleftrightarrow> P 0 \<and> (\<forall>i \<le> n. P (Suc i))" for P n by (metis Suc_le_mono le0 not0_implies_Suc)
  from this[where P = "\<lambda>i. access s (a + of_nat i) AND (PTE_P OR PTE_U) = PTE_P OR PTE_U"]
  show ?thesis by (auto simp: ustring_def bytes_at_Suc[of _ _ "Suc _"] ac_simps)
qed

lemma read_string_ok: "ustring s a cs \<Longrightarrow> length cs < n \<Longrightarrow> read_string n a s = Returns (cs, True) s"
proof (induction cs arbitrary: n a)
  case Nil
  then obtain k where "n = Suc k" by (metis gr0_implies_Suc list.size(3))
  moreover have "umem s a = 0" "access s a AND (PTE_P OR PTE_U) = PTE_P OR PTE_U" using Nil.prems(1) by (simp_all add: ustring_def bytes_at_Suc)
  ultimately show ?case using uload8_ok[of s a] by (simp add: kbind_apply)
next
  case (Cons c cs)
  then obtain k where n: "n = Suc k" by (metis gr_implies_not0 not0_implies_Suc)
  then show ?case using Cons.IH[of "a + 1" k] Cons.prems uload8_ok[of s a] by (simp add: ustring_Cons kbind_apply)
qed

lemma put_string_ok:
  assumes "ustring s a cs" "length buf + length cs < 255"
  shows "put_string a buf s = Returns (buf @ cs) s"
proof -
  have "read_string (255 - length buf) a s = Returns (cs, True) s" using assms by (intro read_string_ok) auto
  then show ?thesis by (simp add: put_string_def uiter.simps[of _ _ s] kbind_apply)
qed

lemma put_chars_ok: "length buf + length cs < 255 \<Longrightarrow> put_chars cs buf s = Returns (buf @ cs) s"
  by (induction cs arbitrary: buf) simp_all

text \<open>
  On a string that the program may read, \<open>cprintf_at\<close> does what \<open>cprintf_u\<close>, that is \<open>vprintfmt\<close>, does with the format it stands for; the two formats of the
  programs below.
\<close>

lemma cprintf_at_readable:
  assumes "ustring s a (map ucast ss)" "vprintfmt pre ap = Some os" "vprintfmt fmt ap' = Some (os @ ss @ map ascii post)"
    "length (os @ ss @ map ascii post) < 255"
  shows "cprintf_at pre ap a post s = cprintf_u fmt ap' s"
proof -
  let ?b = "map ucast (os @ ss @ map ascii post) :: u8 list"
  have "put_chars (map ucast os) [] s = Returns (map ucast os) s" using put_chars_ok[of "[]" "map ucast os"] assms(4) by simp
  moreover have "put_string a (map ucast os) s = Returns (map ucast os @ map ucast ss) s"
    by (rule put_string_ok[OF assms(1)]) (use assms(4) in simp)
  moreover have "put_chars (map (ucast \<circ> ascii) post) (map ucast os @ map ucast ss) s = Returns ?b s"
    using put_chars_ok[of "map ucast os @ map ucast ss" "map (ucast \<circ> ascii) post" s] assms(4) by simp
  ultimately have at: "cprintf_at pre ap a post s = flush_buffer ?b s" using assms(2) by (simp add: cprintf_at_def kbind_apply)
  have "length (os @ ss @ map ascii post) div 255 = 0" using assms(4) by simp
  then obtain c where "vcprintf_user fmt ap' = Some (int (length (os @ ss @ map ascii post)), [c])" "c = ?b"
    using vcprintf_user_flushes[OF assms(3)] by (auto simp: length_Suc_conv)
  then have "cprintf_u fmt ap' s = flush_buffer ?b s"
    by (simp add: cprintf_u_def vcprintf_u_def kseq_apply split: outcome.split)
  then show ?thesis using at by simp
qed

lemma cprintf_at_formats:
  "vprintfmt ''%s\<newline>'' [PStr str] = Some ([] @ map schar str @ map ascii ''\<newline>'')"
  "vprintfmt ''%x got message: '' [PInt w] = Some os \<Longrightarrow>
   vprintfmt ''%x got message: %s\<newline>'' [PInt w, PStr str] = Some (os @ map schar str @ map ascii ''\<newline>'')"
  by (auto simp: conversion_def is_digit_def pflags_init_def ascii_def vprintfmt.simps(2) print_string_def unsigned_base_def getuint_def)

text \<open>The first byte faults, and the string is there when the program is resumed.\<close>

lemma put_string_fault:
  assumes "access s a AND (PTE_P OR PTE_U) \<noteq> PTE_P OR PTE_U" "answers s = Ret v m p # as"
    "t = s\<lparr>requests := requests s @ [Faults a False], answers := as, umem := m, access := p\<rparr>"
    "ustring t a cs" "length buf + length cs < 255"
  shows "put_string a buf s = Returns (buf @ cs) t"
proof -
  have r: "read_string (255 - length buf) a t = Returns (cs, True) t" using assms(4,5) by (intro read_string_ok) auto
  obtain k where k: "255 - length buf = Suc k" using assms(5) by (metis Suc_diff_Suc add_lessD1)
  have "uload8 a s = uload8 a t" unfolding assms(3) by (rule uload8_fault[OF assms(1,2)])
  then have "read_string (255 - length buf) a s = Returns (cs, True) t" using r unfolding k by (simp add: kbind_apply)
  then show ?thesis by (simp add: put_string_def uiter.simps[of _ _ s] kbind_apply)
qed

lemma cprintf_at_fault:
  assumes "vprintfmt pre ap = Some os" "length os + length cs + length post < 255"
    "access s a AND (PTE_P OR PTE_U) \<noteq> PTE_P OR PTE_U" "answers s = Ret v m p # Ret v' m' p' # as"
    "ustring (s\<lparr>requests := requests s @ [Faults a False], answers := Ret v' m' p' # as, umem := m, access := p\<rparr>) a cs"
  shows "\<exists>t q. cprintf_at pre ap a post s = Returns () t \<and> requests t = requests s @ [Faults a False, q] \<and>
    printed [q] = map ucast os @ cs @ map (ucast \<circ> ascii) post \<and> answers t = as"
proof -
  let ?t = "s\<lparr>requests := requests s @ [Faults a False], answers := Ret v' m' p' # as, umem := m, access := p\<rparr>"
  let ?b = "map ucast os @ cs @ map (ucast \<circ> ascii) post"
  have 1: "put_chars (map ucast os) [] s = Returns (map ucast os) s" using put_chars_ok[of "[]" "map ucast os"] assms(2) by simp
  have 2: "put_string a (map ucast os) s = Returns (map ucast os @ cs) ?t"
    by (rule put_string_fault[OF assms(3,4) refl assms(5)]) (use assms(2) in simp)
  have 3: "put_chars (map (ucast \<circ> ascii) post) (map ucast os @ cs) ?t = Returns ?b ?t"
    using put_chars_ok[of "map ucast os @ cs" "map (ucast \<circ> ascii) post" ?t] assms(2) by simp
  have "answers ?t = Ret v' m' p' # as" "length ?b < 2 ^ 32" using assms(2) by simp_all
  from flush_buffer_prints[OF this] obtain u rs where u: "flush_buffer ?b ?t = Returns () u" "requests u = requests ?t @ rs"
    "printed rs = ?b" "length rs = 1" "answers u = as" by blast
  then obtain q where "rs = [q]" by (auto simp: length_Suc_conv)
  then show ?thesis using u by (intro exI[of _ u] exI[of _ q]) (simp add: cprintf_at_def assms(1) kbind_apply 1 2 3)
qed

declare vprintfmt.simps(2) [simp del]

section \<open>The string that the handler writes\<close>

lemma put_bytes_Cons:
  assumes "length cs < 2 ^ 32"
  shows "put_bytes m a (c # cs) = put_bytes (m(a := c)) (a + 1) cs"
proof
  fix x
  show "put_bytes m a (c # cs) x = put_bytes (m(a := c)) (a + 1) cs x"
  proof (cases "x = a")
    case True
    moreover have "unat (- 1 :: u32) = 4294967295" by (simp add: unsigned_minus_1_eq_mask mask_eq_exp_minus_1)
    ultimately show ?thesis using assms by (simp add: put_bytes_def in_range_def)
  next
    case False
    then have "x - a \<noteq> 0" by simp
    then have "unat (x - a - 1) = unat (x - a) - 1" "0 < unat (x - a)" by (simp_all add: unat_minus_one unat_gt_0)
    then have "unat (x - a) = Suc (unat (x - (a + 1)))" by (simp add: diff_diff_eq)
    then show ?thesis using False by (simp add: put_bytes_def in_range_def)
  qed
qed

lemma store_bytes:
  assumes "\<forall>i < length bs. access s (a + of_nat (k + i)) AND (PTE_P OR PTE_W OR PTE_U) = PTE_P OR PTE_W OR PTE_U" "length bs < 2 ^ 32"
  shows "kfor (enumerate k bs) (\<lambda>(i, c). ustore8 (a + of_nat i) c) s = Returns () (s\<lparr>umem := put_bytes (umem s) (a + of_nat k) bs\<rparr>)"
  using assms
proof (induction bs arbitrary: k s)
  case Nil
  then show ?case by (simp add: put_bytes_def in_range_def)
next
  case (Cons c cs)
  let ?s = "s\<lparr>umem := (umem s)(a + of_nat k := c)\<rparr>"
  have "access s (a + of_nat k) AND (PTE_P OR PTE_W OR PTE_U) = PTE_P OR PTE_W OR PTE_U"
    using Cons.prems(1)[rule_format, of 0] by simp
  then have 1: "ustore8 (a + of_nat k) c s = Returns () ?s" by (rule ustore8_ok)
  have "\<forall>i < length cs. access ?s (a + of_nat (Suc k + i)) AND (PTE_P OR PTE_W OR PTE_U) = PTE_P OR PTE_W OR PTE_U"
  proof (intro allI impI)
    fix i
    assume "i < length cs"
    then show "access ?s (a + of_nat (Suc k + i)) AND (PTE_P OR PTE_W OR PTE_U) = PTE_P OR PTE_W OR PTE_U"
      using Cons.prems(1)[rule_format, of "Suc i"] by simp
  qed
  then have "kfor (enumerate (Suc k) cs) (\<lambda>(i, c). ustore8 (a + of_nat i) c) ?s =
      Returns () (?s\<lparr>umem := put_bytes (umem ?s) (a + of_nat (Suc k)) cs\<rparr>)" using Cons.prems(2) by (intro Cons.IH) simp_all
  then show ?case using 1 Cons.prems(2) by (simp add: put_bytes_Cons ac_simps)
qed

text \<open>The hexadecimal digits of a word.\<close>

lemma digits_length: "2 \<le> base \<Longrightarrow> num < base ^ Suc k \<Longrightarrow> length (digits_of num base) \<le> Suc k"
proof (induction k arbitrary: num)
  case 0
  then show ?case by (subst digits_of.simps) simp
next
  case (Suc k)
  have "num div base < base ^ Suc k" using Suc.prems by (simp add: less_mult_imp_div_less mult.commute)
  then have "length (digits_of (num div base) base) \<le> Suc k" using Suc.IH Suc.prems(1) by blast
  then show ?case by (subst digits_of.simps) simp
qed

lemma hex_word:
  fixes a :: u32 and c :: char
  defines "ds \<equiv> map ucast (printnum (unat a) 16 (- 1) c) :: u8 list"
  shows "length ds \<le> 8" and "0 \<notin> set ds"
proof -
  have d: "ds = map hexbyte (digits_of (unat a) 16)" by (simp add: ds_def printnum_digits hexbyte_def)
  show "length ds \<le> 8" unfolding d using digits_length[of 16 "unat a" 7] unat_u32_less[of a] by simp
  show "0 \<notin> set ds" unfolding d using digits_of_props[of 16 "unat a"] hexbyte_cases by force
qed

lemma unat_ucast_u64: "unat (ucast (a :: u32) :: u64) = unat a"
proof -
  have "unat a < 2 ^ 64" using unat_u32_less[of a] by (rule order_less_trans) simp
  then show ?thesis by (simp add: unsigned_ucast_eq take_bit_nat_eq_self)
qed

lemma fault_text_format: "vprintfmt ''this string was faulted in at %x'' [PInt a] = Some (fault_text a)"
  by (simp add: fault_text_def conversion_def is_digit_def pflags_init_def unsigned_base_def getuint_def ascii_def unat_ucast_u64 vprintfmt.simps(2))

lemma fault_text_props:
  "length (fault_text a) \<le> 38" "0 \<notin> set (map ucast (fault_text a) :: u8 list)"
  using hex_word[of a "CHR '' ''"] by (simp_all add: fault_text_def ascii_def)

lemma in_page_offset:
  assumes "unat (PGOFF a) + i < 4096" "a < UTOP"
  shows "PGNUM (a + of_nat i) = PGNUM a" and "unat (a + of_nat i) = unat a + i"
proof -
  have "unat a < 4294963200" using assms(2) by (simp add: word_less_nat_alt UTOP_def KERNBASE_def)
  then show u: "unat (a + of_nat i) = unat a + i" using assms(1) by (simp add: unat_word_ariths unat_of_nat)
  have "unat a = 4096 * (unat a div 4096) + unat (PGOFF a)" by (simp add: unat_PGOFF)
  then have "(unat a + i) div 4096 = unat a div 4096" using assms(1) by (intro div_nat_eqI) simp_all
  then show "PGNUM (a + of_nat i) = PGNUM a" by (simp add: word_unat_eq_iff unat_PGNUM u)
qed

lemma ustring_put:
  assumes "0 \<notin> set cs" "length cs < 4095" "\<forall>i \<le> length cs. access s (a + of_nat i) AND (PTE_P OR PTE_U) = PTE_P OR PTE_U"
    "umem s = put_bytes m a (cs @ [0])"
  shows "ustring s a cs"
  using assms put_bytes_read[of "cs @ [0]" m a] by (simp add: ustring_def)

lemma faultalloc_handler_ok:
  assumes "utf_fault_va utf = a" "a \<noteq> 0" "a < UTOP" "unat (PGOFF a) + 39 \<le> 4096"
    "answers s = Ret v0 m0 p0 # Ret 0 m p # as" "\<forall>x. PGNUM x = PGNUM a \<longrightarrow> p x AND 7 = 7"
  shows "\<exists>t. faultalloc_handler utf s = Returns () t \<and> umem t = put_bytes m a (map ucast (fault_text a) @ [0]) \<and> access t = p \<and> answers t = as"
proof -
  let ?bs = "map ucast (fault_text a) @ [0] :: u8 list"
  have v: "vprintfmt ''fault %x\<newline>'' [PInt a] = Some (map ascii ''fault '' @ printnum (unat a) 16 (- 1) CHR '' '' @ [ascii (CHR ''\<newline>'')])"
    by (simp add: conversion_def is_digit_def pflags_init_def unsigned_base_def getuint_def ascii_def unat_ucast_u64 vprintfmt.simps(2))
  obtain s1 where s1: "cprintf_u ''fault %x\<newline>'' [PInt a] s = Returns () s1" "answers s1 = Ret 0 m p # as"
    using cprintf_u_short[OF v _ assms(5)] hex_word(1)[of a "CHR '' ''"] by auto
  obtain s2 where s2: "sys_page_alloc_u 0 (ROUNDDOWN a PGSIZE) (PTE_P OR PTE_U OR PTE_W) s1 = Returns 0 s2" "answers s2 = as" "umem s2 = m" "access s2 = p"
    unfolding sys_page_alloc_u_def using syscall_u_zero[OF s1(2)] by simp
  have "unat a + 99 < 2 ^ 32" using assms(3) by (simp add: word_less_nat_alt UTOP_def KERNBASE_def)
  then have room: "a < 99 + a" by (simp add: word_less_nat_alt unat_word_ariths)
  have ln: "length (fault_text a) \<le> 38" by (rule fault_text_props)
  have "\<forall>i < length ?bs. access s2 (a + of_nat (0 + i)) AND (PTE_P OR PTE_W OR PTE_U) = PTE_P OR PTE_W OR PTE_U"
    using in_page_offset(1)[OF _ assms(3)] assms(4,6) ln s2(4) by simp
  from store_bytes[OF this] ln have st: "kfor (enumerate 0 ?bs) (\<lambda>(i, c). ustore8 (a + of_nat i) c) s2 =
    Returns () (s2\<lparr>umem := put_bytes (umem s2) a ?bs\<rparr>)" by simp
  have "snprintf_u a 100 ''this string was faulted in at %x'' [PInt a] s2 =
    Returns (int (length (fault_text a))) (s2\<lparr>umem := put_bytes (umem s2) a ?bs\<rparr>)"
    unfolding snprintf_u_def fault_text_format using st room ln assms(2) by (simp add: kseq_apply Let_def)
  then have "faultalloc_handler utf s = Returns () (s2\<lparr>umem := put_bytes (umem s2) a ?bs\<rparr>)"
    using s1(1) s2(1) assms(1) by (simp add: faultalloc_handler_def kseq_apply kbind_apply)
  then show ?thesis using s2 by simp
qed

lemma deadbeef_text:
  "vprintfmt ''this string was faulted in at %x'' [PInt 0xDEADBEEF] = Some (map ascii ''this string was faulted in at deadbeef'')"
  unfolding fault_text_format fault_text_def by (simp add: printnum.simps ascii_def hexdigits_def)

text \<open>
  A page fault of \<open>faultalloc\<close> would be mended by its handler, if the library could install it (at this commit \<open>set_pgfault_handler\<close> panics): when the kernel allocates the page, the handler returns, and the program, resumed
  with the memory that the handler leaves, prints at the address that faulted the string that the handler wrote there, and its line feed, with one
  system call. This holds for every user address that leaves room for the string in its page.
\<close>

theorem faultalloc_prints_string:
  assumes "utf_fault_va utf = a" "a \<noteq> 0" "a < UTOP" "unat (PGOFF a) + 39 \<le> 4096"
    "answers s = Ret v0 m0 p0 # Ret 0 m p # as" "\<forall>x. PGNUM x = PGNUM a \<longrightarrow> p x AND 7 = 7"
    "access r a AND (PTE_P OR PTE_U) \<noteq> PTE_P OR PTE_U"
  shows "\<exists>t. faultalloc_handler utf s = Returns () t \<and> answers t = as \<and>
    (answers r = Ret w (umem t) (access t) # Ret v' m' p' # as' \<longrightarrow>
      (\<exists>u q os. cprintf_at [] [] a ''\<newline>'' r = Returns () u \<and> requests u = requests r @ [Faults a False, q] \<and> answers u = as' \<and>
         vprintfmt ''this string was faulted in at %x'' [PInt a] = Some os \<and> printed [q] = map ucast os @ [10]))"
proof -
  obtain t where t: "faultalloc_handler utf s = Returns () t" "umem t = put_bytes m a (map ucast (fault_text a) @ [0])" "access t = p" "answers t = as"
    using faultalloc_handler_ok[OF assms(1-6)] by blast
  have "\<exists>u q. cprintf_at [] [] a ''\<newline>'' r = Returns () u \<and> requests u = requests r @ [Faults a False, q] \<and>
      printed [q] = map ucast (fault_text a) @ [10] \<and> answers u = as'" if ar: "answers r = Ret w (umem t) (access t) # Ret v' m' p' # as'"
  proof -
    let ?r = "r\<lparr>requests := requests r @ [Faults a False], answers := Ret v' m' p' # as', umem := umem t, access := access t\<rparr>"
    have "\<forall>i \<le> length (map ucast (fault_text a) :: u8 list). access ?r (a + of_nat i) AND (PTE_P OR PTE_U) = PTE_P OR PTE_U"
      using in_page_offset(1)[OF _ assms(3)] assms(4,6) fault_text_props(1)[of a] t(3) read_rights by simp
    then have "ustring ?r a (map ucast (fault_text a))"
      by (intro ustring_put[of _ _ _ m]) (use fault_text_props[of a] t(2) in simp_all)
    from cprintf_at_fault[of "[]" "[]" "[]", OF _ _ assms(7) ar this, of "''\<newline>''"] show ?thesis
      using fault_text_props(1)[of a] by (simp add: ascii_def)
  qed
  then show ?thesis using t fault_text_format[of a] by (intro exI[of _ t]) auto
qed

theorem faultalloc_prints_string_witness:
  "\<exists>t u q. faultalloc_handler \<lparr>utf_fault_va = 0xDEADBEEF, utf_err = 4, utf_regs = PushRegs_zero, utf_eip = 0, utf_eflags = 0, utf_esp = 0\<rparr>
       (user_start [Ret 0 (\<lambda>_. 0) (\<lambda>_. 0), Ret 0 (\<lambda>_. 0) (\<lambda>_. 7)]) = Returns () t \<and>
     cprintf_at [] [] 0xDEADBEEF ''\<newline>'' (user_start [Ret 0 (umem t) (access t), Ret 0 (\<lambda>_. 0) (\<lambda>_. 0)]) = Returns () u \<and>
     requests u = [Faults 0xDEADBEEF False, q] \<and> printed [q] = map (ucast \<circ> ascii) ''this string was faulted in at deadbeef\<newline>''"
proof -
  let ?utf = "\<lparr>utf_fault_va = 0xDEADBEEF, utf_err = 4, utf_regs = PushRegs_zero, utf_eip = 0, utf_eflags = 0, utf_esp = 0\<rparr>"
  let ?s = "user_start [Ret 0 (\<lambda>_. 0) (\<lambda>_. 0), Ret 0 (\<lambda>_. 0) (\<lambda>_. 7)]"
  have a: "(0xDEADBEEF :: u32) \<noteq> 0" "0xDEADBEEF < UTOP" "unat (PGOFF 0xDEADBEEF) + 39 \<le> 4096"
    by (simp_all add: UTOP_def KERNBASE_def unat_PGOFF)
  have "utf_fault_va ?utf = 0xDEADBEEF" "answers ?s = Ret 0 (\<lambda>_. 0) (\<lambda>_. 0) # Ret 0 (\<lambda>_. 0) (\<lambda>_. 7) # []" by (simp_all add: user_start_def)
  note f = faultalloc_prints_string[OF this(1) a this(2)]
  have "access (user_start as) x AND (PTE_P OR PTE_U) \<noteq> PTE_P OR PTE_U" for as x by (simp add: user_start_def)
  note g = f[OF _ this]
  obtain t where t: "faultalloc_handler ?utf ?s = Returns () t"
    using g[of "[]" 0 0 "\<lambda>_. 0" "\<lambda>_. 0" "[]"] by auto
  let ?r = "user_start [Ret 0 (umem t) (access t), Ret 0 (\<lambda>_. 0) (\<lambda>_. 0)]"
  obtain u q os where u: "cprintf_at [] [] 0xDEADBEEF ''\<newline>'' ?r = Returns () u" "requests u = requests ?r @ [Faults 0xDEADBEEF False, q]"
    "vprintfmt ''this string was faulted in at %x'' [PInt 0xDEADBEEF] = Some os" "printed [q] = map ucast os @ [10]"
    using g[of "[Ret 0 (umem t) (access t), Ret 0 (\<lambda>_. 0) (\<lambda>_. 0)]" 0 0 "\<lambda>_. 0" "\<lambda>_. 0" "[]"] t by (auto simp: user_start_def[of "[_, _]"])
  have "printed [q] = map (ucast \<circ> ascii) ''this string was faulted in at deadbeef\<newline>''" using deadbeef_text u(3,4) by (simp add: ascii_def)
  then show ?thesis using t u(1,2) by (auto simp: user_start_def)
qed

section \<open>The report of faultregs\<close>

lemma printnum_length: "length (printnum (unat (a :: u32)) 16 8 c) = 8"
proof -
  have "length (digits_of (unat a) 16) \<le> 8" using digits_length[of 16 "unat a" 7] unat_u32_less[of a] by simp
  then show ?thesis by (simp add: printnum_digits)
qed

lemma check_format:
  "length name < 100 \<Longrightarrow> \<exists>os. vprintfmt ''%-6s %08x %08x '' [PStr name, PInt x, PInt y] = Some os \<and> length os < 255"
  by (simp add: conversion_def is_digit_def digits_int_def process_precision_def pflags_init_def unsigned_base_def getuint_def ascii_def
      unat_ucast_u64 vprintfmt.simps(2) print_string_def printnum_length)

lemma verdict_format:
  "vprintfmt ''OK\<newline>'' [] = Some (map ascii ''OK\<newline>'')" "vprintfmt ''MISMATCH\<newline>'' [] = Some (map ascii ''MISMATCH\<newline>'')"
  by (simp_all add: vprintfmt.simps(2))

lemma check_each_ok:
  assumes "\<forall>r \<in> set rs. length (fst r) < 100" "answers s = as @ rest" "served as" "length as = 2 * length rs"
  shows "\<exists>t qs. check_each rs a b mm s = Returns (mm \<or> (\<exists>r \<in> set rs. snd r a \<noteq> snd r b)) t \<and> requests t = requests s @ qs \<and> answers t = rest"
  using assms
proof (induction rs arbitrary: s as mm)
  case Nil
  then show ?case by simp
next
  case (Cons r rs)
  obtain name field where r: "r = (name, field)" by (cases r)
  obtain v m p v' m' p' as' where as: "as = Ret v m p # Ret v' m' p' # as'" "served as'" "length as' = 2 * length rs"
    using Cons.prems(3,4) by (cases as; cases "tl as") auto
  obtain os where os: "vprintfmt ''%-6s %08x %08x '' [PStr name, PInt (field a), PInt (field b)] = Some os" "length os < 255"
    using check_format Cons.prems(1) r by fastforce
  have "answers s = Ret v m p # Ret v' m' p' # as' @ rest" using Cons.prems(2) as(1) by simp
  from cprintf_u_short[OF os this] obtain t1 q1 where t1: "cprintf_u ''%-6s %08x %08x '' [PStr name, PInt (field a), PInt (field b)] s = Returns () t1"
    "requests t1 = requests s @ q1" "answers t1 = Ret v' m' p' # as' @ rest" by blast
  let ?msg = "if field a = field b then ''OK\<newline>'' else ''MISMATCH\<newline>''"
  have "vprintfmt ?msg [] = Some (map ascii ?msg)" "length (map ascii ?msg) < 255" by (simp_all add: verdict_format)
  from cprintf_u_short[OF this t1(3)] obtain t2 q2 where t2: "cprintf_u ?msg [] t1 = Returns () t2" "requests t2 = requests t1 @ q2" "answers t2 = as' @ rest"
    by blast
  have "\<forall>r \<in> set rs. length (fst r) < 100" using Cons.prems(1) by simp
  note ih = Cons.IH[OF this t2(3) as(2,3)]
  show ?case
  proof (cases "field a = field b")
    case True
    then show ?thesis using ih[of mm] t1 t2 by (auto simp: r kseq_apply)
  next
    case False
    then show ?thesis using ih[of True] t1 t2 by (auto simp: r kseq_apply)
  qed
qed

lemma reg_table_same: "(\<exists>r \<in> set reg_table. snd r a \<noteq> snd r b) \<longleftrightarrow> \<not> same_regs a b"
  by (cases "r_regs a"; cases "r_regs b") (auto simp: reg_table_def same_regs_def)

text \<open>
  \<open>check_regs\<close> reports what it should: with the kernel serving its output, it ends with the verdict \<open>OK\<close> exactly when the instruction pointer, the flags, the stack pointer
  and the seven registers that \<^verbatim>\<open>pushal\<close> saves beside the old stack pointer are the same.
\<close>

theorem check_regs_reports:
  assumes "answers s = as @ rest" "served as" "length as = 23" "length an < 100" "length bn < 100" "length testname < 100"
  shows "\<exists>t qs q. check_regs a an b bn testname s = Returns () t \<and> answers t = rest \<and> requests t = requests s @ qs @ [q] \<and>
    printed [q] = map (ucast \<circ> ascii) (if same_regs a b then ''OK\<newline>'' else ''MISMATCH\<newline>'')"
proof -
  obtain v m p as' where as: "as = Ret v m p # as'" "served as'" "length as' = 22" using assms(2,3) by (cases as) auto
  define cs ds where "cs = take 20 as'" and "ds = drop 20 as'"
  have cd: "as' = cs @ ds" "length cs = 20" "length ds = 2" using as(3) by (simp_all add: cs_def ds_def)
  then have sv: "served cs" "served ds" using as(2) by simp_all
  obtain v1 m1 p1 v2 m2 p2 where ds: "ds = [Ret v1 m1 p1, Ret v2 m2 p2]" using cd(3) sv(2) by (cases ds; cases "tl ds") auto
  have "\<exists>os. vprintfmt ''%-6s %-8s %-8s\<newline>'' [PStr [], PStr an, PStr bn] = Some os \<and> length os < 255" using assms(4,5)
    by (simp add: conversion_def is_digit_def digits_int_def process_precision_def pflags_init_def ascii_def vprintfmt.simps(2) print_string_def)
  then obtain os where os: "vprintfmt ''%-6s %-8s %-8s\<newline>'' [PStr [], PStr an, PStr bn] = Some os" "length os < 255" by blast
  have "answers s = Ret v m p # cs @ Ret v1 m1 p1 # Ret v2 m2 p2 # rest" using assms(1) as(1) cd(1) ds by simp
  from cprintf_u_short[OF os this] obtain t1 q1 where t1: "cprintf_u ''%-6s %-8s %-8s\<newline>'' [PStr [], PStr an, PStr bn] s = Returns () t1"
    "requests t1 = requests s @ q1" "answers t1 = cs @ Ret v1 m1 p1 # Ret v2 m2 p2 # rest" by blast
  have "\<forall>r \<in> set reg_table. length (fst r) < 100" "length cs = 2 * length reg_table" using cd(2) by (simp_all add: reg_table_def)
  from check_each_ok[OF this(1) t1(3) sv(1) this(2), of a b False] obtain t2 q2 where t2: "check_each reg_table a b False t1 = Returns (\<not> same_regs a b) t2"
    "requests t2 = requests t1 @ q2" "answers t2 = Ret v1 m1 p1 # Ret v2 m2 p2 # rest" unfolding reg_table_same by auto
  have "\<exists>os. vprintfmt ''Registers %s '' [PStr testname] = Some os \<and> length os < 255" using assms(6)
    by (simp add: conversion_def is_digit_def pflags_init_def ascii_def vprintfmt.simps(2) print_string_def)
  then obtain os2 where os2: "vprintfmt ''Registers %s '' [PStr testname] = Some os2" "length os2 < 255" by blast
  from cprintf_u_short[OF os2 t2(3)] obtain t3 q3 where t3: "cprintf_u ''Registers %s '' [PStr testname] t2 = Returns () t3"
    "requests t3 = requests t2 @ q3" "answers t3 = Ret v2 m2 p2 # rest" by blast
  let ?msg = "if same_regs a b then ''OK\<newline>'' else ''MISMATCH\<newline>''"
  have "vprintfmt ?msg [] = Some (map ascii ?msg)" "length (map ascii ?msg) < 255" by (simp_all add: verdict_format)
  from cprintf_u_short[OF this t3(3)] obtain t4 q4 where t4: "cprintf_u ?msg [] t3 = Returns () t4" "requests t4 = requests t3 @ q4"
    "printed q4 = map ucast (map ascii ?msg)" "length q4 = 1" "answers t4 = rest" by blast
  then obtain q where "q4 = [q]" by (auto simp: length_Suc_conv)
  moreover have "check_regs a an b bn testname s = Returns () t4" using t1(1) t2(1) t3(1) t4(1)
    by (cases "same_regs a b") (simp_all add: check_regs_def kseq_apply kbind_apply)
  ultimately show ?thesis using t1 t2 t3 t4 by (intro exI[of _ t4] exI[of _ "q1 @ q2 @ q3"] exI[of _ q]) auto
qed

theorem check_regs_reports_witness:
  "\<exists>t qs q. check_regs \<lparr>r_regs = PushRegs_zero, r_eip = 1, r_eflags = 0x8d5, r_esp = 2\<rparr> ''before''
      \<lparr>r_regs = PushRegs_zero\<lparr>reg_oesp := 7\<rparr>, r_eip = 1, r_eflags = 0x8d4, r_esp = 2\<rparr> ''after'' ''after page-fault''
      (user_start (replicate 23 (Ret 0 (\<lambda>_. 0) (\<lambda>_. 0)))) = Returns () t \<and> requests t = qs @ [q] \<and>
    printed [q] = map (ucast \<circ> ascii) ''MISMATCH\<newline>''"
proof -
  let ?as = "replicate 23 (Ret 0 (\<lambda>_. 0) (\<lambda>_. 0))"
  have "served ?as" "answers (user_start ?as) = ?as @ []" by (simp_all add: served_def user_start_def)
  from check_regs_reports[OF this(2,1), of "''before''" "''after''" "''after page-fault''"] show ?thesis
    by (simp add: same_regs_def user_start_def) fastforce
qed

text \<open>The program that sends a page does not get beyond its call of \<open>fork\<close>.\<close>

lemma sendpage_stops: "noreturn (sendpage_main who_at)"
  unfolding sendpage_main_def by (intro noreturn_kbind1 noreturn_unimplemented)

end
