(* ===== verification/Address_Space.thy ===== *)
theory Address_Space
  imports User_Space
begin

text \<open>
  Sequences of page operations, from \<^verbatim>\<open>kern/pmap.c\<close>: any series of \<open>page_insert\<close> and \<open>page_remove\<close> on one directory refines
  a specification in which the user part of the address space is a finite map from page addresses to entries, and the
  reference count of a page is the number of its mappings there plus the references from outside.
\<close>

section \<open>Refinement of sequences of operations\<close>

text \<open>
  The interface between an implementation \<open>exec\<close> of operations in the kernel monad and a nondeterministic specification \<open>spec\<close>
  of them: an operation whose precondition \<open>ok\<close> holds ends and does a step of the specification.
\<close>

primrec run_all :: "('op \<Rightarrow> ('s, 'r) kernel) \<Rightarrow> 'op list \<Rightarrow> ('s, 'r list) kernel" where
  "run_all exec [] = kret []"
| "run_all exec (p # ps) = kbind (exec p) (\<lambda>r. kbind (run_all exec ps) (\<lambda>rs. kret (r # rs)))"

fun spec_run :: "('op \<Rightarrow> 'a \<Rightarrow> 'r \<Rightarrow> 'a \<Rightarrow> bool) \<Rightarrow> 'op list \<Rightarrow> 'a \<Rightarrow> 'r list \<Rightarrow> 'a \<Rightarrow> bool" where
  "spec_run spec [] a [] a' \<longleftrightarrow> a' = a"
| "spec_run spec (p # ps) a (r # rs) a' \<longleftrightarrow> (\<exists>b. spec p a r b \<and> spec_run spec ps b rs a')"
| "spec_run spec _ a _ a' \<longleftrightarrow> False"

primrec spec_safe :: "('op \<Rightarrow> 'a \<Rightarrow> bool) \<Rightarrow> ('op \<Rightarrow> 'a \<Rightarrow> 'r \<Rightarrow> 'a \<Rightarrow> bool) \<Rightarrow> 'op list \<Rightarrow> 'a \<Rightarrow> bool" where
  "spec_safe ok spec [] a \<longleftrightarrow> True"
| "spec_safe ok spec (p # ps) a \<longleftrightarrow> ok p a \<and> (\<forall>r b. spec p a r b \<longrightarrow> spec_safe ok spec ps b)"

section \<open>The specification of an address space\<close>

datatype page_op = Insert nat u32 u32 | Remove u32

definition page_exec :: "u32 \<Rightarrow> page_op \<Rightarrow> (kstate, int) kernel" where
  "page_exec pgdir p = (case p of
     Insert pp va perm \<Rightarrow> page_insert pgdir pp va perm
   | Remove va \<Rightarrow> kseq (page_remove pgdir va) (kret 0))"

definition frame_of :: "u32 \<Rightarrow> nat" where
  "frame_of pte = unat (PGNUM pte)"

text \<open>
  The specified state: the entries by page address, the frames that are in use, and a number of free pages that
  is certain to be there.
\<close>

record vmspec =
  vmap :: "u32 \<rightharpoonup> u32"
  frames :: "nat set"
  budget :: nat

definition uses :: "(u32 \<rightharpoonup> u32) \<Rightarrow> nat \<Rightarrow> nat" where
  "uses m pg = card {a. map_option frame_of (m a) = Some pg}"

text \<open>Changing one entry: the frame mapped there before is out of use when this was the last reference.\<close>

definition vm_set :: "(nat \<Rightarrow> nat) \<Rightarrow> u32 \<Rightarrow> u32 option \<Rightarrow> vmspec \<Rightarrow> vmspec" where
  "vm_set ext a v m = (let m' = (vmap m)(a := v) in
     m\<lparr>vmap := m', frames := {pg \<in> frames m. \<not> (map_option frame_of (vmap m a) = Some pg \<and> ext pg + uses m' pg = 0)}\<rparr>)"

definition vm_ok :: "(nat \<Rightarrow> nat) \<Rightarrow> page_op \<Rightarrow> vmspec \<Rightarrow> bool" where
  "vm_ok ext p m = (case p of
     Insert pp va perm \<Rightarrow> va < UTOP \<and> perm < 4096 \<and> pp \<in> frames m \<and> ext pp + uses (vmap m) pp < 65535
   | Remove va \<Rightarrow> va < UTOP)"

definition vm_spec :: "(nat \<Rightarrow> nat) \<Rightarrow> page_op \<Rightarrow> vmspec \<Rightarrow> int \<Rightarrow> vmspec \<Rightarrow> bool" where
  "vm_spec ext p m r m' = (case p of
     Insert pp va perm \<Rightarrow>
       r = 0 \<and> m' = (vm_set ext (PTE_ADDR va) (Some (page2pa pp OR perm OR PTE_P)) m)\<lparr>budget := budget m - 1\<rparr> \<or>
       r = - E_NO_MEM \<and> budget m = 0 \<and> m' = m
   | Remove va \<Rightarrow> r = 0 \<and> m' = vm_set ext (PTE_ADDR va) None m)"

text \<open>The map alone, when every operation succeeds.\<close>

fun page_update :: "page_op \<Rightarrow> (u32 \<rightharpoonup> u32) \<Rightarrow> (u32 \<rightharpoonup> u32)" where
  "page_update (Insert pp va perm) m = m(PTE_ADDR va \<mapsto> page2pa pp OR perm OR PTE_P)"
| "page_update (Remove va) m = m(PTE_ADDR va := None)"

text \<open>The entries of the user part of a directory, and the relation of a kernel state to the specified one.\<close>

definition user_map :: "kstate \<Rightarrow> u32 \<Rightarrow> u32 \<rightharpoonup> u32" where
  "user_map s pgdir = (\<lambda>a. if a < UTOP \<and> PGOFF a = 0 then mapped s pgdir a else None)"

definition vm_frames :: "(nat \<Rightarrow> nat) \<Rightarrow> u32 \<Rightarrow> nat list \<Rightarrow> kstate \<Rightarrow> vmspec \<Rightarrow> bool" where
  "vm_frames ext pgdir xs s m \<longleftrightarrow> (\<forall>a pte. vmap m a = Some pte \<longrightarrow> frame_of pte \<in> frames m) \<and>
     (\<forall>pg \<in> frames m. pg < length (pages s) \<and> pg \<notin> set xs \<and> pg \<notin> as_pages s pgdir \<and>
        unat (pp_ref (pages s ! pg)) = ext pg + uses (vmap m) pg)"

definition vm_rel :: "(nat \<Rightarrow> nat) \<Rightarrow> u32 \<Rightarrow> kstate \<Rightarrow> vmspec \<Rightarrow> bool" where
  "vm_rel ext pgdir s m \<longleftrightarrow> (\<exists>xs. page_inv s xs \<and> wf_pgdir s xs pgdir \<and> curenv_ok s \<and> budget m \<le> length xs \<and>
     user_map s pgdir = vmap m \<and> vm_frames ext pgdir xs s m)"

section \<open>Runs\<close>

locale refines =
  fixes exec :: "'op \<Rightarrow> ('s, 'r) kernel"
    and ok :: "'op \<Rightarrow> 'a \<Rightarrow> bool"
    and spec :: "'op \<Rightarrow> 'a \<Rightarrow> 'r \<Rightarrow> 'a \<Rightarrow> bool"
    and rel :: "'s \<Rightarrow> 'a \<Rightarrow> bool"
  assumes simulates: "rel s a \<Longrightarrow> ok p a \<Longrightarrow> \<exists>r t b. exec p s = Returns r t \<and> spec p a r b \<and> rel t b"
begin

lemma run_refines:
  assumes "rel s a" "spec_safe ok spec ps a"
  shows "\<exists>rs t b. run_all exec ps s = Returns rs t \<and> spec_run spec ps a rs b \<and> rel t b"
  using assms
proof (induction ps arbitrary: s a)
  case Nil
  then show ?case by (intro exI[of _ "[]"]) auto
next
  case (Cons p ps)
  have "ok p a" using Cons.prems(2) by simp
  then obtain r t b where 1: "exec p s = Returns r t" "spec p a r b" "rel t b"
    using simulates[OF Cons.prems(1)] by blast
  then obtain rs u c where 2: "run_all exec ps t = Returns rs u" "spec_run spec ps b rs c" "rel u c"
    using Cons.IH[of t b] Cons.prems(2) by auto
  have "run_all exec (p # ps) s = Returns (r # rs) u" using 1(1) 2(1) by (simp add: kbind_apply)
  moreover have "spec_run spec (p # ps) a (r # rs) c" using 1(2) 2(2) by auto
  ultimately show ?case using 2(3) by blast
qed

end

section \<open>The page operations\<close>

lemma base_page: "PGOFF (PTE_ADDR va) = 0" "PGNUM (PTE_ADDR va) = PGNUM va" "PTE_ADDR va < UTOP \<longleftrightarrow> va < UTOP"
  by (simp_all add: UTOP_page)

lemma uses_upd:
  "uses (m(a := v)) pg + (if map_option frame_of (m a) = Some pg then 1 else 0) =
    uses m pg + (if map_option frame_of v = Some pg then 1 else 0)"
proof -
  let ?A = "{b. b \<noteq> a \<and> map_option frame_of (m b) = Some pg}"
  have "finite ?A" by simp
  have split: "uses n pg = card ?A + (if map_option frame_of (n a) = Some pg then 1 else 0)"
    if "\<forall>b. b \<noteq> a \<longrightarrow> n b = m b" for n
  proof -
    have "{b. map_option frame_of (n b) = Some pg} = (if map_option frame_of (n a) = Some pg then insert a ?A else ?A)"
      using that by auto
    then show ?thesis using \<open>finite ?A\<close> by (simp add: uses_def)
  qed
  show ?thesis using split[of m] split[of "m(a := v)"] by simp
qed

lemma user_map_upd:
  assumes "va < UTOP" "\<And>va'. ordinary va' \<Longrightarrow> mapped t pgdir va' = (if PGNUM va' = PGNUM va then v else mapped s pgdir va')"
  shows "user_map t pgdir = (user_map s pgdir)(PTE_ADDR va := v)"
proof
  fix a
  have "PGOFF a = 0 \<Longrightarrow> PGNUM a = PGNUM va \<longleftrightarrow> a = PTE_ADDR va" using page_base_eq[of a "PTE_ADDR va"] base_page by (auto simp: word_unat_eq_iff)
  then show "user_map t pgdir a = ((user_map s pgdir)(PTE_ADDR va := v)) a"
    using assms(1) assms(2)[OF user_ordinary] base_page by (auto simp: user_map_def)
qed

lemma user_map_at: "va < UTOP \<Longrightarrow> user_map s pgdir (PTE_ADDR va) = mapped s pgdir va"
  using base_page mapped_same_page[of "PTE_ADDR va" va s pgdir] by (simp add: user_map_def)

lemma uses_pos: "m a = Some pte \<Longrightarrow> 0 < uses m (frame_of pte)"
  unfolding uses_def by (subst card_gt_0_iff) auto

lemma ref_moves:
  fixes r :: u16
  assumes "P \<Longrightarrow> unat r < 65535" "Q \<Longrightarrow> r \<noteq> 0"
  shows "unat (r + (if P then 1 else 0) - (if Q then 1 else 0)) + (if Q then 1 else 0) = unat r + (if P then 1 else 0)"
proof -
  have "unat (r + 1) = unat r + 1" if P using assms(1)[OF that] by (simp add: unat_word_ariths)
  moreover have "unat (r - 1) + 1 = unat r" if Q using assms(2)[OF that] by (simp add: unat_sub word_le_nat_alt unat_eq_0[symmetric] Suc_leI del: unat_eq_0)
  ultimately show ?thesis by simp
qed

lemma vm_frames_set:
  assumes f: "vm_frames ext pgdir xs s m" and inv: "page_inv t ys" and len: "length (pages t) = length (pages s)"
    and ys: "set ys \<subseteq> set xs \<union> {pg. map_option frame_of (vmap m a) = Some pg}"
    and as: "as_pages t pgdir \<subseteq> as_pages s pgdir \<union> set xs"
    and refs: "\<And>pg. pg \<in> frames m \<Longrightarrow> pp_ref (pages t ! pg) = pp_ref (pages s ! pg)
      + (if map_option frame_of v = Some pg then 1 else 0) - (if map_option frame_of (vmap m a) = Some pg then 1 else 0)"
    and new: "\<And>pg. map_option frame_of v = Some pg \<Longrightarrow> pg \<in> frames m \<and> ext pg + uses (vmap m) pg < 65535"
  shows "vm_frames ext pgdir ys t (vm_set ext a v m)"
proof -
  let ?m = "(vmap m)(a := v)"
  have count: "unat (pp_ref (pages t ! pg)) = ext pg + uses ?m pg" if pg: "pg \<in> frames m" for pg
  proof -
    have r: "unat (pp_ref (pages s ! pg)) = ext pg + uses (vmap m) pg" using f pg by (simp add: vm_frames_def)
    have "pp_ref (pages s ! pg) \<noteq> 0" if "map_option frame_of (vmap m a) = Some pg"
      using uses_pos[of "vmap m" a] that r by (auto simp: unat_eq_0[symmetric])
    then show ?thesis using refs[OF pg] ref_moves[of "map_option frame_of v = Some pg" "pp_ref (pages s ! pg)"
      "map_option frame_of (vmap m a) = Some pg"] new[of pg] r uses_upd[of "vmap m" a v pg] by auto
  qed
  show ?thesis unfolding vm_frames_def
  proof (intro conjI allI impI ballI)
    fix b pte
    assume b: "vmap (vm_set ext a v m) b = Some pte"
    then have "?m b = Some pte" by (simp add: vm_set_def Let_def)
    moreover from this have "frame_of pte \<in> frames m" using f new by (auto simp: vm_frames_def split: if_splits)
    ultimately show "frame_of pte \<in> frames (vm_set ext a v m)" using uses_pos[of ?m b] by (auto simp: vm_set_def Let_def)
  next
    fix pg
    assume "pg \<in> frames (vm_set ext a v m)"
    then have pg: "pg \<in> frames m" and live: "map_option frame_of (vmap m a) = Some pg \<longrightarrow> ext pg + uses ?m pg \<noteq> 0"
      by (auto simp: vm_set_def Let_def)
    have old: "pg < length (pages s)" "pg \<notin> set xs" "pg \<notin> as_pages s pgdir" using f pg by (auto simp: vm_frames_def)
    show "pg < length (pages t)" "pg \<notin> as_pages t pgdir" using old len as by auto
    show "unat (pp_ref (pages t ! pg)) = ext pg + uses (vmap (vm_set ext a v m)) pg" using count[OF pg] by (simp add: vm_set_def Let_def)
    show "pg \<notin> set ys"
    proof
      assume y: "pg \<in> set ys"
      then have "ext pg + uses ?m pg = 0" using page_inv_bounds(5)[OF inv y] count[OF pg] by simp
      then show False using live y ys old(2) by auto
    qed
  qed
qed

lemma insert_frame:
  assumes "pp < 65536" "perm < 4096"
  shows "frame_of (page2pa pp OR perm OR PTE_P) = pp"
  using page_flags(2)[OF assms(1), of "perm OR 1"] or_less_4096[OF assms(2)] assms(1)
  by (simp add: frame_of_def or.assoc unat_of_nat)

lemma mapped_frame: "va < UTOP \<Longrightarrow> mapped_page s pgdir va = map_option frame_of (user_map s pgdir (PTE_ADDR va))"
  by (simp add: mapped_page_def user_map_at frame_of_def[abs_def])

lemma frames_good:
  assumes "vm_frames ext pgdir xs s m" "map_option frame_of (vmap m a) = Some pg"
  shows "good_page s pgdir pg"
  using assms uses_pos[of "vmap m" a] by (auto simp: vm_frames_def good_page_def unat_eq_0[symmetric] simp del: unat_eq_0)

lemma insert_step:
  assumes r: "vm_rel ext pgdir s m" and k: "vm_ok ext (Insert pp va perm) m"
  shows "\<exists>r t m'. page_insert pgdir pp va perm s = Returns r t \<and> vm_spec ext (Insert pp va perm) m r m' \<and> vm_rel ext pgdir t m'"
proof -
  obtain xs where inv: "page_inv s xs" and wf: "wf_pgdir s xs pgdir" and cur: "curenv_ok s" and bud: "budget m \<le> length xs"
    and um: "user_map s pgdir = vmap m" and f: "vm_frames ext pgdir xs s m" using r by (auto simp: vm_rel_def)
  have va: "va < UTOP" "perm < 4096" and pp: "pp \<in> frames m" "ext pp + uses (vmap m) pp < 65535" using k by (auto simp: vm_ok_def)
  have fp: "pp < length (pages s)" "pp \<notin> set xs" "unat (pp_ref (pages s ! pp)) = ext pp + uses (vmap m) pp"
    using f pp(1) by (auto simp: vm_frames_def)
  have nf: "pp_ref (pages s ! pp) \<noteq> 0xFFFF" using fp(3) pp(2) by auto
  have mp: "mapped_page s pgdir va = map_option frame_of (vmap m (PTE_ADDR va))" using mapped_frame[OF va(1)] um by simp
  show ?thesis
  proof (cases "table_present s pgdir (unat (PDX va)) \<or> xs \<noteq> []")
    case True
    have "\<forall>pg. mapped_page s pgdir va = Some pg \<longrightarrow> good_page s pgdir pg" using frames_good[OF f] mp by metis
    then obtain t ys where t: "page_insert pgdir pp va perm s = Returns 0 t" and i: "inserted s xs pgdir pp va perm t ys"
      using insert_ok[OF wf inv user_ordinary[OF va(1)] cur fp(1,2) nf _ True] by blast
    let ?v = "Some (page2pa pp OR perm OR PTE_P)"
    have po: "pages_only s t" and iy: "page_inv t ys" "wf_pgdir t ys pgdir" "length xs \<le> Suc (length ys)"
      and sub: "set ys \<subseteq> set xs \<union> {pg. mapped_page s pgdir va = Some pg}" "as_pages t pgdir \<subseteq> as_pages s pgdir \<union> set xs"
      using i by (simp_all only: inserted_def)
    have "pp < 65536" using fp(1) page_inv_bounds(2)[OF inv] by simp
    then have fv: "map_option frame_of ?v = Some pg \<longleftrightarrow> pg = pp" for pg using insert_frame[OF _ va(2)] by auto
    have "vm_frames ext pgdir ys t (vm_set ext (PTE_ADDR va) ?v m)"
    proof (rule vm_frames_set[OF f iy(1) pages_only_fields(9)[OF po] _ sub(2)])
      show "set ys \<subseteq> set xs \<union> {pg. map_option frame_of (vmap m (PTE_ADDR va)) = Some pg}" using sub(1) mp by simp
      fix pg
      show "map_option frame_of ?v = Some pg \<Longrightarrow> pg \<in> frames m \<and> ext pg + uses (vmap m) pg < 65535" using fv[of pg] pp by simp
      assume "pg \<in> frames m"
      then have "pg < length (pages s)" "pg \<notin> set xs" using f by (auto simp: vm_frames_def)
      then show "pp_ref (pages t ! pg) = pp_ref (pages s ! pg) + (if map_option frame_of ?v = Some pg then 1 else 0)
        - (if map_option frame_of (vmap m (PTE_ADDR va)) = Some pg then 1 else 0)" using i mp fv by (simp add: inserted_def)
    qed
    then have fs: "vm_frames ext pgdir ys t ((vm_set ext (PTE_ADDR va) ?v m)\<lparr>budget := budget m - 1\<rparr>)" by (simp add: vm_frames_def)
    have "user_map t pgdir = (user_map s pgdir)(PTE_ADDR va := ?v)"
      using i by (intro user_map_upd[OF va(1)]) (simp add: inserted_def)
    then have "vm_rel ext pgdir t ((vm_set ext (PTE_ADDR va) ?v m)\<lparr>budget := budget m - 1\<rparr>)" unfolding vm_rel_def
      using iy bud cur pages_only_current(3)[OF po] fs um by (intro exI[of _ ys]) (simp add: vm_set_def Let_def)
    then show ?thesis using t unfolding vm_spec_def page_op.case by blast
  next
    case False
    then have "xs = []" "pde_of s pgdir (unat (PDX va)) AND PTE_P = 0"
      using user_PDX[OF va(1)] by (simp_all add: table_present_def)
    then have "page_insert pgdir pp va perm s = Returns (- E_NO_MEM) s" "budget m = 0" using insert_oom inv bud by simp_all
    then show ?thesis using r unfolding vm_spec_def page_op.case by blast
  qed
qed

lemma remove_step:
  assumes r: "vm_rel ext pgdir s m" and va: "va < UTOP"
  shows "\<exists>t. page_remove pgdir va s = Returns () t \<and> vm_rel ext pgdir t (vm_set ext (PTE_ADDR va) None m)"
proof -
  obtain xs where inv: "page_inv s xs" and wf: "wf_pgdir s xs pgdir" and cur: "curenv_ok s" and bud: "budget m \<le> length xs"
    and um: "user_map s pgdir = vmap m" and f: "vm_frames ext pgdir xs s m" using r by (auto simp: vm_rel_def)
  have mp: "mapped_page s pgdir va = map_option frame_of (vmap m (PTE_ADDR va))" using mapped_frame[OF va] um by simp
  have "\<exists>t ys. page_remove pgdir va s = Returns () t \<and> cleared s xs pgdir va t ys"
  proof (cases "mapped s pgdir va")
    case None
    then show ?thesis
      using remove_None[OF wf _ user_ordinary[OF va]] cleared_refl[OF wf inv] inv by (auto simp: page_inv_def)
  next
    case (Some pte)
    have "mapped_page s pgdir va = Some (unat (PGNUM pte))" using Some by (simp add: mapped_page_def)
    then show ?thesis using clear_entry[OF wf inv user_ordinary[OF va] cur Some] frames_good[OF f] mp by metis
  qed
  then obtain t ys where t: "page_remove pgdir va s = Returns () t" and c: "cleared s xs pgdir va t ys" by blast
  have po: "pages_only s t" and iy: "page_inv t ys" "wf_pgdir t ys pgdir" "set xs \<subseteq> set ys" and pde: "\<forall>d < 1024. pde_of t pgdir d = pde_of s pgdir d"
    and sub: "set ys \<subseteq> set xs \<union> {pg. mapped_page s pgdir va = Some pg \<and> pp_ref (pages s ! pg) = 1}"
    using c unfolding cleared_def by blast+
  have "card (set xs) \<le> card (set ys)" using iy(3) by (intro card_mono) simp_all
  then have bud': "budget m \<le> length ys" using bud page_inv_bounds(3)[OF inv] page_inv_bounds(3)[OF iy(1)] by (simp add: distinct_card)
  have as: "as_pages t pgdir = as_pages s pgdir" by (rule present_cong(2)) (use pde in simp)
  have "vm_frames ext pgdir ys t (vm_set ext (PTE_ADDR va) None m)"
  proof (rule vm_frames_set[OF f iy(1) pages_only_fields(9)[OF po]])
    show "set ys \<subseteq> set xs \<union> {pg. map_option frame_of (vmap m (PTE_ADDR va)) = Some pg}" using sub mp by auto
    show "as_pages t pgdir \<subseteq> as_pages s pgdir \<union> set xs" using as by simp
    fix pg
    assume "pg \<in> frames m"
    then have "pg < length (pages s)" using f by (auto simp: vm_frames_def)
    then show "pp_ref (pages t ! pg) = pp_ref (pages s ! pg) + (if map_option frame_of None = Some pg then 1 else 0)
        - (if map_option frame_of (vmap m (PTE_ADDR va)) = Some pg then 1 else 0)" using c mp by (simp add: cleared_def)
  qed simp
  moreover have "user_map t pgdir = (user_map s pgdir)(PTE_ADDR va := None)"
    using c by (intro user_map_upd[OF va]) (simp add: cleared_def)
  ultimately have "vm_rel ext pgdir t (vm_set ext (PTE_ADDR va) None m)" unfolding vm_rel_def
    using iy bud' cur pages_only_current(3)[OF po] um by (intro exI[of _ ys]) (simp add: vm_set_def Let_def)
  then show ?thesis using t by blast
qed

interpretation vm: refines "page_exec pgdir" "vm_ok ext" "vm_spec ext" "vm_rel ext pgdir" for pgdir ext
proof
  fix s m p
  assume a: "vm_rel ext pgdir s m" "vm_ok ext p m"
  show "\<exists>r t m'. page_exec pgdir p s = Returns r t \<and> vm_spec ext p m r m' \<and> vm_rel ext pgdir t m'"
  proof (cases p)
    case (Insert pp va perm)
    then show ?thesis using insert_step[OF a(1)] a(2) by (simp add: page_exec_def)
  next
    case (Remove va)
    then show ?thesis using remove_step[OF a(1), of va] a(2)
      by (simp add: page_exec_def vm_ok_def vm_spec_def kseq_apply) fastforce
  qed
qed

text \<open>With free pages enough for every insertion, no operation fails and the map is the fold of the updates.\<close>

lemma spec_run_all:
  assumes "spec_run (vm_spec ext) ps m rs m'" "length ps \<le> budget m"
  shows "rs = replicate (length ps) 0 \<and> vmap m' = fold page_update ps (vmap m)"
  using assms
proof (induction "vm_spec ext" ps m rs m' rule: spec_run.induct)
  case (2 p ps m r rs m')
  then obtain b where b: "vm_spec ext p m r b" "spec_run (vm_spec ext) ps b rs m'" by auto
  have "r = 0 \<and> vmap b = page_update p (vmap m) \<and> budget m - 1 \<le> budget b"
    using b(1) 2(3) by (cases p) (auto simp: vm_spec_def vm_set_def Let_def)
  moreover from this have "length ps \<le> budget b" using 2(3) by auto
  ultimately show ?case using 2(1)[OF b(2)] by auto
qed auto

lemma small_user_map: "user_map small_machine pgdir = Map.empty"
  by (rule ext) (simp add: user_map_def small_mapped)

lemma uses_empty: "uses Map.empty pg = 0"
  by (simp add: uses_def)

lemma small_vm_rel: "vm_rel (\<lambda>_. 0) 0xF0001000 small_machine \<lparr>vmap = Map.empty, frames = {4}, budget = 2\<rparr>"
proof -
  have "\<not> table_present small_machine 0xF0001000 d" for d by (simp add: table_present_def small_pde)
  then have "vm_frames (\<lambda>_. 0) 0xF0001000 [2, 3] small_machine \<lparr>vmap = Map.empty, frames = {4}, budget = 2\<rparr>"
    by (simp add: vm_frames_def small_pages as_pages_def small_dir_page uses_empty)
  then show ?thesis using small_wf small_inv small_curenv small_user_map unfolding vm_rel_def by (intro exI[of _ "[2, 3]"]) simp
qed

text \<open>
  C2. Any sequence of \<open>page_insert\<close> and \<open>page_remove\<close> calls on one directory refines the specification of an address space as a
  finite map: each call ends, with 0 or, in \<open>page_insert\<close> when the free list may be empty, with \<open>-E_NO_MEM\<close> and nothing changed,
  and afterwards the entries the processor sees below \<open>UTOP\<close> are those of the map and the count of every frame in use is the
  number of its mappings plus the references from outside. With a free page for every call no call fails, and the entries
  are those that the calls, one after the other, write and erase.
\<close>

theorem page_ops_refine:
  assumes "vm_rel ext pgdir s m" "spec_safe (vm_ok ext) (vm_spec ext) ps m"
  shows "\<exists>rs t m'. run_all (page_exec pgdir) ps s = Returns rs t \<and> spec_run (vm_spec ext) ps m rs m' \<and> vm_rel ext pgdir t m' \<and>
    (length ps \<le> budget m \<longrightarrow> rs = replicate (length ps) 0 \<and> user_map t pgdir = fold page_update ps (user_map s pgdir))"
proof -
  obtain rs t m' where t: "run_all (page_exec pgdir) ps s = Returns rs t" "spec_run (vm_spec ext) ps m rs m'" "vm_rel ext pgdir t m'"
    using vm.run_refines[OF assms] by blast
  have "user_map s pgdir = vmap m" "user_map t pgdir = vmap m'" using assms(1) t(3) by (auto simp: vm_rel_def)
  then show ?thesis using t spec_run_all[OF t(2)] by auto
qed

theorem page_ops_refine_witness:
  "\<exists>t. run_all (page_exec 0xF0001000) [Insert 4 0x800000 7, Insert 4 0x801000 5] small_machine = Returns [0, 0] t \<and>
    user_map t 0xF0001000 = [0x800000 \<mapsto> 0x4007, 0x801000 \<mapsto> 0x4005]"
proof -
  let ?ps = "[Insert 4 0x800000 7, Insert 4 0x801000 5]"
  let ?m = "\<lparr>vmap = Map.empty, frames = {4}, budget = 2\<rparr>"
  have u: "uses [0x800000 \<mapsto> v] 4 < 65535" for v using uses_upd[of Map.empty "0x800000" "Some v" 4] uses_empty by (simp split: if_splits)
  have "0x800000 < UTOP" "0x801000 < UTOP" by (simp_all add: UTOP_page unat_PGNUM)
  then have "spec_safe (vm_ok (\<lambda>_. 0)) (vm_spec (\<lambda>_. 0)) ?ps ?m"
    by (auto simp: vm_ok_def vm_spec_def vm_set_def Let_def uses_empty PTE_ADDR_def u)
  then show ?thesis
    using page_ops_refine[OF small_vm_rel, of ?ps] by (auto simp: small_user_map PTE_ADDR_def page2pa_def)
qed

end
