(* ===== verification/Trap_Entry.thy ===== *)
theory Trap_Entry
  imports Trap
begin

text \<open>
  The way into the kernel and back at the level of the processor's registers: the entry points of \<^verbatim>\<open>kern/trapentry.S\<close>, which complete on the
  kernel stack what the processor pushes to a \<^verbatim>\<open>struct Trapframe\<close>, and the instructions of \<^verbatim>\<open>env_pop_tf\<close> in \<^verbatim>\<open>kern/env.c\<close>, which load the registers from one.
\<close>

section \<open>Registers and the stack\<close>

record x86 =
  x_eax :: u32
  x_ecx :: u32
  x_edx :: u32
  x_ebx :: u32
  x_esp :: u32
  x_ebp :: u32
  x_esi :: u32
  x_edi :: u32
  x_eip :: u32
  x_eflags :: u32
  x_cs :: u16
  x_ds :: u16
  x_es :: u16
  x_ss :: u16
  x_mem :: mem

definition pushl :: "u32 \<Rightarrow> x86 \<Rightarrow> x86" where
  "pushl v r = r\<lparr>x_esp := x_esp r - 4, x_mem := write32 (x_mem r) (x_esp r - 4) v\<rparr>"

text \<open>\<^verbatim>\<open>pushal\<close>; the stack pointer it saves is the one before the instruction.\<close>

definition pushal :: "x86 \<Rightarrow> x86" where
  "pushal r = fold pushl [x_eax r, x_ecx r, x_edx r, x_ebx r, x_esp r, x_ebp r, x_esi r, x_edi r] r"

text \<open>
  What the processor does on a trap from user mode: it takes the kernel stack from the task state, pushes the state of the program and, for
  some exceptions, an error code, and goes on at the gate's address in the kernel's code segment.
\<close>

definition enter_trap :: "u32 \<Rightarrow> u32 option \<Rightarrow> u32 \<Rightarrow> x86 \<Rightarrow> x86" where
  "enter_trap esp0 code gate r =
     fold pushl ([ucast (x_ss r), x_esp r, x_eflags r, ucast (x_cs r), x_eip r] @ (case code of None \<Rightarrow> [] | Some e \<Rightarrow> [e]))
       (r\<lparr>x_esp := esp0, x_ss := GD_KD, x_cs := GD_KT, x_eip := gate\<rparr>)"

text \<open>The exceptions for which the processor pushes an error code.\<close>

definition pushes_code :: "nat \<Rightarrow> bool" where
  "pushes_code v \<longleftrightarrow> v \<in> {8, 10, 11, 12, 13, 14, 17}"

section \<open>Entry points\<close>

text \<open>The macros \<^verbatim>\<open>TRAPHANDLER\<close> and \<^verbatim>\<open>TRAPHANDLER_NOEC\<close>, and the list of their uses: the name of the entry point, the trap number that it pushes, and whether
  the macro is the second one.\<close>

definition TRAPHANDLER :: "nat \<Rightarrow> x86 \<Rightarrow> x86" where
  "TRAPHANDLER num = pushl (of_nat num)"

definition TRAPHANDLER_NOEC :: "nat \<Rightarrow> x86 \<Rightarrow> x86" where
  "TRAPHANDLER_NOEC num r = pushl (of_nat num) (pushl 0 r)"

definition trap_handlers :: "(string \<times> nat \<times> bool) list" where
  "trap_handlers = [(''handler0'', 0, True), (''handler1'', 1, True), (''handler2'', 2, True), (''handler3'', 3, True), (''handler4'', 4, True),
     (''handler5'', 5, True), (''handler6'', 6, True), (''handler7'', 7, False), (''handler8'', 8, True), (''handler10'', 10, False),
     (''handler11'', 11, False), (''handler12'', 12, False), (''handler13'', 13, False), (''handler14'', 14, False), (''handler16'', 16, True), (''handler48'', 48, True)]"

definition trap_handler :: "string \<Rightarrow> x86 \<Rightarrow> x86" where
  "trap_handler h = (case map_of trap_handlers h of
     Some (num, noec) \<Rightarrow> if noec then TRAPHANDLER_NOEC num else TRAPHANDLER num | None \<Rightarrow> id)"

text \<open>\<^verbatim>\<open>_alltraps\<close> up to the call of \<^verbatim>\<open>trap\<close>: the registers, and the argument of the call.\<close>

definition alltraps :: "x86 \<Rightarrow> u32 \<times> x86" where
  "alltraps r = (let r = pushal (pushl (ucast (x_es r)) (pushl (ucast (x_ds r)) r)) in
     (x_esp r, pushl (x_esp r) (r\<lparr>x_eax := x_eax r AND NOT 0xFFFF OR ucast GD_KD, x_ds := GD_KD, x_es := GD_KD\<rparr>)))"

section \<open>Trap frames in memory\<close>

definition Trapframe_at :: "mem \<Rightarrow> u32 \<Rightarrow> Trapframe" where
  "Trapframe_at m a = \<lparr>tf_regs = \<lparr>reg_edi = read32 m a, reg_esi = read32 m (a + 4), reg_ebp = read32 m (a + 8), reg_oesp = read32 m (a + 12),
       reg_ebx = read32 m (a + 16), reg_edx = read32 m (a + 20), reg_ecx = read32 m (a + 24), reg_eax = read32 m (a + 28)\<rparr>,
     tf_es = read16 m (a + 32), tf_ds = read16 m (a + 36), tf_trapno = read32 m (a + 40), tf_err = read32 m (a + 44),
     tf_eip = read32 m (a + 48), tf_cs = read16 m (a + 52), tf_eflags = read32 m (a + 56), tf_esp = read32 m (a + 60), tf_ss = read16 m (a + 64)\<rparr>"

text \<open>The instructions of \<^verbatim>\<open>env_pop_tf\<close>: \<^verbatim>\<open>popal\<close>, two segment registers, eight bytes left out, and \<^verbatim>\<open>iret\<close> to user mode.\<close>

definition popl :: "x86 \<Rightarrow> u32 \<times> x86" where
  "popl r = (read32 (x_mem r) (x_esp r), r\<lparr>x_esp := x_esp r + 4\<rparr>)"

definition popal :: "x86 \<Rightarrow> x86" where
  "popal r = (let (edi, r) = popl r; (esi, r) = popl r; (ebp, r) = popl r; (_, r) = popl r; (ebx, r) = popl r; (edx, r) = popl r;
     (ecx, r) = popl r; (eax, r) = popl r in
     r\<lparr>x_edi := edi, x_esi := esi, x_ebp := ebp, x_ebx := ebx, x_edx := edx, x_ecx := ecx, x_eax := eax\<rparr>)"

definition iret :: "x86 \<Rightarrow> x86" where
  "iret r = (let (eip, r) = popl r; (cs, r) = popl r; (eflags, r) = popl r; (esp, r) = popl r; (ss, r) = popl r in
     r\<lparr>x_eip := eip, x_cs := ucast cs, x_eflags := eflags, x_esp := esp, x_ss := ucast ss\<rparr>)"

definition pop_frame :: "u32 \<Rightarrow> x86 \<Rightarrow> x86" where
  "pop_frame tf r = (let r = popal (r\<lparr>x_esp := tf\<rparr>); (es, r) = popl r; r = r\<lparr>x_es := ucast es\<rparr>; (ds, r) = popl r; r = r\<lparr>x_ds := ucast ds\<rparr> in
     iret (r\<lparr>x_esp := x_esp r + 8\<rparr>))"

text \<open>The frame that describes the registers of a program.\<close>

definition frame_of_regs :: "x86 \<Rightarrow> u32 \<Rightarrow> u32 \<Rightarrow> u32 \<Rightarrow> Trapframe" where
  "frame_of_regs r oesp trapno err = \<lparr>tf_regs = \<lparr>reg_edi = x_edi r, reg_esi = x_esi r, reg_ebp = x_ebp r, reg_oesp = oesp,
       reg_ebx = x_ebx r, reg_edx = x_edx r, reg_ecx = x_ecx r, reg_eax = x_eax r\<rparr>,
     tf_es = x_es r, tf_ds = x_ds r, tf_trapno = trapno, tf_err = err, tf_eip = x_eip r, tf_cs = x_cs r, tf_eflags = x_eflags r,
     tf_esp = x_esp r, tf_ss = x_ss r\<rparr>"

text \<open>All that is pushed from the trap to the call of \<^verbatim>\<open>trap\<close>, in one list.\<close>

definition handler_words :: "string \<Rightarrow> u32 list" where
  "handler_words h = (case map_of trap_handlers h of Some (num, noec) \<Rightarrow> if noec then [0, of_nat num] else [of_nat num] | None \<Rightarrow> [])"

definition trap_words :: "u32 option \<Rightarrow> string \<Rightarrow> x86 \<Rightarrow> u32 list" where
  "trap_words code h r = [ucast (x_ss r), x_esp r, x_eflags r, ucast (x_cs r), x_eip r] @ (case code of None \<Rightarrow> [] | Some e \<Rightarrow> [e]) @
     handler_words h @ [ucast (x_ds r), ucast (x_es r), x_eax r, x_ecx r, x_edx r, x_ebx r]"

definition user_regs :: x86 where
  "user_regs = \<lparr>x_eax = 1, x_ecx = 2, x_edx = 3, x_ebx = 4, x_esp = 0xEEBFDF00, x_ebp = 5, x_esi = 6, x_edi = 7, x_eip = 0x800020, x_eflags = 2,
     x_cs = GD_UT OR 3, x_ds = GD_UD OR 3, x_es = GD_UD OR 3, x_ss = GD_UD OR 3, x_mem = (\<lambda>_. 0)\<rparr>"

section \<open>Pushed words\<close>

lemma pushed_esp: "x_esp (fold pushl ws r) = x_esp r - 4 * of_nat (length ws)"
  by (induction ws rule: rev_induct) (simp_all add: pushl_def algebra_simps)

lemma pushl_regs [simp]:
  "x_eax (pushl w r) = x_eax r" "x_ecx (pushl w r) = x_ecx r" "x_edx (pushl w r) = x_edx r" "x_ebx (pushl w r) = x_ebx r"
  "x_ebp (pushl w r) = x_ebp r" "x_esi (pushl w r) = x_esi r" "x_edi (pushl w r) = x_edi r" "x_ds (pushl w r) = x_ds r" "x_es (pushl w r) = x_es r"
  by (simp_all add: pushl_def)

lemma pushed_regs [simp]:
  "x_eax (fold pushl ws r) = x_eax r" "x_ecx (fold pushl ws r) = x_ecx r" "x_edx (fold pushl ws r) = x_edx r" "x_ebx (fold pushl ws r) = x_ebx r"
  "x_ebp (fold pushl ws r) = x_ebp r" "x_esi (fold pushl ws r) = x_esi r" "x_edi (fold pushl ws r) = x_edi r"
  "x_ds (fold pushl ws r) = x_ds r" "x_es (fold pushl ws r) = x_es r"
  by (induction ws arbitrary: r) simp_all

lemma aligned4_below: "aligned4 a \<Longrightarrow> aligned4 (a - 4 * of_nat k)"
proof -
  assume a: "aligned4 a"
  have t: "aligned4 b \<longleftrightarrow> take_bit 2 b = 0" for b by (simp add: aligned4_def take_bit_eq_mask mask_eq_exp_minus_1)
  have "a = push_bit 2 (drop_bit 2 a)" using bits_ident[of 2 a] a by (simp add: t)
  then have "a - 4 * of_nat k = push_bit 2 (drop_bit 2 a - of_nat k)" by (simp add: push_bit_eq_mult algebra_simps)
  then show ?thesis by (simp add: t take_bit_push_bit)
qed

lemma pushed_read:
  assumes "aligned4 (x_esp r)" "length ws < 2 ^ 20" "i < length ws"
  shows "read32 (x_mem (fold pushl ws r)) (x_esp r - 4 * of_nat (Suc i)) = ws ! i"
  using assms(2,3)
proof (induction ws rule: rev_induct)
  case (snoc w ws)
  note al = aligned4_below[OF assms(1)]
  have m: "x_mem (fold pushl (ws @ [w]) r) = write32 (x_mem (fold pushl ws r)) (x_esp r - 4 * of_nat (Suc (length ws))) w"
    by (simp add: pushl_def pushed_esp algebra_simps)
  show ?case
  proof (cases "i = length ws")
    case True
    then show ?thesis unfolding m by simp
  next
    case False
    have "4 * of_nat (Suc i) \<noteq> (4 * of_nat (Suc (length ws)) :: u32)" 
    proof
      assume "4 * of_nat (Suc i) = (4 * of_nat (Suc (length ws)) :: u32)"
      then have "unat (of_nat (4 * Suc i) :: u32) = unat (of_nat (4 * Suc (length ws)) :: u32)" by (simp only: of_nat_mult of_nat_numeral)
      then show False using snoc.prems False by (simp only: unat_of_nat) simp
    qed
    then have "x_esp r - 4 * of_nat (Suc (length ws)) \<noteq> x_esp r - 4 * of_nat (Suc i)" by auto
    then have "read32 (x_mem (fold pushl (ws @ [w]) r)) (x_esp r - 4 * of_nat (Suc i)) = read32 (x_mem (fold pushl ws r)) (x_esp r - 4 * of_nat (Suc i))"
      unfolding m by (intro read32_write32_other al)
    then show ?thesis using snoc False by (simp add: nth_append)
  qed
qed simp

lemma read16_low: "read16 m a = ucast (read32 m a)"
proof (rule bit_word_eqI)
  fix n
  assume "n < LENGTH(16)"
  then show "bit (read16 m a) n = bit (ucast (read32 m a) :: u16) n"
    by (auto simp: read16_def read32_def bit_simps)
qed

text \<open>Popping a frame loads the registers that it describes.\<close>

lemma pop_frame_restores:
  assumes "Trapframe_at (x_mem q) a = frame_of_regs r oesp trapno err"
  shows "pop_frame a q = r\<lparr>x_mem := x_mem q\<rparr>"
  using assms by (cases r) (simp add: Trapframe_at_def frame_of_regs_def pop_frame_def popal_def iret_def popl_def read16_low ac_simps)

lemma trap_handler_words: "trap_handler h = fold pushl (handler_words h)"
  by (auto simp: trap_handler_def handler_words_def TRAPHANDLER_def TRAPHANDLER_NOEC_def fun_eq_iff split: option.splits bool.splits)

lemma alltraps_words:
  assumes "(tf, k) = alltraps (trap_handler h (enter_trap esp0 code gate r))"
  shows "tf = esp0 - 4 * of_nat (length (trap_words code h r) + 4)" and
    "x_mem k = x_mem (fold pushl (trap_words code h r @ [esp0 - 4 * of_nat (length (trap_words code h r) - 4), x_ebp r, x_esi r, x_edi r, tf])
      (r\<lparr>x_esp := esp0, x_ss := GD_KD, x_cs := GD_KT, x_eip := gate\<rparr>))"
proof -
  let ?r = "r\<lparr>x_esp := esp0, x_ss := GD_KD, x_cs := GD_KT, x_eip := gate\<rparr>"
  let ?ws = "trap_words code h r"
  let ?q = "fold pushl (take (length ?ws - 4) ?ws) ?r"
  have q: "pushl (ucast (x_es q)) (pushl (ucast (x_ds q)) q) = ?q" if "q = trap_handler h (enter_trap esp0 code gate r)" for q
    by (simp add: that trap_handler_words enter_trap_def trap_words_def)
  define f where "f = fold pushl (?ws @ [x_esp ?q, x_ebp r, x_esi r, x_edi r]) ?r"
  have "pushal ?q = f"
    by (simp add: pushal_def f_def trap_words_def pushed_esp)
  then have e: "(tf, k) = (x_esp f, pushl (x_esp f) (f\<lparr>x_eax := x_eax f AND NOT 0xFFFF OR ucast GD_KD, x_ds := GD_KD, x_es := GD_KD\<rparr>))"
    using assms q[OF refl] by (simp only: alltraps_def Let_def)
  have "x_esp f = esp0 - 4 * of_nat (length ?ws + 4)" unfolding f_def pushed_esp by simp
  then show t: "tf = esp0 - 4 * of_nat (length ?ws + 4)" using e by simp
  have "x_mem k = x_mem (pushl (x_esp f) f)" using e by (simp add: pushl_def)
  then show "x_mem k = x_mem (fold pushl (?ws @ [esp0 - 4 * of_nat (length ?ws - 4), x_ebp r, x_esi r, x_edi r, tf]) ?r)"
    using e by (simp add: f_def pushed_esp)
qed

text \<open>The words of a frame, from its address up.\<close>

lemma trap_frame_words:
  assumes "aligned4 esp0" "(tf, k) = alltraps (trap_handler h (enter_trap esp0 code gate r))" "j < length (trap_words code h r) + 4"
  shows "read32 (x_mem k) (tf + 4 * of_nat j) = ([x_edi r, x_esi r, x_ebp r, esp0 - 4 * of_nat (length (trap_words code h r) - 4)] @ rev (trap_words code h r)) ! j"
proof -
  let ?n = "length (trap_words code h r) + 4"
  let ?ws = "trap_words code h r @ [esp0 - 4 * of_nat (?n - 8), x_ebp r, x_esi r, x_edi r]"
  let ?r = "r\<lparr>x_esp := esp0, x_ss := GD_KD, x_cs := GD_KT, x_eip := gate\<rparr>"
  have "?n < 1000" by (simp add: trap_words_def handler_words_def split: option.splits bool.splits)
  moreover have "?n - 1 - j < length (?ws @ [tf])" using assms(3) by simp
  ultimately have "read32 (x_mem (fold pushl (?ws @ [tf]) ?r)) (x_esp ?r - 4 * of_nat (Suc (?n - 1 - j))) = (?ws @ [tf]) ! (?n - 1 - j)"
    using assms(1) by (intro pushed_read) simp_all
  moreover have "x_mem k = x_mem (fold pushl (?ws @ [tf]) ?r)" using alltraps_words(2)[OF assms(2)] by simp
  moreover have "x_esp ?r - 4 * of_nat (Suc (?n - 1 - j)) = tf + 4 * of_nat j"
    using alltraps_words(1)[OF assms(2)] assms(3) by (simp add: of_nat_diff algebra_simps)
  moreover
  have rn: "(ws @ [x]) ! (length ws - 1 - j) = rev ws ! j" if "j < length ws" for ws and x :: u32
    using that by (auto simp: rev_nth nth_append)
  have ix: "?n - 1 - j = length ?ws - 1 - j" by simp
  have "(?ws @ [tf]) ! (?n - 1 - j) = rev ?ws ! j" unfolding ix by (rule rn) (use assms(3) in simp)
  ultimately show ?thesis by simp
qed

lemma selector_kept: "ucast (ucast (w :: u16) :: u32) = w"
  by (rule bit_word_eqI) (simp add: bit_simps)

lemma trap_frame_at:
  assumes "aligned4 esp0" "(tf, k) = alltraps (trap_handler h (enter_trap esp0 code gate r))"
    "trap_words code h r = [ucast (x_ss r), x_esp r, x_eflags r, ucast (x_cs r), x_eip r, err, of_nat v, ucast (x_ds r), ucast (x_es r), x_eax r, x_ecx r, x_edx r, x_ebx r]"
  shows "tf = esp0 - 68" and "Trapframe_at (x_mem k) tf = frame_of_regs r (esp0 - 36) (of_nat v) err"
proof -
  show "tf = esp0 - 68" using alltraps_words(1)[OF assms(2)] by (simp add: assms(3))
  have w: "read32 (x_mem k) (tf + 4 * of_nat j) = ([x_edi r, x_esi r, x_ebp r, esp0 - 36, x_ebx r, x_edx r, x_ecx r, x_eax r, ucast (x_es r), ucast (x_ds r),
      of_nat v, err, x_eip r, ucast (x_cs r), x_eflags r, x_esp r, ucast (x_ss r)] ! j)" if "j < 17" for j
    using trap_frame_words[OF assms(1,2), of j] that unfolding assms(3) by simp
  show "Trapframe_at (x_mem k) tf = frame_of_regs r (esp0 - 36) (of_nat v) err"
    using w[of 0] w[of 1] w[of 2] w[of 3] w[of 4] w[of 5] w[of 6] w[of 7] w[of 8] w[of 9] w[of 10] w[of 11] w[of 12] w[of 13] w[of 14] w[of 15] w[of 16]
    by (simp add: Trapframe_at_def frame_of_regs_def read16_low selector_kept)
qed

text \<open>Every gate leads to an entry point that pushes the number of its vector, and, but for 7 and 8, a 0 exactly where the processor pushes no error code.\<close>

lemma gate_handlers:
  assumes "(v, h, dpl) \<in> set gates"
  shows "map_of trap_handlers h = Some (v, v = 8 \<or> v \<noteq> 7 \<and> \<not> pushes_code v)"
proof -
  have "list_all (\<lambda>(v, h, dpl). map_of trap_handlers h = Some (v, v = 8 \<or> v \<noteq> 7 \<and> \<not> pushes_code v)) gates" by code_simp
  then show ?thesis using assms by (auto simp: list_all_iff)
qed

lemma shifted_words:
  "trap_words None ''handler7'' r = [ucast (x_ss r), x_esp r, x_eflags r, ucast (x_cs r), x_eip r, 7, ucast (x_ds r), ucast (x_es r), x_eax r, x_ecx r, x_edx r, x_ebx r]"
  "trap_words (Some e) ''handler8'' r = [ucast (x_ss r), x_esp r, x_eflags r, ucast (x_cs r), x_eip r, e, 0, 8, ucast (x_ds r), ucast (x_es r), x_eax r, x_ecx r, x_edx r, x_ebx r]"
  by (simp_all add: trap_words_def handler_words_def trap_handlers_def)

text \<open>
  C11. The way into the kernel and back, for every vector that has a gate: except for the vectors 7 and 8, the entry point of the gate leaves on the
  kernel stack a trap frame with the registers of the interrupted program, the number of the vector and the error code, or 0 where the processor pushes
  none, and passes its address to \<^verbatim>\<open>trap\<close>, and \<open>env_pop_tf\<close>, given any copy of this frame, loads every register with the value it had. The entry point of vector 7
  expects an error code that the processor does not push, and that of vector 8 pushes a 0 although there is one: there the fields above the trap number are
  shifted, so that the saved instruction pointer is the code segment for the one and the error code for the other.
\<close>

theorem trap_entry_roundtrip:
  assumes "aligned4 esp0" "(v, h, dpl) \<in> set gates"
    "(tf, k) = alltraps (trap_handler h (enter_trap esp0 (if pushes_code v then Some e else None) gate r))"
  shows "if v = 7 then tf_eip (Trapframe_at (x_mem k) tf) = ucast (x_cs r) \<and> tf_err (Trapframe_at (x_mem k) tf) = x_eip r
    else if v = 8 then tf_eip (Trapframe_at (x_mem k) tf) = e \<and> tf_err (Trapframe_at (x_mem k) tf) = 0
    else tf = esp0 - 68 \<and> Trapframe_at (x_mem k) tf = frame_of_regs r (esp0 - 36) (of_nat v) (if pushes_code v then e else 0) \<and>
      (\<forall>q a. Trapframe_at (x_mem q) a = Trapframe_at (x_mem k) tf \<longrightarrow> pop_frame a q = r\<lparr>x_mem := x_mem q\<rparr>)"
proof -
  consider (seven) "v = 7" "h = ''handler7''" | (eight) "v = 8" "h = ''handler8''" | (other) "v \<noteq> 7" "v \<noteq> 8"
    using assms(2) by (auto simp: gates_def)
  then show ?thesis
  proof cases
    case seven
    have k: "(tf, k) = alltraps (trap_handler ''handler7'' (enter_trap esp0 None gate r))" using assms(3) by (simp add: seven pushes_code_def)
    show ?thesis using trap_frame_words[OF assms(1) k, of 12] trap_frame_words[OF assms(1) k, of 11] unfolding shifted_words
      by (simp add: Trapframe_at_def seven)
  next
    case eight
    have k: "(tf, k) = alltraps (trap_handler ''handler8'' (enter_trap esp0 (Some e) gate r))" using assms(3) by (simp add: eight pushes_code_def)
    show ?thesis using trap_frame_words[OF assms(1) k, of 12] trap_frame_words[OF assms(1) k, of 11] unfolding shifted_words
      by (simp add: Trapframe_at_def eight)
  next
    case other
    have "trap_words (if pushes_code v then Some e else None) h r = [ucast (x_ss r), x_esp r, x_eflags r, ucast (x_cs r), x_eip r,
        if pushes_code v then e else 0, of_nat v, ucast (x_ds r), ucast (x_es r), x_eax r, x_ecx r, x_edx r, x_ebx r]"
      using gate_handlers[OF assms(2)] other by (simp add: trap_words_def handler_words_def)
    note f = trap_frame_at[OF assms(1,3) this]
    then show ?thesis using pop_frame_restores other by (simp only: if_False) metis
  qed
qed

theorem trap_entry_roundtrip_witness:
  "\<exists>tf k. (tf, k) = alltraps (trap_handler ''handler14'' (enter_trap KSTACKTOP (Some 4) 0xF0103000 user_regs)) \<and>
     tf_trapno (Trapframe_at (x_mem k) tf) = 14 \<and> tf_eip (Trapframe_at (x_mem k) tf) = 0x800020 \<and> pop_frame tf k = user_regs\<lparr>x_mem := x_mem k\<rparr>"
proof -
  obtain tf k where k: "(tf, k) = alltraps (trap_handler ''handler14'' (enter_trap KSTACKTOP (Some 4) 0xF0103000 user_regs))" by (metis surj_pair)
  then have k': "(tf, k) = alltraps (trap_handler ''handler14'' (enter_trap KSTACKTOP (if pushes_code 14 then Some 4 else None) 0xF0103000 user_regs))"
    by (simp add: pushes_code_def)
  have "aligned4 KSTACKTOP" "(14, ''handler14'', 0) \<in> set gates" by (simp_all add: aligned4_def gates_def)
  from trap_entry_roundtrip[OF this k'] have "Trapframe_at (x_mem k) tf = frame_of_regs user_regs (KSTACKTOP - 36) 14 4"
    "pop_frame tf k = user_regs\<lparr>x_mem := x_mem k\<rparr>" by (auto simp: pushes_code_def)
  then show ?thesis using k by (intro exI[of _ tf] exI[of _ k]) (simp add: frame_of_regs_def user_regs_def)
qed

end
