(* ===== verification/Spec2Isabelle.thy ===== *)
theory Spec2Isabelle
  imports Init Bootmain User_Faults Kernel_Types Fault_Programs Address_Space Trap_Entry
begin

text \<open>
  \<^bold>\<open>A verification of the JOS kernel (the state of the fourth lab)\<close>

  JOS is a small exokernel for the 32-bit PC. The boot loader (\<^verbatim>\<open>boot/main.c\<close>) reads the kernel from disk; the kernel (\<^verbatim>\<open>kern/\<close>)
  sets up its console, memory, environments (its processes), traps and further processors, and then runs environments,
  which enter it again by traps; user programs (\<^verbatim>\<open>user/\<close>) are linked with a library (\<^verbatim>\<open>lib/\<close>), part of which the kernel shares. This development
  models the C code of all these parts, and the entry of traps in assembly, as executable functions and proves what makes each correct and how they fit together.

  \<^bold>\<open>The model.\<close> Kernel code is a function from a state to an outcome (\<open>Jos_Prelude\<close>): it returns a value and a state, it panics, or it leaves
  the kernel for good (resumes an environment, halts, stays in the monitor, spins). Statements are composed with \<open>kseq\<close> and \<open>kbind\<close>, counting loops are
  \<open>kfor\<close>. The state (\<open>kstate\<close>, built up in \<open>Picirq\<close>, \<open>Console\<close> and \<open>Kernel_State\<close>) is a record of the kernel's global variables, the structures of
  \<^verbatim>\<open>inc/\<close> as records, physical memory as a function from 32-bit addresses to bytes, the control registers, and what devices hold or were sent. Machine integers
  are words of their width and wrap around. A pointer into \<^verbatim>\<open>pages\<close>, \<^verbatim>\<open>envs\<close> or \<^verbatim>\<open>cpus\<close> is an index or \<open>None\<close>; page tables, ELF files,
  firmware tables and stacks are bytes of memory. Addresses and tables that the linker or the assembler provides (the record \<open>image\<close>, the end of the kernel, the
  addresses of user variables) are parameters. What the kernel prints is logged as format and arguments; \<open>Printfmt\<close> says what characters these are.

  \<^bold>\<open>Theories, in the order of the code.\<close>
  \<^item> \<open>Jos_Prelude\<close>: words, memory, the computations above and their rules, linked lists in arrays. \<open>Mmu\<close>: \<^verbatim>\<open>inc/types.h\<close>, \<^verbatim>\<open>inc/mmu.h\<close>,
    \<^verbatim>\<open>inc/memlayout.h\<close> and the boot page tables of \<^verbatim>\<open>kern/entrypgdir.c\<close>. \<open>Cstring\<close>: \<^verbatim>\<open>lib/string.c\<close>. \<open>Printfmt\<close>: \<^verbatim>\<open>lib/printfmt.c\<close>,
    \<^verbatim>\<open>kern/printf.c\<close>, \<^verbatim>\<open>lib/printf.c\<close>.
  \<^item> \<open>Picirq\<close>: \<^verbatim>\<open>kern/picirq.c\<close>. \<open>Console\<close>: \<^verbatim>\<open>kern/console.c\<close>, \<^verbatim>\<open>lib/readline.c\<close>. \<open>Lapic\<close>: \<^verbatim>\<open>kern/lapic.c\<close>. \<open>Mpconfig\<close>: \<^verbatim>\<open>kern/mpconfig.c\<close>.
  \<^item> \<open>Page_Alloc\<close>, \<open>Page_Table\<close>, \<open>Mem_Init\<close>: \<^verbatim>\<open>kern/pmap.c\<close> (the allocator, the page tables with the checks of user memory, the set-up with its
    self-tests) and \<^verbatim>\<open>kern/kclock.c\<close>.
  \<^item> \<open>Address_Space\<close>: an abstract specification of an address space and its refinement by sequences of page operations.
  \<^item> \<open>Envs\<close>: \<^verbatim>\<open>kern/env.c\<close>. \<open>User_Space\<close>, \<open>Load_Program\<close>, \<open>Env_Teardown\<close>, \<open>User_Faults\<close>: the theory of user address spaces and, over the definitions of
    \<open>Envs\<close> and \<open>Trap\<close>, what loading a program, freeing an environment and an exception of user code do to memory.
  \<^item> \<open>Spinlock\<close>: \<^verbatim>\<open>kern/spinlock.c\<close>. \<open>Sched\<close>: \<^verbatim>\<open>kern/sched.c\<close>. \<open>Kdebug\<close>: \<^verbatim>\<open>kern/kdebug.c\<close>. \<open>Monitor\<close>: \<^verbatim>\<open>kern/monitor.c\<close>.
    \<open>Syscall\<close>: \<^verbatim>\<open>kern/syscall.c\<close>. \<open>Trap\<close>: \<^verbatim>\<open>kern/trap.c\<close>. \<open>Trap_Entry\<close>: \<^verbatim>\<open>kern/trapentry.S\<close>
    and the instructions of \<^verbatim>\<open>env_pop_tf\<close>, on a record of the processor's registers. \<open>Init\<close>: \<^verbatim>\<open>kern/init.c\<close>. \<open>Kernel_Types\<close>: an invariant of all of them.
  \<^item> \<open>Bootmain\<close>: \<^verbatim>\<open>boot/main.c\<close>, on a state of its own with a disk controller that takes the registers and commands the code writes and delivers data only after a read command.
  \<^item> \<open>User_Lib\<close>: the rest of \<^verbatim>\<open>lib/\<close>. \<open>User_Programs\<close>, \<open>Fault_Programs\<close>: \<^verbatim>\<open>user/\<close> (the second: the programs that use strings in
    pages which fault meanwhile). User code runs against an arbitrary kernel, given by the answers to its
    requests; a kernel function and its library stub of the same name are told apart by the suffix \<open>_u\<close>.

  \<^bold>\<open>What is shown.\<close>
  \<^item> Memory: \<open>page_inv\<close> (the free list holds exactly the given pages) and \<open>wf_pgdir\<close> (a directory and its tables are distinct allocated pages) are established by
    \<open>mem_init\<close> and kept by every operation; \<open>page_alloc\<close> gives each free page once; \<open>page_insert\<close>, \<open>page_remove\<close> and \<open>boot_map_region\<close> change
    exactly the mappings they should, with the reference counts, in one address space only, and any sequence of insertions and removals refines
    a finite map from page addresses to entries; \<open>user_mem_check\<close> for every range, those whose rounded end wraps around included; the self-test \<open>check_page_alloc\<close> passes on every state
    that satisfies the invariant (\<open>check_page\<close> and \<open>mem_init\<close> never return at this commit).
  \<^item> Environments: \<open>env_alloc\<close> and \<open>envid2env\<close> against the table; \<open>env_create\<close> leaves every byte of a program at its address in a fresh address
    space; \<open>env_free\<close> gives back exactly the pages taken and leaves every other address space alone, so that creating and freeing is a round trip; identifiers of
    environments that are gone are refused until the generations have wrapped around; an exception of
    the only program alive ends in the same state; \<open>env_run\<close> switches.
  \<^item> Control: the trap handler and the monitor never return; the gates, against the vectors, names and privileges of the entry points; what the entry code of every gate saves and what is restored from it (for two vectors it is shifted); a spurious interrupt resumes its environment; the outcomes of \<open>sched_halt\<close>; mutual
    exclusion of the spin lock in every interleaving (a step relation); the start of the other processors; and over any sequence of traps on any processor that do not panic, with arbitrary
    changes by user code in between, every pointer and index of the kernel stays within its array and the cursor on the screen (\<open>traps_keep_types\<close>).
  \<^item> Devices and text: the console's input refines a list of characters, \<open>readline\<close> a line editor; printed numbers are read back by \<open>strtol\<close>; bounds of
    \<open>vsnprintf\<close>; the portable and the optimised block operations of \<^verbatim>\<open>lib/string.c\<close> agree; the binary search of the debugging information; backtraces; multiprocessor tables; the boot loader loads the kernel.
  \<^item> User programs: output reaches the kernel completely, \<open>getchar\<close> waits, \<open>libmain\<close> runs a program in its environment, \<open>dumbfork\<close> copies it, a page
    fault handler that allocates the page lets the program go on with what the handler wrote. These are statements about the library and the programs for a kernel that
    answers as stated; at this commit the kernel panics on the first system call.

  \<^bold>\<open>Interfaces.\<close> \<open>page_stack\<close> (\<open>Page_Alloc\<close>) is what the kernel relies on in the page allocator, interpreted on the free list and on the
  list that the self-tests work with after they have taken it away; \<open>bounded_queue\<close> (\<open>Console\<close>) is the contract of the input buffer, interpreted on the ring buffer; \<open>env_service\<close> (\<open>User_Lib\<close>)
  is what the library relies on in the kernel, interpreted on the kernel's \<open>sys_getenvid\<close>; \<open>refines\<close> (\<open>Address_Space\<close>) is what lifts a simulation of single
  operations to runs of any length, interpreted on \<open>page_insert\<close> and \<open>page_remove\<close>.

  \<^bold>\<open>Loops and bounds.\<close> Loops over strings are \<^verbatim>\<open>partial_function\<close>s, with proofs that they return. Recursions with a measure are total. Loops
  with a counter of their own carry fuel that is enough: walks of the free list have one step more than there are pages (a longer walk is
  circular and spins), reading a segment from disk \<open>2\<^sup>2\<^sup>3 + 1\<close> sectors (all of memory), clearing memory \<open>2\<^sup>3\<^sup>2\<close> bytes. Loops that wait for input
  (\<open>getchar\<close>, \<open>readline\<close>, the monitor) run for as many steps as there are characters waiting in the devices and then spin, since no character arrives any
  more; loops of user code (\<open>uiter\<close>) end or use up an answer of the kernel in every turn. A backtrace ends at a null frame pointer, or spins on a chain of frames that
  comes back to itself.

  \<^bold>\<open>Deviations the theorems show.\<close> At this commit \<open>syscall\<close> panics before its dispatch (the dispatch behind it is modelled as \<open>syscall_switch\<close>),
  \<open>mem_init\<close> panics because page 7 is left on the free list, \<open>sched_halt\<close> releases a lock no one has taken, \<open>user_mem_check\<close> accepts ranges that wrap
  around and does not look at the directory entry, so that it lets the kernel write where the user may not (\<open>UVPT\<close>), \<open>page_init\<close> frees pages its comment wants in use,
  other processors panic in \<open>mp_main\<close>, so that \<open>boot_aps\<close> waits forever, \<open>page_free\<close> misses a double free of the last page of its list, \<open>mp_init\<close> may leave its array. They are stated as theorems about the code
  as it is, beside those that hold of the intended paths.

  \<^bold>\<open>Not modelled.\<close> The assembly code that switches the processor's mode or loads registers and then calls C code (\<^verbatim>\<open>boot/boot.S\<close>, \<^verbatim>\<open>kern/entry.S\<close>,
  \<^verbatim>\<open>kern/mpentry.S\<close>, \<^verbatim>\<open>lib/entry.S\<close>, \<^verbatim>\<open>lib/pfentry.S\<close>); the code copied for other processors is a list of bytes, which makes a processor started there run \<open>mp_main\<close>. In \<open>Trap\<close> the trap frame is an argument of
  \<open>trap\<close>; \<open>Trap_Entry\<close> says how it comes about. The processor's number, which \<^verbatim>\<open>cpunum\<close> reads from the interrupt controller (\<open>cpunum_lapic\<close>), is part of the
  state. Caches of translations are a log of the entries flushed. Kernel addresses from \<open>KERNBASE\<close> are physical memory under every directory: this is what the comments of \<open>mem_init\<close> ask for, though no code there maps
  \<open>KERNBASE\<close> or the kernel stacks yet. The widths and precisions of formats are unbounded integers (their overflow is undefined in C), and strings printed have no null character inside. A parameter are the
  registers that the inline assembly of \<^verbatim>\<open>user/faultregs.c\<close> saves before and after its fault. \<^verbatim>\<open>fs/test.c\<close> calls functions of a file system that is not in the repository. What is
  left of the headers are constants no code uses, prototypes and one-instruction wrappers (\<^verbatim>\<open>inc/x86.h\<close>), whose effects are in the definitions that use them. Linker scripts,
  makefiles and grading scripts.
\<close>

end
